(* ===== verification/Click_Prelude.thy ===== *)
theory Click_Prelude
  imports Main "HOL-Library.Word" "HOL-Library.Monad_Syntax"
begin

text \<open>
  Shared vocabulary of the development: machine integers, byte buffers with checked reads,
  big-endian (network order) encodings and the host byte order, and the generic lemmas on
  them that the component theories use.

  A packet or a message buffer is a \<open>byte list\<close>. A C pointer into it is a \<open>nat\<close> offset. A
  read through a pointer is a computation in the option monad: \<^const>\<open>None\<close> means that the
  code touched memory outside of the buffer (or dereferenced a null pointer), so that
  "the handler never reads out of bounds" is the statement that the model does not return
  \<^const>\<open>None\<close>.
\<close>

unbundle bit_operations_syntax

section \<open>Machine integers and addresses\<close>

type_synonym byte = "8 word"
type_synonym u16 = "16 word"
type_synonym u32 = "32 word"
type_synonym u64 = "64 word"

text \<open>
  An \<open>IPAddress\<close> is the number its four bytes spell in network order (\<open>ntohl(addr())\<close>); the
  four bytes in memory are \<open>be32\<close> of it. An \<open>EtherAddress\<close> is its six bytes.
\<close>

type_synonym ip_addr = u32
type_synonym ether_addr = "byte list"

text \<open>Facts that evaluate buffers in the component theories.\<close>

named_theorems buf_simps \<open>rewriting of buffer reads and writes\<close>

lemma unat_plus_one:
  fixes x :: "'a::len word"
  assumes "x < - 1"
  shows "unat (x + 1) = Suc (unat x)"
proof -
  from assms have "1 + x \<noteq> 0" by (metis add.commute eq_neg_iff_add_eq_0 order.irrefl)
  then show ?thesis using unatSuc[of x] by (simp add: add.commute)
qed

section \<open>Checked reads\<close>

definition rd8 :: "byte list \<Rightarrow> nat \<Rightarrow> byte option" where
  "rd8 b i = (if i < length b then Some (b ! i) else None)"

definition rdn :: "byte list \<Rightarrow> nat \<Rightarrow> nat \<Rightarrow> byte list option" where
  "rdn b i n = (if i + n \<le> length b then Some (take n (drop i b)) else None)"

lemma rd8_Some [simp]: "i < length b \<Longrightarrow> rd8 b i = Some (b ! i)"
  by (simp add: rd8_def)

lemma rd8_None [simp]: "length b \<le> i \<Longrightarrow> rd8 b i = None"
  by (simp add: rd8_def)

lemma rd8_eq_Some_iff: "rd8 b i = Some x \<longleftrightarrow> i < length b \<and> x = b ! i"
  by (auto simp: rd8_def)

lemma rdn_Some [simp]: "i + n \<le> length b \<Longrightarrow> rdn b i n = Some (take n (drop i b))"
  by (simp add: rdn_def)

lemma rdn_None [simp]: "length b < i + n \<Longrightarrow> rdn b i n = None"
  by (simp add: rdn_def)

lemma rdn_eq_Some_iff:
  "rdn b i n = Some x \<longleftrightarrow> i + n \<le> length b \<and> x = take n (drop i b)"
  by (auto simp: rdn_def)

section \<open>Writes\<close>

text \<open>\<open>memcpy(b + i, src, length src)\<close> into a buffer that is large enough.\<close>

definition put_at :: "nat \<Rightarrow> 'a list \<Rightarrow> 'a list \<Rightarrow> 'a list" where
  "put_at i src b = take i b @ src @ drop (i + length src) b"

lemma length_put_at [simp]: "i + length src \<le> length b \<Longrightarrow> length (put_at i src b) = length b"
  by (simp add: put_at_def)

lemma put_at_same: "i + length src \<le> length b \<Longrightarrow> take (length src) (drop i (put_at i src b)) = src"
  by (simp add: put_at_def)

lemma nth_put_at:
  assumes "i + length src \<le> length b" and "k < length b"
  shows "put_at i src b ! k = (if i \<le> k \<and> k < i + length src then src ! (k - i) else b ! k)"
  using assms by (auto simp: put_at_def nth_append)

section \<open>Big-endian encoding\<close>

fun be_bytes :: "nat \<Rightarrow> nat \<Rightarrow> byte list" where
  "be_bytes 0 v = []"
| "be_bytes (Suc n) v = be_bytes n (v div 256) @ [word_of_nat (v mod 256)]"

lemma be_bytes_rec: "0 < n \<Longrightarrow> be_bytes n v = be_bytes (n - 1) (v div 256) @ [word_of_nat (v mod 256)]"
  by (cases n) auto

definition be_val :: "byte list \<Rightarrow> nat" where
  "be_val bs = foldl (\<lambda>a b. 256 * a + unat b) 0 bs"

lemma be_val_Nil [simp]: "be_val [] = 0"
  by (simp add: be_val_def)

lemma be_val_snoc [simp]: "be_val (bs @ [b]) = 256 * be_val bs + unat b"
  by (simp add: be_val_def)

lemma length_be_bytes [simp]: "length (be_bytes n v) = n"
  by (induction n arbitrary: v) auto

lemma unat_lt_256: "unat (b :: byte) < 256"
  using unsigned_less[of b, where ?'a = nat] by simp

lemma be_val_lt: "be_val bs < 256 ^ length bs"
proof (induction bs rule: rev_induct)
  case Nil
  then show ?case by simp
next
  case (snoc b bs)
  then have "256 * be_val bs + unat b < 256 * (be_val bs + 1)"
    using unat_lt_256[of b] by simp
  also have "\<dots> \<le> 256 * 256 ^ length bs"
    using snoc.IH by (metis Suc_eq_plus1 Suc_leI mult_le_mono2)
  finally show ?case by simp
qed

lemma be_val_be_bytes: "be_val (be_bytes n v) = v mod 256 ^ n"
proof (induction n arbitrary: v)
  case 0
  then show ?case by simp
next
  case (Suc n)
  have "be_val (be_bytes (Suc n) v) = 256 * (v div 256 mod 256 ^ n) + v mod 256"
    by (simp add: Suc.IH unat_of_nat)
  also have "\<dots> = v mod 256 ^ Suc n"
    by (simp add: mod_mult2_eq)
  finally show ?case .
qed

lemma be_bytes_be_val: "be_bytes (length bs) (be_val bs) = bs"
proof (induction bs rule: rev_induct)
  case Nil
  then show ?case by simp
next
  case (snoc b bs)
  have "(256 * be_val bs + unat b) div 256 = be_val bs"
    using unat_lt_256[of b] by simp
  moreover have "(256 * be_val bs + unat b) mod 256 = unat b"
    using unat_lt_256[of b] by simp
  ultimately show ?case using snoc.IH by simp
qed

definition be16 :: "u16 \<Rightarrow> byte list" where
  "be16 w = be_bytes 2 (unat w)"

definition be32 :: "u32 \<Rightarrow> byte list" where
  "be32 w = be_bytes 4 (unat w)"

definition u16_of :: "byte list \<Rightarrow> u16" where
  "u16_of bs = word_of_nat (be_val bs)"

definition u32_of :: "byte list \<Rightarrow> u32" where
  "u32_of bs = word_of_nat (be_val bs)"

lemma length_be16 [simp]: "length (be16 w) = 2"
  by (simp add: be16_def)

lemma length_be32 [simp]: "length (be32 w) = 4"
  by (simp add: be32_def)

lemma u16_of_be16 [simp]: "u16_of (be16 w) = w"
  using unsigned_less[of w, where ?'a = nat]
  by (simp add: u16_of_def be16_def be_val_be_bytes)

lemma u32_of_be32 [simp]: "u32_of (be32 w) = w"
  using unsigned_less[of w, where ?'a = nat]
  by (simp add: u32_of_def be32_def be_val_be_bytes)

lemma be32_u32_of: "length bs = 4 \<Longrightarrow> be32 (u32_of bs) = bs"
proof -
  assume l: "length bs = 4"
  then have "be_val bs < 2 ^ 32"
    using be_val_lt[of bs] by simp
  then have "unat (u32_of bs) = be_val bs"
    by (simp add: u32_of_def unat_of_nat)
  then show ?thesis
    using be_bytes_be_val[of bs] l by (simp add: be32_def)
qed

lemma be32_inj: "be32 a = be32 b \<longleftrightarrow> a = b"
  by (metis u32_of_be32)

lemma be_bytes_0: "be_bytes n 0 = replicate n 0"
  by (induction n) (simp_all add: replicate_append_same)

lemma be32_0: "be32 0 = replicate 4 0"
  by (simp add: be32_def be_bytes_0)

section \<open>Host byte order\<close>

text \<open>
  What \<open>memcpy(dst, &x, 4)\<close> of a \<open>uint32_t\<close> puts in memory depends on the host;
  \<open>htonl\<close> makes it the network order.
\<close>

datatype endian = LittleEndian | BigEndian

definition mem32 :: "endian \<Rightarrow> u32 \<Rightarrow> byte list" where
  "mem32 e w = (case e of BigEndian \<Rightarrow> be32 w | LittleEndian \<Rightarrow> rev (be32 w))"

definition mem16 :: "endian \<Rightarrow> u16 \<Rightarrow> byte list" where
  "mem16 e w = (case e of BigEndian \<Rightarrow> be16 w | LittleEndian \<Rightarrow> rev (be16 w))"

lemma length_mem16 [simp]: "length (mem16 e w) = 2"
  by (simp add: mem16_def split: endian.splits)

definition htonl :: "endian \<Rightarrow> u32 \<Rightarrow> u32" where
  "htonl e w = (case e of BigEndian \<Rightarrow> w | LittleEndian \<Rightarrow> u32_of (rev (be32 w)))"

lemma length_mem32 [simp]: "length (mem32 e w) = 4"
  by (simp add: mem32_def split: endian.splits)

lemma mem32_htonl [simp]: "mem32 e (htonl e w) = be32 w"
  by (simp add: mem32_def htonl_def be32_u32_of split: endian.splits)

lemma htonl_htonl [simp]: "htonl e (htonl e w) = w"
  by (simp add: htonl_def be32_u32_of split: endian.splits)

definition mem_u16 :: "endian \<Rightarrow> byte list \<Rightarrow> u16" where
  "mem_u16 e bs = (case e of BigEndian \<Rightarrow> u16_of bs | LittleEndian \<Rightarrow> u16_of (rev bs))"

lemma mem_u16_mem16 [simp]: "mem_u16 e (mem16 e w) = w"
  by (simp add: mem_u16_def mem16_def split: endian.splits)

text \<open>A \<open>uint16_t\<close> read through a pointer, in host order; a checked write.\<close>

definition rd16 :: "endian \<Rightarrow> byte list \<Rightarrow> nat \<Rightarrow> u16 option" where
  "rd16 e b i = map_option (mem_u16 e) (rdn b i 2)"

definition mem_u32 :: "endian \<Rightarrow> byte list \<Rightarrow> u32" where
  "mem_u32 e bs = (case e of BigEndian \<Rightarrow> u32_of bs | LittleEndian \<Rightarrow> u32_of (rev bs))"

lemma mem_u32_mem32 [simp]: "mem_u32 e (mem32 e w) = w"
  by (simp add: mem_u32_def mem32_def split: endian.splits)

definition rd32 :: "endian \<Rightarrow> byte list \<Rightarrow> nat \<Rightarrow> u32 option" where
  "rd32 e b i = map_option (mem_u32 e) (rdn b i 4)"

definition wr :: "nat \<Rightarrow> 'a list \<Rightarrow> 'a list \<Rightarrow> 'a list option" where
  "wr i src b = (if i + length src \<le> length b then Some (put_at i src b) else None)"

lemma wr_Some [simp]: "i + length src \<le> length b \<Longrightarrow> wr i src b = Some (put_at i src b)"
  by (simp add: wr_def)

section \<open>Buffers in parts\<close>

lemma put_at_mid:
  assumes "length pre \<le> i" and "i + length src \<le> length pre + length mid"
  shows "put_at i src (pre @ mid @ post) = pre @ put_at (i - length pre) src mid @ post"
proof -
  from assms(1) obtain k where k: "i = length pre + k" using le_Suc_ex by blast
  with assms(2) show ?thesis by (simp add: put_at_def)
qed

lemma rdn_mid:
  assumes "length pre \<le> i" and "i + n \<le> length pre + length mid"
  shows "rdn (pre @ mid @ post) i n = rdn mid (i - length pre) n"
proof -
  from assms(1) obtain k where k: "i = length pre + k" using le_Suc_ex by blast
  with assms(2) show ?thesis by (simp add: rdn_def)
qed

lemma rdn_append1: "i + n \<le> length a \<Longrightarrow> rdn (a @ b) i n = rdn a i n"
  by (simp add: rdn_def)

lemma rd16_append1: "i + 2 \<le> length a \<Longrightarrow> rd16 e (a @ b) i = rd16 e a i"
  by (simp add: rd16_def rdn_append1)

lemma rd16_eq_None_iff: "rd16 e b i = None \<longleftrightarrow> length b < i + 2"
  by (simp add: rd16_def rdn_def)

section \<open>Loops over an index range\<close>

fun forM :: "('x \<Rightarrow> 's \<Rightarrow> 's option) \<Rightarrow> 'x list \<Rightarrow> 's \<Rightarrow> 's option" where
  "forM f [] s = Some s"
| "forM f (x # xs) s = do { t \<leftarrow> f x s; forM f xs t }"

lemma forM_append: "forM f (xs @ ys) s = do { t \<leftarrow> forM f xs s; forM f ys t }"
  by (induction xs arbitrary: s) (auto split: bind_splits)

text \<open>A loop that never leaves its buffer: the state after \<open>x\<close> rounds is \<open>g x\<close>.\<close>

lemma forM_range:
  assumes "\<And>x. x < n \<Longrightarrow> f x (g x) = Some (g (Suc x))"
  shows "forM f [0..<n] (g 0) = Some (g n)"
  using assms by (induction n) (auto simp: forM_append)

lemma forM_invariant:
  assumes "\<And>x b. x < n \<Longrightarrow> I x b \<Longrightarrow> \<exists>c. f x b = Some c \<and> I (Suc x) c"
  shows "I 0 b \<Longrightarrow> \<exists>c. forM f [0..<n] b = Some c \<and> I n c"
  using assms
proof (induction n)
  case (Suc n)
  then obtain c where "forM f [0..<n] b = Some c" "I n c" by (metis less_SucI)
  with Suc.prems(2)[of n c] show ?case by (auto simp: forM_append)
qed simp

lemma those_eq_Some_iff: "those xs = Some ys \<longleftrightarrow> xs = map Some ys"
  by (induction xs arbitrary: ys) (auto split: option.splits)

lemma those_map_Some: "(\<And>x. x \<in> set xs \<Longrightarrow> f x = Some (g x)) \<Longrightarrow> those (map f xs) = Some (map g xs)"
  by (simp add: those_eq_Some_iff)

end
