(* ===== verification/DHCP_Leases.thy ===== *)
theory DHCP_Leases
  imports Click_Prelude
begin

text \<open>
  The lease tables of the DHCP server package: the base class \<open>DHCPLeaseTable\<close>
  (\<open>dhcp/package/leasetable.{hh,cc}\<close>), the pool allocator \<open>LeasePool\<close>
  (\<open>leasepool.{hh,cc}\<close>) and the hashing allocator \<open>LeaseHash\<close> (\<open>leasehash.{hh,cc}\<close>).
  C++ inheritance is record extension. A \<open>Lease *\<close> into the hash table is the key of the
  entry it points to. The virtual functions of a table are collected in a vtable record,
  and what the server elements rely on is stated as locales on that record: the contract
  \<open>lease_provider\<close> both allocators satisfy, and \<open>exclusive_lease_provider\<close>, which the pool
  satisfies and the hash does not.

  A \<open>Timestamp\<close> is an \<open>int\<close> number of sub-second units; \<open>nsub\<close> (units per second) and the
  current time \<open>now\<close> are arguments of the operations that use them.
\<close>

section \<open>Leases\<close>

type_synonym timestamp = int

text \<open>\<open>_valid\<close> is not initialised by any constructor: \<open>None\<close> is the indeterminate value.\<close>

record lease =
  l_eth :: ether_addr
  l_ip :: ip_addr
  l_start :: timestamp
  l_end :: timestamp
  l_duration :: timestamp
  l_valid :: "bool option"

definition ts_make :: "int \<Rightarrow> int \<Rightarrow> int \<Rightarrow> timestamp" where
  "ts_make nsub s ss = s * nsub + ss"

definition ts_sec :: "int \<Rightarrow> timestamp \<Rightarrow> int" where
  "ts_sec nsub t = t div nsub"

definition ts_subsec :: "int \<Rightarrow> timestamp \<Rightarrow> int" where
  "ts_subsec nsub t = t mod nsub"

text \<open>\<open>Lease::extend\<close>.\<close>

definition lease_extend :: "int \<Rightarrow> timestamp \<Rightarrow> lease \<Rightarrow> lease" where
  "lease_extend nsub now l =
     (let start = ts_make nsub (ts_sec nsub now) (ts_subsec nsub now)
      in l\<lparr>l_start := start,
           l_end := ts_make nsub (ts_sec nsub start + ts_sec nsub now)
                                 (ts_subsec nsub start + ts_subsec nsub now)\<rparr>)"

section \<open>DHCPLeaseTable\<close>

type_synonym lease_ptr = ip_addr

record lease_table =
  lt_ip :: ip_addr
  lt_subnet :: ip_addr
  lt_eth :: ether_addr
  leases :: "ip_addr \<rightharpoonup> lease"
  ips :: "ether_addr \<rightharpoonup> ip_addr"

definition table_lookup :: "'a lease_table_scheme \<Rightarrow> ip_addr \<Rightarrow> lease_ptr option" where
  "table_lookup t ip = (case leases t ip of Some l \<Rightarrow> Some ip | None \<Rightarrow> None)"

definition table_rev_lookup ::
    "'a lease_table_scheme \<Rightarrow> ether_addr \<Rightarrow> lease_ptr option" where
  "table_rev_lookup t eth =
     (case ips t eth of Some ip \<Rightarrow> table_lookup t ip | None \<Rightarrow> None)"

text \<open>Reading and writing through a \<open>Lease *\<close>.\<close>

definition deref :: "'a lease_table_scheme \<Rightarrow> lease_ptr \<Rightarrow> lease" where
  "deref t k = the (leases t k)"

definition assign :: "'a lease_table_scheme \<Rightarrow> lease_ptr \<Rightarrow> (lease \<Rightarrow> lease) \<Rightarrow>
    'a lease_table_scheme" where
  "assign t k f = t\<lparr>leases := (leases t)(k \<mapsto> f (deref t k))\<rparr>"

definition table_remove ::
    "'a lease_table_scheme \<Rightarrow> ether_addr \<Rightarrow> 'a lease_table_scheme" where
  "table_remove t eth =
     (case table_rev_lookup t eth of
        Some l \<Rightarrow>
          let ip = l_ip (deref t l)
          in t\<lparr>leases := (leases t)(ip := None), ips := (ips t)(eth := None)\<rparr>
      | None \<Rightarrow> t)"

definition table_insert ::
    "'a lease_table_scheme \<Rightarrow> lease \<Rightarrow> 'a lease_table_scheme" where
  "table_insert t l =
     (let ip = l_ip l; eth = l_eth l
      in t\<lparr>ips := (ips t)(eth \<mapsto> ip), leases := (leases t)(ip \<mapsto> l)\<rparr>)"

section \<open>LeasePool\<close>

record lease_pool = lease_table +
  free_list :: "ip_addr list"
  free :: "ip_addr \<rightharpoonup> ip_addr"
  lp_start :: ip_addr
  lp_end :: ip_addr

text \<open>The lease both allocators build: 60 seconds from now.\<close>

definition fresh_lease :: "int \<Rightarrow> timestamp \<Rightarrow> ether_addr \<Rightarrow> ip_addr \<Rightarrow> lease" where
  "fresh_lease nsub now eth ip =
     (let start = now; en = start + ts_make nsub 60 0
      in \<lparr>l_eth = eth, l_ip = ip, l_start = start, l_end = en,
          l_duration = en - start, l_valid = None\<rparr>)"

definition pool_insert :: "lease_pool \<Rightarrow> lease \<Rightarrow> lease_pool" where
  "pool_insert t l = table_insert (t\<lparr>free := (free t)(l_ip l := None)\<rparr>) l"

text \<open>
  \<open>_free.get(ip)\<close> is the stored address, or the null address when there is none; the
  condition tests it for being non-null.
\<close>

definition pool_new_lease ::
    "int \<Rightarrow> timestamp \<Rightarrow> lease_pool \<Rightarrow> ether_addr \<Rightarrow> ip_addr \<Rightarrow> lease_pool \<times> lease_ptr option" where
  "pool_new_lease nsub now t eth ip =
     (case table_rev_lookup t eth of
        Some l \<Rightarrow> (t, Some l)
      | None \<Rightarrow>
          if (case free t ip of Some v \<Rightarrow> v | None \<Rightarrow> 0) \<noteq> 0
          then let t' = pool_insert t (fresh_lease nsub now eth ip)
               in (t', table_lookup t' ip)
          else (t, None))"

text \<open>The \<open>while (_free_list.size())\<close> loop of \<open>new_lease_any\<close>, over the queue's contents.\<close>

fun pool_any_loop ::
    "int \<Rightarrow> timestamp \<Rightarrow> ip_addr list \<Rightarrow> lease_pool \<Rightarrow> ether_addr \<Rightarrow>
     lease_pool \<times> lease_ptr option" where
  "pool_any_loop nsub now [] t eth = (t\<lparr>free_list := []\<rparr>, None)"
| "pool_any_loop nsub now (nxt # rest) t eth =
     (if free t nxt \<noteq> None
      then pool_new_lease nsub now (t\<lparr>free_list := rest\<rparr>) eth nxt
      else pool_any_loop nsub now rest t eth)"

definition pool_new_lease_any ::
    "int \<Rightarrow> timestamp \<Rightarrow> lease_pool \<Rightarrow> ether_addr \<Rightarrow> lease_pool \<times> lease_ptr option" where
  "pool_new_lease_any nsub now t eth =
     (case table_rev_lookup t eth of
        Some l \<Rightarrow> (t, Some l)
      | None \<Rightarrow> pool_any_loop nsub now (free_list t) t eth)"

definition pool_remove :: "lease_pool \<Rightarrow> ether_addr \<Rightarrow> lease_pool" where
  "pool_remove t eth =
     (let t1 = (case table_rev_lookup t eth of
                  Some l \<Rightarrow>
                    let ip = l_ip (deref t l)
                    in t\<lparr>free := (free t)(ip \<mapsto> ip), free_list := free_list t @ [ip]\<rparr>
                | None \<Rightarrow> t)
      in table_remove t1 eth)"

text \<open>
  The loop of \<open>configure\<close>, \<open>for (uint32_t x = start; x <= end; x++)\<close>. It need not end, so it
  is a partial function: \<^const>\<open>None\<close> is "does not return".
\<close>

partial_function (option) pool_fill :: "u32 \<Rightarrow> u32 \<Rightarrow> lease_pool \<Rightarrow> lease_pool option" where
  "pool_fill x e t =
     (if x \<le> e
      then pool_fill (x + 1) e (t\<lparr>free := (free t)(x \<mapsto> x), free_list := free_list t @ [x]\<rparr>)
      else Some t)"

definition pool_init :: "ether_addr \<Rightarrow> ip_addr \<Rightarrow> ip_addr \<Rightarrow> ip_addr \<Rightarrow> ip_addr \<Rightarrow> lease_pool" where
  "pool_init eth ip subnet start en =
     \<lparr>lt_ip = ip, lt_subnet = subnet, lt_eth = eth, leases = Map.empty, ips = Map.empty,
      free_list = [], free = Map.empty, lp_start = start, lp_end = en\<rparr>"

text \<open>\<open>LeasePool::configure\<close>, after its arguments are parsed.\<close>

definition pool_configure ::
    "ether_addr \<Rightarrow> ip_addr \<Rightarrow> ip_addr \<Rightarrow> ip_addr \<Rightarrow> ip_addr \<Rightarrow> lease_pool option" where
  "pool_configure eth ip subnet start en = pool_fill start en (pool_init eth ip subnet start en)"

section \<open>LeaseHash\<close>

text \<open>
  \<open>update_crc\<close> is Click's CRC32 (not part of the package): the parameter \<open>crc\<close>. The class
  declares a second \<open>_subnet\<close> that shadows the table's.
\<close>

record lease_hash = lease_table +
  lh_subnet :: ip_addr

definition hash_addr :: "endian \<Rightarrow> (byte list \<Rightarrow> u32) \<Rightarrow> ip_addr \<Rightarrow> ether_addr \<Rightarrow> ip_addr" where
  "hash_addr e crc subnet eth =
     htonl e ((htonl e subnet AND 0xff) OR (NOT 0xff AND crc eth))"

definition hash_new_lease_any ::
    "endian \<Rightarrow> (byte list \<Rightarrow> u32) \<Rightarrow> int \<Rightarrow> timestamp \<Rightarrow> lease_hash \<Rightarrow> ether_addr \<Rightarrow>
     lease_hash \<times> lease_ptr option" where
  "hash_new_lease_any e crc nsub now t eth =
     (let ip = hash_addr e crc (lh_subnet t) eth
      in case table_rev_lookup t eth of
           Some l \<Rightarrow> (t, Some l)
         | None \<Rightarrow>
             let t' = table_insert t (fresh_lease nsub now eth ip)
             in (t', table_lookup t' ip))"

definition hash_new_lease ::
    "endian \<Rightarrow> (byte list \<Rightarrow> u32) \<Rightarrow> int \<Rightarrow> timestamp \<Rightarrow> lease_hash \<Rightarrow> ether_addr \<Rightarrow> ip_addr \<Rightarrow>
     lease_hash \<times> lease_ptr option" where
  "hash_new_lease e crc nsub now t eth ip = hash_new_lease_any e crc nsub now t eth"

definition hash_configure ::
    "endian \<Rightarrow> (byte list \<Rightarrow> u32) \<Rightarrow> ether_addr \<Rightarrow> ip_addr \<Rightarrow> lease_hash" where
  "hash_configure e crc eth subnet =
     \<lparr>lt_ip = hash_addr e crc subnet eth, lt_subnet = 0, lt_eth = eth, leases = Map.empty,
      ips = Map.empty, lh_subnet = subnet\<rparr>"

section \<open>The virtual interface\<close>

record 't lease_vtable =
  vt_rev_lookup :: "'t \<Rightarrow> ether_addr \<Rightarrow> lease_ptr option"
  vt_new_lease_any :: "'t \<Rightarrow> ether_addr \<Rightarrow> 't \<times> lease_ptr option"
  vt_new_lease :: "'t \<Rightarrow> ether_addr \<Rightarrow> ip_addr \<Rightarrow> 't \<times> lease_ptr option"
  vt_remove :: "'t \<Rightarrow> ether_addr \<Rightarrow> 't"

definition pool_vtable :: "int \<Rightarrow> timestamp \<Rightarrow> lease_pool lease_vtable" where
  "pool_vtable nsub now =
     \<lparr>vt_rev_lookup = table_rev_lookup, vt_new_lease_any = pool_new_lease_any nsub now,
      vt_new_lease = pool_new_lease nsub now, vt_remove = pool_remove\<rparr>"

definition hash_vtable ::
    "endian \<Rightarrow> (byte list \<Rightarrow> u32) \<Rightarrow> int \<Rightarrow> timestamp \<Rightarrow> lease_hash lease_vtable" where
  "hash_vtable e crc nsub now =
     \<lparr>vt_rev_lookup = table_rev_lookup, vt_new_lease_any = hash_new_lease_any e crc nsub now,
      vt_new_lease = hash_new_lease e crc nsub now, vt_remove = table_remove\<rparr>"

lemmas pool_defs = pool_new_lease_any_def pool_new_lease_def pool_remove_def pool_insert_def
lemmas table_defs = table_lookup_def table_rev_lookup_def table_remove_def table_insert_def
  deref_def assign_def

lemma vtable_simps [simp]:
  "vt_rev_lookup (pool_vtable nsub now) = table_rev_lookup"
  "vt_new_lease_any (pool_vtable nsub now) = pool_new_lease_any nsub now"
  "vt_new_lease (pool_vtable nsub now) = pool_new_lease nsub now"
  "vt_remove (pool_vtable nsub now) = pool_remove"
  "vt_rev_lookup (hash_vtable e crc nsub now) = table_rev_lookup"
  "vt_new_lease_any (hash_vtable e crc nsub now) = hash_new_lease_any e crc nsub now"
  "vt_new_lease (hash_vtable e crc nsub now) = hash_new_lease e crc nsub now"
  "vt_remove (hash_vtable e crc nsub now) = table_remove"
  by (simp_all add: pool_vtable_def hash_vtable_def)

section \<open>What a server element relies on\<close>

text \<open>
  The contract of a lease table, for one reading of the clock. \<open>inv\<close> is the provider's
  invariant. A pointer handed out for a client is what a later \<open>rev_lookup\<close> of that client
  returns; a client that has a lease keeps it; the configuration of the table is constant;
  writes through a pointer that do not change the identity of the lease keep the invariant.
\<close>

locale lease_provider =
  fixes vt :: "'a lease_table_scheme lease_vtable"
    and inv :: "'a lease_table_scheme \<Rightarrow> bool"
  assumes rev_valid: "vt_rev_lookup vt t eth = Some k \<Longrightarrow> leases t k \<noteq> None"
    and any_inv: "inv t \<Longrightarrow> inv (fst (vt_new_lease_any vt t eth))"
    and new_inv: "inv t \<Longrightarrow> inv (fst (vt_new_lease vt t eth ip))"
    and remove_inv: "inv t \<Longrightarrow> inv (vt_remove vt t eth)"
    and assign_inv: "inv t \<Longrightarrow> leases t k \<noteq> None \<Longrightarrow>
          (\<And>l. l_ip (f l) = l_ip l \<and> l_eth (f l) = l_eth l) \<Longrightarrow> inv (assign t k f)"
    and any_rev: "inv t \<Longrightarrow> vt_new_lease_any vt t eth = (t', Some k) \<Longrightarrow>
          vt_rev_lookup vt t' eth = Some k"
    and new_rev: "inv t \<Longrightarrow> vt_new_lease vt t eth ip = (t', Some k) \<Longrightarrow>
          vt_rev_lookup vt t' eth = Some k"
    and any_keep: "vt_rev_lookup vt t eth = Some k \<Longrightarrow> vt_new_lease_any vt t eth = (t, Some k)"
    and new_keep: "vt_rev_lookup vt t eth = Some k \<Longrightarrow> vt_new_lease vt t eth ip = (t, Some k)"
    and new_None: "vt_new_lease vt t eth ip = (t', None) \<Longrightarrow> t' = t"
    and assign_rev: "leases t k \<noteq> None \<Longrightarrow>
          vt_rev_lookup vt (assign t k f) eth = vt_rev_lookup vt t eth"
    and remove_rev: "vt_rev_lookup vt (vt_remove vt t eth) eth = None"
    and config_const: "lt_ip (fst (vt_new_lease_any vt t eth)) = lt_ip t"
      "lt_ip (fst (vt_new_lease vt t eth ip)) = lt_ip t" "lt_ip (vt_remove vt t eth) = lt_ip t"

text \<open>
  A provider that never hands one address to two clients: the lease a client points to is
  its own, and operations for one client do not disturb another.
\<close>

locale exclusive_lease_provider = lease_provider +
  assumes rev_own: "inv t \<Longrightarrow> vt_rev_lookup vt t eth = Some k \<Longrightarrow>
          l_ip (deref t k) = k \<and> l_eth (deref t k) = eth"
    and any_other: "inv t \<Longrightarrow> eth' \<noteq> eth \<Longrightarrow>
          vt_rev_lookup vt (fst (vt_new_lease_any vt t eth)) eth' = vt_rev_lookup vt t eth'"
    and new_other: "inv t \<Longrightarrow> eth' \<noteq> eth \<Longrightarrow>
          vt_rev_lookup vt (fst (vt_new_lease vt t eth ip)) eth' = vt_rev_lookup vt t eth'"
    and remove_other: "inv t \<Longrightarrow> eth' \<noteq> eth \<Longrightarrow>
          vt_rev_lookup vt (vt_remove vt t eth) eth' = vt_rev_lookup vt t eth'"
begin

lemma exclusive:
  assumes "inv t" and "vt_rev_lookup vt t eth1 = Some k1" and "vt_rev_lookup vt t eth2 = Some k2"
    and "l_ip (deref t k1) = l_ip (deref t k2)"
  shows "eth1 = eth2"
proof -
  from rev_own[OF assms(1,2)] rev_own[OF assms(1,3)] assms(4) have "k1 = k2" by metis
  with rev_own[OF assms(1,2)] rev_own[OF assms(1,3)] show ?thesis by metis
qed

end

section \<open>The pool is an exclusive provider\<close>

text \<open>
  The pool's invariant: the two hash tables are inverse to each other, an address is never
  both free and leased, and every free address is still in the queue of candidates. The
  address 0.0.0.0 is the exception: \<open>new_lease_any\<close> takes it from the queue, but \<open>new_lease\<close>
  takes its entry in \<open>_free\<close> for a missing one, so that it stays free and is never leased.
\<close>

definition leases_wf :: "'a lease_table_scheme \<Rightarrow> bool" where
  "leases_wf t \<longleftrightarrow>
     (\<forall>eth ip. ips t eth = Some ip \<longrightarrow> (\<exists>l. leases t ip = Some l \<and> l_eth l = eth \<and> l_ip l = ip)) \<and>
     (\<forall>ip l. leases t ip = Some l \<longrightarrow> l_ip l = ip \<and> ips t (l_eth l) = Some ip)"

definition free_wf :: "lease_pool \<Rightarrow> bool" where
  "free_wf t \<longleftrightarrow>
     (\<forall>ip v. free t ip = Some v \<longrightarrow> v = ip \<and> leases t ip = None \<and> (ip \<in> set (free_list t) \<or> ip = 0))"

definition pool_inv :: "lease_pool \<Rightarrow> bool" where
  "pool_inv t \<longleftrightarrow> leases_wf t \<and> free_wf t \<and> leases t 0 = None"

lemma table_lookup_Some [simp]: "table_lookup t ip = Some k \<longleftrightarrow> leases t ip \<noteq> None \<and> k = ip"
  by (auto simp: table_lookup_def split: option.splits)

lemma table_lookup_None [simp]: "table_lookup t ip = None \<longleftrightarrow> leases t ip = None"
  by (simp add: table_lookup_def split: option.splits)

lemma rev_lookup_Some:
  "table_rev_lookup t eth = Some k \<longleftrightarrow> ips t eth = Some k \<and> leases t k \<noteq> None"
  by (auto simp: table_rev_lookup_def split: option.splits)

lemma leases_wf_ips:
  "leases_wf t \<Longrightarrow> ips t eth = Some ip \<Longrightarrow> \<exists>l. leases t ip = Some l \<and> l_eth l = eth \<and> l_ip l = ip"
  by (simp add: leases_wf_def)

lemma leases_wf_leases:
  "leases_wf t \<Longrightarrow> leases t ip = Some l \<Longrightarrow> l_ip l = ip \<and> ips t (l_eth l) = Some ip"
  by (simp add: leases_wf_def)

lemma leases_wfI:
  assumes "\<And>eth ip. ips t eth = Some ip \<Longrightarrow> \<exists>l. leases t ip = Some l \<and> l_eth l = eth \<and> l_ip l = ip"
    and "\<And>ip l. leases t ip = Some l \<Longrightarrow> l_ip l = ip \<and> ips t (l_eth l) = Some ip"
  shows "leases_wf t"
  using assms by (simp add: leases_wf_def)

lemma rev_lookup_wf: "leases_wf t \<Longrightarrow> table_rev_lookup t eth = ips t eth"
  by (auto simp: table_rev_lookup_def table_lookup_def dest: leases_wf_ips split: option.splits)

lemma fresh_lease_simps [simp]:
  "l_eth (fresh_lease nsub now eth ip) = eth" "l_ip (fresh_lease nsub now eth ip) = ip"
  "l_duration (fresh_lease nsub now eth ip) = 60 * nsub"
  by (simp_all add: fresh_lease_def Let_def ts_make_def)

lemma table_insert_simps [simp]:
  "ips (table_insert t l) = (ips t)(l_eth l \<mapsto> l_ip l)"
  "leases (table_insert t l) = (leases t)(l_ip l \<mapsto> l)"
  "lt_ip (table_insert t l) = lt_ip t" "lt_eth (table_insert t l) = lt_eth t"
  by (simp_all add: table_insert_def Let_def)

lemma leases_wf_insert:
  assumes wf: "leases_wf t" and "ips t (l_eth l) = None" and "leases t (l_ip l) = None"
  shows "leases_wf (table_insert t l)"
proof (rule leases_wfI)
  fix eth ip assume "ips (table_insert t l) eth = Some ip"
  then show "\<exists>l'. leases (table_insert t l) ip = Some l' \<and> l_eth l' = eth \<and> l_ip l' = ip"
    using assms leases_wf_ips[OF wf, of eth ip] by (auto split: if_splits)
next
  fix ip l' assume "leases (table_insert t l) ip = Some l'"
  then show "l_ip l' = ip \<and> ips (table_insert t l) (l_eth l') = Some ip"
    using assms leases_wf_leases[OF wf, of ip l'] by (auto split: if_splits)
qed

lemma table_remove_wf_eq:
  assumes "leases_wf t"
  shows "table_remove t eth =
    (case ips t eth of
       Some ip \<Rightarrow> t\<lparr>leases := (leases t)(ip := None), ips := (ips t)(eth := None)\<rparr>
     | None \<Rightarrow> t)"
  using leases_wf_ips[OF assms, of eth] assms
  by (auto simp: table_remove_def rev_lookup_wf deref_def Let_def split: option.splits)

lemma leases_wf_remove:
  assumes wf: "leases_wf t"
  shows "leases_wf (table_remove t eth)"
proof (cases "ips t eth")
  case None
  with wf show ?thesis by (simp add: table_remove_wf_eq)
next
  case (Some ip0)
  show ?thesis
  proof (rule leases_wfI)
    fix eth' ip assume "ips (table_remove t eth) eth' = Some ip"
    then have "eth' \<noteq> eth" and "ips t eth' = Some ip"
      using Some wf by (auto simp: table_remove_wf_eq split: if_splits)
    moreover from this obtain l where l: "leases t ip = Some l" "l_eth l = eth'" "l_ip l = ip"
      using leases_wf_ips[OF wf] by blast
    moreover have "ip \<noteq> ip0"
      using l leases_wf_ips[OF wf Some] \<open>eth' \<noteq> eth\<close> by (metis option.inject)
    ultimately show "\<exists>l. leases (table_remove t eth) ip = Some l \<and> l_eth l = eth' \<and> l_ip l = ip"
      using Some wf by (simp add: table_remove_wf_eq)
  next
    fix ip l assume "leases (table_remove t eth) ip = Some l"
    then have "ip \<noteq> ip0" and "leases t ip = Some l"
      using Some wf by (auto simp: table_remove_wf_eq split: if_splits)
    then show "l_ip l = ip \<and> ips (table_remove t eth) (l_eth l) = Some ip"
      using leases_wf_leases[OF wf, of ip l] Some wf by (auto simp: table_remove_wf_eq)
  qed
qed

lemma leases_wf_assign:
  assumes wf: "leases_wf t" and "leases t k \<noteq> None"
    and f: "\<And>l. l_ip (f l) = l_ip l \<and> l_eth (f l) = l_eth l"
  shows "leases_wf (assign t k f)"
proof -
  from assms(2) obtain l where l: "leases t k = Some l" by blast
  show ?thesis
  proof (rule leases_wfI)
    fix eth ip assume "ips (assign t k f) eth = Some ip"
    then have "ips t eth = Some ip" by (simp add: assign_def)
    from leases_wf_ips[OF wf this] obtain l'
      where l': "leases t ip = Some l'" "l_eth l' = eth" "l_ip l' = ip" by blast
    then have "leases (assign t k f) ip = Some (if ip = k then f l' else l')"
      by (auto simp: assign_def deref_def)
    with l' f[of l'] show "\<exists>l'. leases (assign t k f) ip = Some l' \<and> l_eth l' = eth \<and> l_ip l' = ip"
      by (cases "ip = k") auto
  next
    fix ip l' assume l': "leases (assign t k f) ip = Some l'"
    show "l_ip l' = ip \<and> ips (assign t k f) (l_eth l') = Some ip"
    proof (cases "ip = k")
      case True
      with l' l have "l' = f l" by (simp add: assign_def deref_def)
      with True f[of l] leases_wf_leases[OF wf l] show ?thesis by (simp add: assign_def)
    next
      case False
      with l' have "leases t ip = Some l'" by (simp add: assign_def)
      from leases_wf_leases[OF wf this] show ?thesis by (simp add: assign_def)
    qed
  qed
qed

lemma pool_insert_simps [simp]:
  "ips (pool_insert t l) = (ips t)(l_eth l \<mapsto> l_ip l)"
  "leases (pool_insert t l) = (leases t)(l_ip l \<mapsto> l)"
  "free (pool_insert t l) = (free t)(l_ip l := None)"
  "free_list (pool_insert t l) = free_list t"
  "lt_ip (pool_insert t l) = lt_ip t"
  by (simp_all add: pool_insert_def table_insert_def Let_def)


lemma pool_inv_new:
  assumes inv: "pool_inv t"
  shows "pool_inv (fst (pool_new_lease nsub now t eth ip))"
proof (cases "ips t eth = None \<and> free t ip \<noteq> None \<and> ip \<noteq> 0")
  case True
  with inv have fr: "free t ip = Some ip" "leases t ip = None"
    by (auto simp: pool_inv_def free_wf_def)
  let ?t = "pool_insert t (fresh_lease nsub now eth ip)"
  from fr True inv have "fst (pool_new_lease nsub now t eth ip) = ?t"
    by (simp add: pool_new_lease_def pool_inv_def rev_lookup_wf Let_def)
  moreover have "leases_wf ?t"
    using inv fr True unfolding pool_insert_def
    by (intro leases_wf_insert) (auto simp: pool_inv_def leases_wf_def)
  moreover have "free_wf ?t"
    using inv by (auto simp: pool_inv_def free_wf_def)
  ultimately show ?thesis using True inv by (simp add: pool_inv_def)
next
  case False
  with inv have "fst (pool_new_lease nsub now t eth ip) = t"
    by (auto simp: pool_new_lease_def pool_inv_def rev_lookup_wf free_wf_def
        split: option.splits)
  with inv show ?thesis by simp
qed

lemma pool_any_loop_inv:
  assumes "leases_wf t" and "ips t eth = None" and "leases t 0 = None"
    and "free_wf (t\<lparr>free_list := q\<rparr>)"
  shows "pool_inv (fst (pool_any_loop nsub now q t eth))"
  using assms
proof (induction q)
  case Nil
  then show ?case by (simp add: pool_inv_def leases_wf_def)
next
  case (Cons nxt rest)
  show ?case
  proof (cases "free t nxt")
    case None
    with Cons.prems have "free_wf (t\<lparr>free_list := rest\<rparr>)"
      by (simp add: free_wf_def) (metis option.distinct(1))
    with Cons None show ?thesis by simp
  next
    case (Some v)
    let ?t = "pool_insert (t\<lparr>free_list := rest\<rparr>) (fresh_lease nsub now eth nxt)"
    from Some Cons.prems have v: "v = nxt" "leases t nxt = None"
      by (auto simp: free_wf_def)
    show ?thesis
    proof (cases "nxt = 0")
      case True
      with Some Cons.prems v
      have "fst (pool_any_loop nsub now (nxt # rest) t eth) = t\<lparr>free_list := rest\<rparr>"
        by (simp add: pool_new_lease_def table_rev_lookup_def)
      moreover have "free_wf (t\<lparr>free_list := rest\<rparr>)" using Cons.prems True by (auto simp: free_wf_def)
      ultimately show ?thesis using Cons.prems by (simp add: pool_inv_def leases_wf_def)
    next
      case False
      with Some Cons.prems v
      have "fst (pool_any_loop nsub now (nxt # rest) t eth) = ?t"
        by (simp add: pool_new_lease_def table_rev_lookup_def Let_def)
      moreover have "leases_wf ?t"
        using Cons.prems v unfolding pool_insert_def
        by (intro leases_wf_insert) (auto simp: leases_wf_def)
      moreover have "free_wf ?t"
        using Cons.prems by (auto simp: free_wf_def)
      ultimately show ?thesis using False Cons.prems by (simp add: pool_inv_def)
    qed
  qed
qed

lemma pool_inv_any:
  assumes "pool_inv t"
  shows "pool_inv (fst (pool_new_lease_any nsub now t eth))"
proof (cases "ips t eth")
  case None
  with assms have "pool_inv (fst (pool_any_loop nsub now (free_list t) t eth))"
    by (intro pool_any_loop_inv) (auto simp: pool_inv_def)
  with None assms show ?thesis
    by (simp add: pool_new_lease_any_def pool_inv_def rev_lookup_wf)
next
  case (Some ip)
  with assms show ?thesis by (simp add: pool_new_lease_any_def pool_inv_def rev_lookup_wf)
qed

lemma pool_remove_eq:
  assumes "leases_wf t"
  shows "pool_remove t eth =
    (case ips t eth of
       Some ip \<Rightarrow> t\<lparr>leases := (leases t)(ip := None), ips := (ips t)(eth := None),
                    free := (free t)(ip \<mapsto> ip), free_list := free_list t @ [ip]\<rparr>
     | None \<Rightarrow> t)"
  using leases_wf_ips[OF assms, of eth] assms
  by (auto simp: pool_remove_def table_remove_def table_rev_lookup_def deref_def Let_def
      split: option.splits)


lemma pool_inv_remove:
  assumes inv: "pool_inv t"
  shows "pool_inv (pool_remove t eth)"
proof (cases "ips t eth")
  case None
  with inv show ?thesis by (simp add: pool_remove_eq pool_inv_def)
next
  case (Some ip)
  from inv have wf: "leases_wf t" by (simp add: pool_inv_def)
  from leases_wf_ips[OF wf Some] inv have "ip \<noteq> 0" by (auto simp: pool_inv_def)
  have "leases_wf (pool_remove t eth) = leases_wf (table_remove t eth)"
    using Some wf by (simp add: pool_remove_eq table_remove_wf_eq leases_wf_def)
  moreover have "free_wf (pool_remove t eth)"
    using Some wf inv \<open>ip \<noteq> 0\<close> by (auto simp: pool_remove_eq pool_inv_def free_wf_def)
  ultimately show ?thesis
    using Some wf inv leases_wf_remove[OF wf] by (simp add: pool_inv_def pool_remove_eq)
qed

lemma pool_inv_assign:
  assumes "pool_inv t" and "leases t k \<noteq> None"
    and "\<And>l. l_ip (f l) = l_ip l \<and> l_eth (f l) = l_eth l"
  shows "pool_inv (assign t k f)"
proof -
  have "free t k = None"
    using assms(1,2) by (simp add: pool_inv_def free_wf_def) (metis not_None_eq)
  then show ?thesis
    using assms leases_wf_assign[of t k f] by (auto simp: pool_inv_def free_wf_def assign_def)
qed


lemma pool_new_cases:
  obtains (keep) k where "table_rev_lookup t eth = Some k"
      "pool_new_lease nsub now t eth ip = (t, Some k)"
  | (insert) "table_rev_lookup t eth = None" "free t ip \<noteq> None"
      "pool_new_lease nsub now t eth ip = (pool_insert t (fresh_lease nsub now eth ip), Some ip)"
  | (refuse) "table_rev_lookup t eth = None" "pool_new_lease nsub now t eth ip = (t, None)"
      "(case free t ip of Some v \<Rightarrow> v | None \<Rightarrow> 0) = 0"
proof (cases "table_rev_lookup t eth")
  case None
  note rev = this
  show thesis
  proof (cases "(case free t ip of Some v \<Rightarrow> v | None \<Rightarrow> 0) = 0")
    case True
    with rev refuse show thesis by (simp add: pool_new_lease_def)
  next
    case False
    then have "free t ip \<noteq> None" by (auto split: option.splits)
    moreover have "table_lookup (pool_insert t (fresh_lease nsub now eth ip)) ip = Some ip"
      by simp
    ultimately show thesis using rev False insert by (simp add: pool_new_lease_def Let_def)
  qed
next
  case (Some k)
  with keep show thesis by (simp add: pool_new_lease_def)
qed

lemma pool_any_loop_cases:
  obtains (exhausted) "pool_any_loop nsub now q t eth = (t\<lparr>free_list := []\<rparr>, None)"
      "\<forall>ip \<in> set q. free t ip = None"
  | (alloc) pre nxt rest where "q = pre @ nxt # rest" "free t nxt \<noteq> None"
      "pool_any_loop nsub now q t eth = pool_new_lease nsub now (t\<lparr>free_list := rest\<rparr>) eth nxt"
proof -
  have "(pool_any_loop nsub now q t eth = (t\<lparr>free_list := []\<rparr>, None) \<and> (\<forall>ip \<in> set q. free t ip = None)) \<or>
    (\<exists>pre nxt rest. q = pre @ nxt # rest \<and> free t nxt \<noteq> None \<and>
       pool_any_loop nsub now q t eth = pool_new_lease nsub now (t\<lparr>free_list := rest\<rparr>) eth nxt)"
    (is "?P q")
  proof (induction q)
    case (Cons x xs)
    show ?case
    proof (cases "free t x")
      case None
      with Cons.IH show ?thesis
        by (simp del: fun_upd_apply) (metis append_Cons)
    next
      case (Some v)
      then have "x # xs = [] @ x # xs \<and> free t x \<noteq> None \<and>
        pool_any_loop nsub now (x # xs) t eth = pool_new_lease nsub now (t\<lparr>free_list := xs\<rparr>) eth x"
        by simp
      then show ?thesis by blast
    qed
  qed simp
  then show thesis using exhausted alloc by blast
qed

lemma rev_lookup_free_list [simp]: "table_rev_lookup (t\<lparr>free_list := q\<rparr>) = table_rev_lookup t"
  by (rule ext) (simp add: table_rev_lookup_def table_lookup_def split: option.split)

lemma rev_lookup_pool_insert:
  "table_rev_lookup (pool_insert t (fresh_lease nsub now eth ip)) eth = Some ip"
  by (simp add: rev_lookup_Some)

lemma pool_new_rev:
  "pool_new_lease nsub now t eth ip = (t', Some k) \<Longrightarrow> table_rev_lookup t' eth = Some k"
  by (cases rule: pool_new_cases[of t eth nsub now ip]) (auto simp: rev_lookup_pool_insert)

lemma pool_any_rev:
  assumes "pool_new_lease_any nsub now t eth = (t', Some k)"
  shows "table_rev_lookup t' eth = Some k"
proof (cases "table_rev_lookup t eth")
  case None
  with assms have loop: "pool_any_loop nsub now (free_list t) t eth = (t', Some k)"
    by (simp add: pool_new_lease_any_def)
  show ?thesis
    by (cases rule: pool_any_loop_cases[of nsub now "free_list t" t eth])
      (use loop in \<open>auto dest: pool_new_rev\<close>)
next
  case (Some l)
  with assms show ?thesis by (simp add: pool_new_lease_any_def)
qed

lemma pool_new_frame:
  "lt_ip (fst (pool_new_lease nsub now t eth ip)) = lt_ip t"
  "eth' \<noteq> eth \<Longrightarrow> ips (fst (pool_new_lease nsub now t eth ip)) eth' = ips t eth'"
  by (cases rule: pool_new_cases[of t eth nsub now ip]; simp)+

lemma pool_any_frame:
  "lt_ip (fst (pool_new_lease_any nsub now t eth)) = lt_ip t"
  "eth' \<noteq> eth \<Longrightarrow> ips (fst (pool_new_lease_any nsub now t eth)) eth' = ips t eth'"
  by (cases rule: pool_any_loop_cases[of nsub now "free_list t" t eth];
      simp add: pool_new_lease_any_def pool_new_frame split: option.split)+

lemma pool_remove_rev: "table_rev_lookup (pool_remove t eth) eth = None"
  by (auto simp: pool_remove_def table_remove_def table_rev_lookup_def table_lookup_def Let_def
      split: option.splits)

lemma pool_remove_config: "lt_ip (pool_remove t eth) = lt_ip t"
  by (auto simp: pool_remove_def table_remove_def Let_def split: option.splits)

lemma assign_rev_lookup:
  "leases t k \<noteq> None \<Longrightarrow> table_rev_lookup (assign t k f) eth = table_rev_lookup t eth"
  by (auto simp: table_rev_lookup_def table_lookup_def assign_def split: option.splits)

lemma pool_inv_rev_ips: "pool_inv t \<Longrightarrow> table_rev_lookup t = ips t"
  by (rule ext) (simp add: pool_inv_def rev_lookup_wf)

interpretation pool: exclusive_lease_provider "pool_vtable nsub now" pool_inv
proof unfold_locales
  fix t :: lease_pool and eth eth' k ip t' and f :: "lease \<Rightarrow> lease"
  show "vt_rev_lookup (pool_vtable nsub now) t eth = Some k \<Longrightarrow> leases t k \<noteq> None"
    by (simp add: rev_lookup_Some)
  show "pool_inv t \<Longrightarrow> pool_inv (fst (vt_new_lease_any (pool_vtable nsub now) t eth))"
    by (simp add: pool_inv_any)
  show "pool_inv t \<Longrightarrow> pool_inv (fst (vt_new_lease (pool_vtable nsub now) t eth ip))"
    by (simp add: pool_inv_new)
  show "pool_inv t \<Longrightarrow> pool_inv (vt_remove (pool_vtable nsub now) t eth)"
    by (simp add: pool_inv_remove)
  show "pool_inv t \<Longrightarrow> leases t k \<noteq> None \<Longrightarrow>
      (\<And>l. l_ip (f l) = l_ip l \<and> l_eth (f l) = l_eth l) \<Longrightarrow> pool_inv (assign t k f)"
    by (rule pool_inv_assign)
  show "vt_rev_lookup (pool_vtable nsub now) t eth = Some k \<Longrightarrow>
      vt_new_lease_any (pool_vtable nsub now) t eth = (t, Some k)"
    by (simp add: pool_new_lease_any_def)
  show "vt_rev_lookup (pool_vtable nsub now) t eth = Some k \<Longrightarrow>
      vt_new_lease (pool_vtable nsub now) t eth ip = (t, Some k)"
    by (simp add: pool_new_lease_def)
  show "vt_new_lease (pool_vtable nsub now) t eth ip = (t', None) \<Longrightarrow> t' = t"
    by (cases rule: pool_new_cases[of t eth nsub now ip]) auto
  show "leases t k \<noteq> None \<Longrightarrow> vt_rev_lookup (pool_vtable nsub now) (assign t k f) eth =
      vt_rev_lookup (pool_vtable nsub now) t eth"
    by (simp add: assign_rev_lookup)
  assume inv: "pool_inv t"
  show "vt_rev_lookup (pool_vtable nsub now) t eth = Some k \<Longrightarrow>
      l_ip (deref t k) = k \<and> l_eth (deref t k) = eth"
    using inv leases_wf_ips[of t eth k] by (auto simp: pool_inv_def rev_lookup_Some deref_def)
  assume "eth' \<noteq> eth"
  with inv show
    "vt_rev_lookup (pool_vtable nsub now) (fst (vt_new_lease_any (pool_vtable nsub now) t eth)) eth' =
     vt_rev_lookup (pool_vtable nsub now) t eth'"
    "vt_rev_lookup (pool_vtable nsub now) (fst (vt_new_lease (pool_vtable nsub now) t eth ip)) eth' =
     vt_rev_lookup (pool_vtable nsub now) t eth'"
    "vt_rev_lookup (pool_vtable nsub now) (vt_remove (pool_vtable nsub now) t eth) eth' =
     vt_rev_lookup (pool_vtable nsub now) t eth'"
    by (simp_all add: pool_inv_rev_ips pool_inv_any pool_inv_new pool_inv_remove
        pool_any_frame pool_new_frame)
      (auto simp: pool_remove_eq pool_inv_def split: option.splits)
qed (auto simp: pool_any_rev pool_new_rev pool_remove_rev pool_any_frame pool_new_frame
      pool_remove_config)


section \<open>Configuring the pool\<close>

lemma pool_fill_eq:
  assumes "e < - 1"
  shows "pool_fill x e t =
    Some (t\<lparr>free := (\<lambda>ip. if x \<le> ip \<and> ip \<le> e then Some ip else free t ip),
            free_list := free_list t @ map word_of_nat [unat x ..< Suc (unat e)]\<rparr>)"
proof (induction "Suc (unat e) - unat x" arbitrary: x t)
  case 0
  then have le: "\<not> x \<le> e" by (simp add: word_le_nat_alt)
  then have out: "(x \<le> ip \<and> ip \<le> e) = False" for ip by (meson order_trans)
  show ?case using 0 le by (simp add: pool_fill.simps[of x e t] out)
next
  case (Suc n)
  then have le: "x \<le> e" by (simp add: word_le_nat_alt)
  with assms have "x < - 1" by simp
  then have un: "unat (x + 1) = Suc (unat x)"
    by (rule unat_plus_one)
  let ?t = "t\<lparr>free := (free t)(x \<mapsto> x), free_list := free_list t @ [x]\<rparr>"
  from Suc un have "n = Suc (unat e) - unat (x + 1)" by simp
  note IH = Suc.hyps(1)[OF this, of ?t]
  have fr: "(if x + 1 \<le> ip \<and> ip \<le> e then Some ip else free ?t ip) =
    (if x \<le> ip \<and> ip \<le> e then Some ip else free t ip)" for ip
    using un le by (cases "ip = x") (auto simp: word_le_nat_alt word_unat_eq_iff)
  have up: "[unat x ..< Suc (unat e)] = unat x # [Suc (unat x) ..< Suc (unat e)]"
    using le by (simp add: word_le_nat_alt upt_conv_Cons)
  show ?case
    using le by (simp add: pool_fill.simps[of x e t] IH fr up un del: upt_Suc)
qed

lemma pool_fill_diverges: "pool_fill x (- 1) t = None"
proof (rule ccontr)
  assume "pool_fill x (- 1) t \<noteq> None"
  then obtain r where r: "pool_fill x (- 1) t = Some r" by blast
  have step: "e \<noteq> - 1"
    if "\<And>x e t r. f x e t = Some r \<Longrightarrow> e \<noteq> (- 1 :: u32)"
      and "(if x \<le> e then f (x + 1) e (t\<lparr>free := (free t)(x \<mapsto> x), free_list := free_list t @ [x]\<rparr>)
            else Some t) = Some r"
    for f :: "u32 \<Rightarrow> u32 \<Rightarrow> lease_pool \<Rightarrow> lease_pool option" and x e t r
    using that by (auto split: if_splits)
  have "(- 1 :: u32) \<noteq> - 1"
    by (rule pool_fill.raw_induct[where P = "\<lambda>x e t r. e \<noteq> - 1" and xa = "((x, - 1), t)" and y = r,
          unfolded prod.case]) (rule step, assumption+, rule r)
  then show False by simp
qed

lemma pool_init_empty:
  "free (pool_init eth ip subnet s e) = Map.empty" "free_list (pool_init eth ip subnet s e) = []"
  by (simp_all add: pool_init_def)

lemma pool_configure_free:
  assumes "e < - 1" and "pool_configure eth ip subnet s e = Some t"
  shows "free t a = (if s \<le> a \<and> a \<le> e then Some a else None)"
    and "set (free_list t) = {a. s \<le> a \<and> a \<le> e}"
    and "leases t = Map.empty" and "ips t = Map.empty"
proof -
  from assms have t: "t = (pool_init eth ip subnet s e)
      \<lparr>free := (\<lambda>ip. if s \<le> ip \<and> ip \<le> e then Some ip else None),
       free_list := map word_of_nat [unat s ..< Suc (unat e)]\<rparr>"
    by (simp add: pool_configure_def pool_fill_eq pool_init_empty cong: if_cong del: upt_Suc)
  then show "free t a = (if s \<le> a \<and> a \<le> e then Some a else None)"
    and "leases t = Map.empty" and "ips t = Map.empty"
    by (simp_all add: pool_init_def)
  have "a \<in> word_of_nat ` {unat s..<Suc (unat e)} \<longleftrightarrow> s \<le> a \<and> a \<le> e" for a :: u32
  proof
    assume "a \<in> word_of_nat ` {unat s..<Suc (unat e)}"
    then obtain n where n: "unat s \<le> n" "n \<le> unat e" "a = word_of_nat n" by auto
    moreover have "n < 2 ^ 32" using n unsigned_less[of e, where ?'a = nat] by simp
    ultimately show "s \<le> a \<and> a \<le> e" by (simp add: word_le_nat_alt unat_of_nat)
  next
    assume "s \<le> a \<and> a \<le> e"
    then have "unat a \<in> {unat s..<Suc (unat e)}" and "a = word_of_nat (unat a)"
      by (simp_all add: word_le_nat_alt)
    then show "a \<in> word_of_nat ` {unat s..<Suc (unat e)}" by (metis imageI)
  qed
  with t show "set (free_list t) = {a. s \<le> a \<and> a \<le> e}"
    by (auto simp del: upt_Suc)
qed


section \<open>Runs of the pool\<close>

text \<open>
  What the server elements do to a pool: allocate a requested or any address, release, and
  write the validity flag or extend the lease through a pointer they looked up.
\<close>

inductive pool_step :: "lease_pool \<Rightarrow> lease_pool \<Rightarrow> bool" where
  step_new: "pool_step t (fst (pool_new_lease nsub now t eth ip))"
| step_any: "pool_step t (fst (pool_new_lease_any nsub now t eth))"
| step_remove: "pool_step t (pool_remove t eth)"
| step_valid: "table_rev_lookup t eth = Some k \<Longrightarrow> pool_step t (assign t k (\<lambda>l. l\<lparr>l_valid := Some True\<rparr>))"
| step_extend: "table_rev_lookup t eth = Some k \<Longrightarrow> pool_step t (assign t k (lease_extend nsub now))"

inductive pool_reachable :: "ip_addr \<Rightarrow> ip_addr \<Rightarrow> lease_pool \<Rightarrow> bool" for s e where
  reach_init: "pool_configure eth ip subnet s e = Some t \<Longrightarrow> pool_reachable s e t"
| reach_step: "pool_reachable s e t \<Longrightarrow> pool_step t t' \<Longrightarrow> pool_reachable s e t'"

inductive_cases pool_step_cases: "pool_step t t'"

text \<open>The addresses the pool is responsible for.\<close>

definition managed :: "lease_pool \<Rightarrow> ip_addr set" where
  "managed t = dom (free t) \<union> dom (leases t)"

lemma lease_extend_id [simp]:
  "l_ip (lease_extend nsub now l) = l_ip l" "l_eth (lease_extend nsub now l) = l_eth l"
  by (simp_all add: lease_extend_def Let_def)

lemma managed_new: "managed (fst (pool_new_lease nsub now t eth ip)) = managed t"
  by (cases rule: pool_new_cases[of t eth nsub now ip]) (auto simp: managed_def)

lemma managed_any: "managed (fst (pool_new_lease_any nsub now t eth)) = managed t"
proof -
  have fl: "managed (t\<lparr>free_list := q\<rparr>) = managed t" for q by (simp add: managed_def)
  show ?thesis
    by (cases rule: pool_any_loop_cases[of nsub now "free_list t" t eth])
      (auto simp: pool_new_lease_any_def managed_new fl split: option.split)
qed

lemma managed_remove: "leases_wf t \<Longrightarrow> managed (pool_remove t eth) = managed t"
  by (auto simp: pool_remove_eq managed_def dest: leases_wf_ips split: option.splits if_splits)

lemma managed_assign: "leases t k \<noteq> None \<Longrightarrow> managed (assign t k f) = managed t"
  by (auto simp: managed_def assign_def)

lemma pool_step_inv: "pool_step t t' \<Longrightarrow> pool_inv t \<Longrightarrow> pool_inv t' \<and> managed t' = managed t"
  by (erule pool_step_cases)
    (auto simp: pool_inv_new pool_inv_any pool_inv_remove rev_lookup_Some managed_new managed_any
      managed_assign pool_inv_def[THEN iffD1, THEN conjunct1, THEN managed_remove]
      intro!: pool_inv_assign)

lemma pool_reachable_inv:
  assumes "pool_reachable s e t"
  shows "pool_inv t \<and> managed t = {s..e}"
  using assms
proof (induction rule: pool_reachable.induct)
  case (reach_init eth ip subnet t)
  then have "e \<noteq> - 1" by (auto simp: pool_configure_def pool_fill_diverges)
  then have "e < - 1" by (simp add: word_order.not_eq_extremum)
  note conf = pool_configure_free[OF this reach_init]
  have "pool_inv t"
    by (auto simp: pool_inv_def leases_wf_def free_wf_def conf split: if_splits)
  moreover have "managed t = {s..e}"
    by (auto simp: managed_def conf split: if_splits)
  ultimately show ?case ..
next
  case (reach_step t t')
  then show ?case using pool_step_inv by blast
qed

text \<open>The first address of the queue that is still free: the one \<open>new_lease_any\<close> tries.\<close>

definition next_free :: "lease_pool \<Rightarrow> ip_addr option" where
  "next_free t = find (\<lambda>ip. free t ip \<noteq> None) (free_list t)"

lemma pool_any_loop_find:
  "pool_any_loop nsub now q t eth =
    (case find (\<lambda>ip. free t ip \<noteq> None) q of
       None \<Rightarrow> (t\<lparr>free_list := []\<rparr>, None)
     | Some nxt \<Rightarrow> pool_new_lease nsub now (t\<lparr>free_list := tl (dropWhile (\<lambda>ip. free t ip = None) q)\<rparr>) eth nxt)"
  by (induction q) (auto split: option.split)

lemma pool_any_None_iff:
  assumes "pool_inv t"
  shows "snd (pool_new_lease_any nsub now t eth) = None \<longleftrightarrow>
    table_rev_lookup t eth = None \<and> (dom (free t) \<subseteq> {0} \<or> next_free t = Some 0)"
proof (cases "table_rev_lookup t eth")
  case None
  then have any: "pool_new_lease_any nsub now t eth = pool_any_loop nsub now (free_list t) t eth"
    by (simp add: pool_new_lease_any_def)
  show ?thesis
  proof (cases "next_free t")
    case N: None
    then have "\<forall>ip\<in>set (free_list t). free t ip = None" by (auto simp: next_free_def find_None_iff)
    then have "dom (free t) \<subseteq> {0}" using assms by (fastforce simp: pool_inv_def free_wf_def)
    then show ?thesis using None any N by (simp add: pool_any_loop_find next_free_def)
  next
    case (Some nxt)
    then have "free t nxt \<noteq> None" by (auto simp: next_free_def find_Some_iff)
    then have fr: "free t nxt = Some nxt" using assms by (auto simp: pool_inv_def free_wf_def)
    then have "snd (pool_new_lease_any nsub now t eth) = None \<longleftrightarrow> nxt = 0"
      using Some None any by (simp add: pool_any_loop_find next_free_def pool_new_lease_def Let_def)
    moreover have "nxt \<noteq> 0 \<Longrightarrow> \<not> dom (free t) \<subseteq> {0}" using fr by auto
    ultimately show ?thesis using None Some by auto
  qed
qed (simp add: pool_new_lease_any_def)

section \<open>The hash is a provider, but not an exclusive one\<close>

definition hash_inv :: "lease_hash \<Rightarrow> bool" where
  "hash_inv t \<longleftrightarrow> (\<forall>ip l. leases t ip = Some l \<longrightarrow> l_ip l = ip)"

lemma lh_subnet_insert: "lh_subnet (table_insert t l) = lh_subnet t"
  by (simp add: table_insert_def Let_def)

lemma hash_any_cases:
  obtains (keep) k where "table_rev_lookup t eth = Some k"
      "hash_new_lease_any e crc nsub now t eth = (t, Some k)"
  | (insert) "table_rev_lookup t eth = None"
      "hash_new_lease_any e crc nsub now t eth =
         (table_insert t (fresh_lease nsub now eth (hash_addr e crc (lh_subnet t) eth)),
          Some (hash_addr e crc (lh_subnet t) eth))"
proof (cases "table_rev_lookup t eth")
  case None
  have "table_lookup (table_insert t (fresh_lease nsub now eth ip)) ip = Some ip" for ip
    by simp
  with None insert show thesis by (simp add: hash_new_lease_any_def Let_def)
qed (simp add: keep hash_new_lease_any_def)

lemma hash_any_rev:
  "hash_new_lease_any e crc nsub now t eth = (t', Some k) \<Longrightarrow> table_rev_lookup t' eth = Some k"
  by (cases rule: hash_any_cases[of t eth e crc nsub now]) (auto simp: rev_lookup_Some)

lemma hash_any_inv: "hash_inv t \<Longrightarrow> hash_inv (fst (hash_new_lease_any e crc nsub now t eth))"
  by (cases rule: hash_any_cases[of t eth e crc nsub now]) (auto simp: hash_inv_def)

lemma hash_any_config: "lt_ip (fst (hash_new_lease_any e crc nsub now t eth)) = lt_ip t"
  by (cases rule: hash_any_cases[of t eth e crc nsub now]) auto

lemma table_remove_rev: "table_rev_lookup (table_remove t eth) eth = None"
  by (auto simp: table_remove_def table_rev_lookup_def table_lookup_def Let_def
      split: option.splits)

interpretation hash: lease_provider "hash_vtable e crc nsub now" hash_inv
proof unfold_locales
  fix t :: lease_hash and eth k ip t' and f :: "lease \<Rightarrow> lease"
  show "vt_new_lease (hash_vtable e crc nsub now) t eth ip = (t', None) \<Longrightarrow> t' = t"
    by (cases rule: hash_any_cases[of t eth e crc nsub now]) (auto simp: hash_new_lease_def)
  show "hash_inv t \<Longrightarrow> leases t k \<noteq> None \<Longrightarrow>
      (\<And>l. l_ip (f l) = l_ip l \<and> l_eth (f l) = l_eth l) \<Longrightarrow> hash_inv (assign t k f)"
    by (auto simp: hash_inv_def assign_def deref_def)
  show "hash_inv t \<Longrightarrow> hash_inv (vt_remove (hash_vtable e crc nsub now) t eth)"
    and "lt_ip (vt_remove (hash_vtable e crc nsub now) t eth) = lt_ip t"
    by (auto simp: hash_inv_def table_remove_def Let_def split: option.splits)
  show "vt_rev_lookup (hash_vtable e crc nsub now) t eth = Some k \<Longrightarrow> leases t k \<noteq> None"
    by (simp add: rev_lookup_Some)
  show "vt_rev_lookup (hash_vtable e crc nsub now) t eth = Some k \<Longrightarrow>
      vt_new_lease_any (hash_vtable e crc nsub now) t eth = (t, Some k)"
    and "vt_rev_lookup (hash_vtable e crc nsub now) t eth = Some k \<Longrightarrow>
      vt_new_lease (hash_vtable e crc nsub now) t eth ip = (t, Some k)"
    by (simp_all add: hash_new_lease_any_def hash_new_lease_def)
  show "leases t k \<noteq> None \<Longrightarrow> vt_rev_lookup (hash_vtable e crc nsub now) (assign t k f) eth =
      vt_rev_lookup (hash_vtable e crc nsub now) t eth"
    by (simp add: assign_rev_lookup)
qed (simp_all add: hash_any_rev hash_any_inv hash_any_config table_remove_rev hash_new_lease_def)


section \<open>Properties\<close>

text \<open>
  Property C2: in every state a configured pool can reach, two different clients never hold
  the same address, and the address a client holds is one of the configured range.
\<close>

theorem pool_lease_exclusive:
  assumes "pool_reachable s e t" and "eth1 \<noteq> eth2"
    and "table_rev_lookup t eth1 = Some k1" and "table_rev_lookup t eth2 = Some k2"
  shows "l_ip (deref t k1) \<noteq> l_ip (deref t k2) \<and> l_ip (deref t k1) \<in> {s..e}"
proof -
  from pool_reachable_inv[OF assms(1)] have inv: "pool_inv t" and m: "managed t = {s..e}"
    by auto
  have "l_ip (deref t k1) \<noteq> l_ip (deref t k2)"
    using pool.exclusive[OF inv, of 1 0 eth1 k1 eth2 k2] assms(2-4) by auto
  moreover have "l_ip (deref t k1) = k1"
    using pool.rev_own[OF inv, of 1 0 eth1 k1] assms(3) by simp
  moreover have "k1 \<in> managed t"
    using assms(3) by (auto simp: managed_def rev_lookup_Some)
  ultimately show ?thesis using m by simp
qed

text \<open>A small configured pool: two addresses, two clients served one after the other.\<close>

definition demo_pool :: lease_pool where
  "demo_pool = \<lparr>lt_ip = 1, lt_subnet = 255, lt_eth = [0], leases = Map.empty, ips = Map.empty,
     free_list = [5, 6], free = [5 \<mapsto> 5, 6 \<mapsto> 6], lp_start = 5, lp_end = 6\<rparr>"

lemma demo_pool_configure: "pool_configure [0] 1 255 5 6 = Some demo_pool"
  by (simp add: pool_configure_def pool_init_def pool_fill.simps demo_pool_def)

lemma demo_pool_reachable: "pool_reachable 5 6 demo_pool"
  by (rule reach_init) (rule demo_pool_configure)

definition demo_served :: lease_pool where
  "demo_served = fst (pool_new_lease_any 1 0 (fst (pool_new_lease_any 1 0 demo_pool [1])) [2])"

lemma demo_served_reachable: "pool_reachable 5 6 demo_served"
  unfolding demo_served_def
  by (rule reach_step[OF reach_step[OF demo_pool_reachable pool_step.step_any] pool_step.step_any])

lemma demo_served_rev:
  "table_rev_lookup demo_served [1] = Some 5" "table_rev_lookup demo_served [2] = Some 6"
  by (simp_all add: demo_served_def demo_pool_def pool_defs table_defs fresh_lease_def Let_def)

theorem pool_lease_exclusive_witness:
  "l_ip (deref demo_served 5) \<noteq> l_ip (deref demo_served 6) \<and> l_ip (deref demo_served 5) \<in> {5..6}"
  by (rule pool_lease_exclusive[OF demo_served_reachable _ demo_served_rev]) simp_all

text \<open>
  Property C21: the pool neither loses nor invents addresses. In every reachable state each
  address of the configured range is either free or leased, no address is both, and the
  pool knows no other address.
\<close>

theorem pool_conservation:
  assumes "pool_reachable s e t"
  shows "dom (free t) \<union> dom (leases t) = {s..e} \<and> dom (free t) \<inter> dom (leases t) = {}"
proof -
  from pool_reachable_inv[OF assms] have "pool_inv t" and "managed t = {s..e}" by auto
  moreover from this have "dom (free t) \<inter> dom (leases t) = {}"
    by (auto simp: pool_inv_def free_wf_def)
  ultimately show ?thesis by (simp add: managed_def)
qed

theorem pool_conservation_witness:
  "dom (free demo_served) \<union> dom (leases demo_served) = {5..6} \<and>
   dom (free demo_served) \<inter> dom (leases demo_served) = {}"
  by (rule pool_conservation[OF demo_served_reachable])

text \<open>
  Property C22: when the pool refuses. In every reachable state \<open>new_lease_any\<close> refuses a client exactly when the
  client has no lease and either no address but 0.0.0.0 is free, or the first free address of the candidate queue is
  0.0.0.0, whose entry \<open>new_lease\<close> mistakes for a missing one. So stale entries of the queue never make it miss a
  free address, and the pool of a range that does not begin at 0.0.0.0 refuses exactly when it is exhausted.
\<close>

theorem pool_any_progress:
  assumes "pool_reachable s e t"
  shows "(snd (pool_new_lease_any nsub now t eth) = None \<longleftrightarrow>
      table_rev_lookup t eth = None \<and> (dom (free t) \<subseteq> {0} \<or> next_free t = Some 0)) \<and>
    (s \<noteq> 0 \<longrightarrow> (snd (pool_new_lease_any nsub now t eth) = None \<longleftrightarrow> table_rev_lookup t eth = None \<and> dom (free t) = {}))"
proof (intro conjI impI)
  from pool_reachable_inv[OF assms] have inv: "pool_inv t" and m: "managed t = {s..e}" by auto
  from pool_any_None_iff[OF inv]
  show iff: "snd (pool_new_lease_any nsub now t eth) = None \<longleftrightarrow>
      table_rev_lookup t eth = None \<and> (dom (free t) \<subseteq> {0} \<or> next_free t = Some 0)" .
  assume "s \<noteq> 0"
  then have "0 \<notin> managed t" using m by (simp add: word_le_nat_alt unat_eq_0)
  then have z: "0 \<notin> dom (free t)" by (simp add: managed_def)
  then have "next_free t \<noteq> Some 0" by (auto simp: next_free_def find_Some_iff)
  moreover have "dom (free t) \<subseteq> {0} \<longleftrightarrow> dom (free t) = {}" using z by auto
  ultimately show "snd (pool_new_lease_any nsub now t eth) = None \<longleftrightarrow> table_rev_lookup t eth = None \<and> dom (free t) = {}"
    using iff by simp
qed

theorem pool_any_progress_witness: "snd (pool_new_lease_any 1 0 demo_served [3]) = None"
proof -
  have "table_rev_lookup demo_served [3] = None" "dom (free demo_served) = {}"
    by (simp_all add: demo_served_def demo_pool_def pool_defs table_defs fresh_lease_def Let_def)
  then show ?thesis using pool_any_progress[OF demo_served_reachable, of 1 0 "[3]"] by simp
qed

text \<open>
  A range that begins at 0.0.0.0, the default of \<open>START\<close>: the first client is refused although 0.0.0.1 is free; the
  next request takes that address.
\<close>

lemma zero_start_refuses:
  "\<exists>t t1. pool_configure eth ip subnet 0 1 = Some t \<and> pool_new_lease_any nsub now t c = (t1, None) \<and>
    free t 1 = Some 1 \<and> snd (pool_new_lease_any nsub now t1 c) = Some 1"
proof -
  have "pool_configure eth ip subnet 0 1 = Some (pool_init eth ip subnet 0 1\<lparr>free := [0 \<mapsto> 0, 1 \<mapsto> 1], free_list := [0, 1]\<rparr>)"
    using pool_fill.simps[of 0 1] pool_fill.simps[of 1 1] pool_fill.simps[of 2 1]
    by (simp add: pool_configure_def pool_init_def word_le_nat_alt)
  then show ?thesis by (auto simp: pool_init_def pool_defs table_defs Let_def)
qed

text \<open>
  \<open>LeasePool::configure\<close> returns exactly when \<open>END\<close> is not 255.255.255.255; with
  that end address the 32-bit loop counter wraps around and the loop never ends.
\<close>

theorem pool_configure_returns_iff:
  "(\<exists>t. pool_configure eth ip subnet s e = Some t) \<longleftrightarrow> e \<noteq> - 1"
proof (cases "e = - 1")
  case True
  then show ?thesis by (simp add: pool_configure_def pool_fill_diverges)
next
  case False
  then have "e < - 1" by (simp add: word_order.not_eq_extremum)
  then show ?thesis by (simp add: pool_configure_def pool_fill_eq False del: upt_Suc)
qed

text \<open>
  The hashing allocator is not exclusive. Two clients whose hardware addresses
  hash to the same address are both told that they hold it, although the table records the
  lease for the second one only.
\<close>

theorem hash_collision_shares_address:
  assumes "eth1 \<noteq> eth2" and "hash_addr en crc subnet eth1 = hash_addr en crc subnet eth2"
  shows "let t0 = hash_configure en crc eth subnet;
             t1 = fst (hash_new_lease_any en crc nsub now t0 eth1);
             t2 = fst (hash_new_lease_any en crc nsub now t1 eth2);
             k = hash_addr en crc subnet eth1
    in table_rev_lookup t2 eth1 = Some k \<and> table_rev_lookup t2 eth2 = Some k \<and>
       l_eth (deref t2 k) = eth2"
  using assms
  by (simp add: hash_configure_def hash_new_lease_any_def table_rev_lookup_def deref_def
      lh_subnet_insert Let_def)

theorem hash_collision_witness:
  "let crc = (\<lambda>_. 0);
       t1 = fst (hash_new_lease_any LittleEndian crc 1 0 (hash_configure LittleEndian crc [] 10) [1]);
       t2 = fst (hash_new_lease_any LittleEndian crc 1 0 t1 [2])
   in table_rev_lookup t2 [1] = table_rev_lookup t2 [2] \<and> table_rev_lookup t2 [1] \<noteq> None"
proof -
  have "hash_addr LittleEndian (\<lambda>_. 0) 10 [1] = hash_addr LittleEndian (\<lambda>_. 0) 10 [2]"
    by (simp add: hash_addr_def)
  from hash_collision_shares_address[OF _ this, of "[]" 1 0] show ?thesis
    by (simp add: Let_def)
qed

text \<open>
  \<open>Lease::extend\<close> starts the lease now, but sets its end to twice the current
  time: the extension does not depend on the duration of the lease.
\<close>

theorem lease_extend_end:
  "l_start (lease_extend nsub now l) = now \<and> l_end (lease_extend nsub now l) = 2 * now \<and>
   l_duration (lease_extend nsub now l) = l_duration l"
proof -
  have m: "ts_make nsub (ts_sec nsub now) (ts_subsec nsub now) = now"
    by (simp add: ts_make_def ts_sec_def ts_subsec_def)
  have "ts_make nsub (ts_sec nsub now + ts_sec nsub now) (ts_subsec nsub now + ts_subsec nsub now) =
      2 * ts_make nsub (ts_sec nsub now) (ts_subsec nsub now)"
    by (simp add: ts_make_def algebra_simps)
  with m show ?thesis by (simp add: lease_extend_def Let_def)
qed

end
