(* ===== verification/DHCP_Options.thy ===== *)
theory DHCP_Options
  imports Click_Prelude
begin

text \<open>
  DHCP messages and their options: the constants and the message layout of
  \<open>dhcp/package/dhcp_common.hh\<close>, and the option reader and header builder of
  \<open>dhcp/package/dhcpoptionutil.cc\<close>. Pointers into a packet are offsets into its data; every
  read is checked, so that a result \<^const>\<open>None\<close> is a read outside of the packet.
\<close>

section \<open>Packets and messages\<close>

text \<open>The data of a packet and the offset of its transport header annotation.\<close>

record packet =
  data :: "byte list"
  thoff :: nat

definition transport_length :: "packet \<Rightarrow> nat" where
  "transport_length p = length (data p) - thoff p"

abbreviation (input) DHO_PAD :: byte where "DHO_PAD \<equiv> 0"
abbreviation (input) DHO_DHCP_REQUESTED_ADDRESS :: byte where "DHO_DHCP_REQUESTED_ADDRESS \<equiv> 50"
abbreviation (input) DHO_DHCP_LEASE_TIME :: byte where "DHO_DHCP_LEASE_TIME \<equiv> 51"
abbreviation (input) DHO_DHCP_OPTION_OVERLOAD :: byte where "DHO_DHCP_OPTION_OVERLOAD \<equiv> 52"
abbreviation (input) DHO_DHCP_MESSAGE_TYPE :: byte where "DHO_DHCP_MESSAGE_TYPE \<equiv> 53"
abbreviation (input) DHO_DHCP_SERVER_IDENTIFIER :: byte where "DHO_DHCP_SERVER_IDENTIFIER \<equiv> 54"
abbreviation (input) DHO_END :: byte where "DHO_END \<equiv> 255"

abbreviation (input) DHCP_BOOTREQUEST :: byte where "DHCP_BOOTREQUEST \<equiv> 1"
abbreviation (input) DHCP_BOOTREPLY :: byte where "DHCP_BOOTREPLY \<equiv> 2"
abbreviation (input) ARPHRD_ETHER :: byte where "ARPHRD_ETHER \<equiv> 1"

abbreviation (input) DHCP_DISCOVER :: byte where "DHCP_DISCOVER \<equiv> 1"
abbreviation (input) DHCP_OFFER :: byte where "DHCP_OFFER \<equiv> 2"
abbreviation (input) DHCP_REQUEST :: byte where "DHCP_REQUEST \<equiv> 3"
abbreviation (input) DHCP_DECLINE :: byte where "DHCP_DECLINE \<equiv> 4"
abbreviation (input) DHCP_ACK :: byte where "DHCP_ACK \<equiv> 5"
abbreviation (input) DHCP_NACK :: byte where "DHCP_NACK \<equiv> 6"
abbreviation (input) DHCP_RELEASE :: byte where "DHCP_RELEASE \<equiv> 7"
abbreviation (input) DHCP_INFORM :: byte where "DHCP_INFORM \<equiv> 8"

abbreviation (input) DHCP_MAGIC :: "byte list" where "DHCP_MAGIC \<equiv> [0x63, 0x82, 0x53, 0x63]"

abbreviation (input) DHCP_OPTIONS_SIZE :: nat where "DHCP_OPTIONS_SIZE \<equiv> 308"

text \<open>
  \<open>struct dhcpMessage\<close>; multi-byte fields are kept as the bytes they occupy in memory.
\<close>

record dhcpMessage =
  op :: byte
  htype :: byte
  hlen :: byte
  hops :: byte
  xid :: "byte list"
  secs :: "byte list"
  flags :: "byte list"
  ciaddr :: "byte list"
  yiaddr :: "byte list"
  siaddr :: "byte list"
  giaddr :: "byte list"
  chaddr :: "byte list"
  sname :: "byte list"
  bfile :: "byte list"
  magic :: "byte list"
  options :: "byte list"

text \<open>The message as it lies in memory.\<close>

definition dm_bytes :: "dhcpMessage \<Rightarrow> byte list" where
  "dm_bytes m = [op m, htype m, hlen m, hops m] @ xid m @ secs m @ flags m @ ciaddr m @ yiaddr m @
     siaddr m @ giaddr m @ chaddr m @ sname m @ bfile m @ magic m @ options m"

text \<open>Field widths of the packed structure.\<close>

definition dm_wf :: "dhcpMessage \<Rightarrow> bool" where
  "dm_wf m \<longleftrightarrow> length (xid m) = 4 \<and> length (secs m) = 2 \<and> length (flags m) = 2 \<and>
     length (ciaddr m) = 4 \<and> length (yiaddr m) = 4 \<and> length (siaddr m) = 4 \<and>
     length (giaddr m) = 4 \<and> length (chaddr m) = 16 \<and> length (sname m) = 64 \<and>
     length (bfile m) = 128 \<and> length (magic m) = 4"

text \<open>\<open>memset(dm, 0, sizeof(dhcpMessage))\<close>.\<close>

definition zero_msg :: dhcpMessage where
  "zero_msg = \<lparr>op = 0, htype = 0, hlen = 0, hops = 0, xid = replicate 4 0, secs = replicate 2 0,
     flags = replicate 2 0, ciaddr = replicate 4 0, yiaddr = replicate 4 0, siaddr = replicate 4 0,
     giaddr = replicate 4 0, chaddr = replicate 16 0, sname = replicate 64 0,
     bfile = replicate 128 0, magic = replicate 4 0, options = replicate DHCP_OPTIONS_SIZE 0\<rparr>"

text \<open>Offsets of the fields within the structure.\<close>

abbreviation (input) "off_op \<equiv> 0 :: nat"
abbreviation (input) "off_htype \<equiv> 1 :: nat"
abbreviation (input) "off_hlen \<equiv> 2 :: nat"
abbreviation (input) "off_xid \<equiv> 4 :: nat"
abbreviation (input) "off_flags \<equiv> 10 :: nat"
abbreviation (input) "off_ciaddr \<equiv> 12 :: nat"
abbreviation (input) "off_yiaddr \<equiv> 16 :: nat"
abbreviation (input) "off_giaddr \<equiv> 24 :: nat"
abbreviation (input) "off_chaddr \<equiv> 28 :: nat"
abbreviation (input) "off_sname \<equiv> 44 :: nat"
abbreviation (input) "off_file \<equiv> 108 :: nat"
abbreviation (input) "off_magic \<equiv> 236 :: nat"
abbreviation (input) "off_options \<equiv> 240 :: nat"
abbreviation (input) "sizeof_udp \<equiv> 8 :: nat"
abbreviation (input) "sizeof_ip \<equiv> 20 :: nat"
abbreviation (input) "sizeof_ether \<equiv> 14 :: nat"
abbreviation (input) "sizeof_dhcp \<equiv> 548 :: nat"

section \<open>Reading options\<close>

text \<open>
  The \<open>while (o + 1 < oend)\<close> loop of \<open>fetch_next\<close>: the option found, if any, and the
  overload value.
\<close>

function opt_scan :: "byte list \<Rightarrow> int \<Rightarrow> nat \<Rightarrow> nat \<Rightarrow> nat \<Rightarrow> (nat option \<times> nat) option" where
  "opt_scan b want oend overload i =
     (if i + 1 < oend
      then do {
        x \<leftarrow> rd8 b i;
        if x = DHO_PAD then opt_scan b want oend overload (i + 1)
        else if x = DHO_END then Some (None, overload)
        else do {
          len \<leftarrow> rd8 b (i + 1);
          if oend < i + 2 + unat len then Some (None, overload)
          else if uint x = want then Some (Some i, overload)
          else if x = DHO_DHCP_OPTION_OVERLOAD \<and> overload = 0 \<and> len = 1
          then do {
            v \<leftarrow> rd8 b (i + 2);
            if v \<le> 3 then opt_scan b want oend (unat v) (i + 3)
            else opt_scan b want oend overload (i + 2 + unat len)
          }
          else opt_scan b want oend overload (i + 2 + unat len)
        }
      }
      else Some (None, overload))"
  by pat_completeness auto
termination
  by (relation "measure (\<lambda>(b, want, oend, overload, i). oend - i)") auto

declare opt_scan.simps [simp del]

lemma opt_scan_overload:
  "opt_scan b want oend overload i = Some (r, ov) \<Longrightarrow> overload \<noteq> 0 \<Longrightarrow> ov = overload"
proof (induction "oend - i" arbitrary: i rule: less_induct)
  case less
  have IH: "opt_scan b want oend overload j = Some (r, ov) \<Longrightarrow> i < j \<Longrightarrow> i + 1 < oend \<Longrightarrow> ov = overload"
    for j using less.hyps[of j] less.prems(2) by simp
  from less.prems show ?case
    by (subst (asm) opt_scan.simps)
      (auto simp: bind_eq_Some_conv split: if_splits intro: IH)
qed

text \<open>
  The areas searched one after the other (the \<open>goto retry\<close> of the code): \<open>base\<close> is the
  offset of the message, and an overload value sends the search to the \<open>file\<close> and \<open>sname\<close>
  fields.
\<close>

function fetch_from :: "byte list \<Rightarrow> nat \<Rightarrow> int \<Rightarrow> nat \<Rightarrow> nat \<Rightarrow> nat \<Rightarrow> (nat option \<times> nat) option" where
  "fetch_from b base want oend overload i =
     do {
       (r, ov) \<leftarrow> opt_scan b want oend overload i;
       if r \<noteq> None then Some (r, ov)
       else if ov = 1 \<or> ov = 3
       then fetch_from b base want (base + off_file + 128) (if ov = 3 then 2 else 4) (base + off_file)
       else if ov = 2
       then fetch_from b base want (base + off_sname + 64) 4 (base + off_sname)
       else Some (None, ov)
     }"
  by pat_completeness auto
termination
proof (relation "measure (\<lambda>(b, base, want, oend, overload, i).
    if overload = 0 then 3 else if overload = 1 \<or> overload = 3 then 2
    else if overload = 2 then 1 else (0::nat))", goal_cases)
  case (2 b base want oend overload i x r ov)
  then show ?case using opt_scan_overload[of b want oend overload i r ov] by (auto split: if_splits)
next
  case (3 b base want oend overload i x r ov)
  then show ?case using opt_scan_overload[of b want oend overload i r ov] by (auto split: if_splits)
qed simp

declare fetch_from.simps [simp del]

text \<open>
  \<open>fetch_next\<close>. The first call passes no option pointer and starts at the options field;
  a later call passes the option found before and goes on behind it.
\<close>

definition fetch_next :: "packet \<Rightarrow> int \<Rightarrow> nat \<Rightarrow> nat option \<Rightarrow> (nat option \<times> nat) option" where
  "fetch_next p want overload ptr =
     (let b = data p; base = thoff p + sizeof_udp
      in case ptr of
           None \<Rightarrow>
             if transport_length p < sizeof_dhcp - DHCP_OPTIONS_SIZE then Some (None, overload)
             else do {
               m \<leftarrow> rdn b (base + off_magic) 4;
               if m \<noteq> DHCP_MAGIC then Some (None, overload)
               else fetch_from b base want (length b) 0 (base + off_options)
             }
         | Some i \<Rightarrow>
             let oend = (if i < base + off_sname + 64 then base + off_sname + 64
                         else if i < base + off_file + 128 then base + off_file + 128
                         else length b)
             in do {
               len \<leftarrow> rd8 b (i + 1);
               fetch_from b base want oend overload (i + 2 + unat len)
             })"

definition fetch :: "packet \<Rightarrow> byte \<Rightarrow> nat \<Rightarrow> nat option option" where
  "fetch p want expected_length =
     do {
       (r, ov) \<leftarrow> fetch_next p (uint want) 0 None;
       case r of
         None \<Rightarrow> Some None
       | Some i \<Rightarrow> do {
           len \<leftarrow> rd8 (data p) (i + 1);
           Some (if unat len = expected_length then Some (i + 2) else None)
         }
     }"

text \<open>
  \<open>rand_exp_backoff\<close>; \<open>dice\<close> is the value of \<open>click_random()\<close> and \<open>rand_max\<close> is
  \<open>CLICK_RAND_MAX\<close>.
\<close>

definition rand_exp_backoff :: "u32 \<Rightarrow> u32 \<Rightarrow> u32 \<Rightarrow> u32" where
  "rand_exp_backoff rand_max dice backoff_center =
     (if dice \<le> rand_max div 3 then backoff_center - 1
      else if dice \<le> (rand_max div 3) * 2 then backoff_center
      else backoff_center + 1)"

text \<open>
  \<open>push_dhcp_udp_header\<close> puts an IP and a UDP header before the message. Click's checksum
  routines are the parameters \<open>in_cksum\<close> and \<open>cksum_pseudohdr\<close>; \<open>pkt_id\<close> is the value of the
  static packet counter, which the call increments.
\<close>

record cksum_lib =
  in_cksum :: "byte list \<Rightarrow> u16"
  cksum_pseudohdr :: "u16 \<Rightarrow> byte list \<Rightarrow> u16 \<Rightarrow> u16"

definition dhcp_ip_header :: "nat \<Rightarrow> u32 \<Rightarrow> byte list \<Rightarrow> ip_addr \<Rightarrow> byte list" where
  "dhcp_ip_header plen pkt_id cks src =
     [0x45, 0] @ be16 (word_of_nat plen) @ be16 (ucast pkt_id) @ [0, 0, 250, 17] @ cks @ be32 src @
     be32 (- 1)"

definition push_dhcp_udp_header ::
    "endian \<Rightarrow> cksum_lib \<Rightarrow> u32 \<Rightarrow> byte list \<Rightarrow> ip_addr \<Rightarrow> byte list \<times> u32" where
  "push_dhcp_udp_header e lib pkt_id p src =
     (let plen = length p + sizeof_udp + sizeof_ip;
          ip0 = dhcp_ip_header plen pkt_id [0, 0] src;
          ip = dhcp_ip_header plen pkt_id (mem16 e (in_cksum lib ip0)) src;
          len = word_of_nat (plen - sizeof_ip) :: u16;
          udp0 = be16 67 @ be16 68 @ be16 len @ [0, 0];
          csum = in_cksum lib (take (unat len) (udp0 @ p));
          udp = be16 67 @ be16 68 @ be16 len @ mem16 e (cksum_pseudohdr lib csum ip len)
      in (ip @ udp @ p, pkt_id + 1))"

section \<open>Reading is safe but for one gap\<close>

lemma opt_scan_in_bounds:
  assumes "oend \<le> length b"
  shows "\<exists>r ov. opt_scan b want oend overload i = Some (r, ov) \<and>
    (\<forall>j. r = Some j \<longrightarrow> i \<le> j \<and> j + 2 \<le> oend \<and> j + 2 + unat (b ! (j + 1)) \<le> oend \<and> uint (b ! j) = want)"
proof (induction "oend - i" arbitrary: i overload rule: less_induct)
  case less
  let ?P = "\<lambda>i x. \<exists>r ov. x = Some (r, ov) \<and> (\<forall>j. r = Some j \<longrightarrow>
      i \<le> j \<and> j + 2 \<le> oend \<and> j + 2 + unat (b ! (j + 1)) \<le> oend \<and> uint (b ! j) = want)"
  show ?case
  proof (cases "i + 1 < oend")
    case False
    then show ?thesis by (simp add: opt_scan.simps)
  next
    case True
    have IH: "?P i (opt_scan b want oend ov' k)" if "i < k" for ov' k
      using less.hyps[of k ov'] True that by (fastforce intro: less_imp_le order_trans)
    from True assms have "i < length b" "i + 1 < length b" by auto
    then show ?thesis
      using True assms IH[of "i + 1" overload] IH[of "i + 3" "unat (b ! (i + 2))"]
        IH[of "i + 2 + unat (b ! (i + 1))" overload]
      by (subst opt_scan.simps) (auto simp: not_less)
  qed
qed


lemma fetch_from_in_bounds:
  assumes "oend \<le> length b" and "base + off_options \<le> length b"
  shows "\<exists>r ov. fetch_from b base want oend overload i = Some (r, ov) \<and>
    (\<forall>j. r = Some j \<longrightarrow> j + 2 \<le> length b \<and> j + 2 + unat (b ! (j + 1)) \<le> length b)"
  using assms
proof (induction b base want oend overload i rule: fetch_from.induct)
  case (1 b base want oend overload i)
  obtain r ov where s: "opt_scan b want oend overload i = Some (r, ov)"
    and r: "\<forall>j. r = Some j \<longrightarrow> j + 2 \<le> oend \<and> j + 2 + unat (b ! (j + 1)) \<le> oend"
    using opt_scan_in_bounds[OF "1.prems"(1), of want overload i] by blast
  show ?case
  proof (cases r)
    case (Some j)
    with s r "1.prems" show ?thesis by (auto simp: fetch_from.simps)
  next
    case None
    with s "1.IH"[of "(r, ov)" r ov] "1.prems" show ?thesis
      by (subst fetch_from.simps) auto
  qed
qed

lemma fetch_Some_len:
  assumes "thoff p + sizeof_udp + off_options \<le> length (data p)"
  shows "\<exists>r. fetch p want n = Some r \<and> (\<forall>j. r = Some j \<longrightarrow> j + n \<le> length (data p))"
proof -
  let ?base = "thoff p + sizeof_udp"
  obtain m where m: "rdn (data p) (?base + off_magic) 4 = Some m"
    using assms by (simp add: rdn_def)
  obtain r ov where f: "fetch_from (data p) ?base (uint want) (length (data p)) 0 (?base + off_options) = Some (r, ov)"
    and r: "\<forall>j. r = Some j \<longrightarrow> j + 2 \<le> length (data p) \<and> j + 2 + unat (data p ! (j + 1)) \<le> length (data p)"
    using fetch_from_in_bounds[OF order_refl assms, of "uint want" 0 "?base + off_options"] by blast
  show ?thesis
  proof (cases "m = DHCP_MAGIC")
    case True
    show ?thesis
    proof (cases r)
      case None
      with True m f assms show ?thesis by (simp add: fetch_def fetch_next_def Let_def)
    next
      case (Some j)
      with True m f assms r show ?thesis
        by (auto simp: fetch_def fetch_next_def Let_def)
    qed
  next
    case False
    with m assms show ?thesis by (simp add: fetch_def fetch_next_def Let_def)
  qed
qed

lemma fetch_None_iff:
  "fetch p want n = None \<longleftrightarrow> 240 \<le> transport_length p \<and> transport_length p < 248"
proof -
  consider "transport_length p < 240" | "240 \<le> transport_length p \<and> transport_length p < 248"
    | "248 \<le> transport_length p" by linarith
  then show ?thesis
  proof cases
    case 1
    then show ?thesis by (simp add: fetch_def fetch_next_def)
  next
    case 2
    then have "length (data p) < thoff p + sizeof_udp + off_magic + 4"
      by (auto simp: transport_length_def)
    with 2 show ?thesis by (simp add: fetch_def fetch_next_def Let_def)
  next
    case 3
    then have "thoff p + sizeof_udp + off_options \<le> length (data p)"
      by (auto simp: transport_length_def)
    from fetch_Some_len[OF this, of want n] 3 show ?thesis by auto
  qed
qed

section \<open>The options of a message\<close>

text \<open>
  The reference semantics: an area is a sequence of code-length-value triples, with pad
  bytes between them, ended by \<open>DHO_END\<close>, by the end of the area or by a triple that does
  not fit. The options field comes first, then the \<open>file\<close> and the \<open>sname\<close> field as the
  overload option says.
\<close>

function tlvs :: "byte list \<Rightarrow> (byte \<times> byte list) list" where
  "tlvs [] = []"
| "tlvs [x] = []"
| "tlvs (x # l # rest) =
     (if x = DHO_PAD then tlvs (l # rest)
      else if x = DHO_END \<or> length rest < unat l then []
      else (x, take (unat l) rest) # tlvs (drop (unat l) rest))"
  by pat_completeness auto
termination
  by (relation "measure length") auto

fun opt_find :: "int \<Rightarrow> nat \<Rightarrow> (byte \<times> byte list) list \<Rightarrow> byte list option \<times> nat" where
  "opt_find want ov [] = (None, ov)"
| "opt_find want ov ((c, v) # xs) =
     (if uint c = want then (Some v, ov)
      else if c = DHO_DHCP_OPTION_OVERLOAD \<and> ov = 0 \<and> length v = 1 \<and> hd v \<le> 3
      then opt_find want (unat (hd v)) xs
      else opt_find want ov xs)"

definition msg_option :: "byte \<Rightarrow> byte list \<Rightarrow> byte list \<Rightarrow> byte list \<Rightarrow> byte list option" where
  "msg_option want opts filearea snamearea =
     (let later = (\<lambda>area. fst (opt_find (uint want) 4 (tlvs area)))
      in case opt_find (uint want) 0 (tlvs opts) of
           (Some v, _) \<Rightarrow> Some v
         | (None, ov) \<Rightarrow>
             if ov = 1 then later filearea
             else if ov = 2 then later snamearea
             else if ov = 3 then (case later filearea of Some v \<Rightarrow> Some v | None \<Rightarrow> later snamearea)
             else None)"

definition area :: "byte list \<Rightarrow> nat \<Rightarrow> nat \<Rightarrow> byte list" where
  "area b i oend = take (oend - i) (drop i b)"

definition opt_val :: "byte list \<Rightarrow> nat \<Rightarrow> byte list" where
  "opt_val b j = take (unat (b ! (j + 1))) (drop (j + 2) b)"

lemma area_Cons: "i < oend \<Longrightarrow> oend \<le> length b \<Longrightarrow> area b i oend = b ! i # area b (i + 1) oend"
  by (simp add: area_def take_Cons' flip: Cons_nth_drop_Suc)

lemma area_small: "oend \<le> i + 1 \<Longrightarrow> tlvs (area b i oend) = []"
proof -
  assume "oend \<le> i + 1"
  then have "length (area b i oend) \<le> 1" by (simp add: area_def)
  then show ?thesis by (cases "area b i oend") (auto simp: le_Suc_eq)
qed

lemma area_drop: "drop k (area b i oend) = area b (i + k) oend"
  by (simp add: area_def drop_take add.commute)

lemma length_area: "oend \<le> length b \<Longrightarrow> length (area b i oend) = oend - i"
  by (simp add: area_def)

lemma area_take: "i + k \<le> oend \<Longrightarrow> take k (area b i oend) = take k (drop i b)"
  by (simp add: area_def min_def)

lemma opt_scan_tlvs:
  assumes "oend \<le> length b"
  shows "map_option (\<lambda>(r, ov). (map_option (opt_val b) r, ov)) (opt_scan b want oend overload i) =
    Some (opt_find want overload (tlvs (area b i oend)))"
proof (induction "oend - i" arbitrary: i overload rule: less_induct)
  case less
  show ?case
  proof (cases "i + 1 < oend")
    case False
    then show ?thesis by (simp add: opt_scan.simps[of b want oend overload i] area_small)
  next
    case True
    let ?x = "b ! i" and ?l = "b ! (i + 1)"
    have ar: "area b i oend = ?x # ?l # area b (i + 2) oend"
      using True assms by (simp add: area_Cons)
    have IH: "map_option (\<lambda>(r, ov). (map_option (opt_val b) r, ov)) (opt_scan b want oend ov' k) =
        Some (opt_find want ov' (tlvs (area b k oend)))" if "i < k" for ov' k
      using less.hyps[of k ov'] True that by simp
    have len: "length (area b (i + 2) oend) = oend - (i + 2)"
      using assms by (simp add: length_area)
    have rest: "drop (unat ?l) (area b (i + 2) oend) = area b (i + 2 + unat ?l) oend"
      by (simp add: area_drop add.commute)
    have pad: "?l # area b (i + 2) oend = area b (i + 1) oend"
      using True assms by (simp add: area_Cons)
    have val: "i + 2 + unat ?l \<le> oend \<Longrightarrow> take (unat ?l) (area b (i + 2) oend) = opt_val b i"
      by (simp add: area_take opt_val_def)
    have one: "?l = 1 \<Longrightarrow> i + 2 + unat ?l \<le> oend \<Longrightarrow> opt_val b i = [b ! (i + 2)]"
      using assms by (simp add: opt_val_def take_Suc_conv_app_nth[of 0, simplified] hd_drop_conv_nth take_Suc)
    let ?fit = "i + 2 + unat ?l \<le> oend"
    have step: "opt_scan b want oend overload i =
        (if ?x = DHO_PAD then opt_scan b want oend overload (i + 1)
         else if ?x = DHO_END \<or> \<not> ?fit then Some (None, overload)
         else if uint ?x = want then Some (Some i, overload)
         else if ?x = DHO_DHCP_OPTION_OVERLOAD \<and> overload = 0 \<and> ?l = 1 \<and> b ! (i + 2) \<le> 3
         then opt_scan b want oend (unat (b ! (i + 2))) (i + 3)
         else opt_scan b want oend overload (i + 2 + unat ?l))"
      using True assms by (subst opt_scan.simps) auto
    have spec: "tlvs (area b i oend) =
        (if ?x = DHO_PAD then tlvs (area b (i + 1) oend)
         else if ?x = DHO_END \<or> \<not> ?fit then []
         else (?x, opt_val b i) # tlvs (area b (i + 2 + unat ?l) oend))"
      using True len rest val pad[symmetric] by (auto simp: ar)
    have olen: "?fit \<Longrightarrow> length (opt_val b i) = unat ?l"
      using assms by (simp add: opt_val_def)
    consider (pad) "?x = DHO_PAD" | (stop) "?x \<noteq> DHO_PAD" "?x = DHO_END \<or> \<not> ?fit"
      | (found) "?x \<noteq> DHO_PAD" "?x \<noteq> DHO_END" ?fit "uint ?x = want"
      | (overload) "?x = DHO_DHCP_OPTION_OVERLOAD" "uint ?x \<noteq> want" ?fit "overload = 0" "?l = 1"
          "b ! (i + 2) \<le> 3"
      | (skip) "?x \<noteq> DHO_PAD" "?x \<noteq> DHO_END" ?fit "uint ?x \<noteq> want"
          "\<not> (?x = DHO_DHCP_OPTION_OVERLOAD \<and> overload = 0 \<and> ?l = 1 \<and> b ! (i + 2) \<le> 3)"
      by blast
    then show ?thesis
    proof cases
      case overload
      then have "opt_scan b want oend overload i = opt_scan b want oend (unat (b ! (i + 2))) (i + 3)"
        unfolding step by simp
      moreover have "opt_find want overload (tlvs (area b i oend)) =
          opt_find want (unat (b ! (i + 2))) (tlvs (area b (i + 3) oend))"
        using overload by (simp add: spec one numeral_3_eq_3)
      ultimately show ?thesis using IH[of "i + 3"] by simp
    next
      case skip
      have "\<not> (?x = DHO_DHCP_OPTION_OVERLOAD \<and> overload = 0 \<and> length (opt_val b i) = 1 \<and>
          hd (opt_val b i) \<le> 3)"
      proof
        assume a: "?x = DHO_DHCP_OPTION_OVERLOAD \<and> overload = 0 \<and> length (opt_val b i) = 1 \<and>
          hd (opt_val b i) \<le> 3"
        then have "?l = 1" using olen skip by (metis unat_1 word_unat_eq_iff)
        with a one skip show False by simp
      qed
      with skip have "opt_find want overload (tlvs (area b i oend)) =
          opt_find want overload (tlvs (area b (i + 2 + unat ?l) oend))"
        by (simp only: spec opt_find.simps if_False simp_thms)
      moreover from skip have "opt_scan b want oend overload i =
          opt_scan b want oend overload (i + 2 + unat ?l)"
        by (simp only: step if_False simp_thms)
      ultimately show ?thesis using IH[of "i + 2 + unat ?l"] by simp
    qed (use IH in \<open>simp_all add: step spec\<close>)
  qed
qed


lemma opt_scan_find:
  assumes "oend \<le> length b" and "opt_find want overload (tlvs (area b i oend)) = (v, ov)"
  obtains r where "opt_scan b want oend overload i = Some (r, ov)" and "map_option (opt_val b) r = v"
    and "\<And>j. r = Some j \<Longrightarrow> j + 2 + unat (b ! (j + 1)) \<le> oend"
proof -
  obtain r ov' where r: "opt_scan b want oend overload i = Some (r, ov')"
    "\<forall>j. r = Some j \<longrightarrow> j + 2 + unat (b ! (j + 1)) \<le> oend"
    using opt_scan_in_bounds[OF assms(1), of want overload i] by blast
  with opt_scan_tlvs[OF assms(1), of want overload i] assms(2)
  have "map_option (opt_val b) r = v" and "ov' = ov" by simp_all
  with r that show thesis by blast
qed

lemma opt_find_ov: "ov \<noteq> 0 \<Longrightarrow> snd (opt_find want ov xs) = ov"
  by (induction want ov xs rule: opt_find.induct) auto

lemma opt_find_val: "ov \<noteq> 0 \<Longrightarrow> ov' \<noteq> 0 \<Longrightarrow> fst (opt_find want ov xs) = fst (opt_find want ov' xs)"
  by (induction xs) auto

lemma opt_find_ov_le: "opt_find want ov xs = (v, ov') \<Longrightarrow> ov \<le> 3 \<Longrightarrow> ov' \<le> 3"
proof (induction want ov xs rule: opt_find.induct)
  case (2 want ov c v xs)
  have "hd v \<le> 3 \<Longrightarrow> unat (hd v) \<le> 3" by (simp add: word_le_nat_alt)
  with 2 show ?case by (auto split: if_splits)
qed auto

text \<open>A single later area: the search with overload value 4 does not go anywhere else.\<close>

lemma fetch_from_last:
  assumes "oend \<le> length b"
  obtains r where "fetch_from b base want oend 4 i = Some (r, 4)"
    and "map_option (opt_val b) r = fst (opt_find want 4 (tlvs (area b i oend)))"
    and "\<And>j. r = Some j \<Longrightarrow> j + 2 + unat (b ! (j + 1)) \<le> length b"
proof -
  obtain v where v: "opt_find want 4 (tlvs (area b i oend)) = (v, 4)"
    using opt_find_ov[of 4 want] by (metis prod.collapse zero_neq_numeral)
  obtain r where "opt_scan b want oend 4 i = Some (r, 4)" "map_option (opt_val b) r = v"
    "\<And>j. r = Some j \<Longrightarrow> j + 2 + unat (b ! (j + 1)) \<le> oend"
    by (rule opt_scan_find[OF assms v]) blast
  with assms v show thesis
    by (intro that[of r]) (auto simp: fetch_from.simps[of b base want oend 4 i] intro: order_trans)
qed

lemma fetch_from_refines:
  assumes "base + off_options \<le> length b"
  obtains r ov where "fetch_from b base (uint want) (length b) 0 (base + off_options) = Some (r, ov)"
    and "map_option (opt_val b) r = msg_option want (drop (base + off_options) b)
      (area b (base + off_file) (base + off_file + 128)) (area b (base + off_sname) (base + off_sname + 64))"
    and "\<And>j. r = Some j \<Longrightarrow> j + 2 + unat (b ! (j + 1)) \<le> length b"
proof -
  let ?w = "uint want" and ?i = "base + off_options"
  let ?file = "area b (base + off_file) (base + off_file + 128)"
  let ?sname = "area b (base + off_sname) (base + off_sname + 64)"
  have main: "area b ?i (length b) = drop ?i b" by (simp add: area_def)
  obtain v ov where v: "opt_find ?w 0 (tlvs (area b ?i (length b))) = (v, ov)" by fastforce
  obtain r where r: "opt_scan b ?w (length b) 0 ?i = Some (r, ov)" "map_option (opt_val b) r = v"
    "\<And>j. r = Some j \<Longrightarrow> j + 2 + unat (b ! (j + 1)) \<le> length b"
    by (rule opt_scan_find[OF order_refl v]) blast
  obtain rs where rs: "fetch_from b base ?w (base + off_sname + 64) 4 (base + off_sname) = Some (rs, 4)"
    "map_option (opt_val b) rs = fst (opt_find ?w 4 (tlvs ?sname))"
    "\<And>j. rs = Some j \<Longrightarrow> j + 2 + unat (b ! (j + 1)) \<le> length b"
    using assms by (elim fetch_from_last[rotated]) simp
  obtain rf where rf: "fetch_from b base ?w (base + off_file + 128) 4 (base + off_file) = Some (rf, 4)"
    "map_option (opt_val b) rf = fst (opt_find ?w 4 (tlvs ?file))"
    "\<And>j. rf = Some j \<Longrightarrow> j + 2 + unat (b ! (j + 1)) \<le> length b"
    using assms by (elim fetch_from_last[rotated]) simp
  obtain v2 where v2: "opt_find ?w 2 (tlvs ?file) = (v2, 2)" "v2 = fst (opt_find ?w 4 (tlvs ?file))"
    using opt_find_ov[of 2 ?w "tlvs ?file"] opt_find_val[of 2 4 ?w "tlvs ?file"]
    by (metis prod.collapse zero_neq_numeral)
  have "base + off_file + 128 \<le> length b" using assms by simp
  then obtain r2 where r2: "opt_scan b ?w (base + off_file + 128) 2 (base + off_file) = Some (r2, 2)"
    "map_option (opt_val b) r2 = v2"
    "\<And>j. r2 = Some j \<Longrightarrow> j + 2 + unat (b ! (j + 1)) \<le> base + off_file + 128"
    by (rule opt_scan_find[OF _ v2(1)]) blast
  note ff = fetch_from.simps[of b base ?w]
  have "ov \<le> 3" using opt_find_ov_le[OF v] by simp
  then consider j where "r = Some j" | "r = None" "ov = 0" | "r = None" "ov = 1"
    | "r = None" "ov = 2" | "r = None" "ov = 3" by (cases r) linarith+
  then show thesis
  proof cases
    case 1
    with r v main show thesis
      by (intro that[of r ov]) (auto simp: ff[of "length b"] msg_option_def)
  next
    case 2
    with r v main show thesis
      by (intro that[of r ov]) (auto simp: ff[of "length b"] msg_option_def)
  next
    case 3
    with r v main rf show thesis
      by (intro that[of rf 4]) (auto simp: ff[of "length b"] msg_option_def)
  next
    case 4
    with r v main rs show thesis
      by (intro that[of rs 4]) (auto simp: ff[of "length b"] msg_option_def)
  next
    case 5
    show thesis
    proof (cases r2)
      case None
      with r2 rs have "fetch_from b base ?w (base + off_file + 128) 2 (base + off_file) = Some (rs, 4)"
        by (subst ff) simp
      with None 5 r v main r2 v2 rs show thesis
        by (intro that[of rs 4]) (auto simp: ff[of "length b"] msg_option_def)
    next
      case (Some j)
      have "j + 2 + unat (b ! (j + 1)) \<le> length b"
        using r2(3)[OF Some] assms by simp
      moreover from Some r2 have
        "fetch_from b base ?w (base + off_file + 128) 2 (base + off_file) = Some (r2, 2)"
        by (subst ff) simp
      ultimately show thesis
        using Some 5 r v main r2 v2
        by (intro that[of r2 2]) (auto simp: ff[of "length b"] msg_option_def split: option.split)
    qed
  qed
qed


text \<open>The value of an option of a packet, by the reference semantics.\<close>

definition packet_option :: "packet \<Rightarrow> byte \<Rightarrow> byte list option" where
  "packet_option p want =
     (let b = data p; base = thoff p + sizeof_udp
      in if take 4 (drop (base + off_magic) b) = DHCP_MAGIC
         then msg_option want (drop (base + off_options) b)
                (area b (base + off_file) (base + off_file + 128))
                (area b (base + off_sname) (base + off_sname + 64))
         else None)"

lemma fetch_refines:
  assumes "248 \<le> transport_length p"
  shows "\<exists>r. fetch p want n = Some r \<and>
    map_option (\<lambda>j. take n (drop j (data p))) r =
      (case packet_option p want of
         Some v \<Rightarrow> if length v = n then Some v else None
       | None \<Rightarrow> None)"
proof -
  let ?b = "data p" and ?base = "thoff p + sizeof_udp"
  from assms have len: "?base + off_options \<le> length ?b" by (auto simp: transport_length_def)
  obtain r ov where r: "fetch_from ?b ?base (uint want) (length ?b) 0 (?base + off_options) = Some (r, ov)"
    "map_option (opt_val ?b) r = msg_option want (drop (?base + off_options) ?b)
      (area ?b (?base + off_file) (?base + off_file + 128)) (area ?b (?base + off_sname) (?base + off_sname + 64))"
    "\<And>j. r = Some j \<Longrightarrow> j + 2 + unat (?b ! (j + 1)) \<le> length ?b"
    by (rule fetch_from_refines[OF len]) blast
  show ?thesis
  proof (cases "take 4 (drop (?base + off_magic) ?b) = DHCP_MAGIC")
    case False
    with assms len show ?thesis by (simp add: fetch_def fetch_next_def packet_option_def Let_def)
  next
    case True
    then have nxt: "fetch_next p (uint want) 0 None = Some (r, ov)"
      using assms len r(1) by (simp add: fetch_next_def Let_def)
    have po: "packet_option p want = map_option (opt_val ?b) r"
      unfolding r(2) using True by (simp add: packet_option_def Let_def)
    show ?thesis
    proof (cases r)
      case None
      with nxt po show ?thesis by (simp add: fetch_def)
    next
      case (Some j)
      with r(3)[OF Some] have "length (opt_val ?b j) = unat (?b ! (j + 1))" and "j + 1 < length ?b"
        by (simp_all add: opt_val_def)
      with Some nxt po show ?thesis by (auto simp: fetch_def opt_val_def)
    qed
  qed
qed

section \<open>Reading a message back\<close>

lemma dm_bytes_areas:
  assumes "dm_wf m"
  shows "drop off_options (dm_bytes m) = options m"
    and "take 4 (drop off_magic (dm_bytes m)) = magic m"
    and "take 128 (drop off_file (dm_bytes m)) = bfile m"
    and "take 64 (drop off_sname (dm_bytes m)) = sname m"
    and "take 4 (drop off_yiaddr (dm_bytes m)) = yiaddr m"
    and "take 4 (drop off_xid (dm_bytes m)) = xid m"
    and "take 6 (drop off_chaddr (dm_bytes m)) = take 6 (chaddr m)"
    and "length (dm_bytes m) = off_options + length (options m)"
  using assms by (simp_all add: dm_wf_def dm_bytes_def)

lemma packet_option_msg:
  assumes "dm_wf m" and "magic m = DHCP_MAGIC" and "data p = pre @ dm_bytes m"
    and "length pre = thoff p + sizeof_udp"
  shows "packet_option p want = msg_option want (options m) (bfile m) (sname m)"
  using assms dm_bytes_areas[OF assms(1)]
  by (simp add: packet_option_def area_def Let_def)

lemma zero_msg_wf: "dm_wf zero_msg"
  by (simp add: dm_wf_def zero_msg_def)

section \<open>Properties\<close>

text \<open>
  \<open>DHCPOptionUtil::fetch\<close> reads outside of the packet exactly when the
  transport header is followed by 240 to 247 bytes in all: the length check forgets the
  eight bytes of the UDP header. Shorter packets are rejected, and on longer ones no read
  of the option walk leaves the packet.
\<close>

theorem fetch_out_of_bounds_iff:
  "fetch p want n = None \<longleftrightarrow> 240 \<le> transport_length p \<and> transport_length p < 248"
  by (rule fetch_None_iff)

text \<open>
  Property C8: on a packet that holds a whole fixed part, \<open>fetch\<close> implements the option
  semantics of the protocol: it returns a pointer to the value of the first option with the
  wanted code, looked for in the options field and then in the \<open>file\<close> and \<open>sname\<close> fields
  that the overload option enables, and it returns nothing when there is none or its length
  is not the expected one.
\<close>

theorem fetch_first_option:
  assumes "248 \<le> transport_length p"
  shows "\<exists>r. fetch p want n = Some r \<and>
    map_option (\<lambda>j. take n (drop j (data p))) r =
      (case packet_option p want of
         Some v \<Rightarrow> if length v = n then Some v else None
       | None \<Rightarrow> None)"
  using assms by (rule fetch_refines)

definition option_demo :: packet where
  "option_demo = \<lparr>data = replicate 8 0 @ replicate 236 0 @ DHCP_MAGIC @ [0, 53, 1, 5, 255, 0], thoff = 0\<rparr>"

theorem fetch_first_option_witness:
  "fetch option_demo DHO_DHCP_MESSAGE_TYPE 4 = Some None \<and>
   (\<exists>j. fetch option_demo DHO_DHCP_MESSAGE_TYPE 1 = Some (Some j) \<and> take 1 (drop j (data option_demo)) = [5])"
proof -
  have "packet_option option_demo 53 = Some [5]"
    by (simp add: packet_option_def option_demo_def msg_option_def Let_def)
  moreover have "248 \<le> transport_length option_demo"
    by (simp add: transport_length_def option_demo_def)
  ultimately show ?thesis
    using fetch_first_option[of option_demo 53 4] fetch_first_option[of option_demo 53 1] by auto
qed

end
