(* ===== verification/DHCP_Server.thy ===== *)
theory DHCP_Server
  imports DHCP_Leases DHCP_Options
begin

text \<open>
  The server elements of the DHCP package: \<open>CheckDHCPMsg\<close>, \<open>DHCPClassifier\<close>,
  \<open>DHCPServerOffer\<close>, \<open>DHCPServerACKorNAK\<close> and \<open>DHCPServerRelease\<close>. A handler takes the lease
  table (with the vtable of its class) and the packet, and returns the new table and the
  packets it sends; \<^const>\<open>None\<close> is a read outside of the packet or through a null pointer.
  The handlers expect an Ethernet frame with an IP header without options, so the message
  starts 42 bytes into the data.
\<close>

abbreviation (input) "msg_off \<equiv> sizeof_ether + sizeof_udp + sizeof_ip"

section \<open>CheckDHCPMsg and DHCPClassifier\<close>

text \<open>\<open>simple_action\<close>; \<open>nhoff\<close> is the offset of the IP header annotation. The result is the
  output port.\<close>

definition check_dhcp_msg :: "nat \<Rightarrow> packet \<Rightarrow> nat option" where
  "check_dhcp_msg nhoff p =
     do {
       m \<leftarrow> rdn (data p) (nhoff + sizeof_ip + sizeof_udp + off_magic) 4;
       Some (if m \<noteq> DHCP_MAGIC then 1 else 0)
     }"

abbreviation (input) DHCP_REST :: byte where "DHCP_REST \<equiv> 9"

text \<open>\<open>_dhcp_msg_to_outport_map\<close> is a hash table with default value -1.\<close>

type_synonym port_map = "byte \<Rightarrow> int"

definition classifier_key :: "string \<Rightarrow> byte option" where
  "classifier_key s =
     (if s = ''discover'' then Some DHCP_DISCOVER
      else if s = ''offer'' then Some DHCP_OFFER
      else if s = ''request'' then Some DHCP_REQUEST
      else if s = ''decline'' then Some DHCP_DECLINE
      else if s = ''ack'' then Some DHCP_ACK
      else if s = ''nack'' then Some DHCP_NACK
      else if s = ''release'' then Some DHCP_RELEASE
      else if s = ''inform'' then Some DHCP_INFORM
      else if s = ''-'' then Some DHCP_REST
      else None)"

datatype config_error = WrongArgumentCount | UnknownType string

fun classifier_args :: "int \<Rightarrow> string list \<Rightarrow> port_map \<Rightarrow> config_error + port_map" where
  "classifier_args argno [] m = Inr m"
| "classifier_args argno (s # conf) m =
     (case classifier_key s of
        Some k \<Rightarrow> classifier_args (argno + 1) conf (m(k := argno))
      | None \<Rightarrow> Inl (UnknownType s))"

definition classifier_configure :: "nat \<Rightarrow> string list \<Rightarrow> config_error + port_map" where
  "classifier_configure noutputs conf =
     (if length conf \<noteq> noutputs then Inl WrongArgumentCount
      else classifier_args 0 conf (\<lambda>_. - 1))"

text \<open>\<open>push\<close>: the port handed to \<open>checked_output_push\<close>.\<close>

definition classifier_push :: "port_map \<Rightarrow> packet \<Rightarrow> int option" where
  "classifier_push m p =
     do {
       mtype \<leftarrow> fetch p DHO_DHCP_MESSAGE_TYPE 1;
       port \<leftarrow> (case mtype of
                  Some i \<Rightarrow> do { t \<leftarrow> rd8 (data p) i; Some (m t) }
                | None \<Rightarrow> Some (- 1));
       Some (if port < 0 then m DHCP_REST else port)
     }"

section \<open>Replies\<close>

text \<open>\<open>l->_duration.sec()\<close> as a \<open>uint32_t\<close>.\<close>

definition lease_seconds :: "int \<Rightarrow> lease \<Rightarrow> u32" where
  "lease_seconds nsub l = word_of_int (ts_sec nsub (l_duration l))"

text \<open>The option bytes written at the start of the zeroed options field.\<close>

definition put_options :: "byte list \<Rightarrow> byte list" where
  "put_options os = put_at 0 os (replicate DHCP_OPTIONS_SIZE 0)"

definition make_offer_packet :: "endian \<Rightarrow> int \<Rightarrow> byte list \<Rightarrow> lease \<Rightarrow> dhcpMessage option" where
  "make_offer_packet e nsub d l =
     do {
       x \<leftarrow> rdn d (msg_off + off_xid) 4;
       ch \<leftarrow> rdn d (msg_off + off_chaddr) 16;
       Some (zero_msg\<lparr>op := DHCP_BOOTREPLY, htype := ARPHRD_ETHER, hlen := 6, xid := x,
               yiaddr := be32 (l_ip l), chaddr := ch, magic := DHCP_MAGIC,
               options := put_options
                 ([DHO_DHCP_MESSAGE_TYPE, 1, DHCP_OFFER, DHO_DHCP_LEASE_TIME, 4] @
                  mem32 e (lease_seconds nsub l) @
                  [DHO_DHCP_SERVER_IDENTIFIER, 4] @ be32 (l_ip l) @ [DHO_END])\<rparr>)
     }"

definition make_ack_packet ::
    "endian \<Rightarrow> int \<Rightarrow> ip_addr \<Rightarrow> byte list \<Rightarrow> lease \<Rightarrow> dhcpMessage option" where
  "make_ack_packet e nsub server_ip d l =
     do {
       x \<leftarrow> rdn d (msg_off + off_xid) 4;
       ci \<leftarrow> rdn d (msg_off + off_ciaddr) 4;
       fl \<leftarrow> rdn d (msg_off + off_flags) 2;
       gi \<leftarrow> rdn d (msg_off + off_giaddr) 4;
       ch \<leftarrow> rdn d (msg_off + off_chaddr) 16;
       Some (zero_msg\<lparr>op := DHCP_BOOTREPLY, htype := ARPHRD_ETHER, hlen := 6, xid := x,
               ciaddr := ci, yiaddr := be32 (l_ip l), flags := fl, giaddr := gi, chaddr := ch,
               magic := DHCP_MAGIC,
               options := put_options
                 ([DHO_DHCP_MESSAGE_TYPE, 1, DHCP_ACK, DHO_DHCP_LEASE_TIME, 4] @
                  mem32 e (htonl e (lease_seconds nsub l)) @
                  [DHO_DHCP_SERVER_IDENTIFIER, 4] @ be32 server_ip @ [DHO_END])\<rparr>)
     }"

text \<open>The request message is taken to start behind 28 bytes of headers, not 42.\<close>

definition make_nak_packet :: "ip_addr \<Rightarrow> byte list \<Rightarrow> dhcpMessage option" where
  "make_nak_packet server_ip d =
     do {
       let base = sizeof_udp + sizeof_ip;
       x \<leftarrow> rdn d (base + off_xid) 4;
       fl \<leftarrow> rdn d (base + off_flags) 2;
       gi \<leftarrow> rdn d (base + off_giaddr) 4;
       ch \<leftarrow> rdn d (base + off_chaddr) 16;
       Some (zero_msg\<lparr>op := DHCP_BOOTREPLY, htype := ARPHRD_ETHER, hlen := 6, xid := x,
               flags := fl, giaddr := gi, chaddr := ch, magic := DHCP_MAGIC,
               options := put_options
                 ([DHO_DHCP_MESSAGE_TYPE, 1, DHCP_NACK, DHO_DHCP_SERVER_IDENTIFIER, 4] @
                  be32 server_ip @ [DHO_END])\<rparr>)
     }"

text \<open>The reply on the wire: broadcast Ethernet frame, IP and UDP header, message.\<close>

definition reply_frame ::
    "endian \<Rightarrow> cksum_lib \<Rightarrow> u32 \<Rightarrow> 'a lease_table_scheme \<Rightarrow> dhcpMessage \<Rightarrow> byte list \<times> u32" where
  "reply_frame e lib pkt_id t m =
     (let (q, pkt_id') = push_dhcp_udp_header e lib pkt_id (dm_bytes m) (lt_ip t)
      in (replicate 6 0xff @ lt_eth t @ [0x08, 0x00] @ q, pkt_id'))"

section \<open>DHCPServerOffer\<close>

text \<open>The table part of \<open>push\<close>: which lease is offered.\<close>

definition offer_lease ::
    "'a lease_table_scheme lease_vtable \<Rightarrow> 'a lease_table_scheme \<Rightarrow> ether_addr \<Rightarrow>
     ip_addr option \<Rightarrow> 'a lease_table_scheme \<times> lease_ptr option" where
  "offer_lease vt t eth requested =
     (let (t1, l) = (case requested of
                       Some ip \<Rightarrow> vt_new_lease vt t eth ip
                     | None \<Rightarrow> (t, None))
      in case l of Some k \<Rightarrow> (t1, Some k) | None \<Rightarrow> vt_new_lease_any vt t1 eth)"

definition offer_reply ::
    "endian \<Rightarrow> int \<Rightarrow> 'a lease_table_scheme lease_vtable \<Rightarrow> 'a lease_table_scheme \<Rightarrow> packet \<Rightarrow>
     ('a lease_table_scheme \<times> dhcpMessage option) option" where
  "offer_reply e nsub vt t p =
     do {
       eth \<leftarrow> rdn (data p) (msg_off + off_chaddr) 6;
       opt \<leftarrow> fetch p DHO_DHCP_REQUESTED_ADDRESS 4;
       let requested = map_option (\<lambda>i. u32_of (take 4 (drop i (data p)))) opt;
       let (t', l) = offer_lease vt t eth requested;
       case l of
         Some k \<Rightarrow> do {
           m \<leftarrow> make_offer_packet e nsub (data p) (deref t' k);
           Some (t', Some m)
         }
       | None \<Rightarrow> Some (t', None)
     }"

section \<open>DHCPServerACKorNAK\<close>

text \<open>
  The case distinction of \<open>push\<close> on the parsed addresses, with \<open>d\<close> the packet data and
  \<open>lease\<close> the result of \<open>rev_lookup\<close>.
\<close>

definition ack_cases ::
    "endian \<Rightarrow> int \<Rightarrow> timestamp \<Rightarrow> 'a lease_table_scheme lease_vtable \<Rightarrow> 'a lease_table_scheme \<Rightarrow>
     byte list \<Rightarrow> ether_addr \<Rightarrow> lease_ptr option \<Rightarrow> ip_addr \<Rightarrow> ip_addr \<Rightarrow> ip_addr \<Rightarrow>
     ('a lease_table_scheme \<times> dhcpMessage option) option" where
  "ack_cases e nsub now vt t d eth lease ci server requested_ip =
     (let ack = (\<lambda>t k. map_option (\<lambda>q. (t, Some q)) (make_ack_packet e nsub (lt_ip t) d (deref t k)));
          set_valid = (\<lambda>l. l\<lparr>l_valid := Some True\<rparr>)
      in if ci = 0 \<and> requested_ip = 0
         then let (t', l) = (case lease of Some k \<Rightarrow> (t, Some k) | None \<Rightarrow> vt_new_lease_any vt t eth)
              in case l of Some k \<Rightarrow> ack t' k | None \<Rightarrow> Some (t', None)
         else if server \<noteq> 0 \<and> ci = 0 \<and> requested_ip \<noteq> 0
         then \<comment> \<open>SELECTING\<close>
              (case lease of
                 Some k \<Rightarrow>
                   if l_ip (deref t k) = requested_ip
                   then map_option (\<lambda>(t, q). (assign t k set_valid, q)) (ack t k)
                   else Some (t, None)
               | None \<Rightarrow> Some (t, None))
         else if server = 0 \<and> requested_ip \<noteq> 0 \<and> ci = 0
         then \<comment> \<open>INIT-REBOOT\<close>
              (case lease of
                 Some k \<Rightarrow>
                   if l_ip (deref t k) = requested_ip
                   then if l_end (deref t k) < now
                        then map_option (\<lambda>q. (t, Some q)) (make_nak_packet (lt_ip t) d)
                        else ack (assign t k set_valid) k
                   else Some (t, None)
               | None \<Rightarrow> Some (t, None))
         else if server = 0 \<and> requested_ip = 0 \<and> ci \<noteq> 0
         then \<comment> \<open>RENEW or REBIND\<close>
              (case lease of
                 Some k \<Rightarrow> ack (assign (assign t k set_valid) k (lease_extend nsub now)) k
               | None \<Rightarrow> Some (t, None))
         else Some (t, None))"

definition ack_reply ::
    "endian \<Rightarrow> int \<Rightarrow> timestamp \<Rightarrow> 'a lease_table_scheme lease_vtable \<Rightarrow> 'a lease_table_scheme \<Rightarrow>
     packet \<Rightarrow> ('a lease_table_scheme \<times> dhcpMessage option) option" where
  "ack_reply e nsub now vt t p =
     do {
       ci \<leftarrow> rdn (data p) (msg_off + off_ciaddr) 4;
       eth \<leftarrow> rdn (data p) (msg_off + off_chaddr) 6;
       let lease = vt_rev_lookup vt t eth;
       so \<leftarrow> fetch p DHO_DHCP_SERVER_IDENTIFIER 4;
       ro \<leftarrow> fetch p DHO_DHCP_REQUESTED_ADDRESS 4;
       let addr = (\<lambda>opt. case opt of Some i \<Rightarrow> u32_of (take 4 (drop i (data p))) | None \<Rightarrow> 0);
       ack_cases e nsub now vt t (data p) eth lease (u32_of ci) (addr so) (addr ro)
     }"

section \<open>Sending a reply\<close>

text \<open>Both \<open>push\<close> functions end the same way: the reply, if any, is framed and sent on port 0.\<close>

definition send_reply ::
    "endian \<Rightarrow> cksum_lib \<Rightarrow> u32 \<Rightarrow> 'a lease_table_scheme \<times> dhcpMessage option \<Rightarrow>
     'a lease_table_scheme \<times> u32 \<times> byte list list" where
  "send_reply e lib pkt_id r =
     (case r of
        (t, Some m) \<Rightarrow> let (f, pkt_id') = reply_frame e lib pkt_id t m in (t, pkt_id', [f])
      | (t, None) \<Rightarrow> (t, pkt_id, []))"

definition offer_push ::
    "endian \<Rightarrow> cksum_lib \<Rightarrow> int \<Rightarrow> 'a lease_table_scheme lease_vtable \<Rightarrow> u32 \<Rightarrow>
     'a lease_table_scheme \<Rightarrow> packet \<Rightarrow> ('a lease_table_scheme \<times> u32 \<times> byte list list) option" where
  "offer_push e lib nsub vt pkt_id t p =
     map_option (send_reply e lib pkt_id) (offer_reply e nsub vt t p)"

definition ack_push ::
    "endian \<Rightarrow> cksum_lib \<Rightarrow> int \<Rightarrow> timestamp \<Rightarrow> 'a lease_table_scheme lease_vtable \<Rightarrow> u32 \<Rightarrow>
     'a lease_table_scheme \<Rightarrow> packet \<Rightarrow> ('a lease_table_scheme \<times> u32 \<times> byte list list) option" where
  "ack_push e lib nsub now vt pkt_id t p =
     map_option (send_reply e lib pkt_id) (ack_reply e nsub now vt t p)"

section \<open>DHCPServerRelease\<close>

text \<open>\<open>IPAddress(opt)\<close> copies four bytes from \<open>opt\<close>, which is null when the option is missing.\<close>

definition release_push ::
    "'a lease_table_scheme lease_vtable \<Rightarrow> 'a lease_table_scheme \<Rightarrow> packet \<Rightarrow>
     'a lease_table_scheme option" where
  "release_push vt t p =
     do {
       eth \<leftarrow> rdn (data p) (msg_off + off_chaddr) 6;
       opt \<leftarrow> fetch p DHO_DHCP_SERVER_IDENTIFIER 4;
       i \<leftarrow> opt;
       bs \<leftarrow> rdn (data p) i 4;
       Some (if u32_of bs \<noteq> lt_ip t then t else vt_remove vt t eth)
     }"


section \<open>The options of the replies\<close>

lemma put_options_eq:
  "length os \<le> DHCP_OPTIONS_SIZE \<Longrightarrow> put_options os = os @ replicate (DHCP_OPTIONS_SIZE - length os) 0"
  by (simp add: put_options_def put_at_def)

lemma length_put_options [simp]:
  "length os \<le> DHCP_OPTIONS_SIZE \<Longrightarrow> length (put_options os) = DHCP_OPTIONS_SIZE"
  by (simp add: put_options_eq)

text \<open>The options of a message that starts with a message type, a lease time and a server.\<close>

lemma tlvs_typed_options:
  assumes "length a = 4" and "length c = 4"
  shows "tlvs ([DHO_DHCP_MESSAGE_TYPE, 1, ty, DHO_DHCP_LEASE_TIME, 4] @ a @
     [DHO_DHCP_SERVER_IDENTIFIER, 4] @ c @ DHO_END # rest) =
     [(DHO_DHCP_MESSAGE_TYPE, [ty]), (DHO_DHCP_LEASE_TIME, a), (DHO_DHCP_SERVER_IDENTIFIER, c)]"
  using assms by (cases rest) simp_all


lemma msg_option_typed:
  assumes "length a = 4" and "length c = 4"
    and "os = put_options ([DHO_DHCP_MESSAGE_TYPE, 1, ty, DHO_DHCP_LEASE_TIME, 4] @ a @
      [DHO_DHCP_SERVER_IDENTIFIER, 4] @ c @ [DHO_END])"
  shows "msg_option DHO_DHCP_MESSAGE_TYPE os f sn = Some [ty]"
    and "msg_option DHO_DHCP_LEASE_TIME os f sn = Some a"
    and "msg_option DHO_DHCP_SERVER_IDENTIFIER os f sn = Some c"
proof -
  have os: "os = [DHO_DHCP_MESSAGE_TYPE, 1, ty, DHO_DHCP_LEASE_TIME, 4] @ a @
      [DHO_DHCP_SERVER_IDENTIFIER, 4] @ c @ DHO_END # replicate 292 0"
    using assms by (simp add: put_options_eq)
  have t: "tlvs os = [(DHO_DHCP_MESSAGE_TYPE, [ty]), (DHO_DHCP_LEASE_TIME, a),
      (DHO_DHCP_SERVER_IDENTIFIER, c)]"
    unfolding os by (rule tlvs_typed_options[OF assms(1,2)])
  show "msg_option DHO_DHCP_MESSAGE_TYPE os f sn = Some [ty]"
    and "msg_option DHO_DHCP_LEASE_TIME os f sn = Some a"
    and "msg_option DHO_DHCP_SERVER_IDENTIFIER os f sn = Some c"
    by (simp_all add: msg_option_def t)
qed

lemma make_ack_Some:
  assumes "make_ack_packet e nsub sip d l = Some m"
  shows "dm_wf m \<and> magic m = DHCP_MAGIC \<and> yiaddr m = be32 (l_ip l) \<and>
    xid m = take 4 (drop (msg_off + off_xid) d) \<and> chaddr m = take 16 (drop (msg_off + off_chaddr) d) \<and>
    length (options m) = DHCP_OPTIONS_SIZE \<and>
    options m = put_options ([DHO_DHCP_MESSAGE_TYPE, 1, DHCP_ACK, DHO_DHCP_LEASE_TIME, 4] @
      be32 (lease_seconds nsub l) @ [DHO_DHCP_SERVER_IDENTIFIER, 4] @ be32 sip @ [DHO_END])"
  using assms zero_msg_wf
  by (auto simp: make_ack_packet_def bind_eq_Some_conv rdn_eq_Some_iff dm_wf_def)

lemma make_offer_Some:
  assumes "make_offer_packet e nsub d l = Some m"
  shows "dm_wf m \<and> magic m = DHCP_MAGIC \<and> yiaddr m = be32 (l_ip l) \<and>
    xid m = take 4 (drop (msg_off + off_xid) d) \<and> chaddr m = take 16 (drop (msg_off + off_chaddr) d) \<and>
    length (options m) = DHCP_OPTIONS_SIZE \<and>
    options m = put_options ([DHO_DHCP_MESSAGE_TYPE, 1, DHCP_OFFER, DHO_DHCP_LEASE_TIME, 4] @
      mem32 e (lease_seconds nsub l) @ [DHO_DHCP_SERVER_IDENTIFIER, 4] @ be32 (l_ip l) @ [DHO_END])"
  using assms zero_msg_wf
  by (auto simp: make_offer_packet_def bind_eq_Some_conv rdn_eq_Some_iff dm_wf_def)

lemma make_nak_Some:
  assumes "make_nak_packet sip d = Some m"
  shows "dm_wf m \<and> magic m = DHCP_MAGIC \<and> yiaddr m = be32 0 \<and> xid m = take 4 (drop 32 d)"
proof -
  have "yiaddr zero_msg = be32 0" by (simp add: zero_msg_def be32_0)
  with assms zero_msg_wf show ?thesis
    by (auto simp: make_nak_packet_def bind_eq_Some_conv rdn_eq_Some_iff dm_wf_def)
qed

section \<open>The handlers keep the table's contract\<close>

definition client_of :: "packet \<Rightarrow> ether_addr" where
  "client_of p = take 6 (drop (msg_off + off_chaddr) (data p))"

text \<open>What \<open>push\<close> can do for a client that has a lease.\<close>

lemma ack_cases_Some:
  assumes "ack_cases e nsub now vt t d eth (Some k) ci server requested_ip = Some (t', r)"
    and "t1 = assign t k (\<lambda>l. l\<lparr>l_valid := Some True\<rparr>)" and "t2 = assign t1 k (lease_extend nsub now)"
  obtains "t' = t" "r = None"
  | m where "make_nak_packet (lt_ip t) d = Some m" "t' = t" "r = Some m"
  | m sip where "make_ack_packet e nsub sip d (deref t k) = Some m" "t' = t \<or> t' = t1" "r = Some m"
  | m sip where "make_ack_packet e nsub sip d (deref t1 k) = Some m" "t' = t1" "r = Some m"
  | m sip where "make_ack_packet e nsub sip d (deref t2 k) = Some m" "t' = t2" "r = Some m"
  using assms(1) unfolding assms(2,3)
  by (fastforce simp: ack_cases_def Let_def split: if_splits)

context lease_provider
begin

lemma offer_lease_inv: "inv t \<Longrightarrow> inv (fst (offer_lease vt t eth req))"
  using new_inv[of t eth] any_inv[of _ eth]
  by (auto simp: offer_lease_def split: option.split prod.split) (metis fst_conv)+

lemma offer_lease_rev:
  "inv t \<Longrightarrow> offer_lease vt t eth req = (t', Some k) \<Longrightarrow> vt_rev_lookup vt t' eth = Some k"
  by (auto simp: offer_lease_def split: option.splits prod.splits
      dest: new_None intro: any_rev new_rev)

lemma offer_reply_contract:
  assumes "inv t" and "offer_reply e nsub vt t p = Some (t', r)"
  shows "inv t' \<and> (\<forall>m. r = Some m \<longrightarrow>
    (\<exists>k. vt_rev_lookup vt t' (client_of p) = Some k \<and> yiaddr m = be32 (l_ip (deref t' k))))"
proof -
  from assms(2) obtain opt where f: "fetch p DHO_DHCP_REQUESTED_ADDRESS 4 = Some opt"
    by (auto simp: offer_reply_def bind_eq_Some_conv)
  define req where "req = map_option (\<lambda>i. u32_of (take 4 (drop i (data p)))) opt"
  obtain t1 l where ol1: "offer_lease vt t (client_of p) req = (t1, l)" by fastforce
  from assms(2) f have "(case l of
         Some k \<Rightarrow> Option.bind (make_offer_packet e nsub (data p) (deref t1 k)) (\<lambda>m. Some (t1, Some m))
       | None \<Rightarrow> Some (t1, None)) = Some (t', r)"
    by (simp add: offer_reply_def bind_eq_Some_conv rdn_eq_Some_iff Let_def ol1
        flip: client_of_def[simplified] req_def)
  then have ol: "offer_lease vt t (client_of p) req = (t', l)"
    and l: "case l of Some k \<Rightarrow> \<exists>m. make_offer_packet e nsub (data p) (deref t' k) = Some m \<and> r = Some m
            | None \<Rightarrow> r = None"
    using ol1 by (auto simp: bind_eq_Some_conv split: option.splits)
  from offer_lease_inv[OF assms(1), of "client_of p" req] ol have "inv t'" by simp
  moreover have "\<exists>k. vt_rev_lookup vt t' (client_of p) = Some k \<and> yiaddr m = be32 (l_ip (deref t' k))"
    if "r = Some m" for m
    using l that offer_lease_rev[OF assms(1)] ol
    by (auto split: option.splits dest!: make_offer_Some)
  ultimately show ?thesis by blast
qed

lemma assign_valid: "leases t k \<noteq> None \<Longrightarrow> leases (assign t k f) k \<noteq> None"
  by (simp add: assign_def)

lemma ack_contract:
  assumes "inv t" and "vt_rev_lookup vt t eth = Some k"
    and "map_option (\<lambda>q. (t, Some q)) (make_ack_packet e nsub sip d (deref t k)) = Some (t', r)"
  shows "inv t' \<and> (\<forall>m. r = Some m \<longrightarrow> yiaddr m = be32 0 \<or>
    (\<exists>k. vt_rev_lookup vt t' eth = Some k \<and> yiaddr m = be32 (l_ip (deref t' k))))"
  using assms by (auto dest!: make_ack_Some)

lemma ack_cases_contract:
  assumes inv: "inv t" and lease: "lease = vt_rev_lookup vt t eth"
    and res: "ack_cases e nsub now vt t d eth lease ci server requested_ip = Some (t', r)"
  shows "inv t' \<and> (\<forall>m. r = Some m \<longrightarrow> yiaddr m = be32 0 \<or>
    (\<exists>k. vt_rev_lookup vt t' eth = Some k \<and> yiaddr m = be32 (l_ip (deref t' k))))"
    (is "?C t' r")
proof (cases lease)
  case None
  show ?thesis
  proof (cases "ci = 0 \<and> requested_ip = 0")
    case True
    obtain t1 l where any: "vt_new_lease_any vt t eth = (t1, l)" by fastforce
    from any_inv[OF inv, of eth] any have "inv t1" by simp
    with True None res any any_rev[OF inv] ack_contract[of t1 eth] show ?thesis
      by (auto simp: ack_cases_def split: option.splits)
  next
    case False
    with None res inv show ?thesis by (auto simp: ack_cases_def Let_def split: if_splits)
  qed
next
  case (Some k)
  let ?t1 = "assign t k (\<lambda>l. l\<lparr>l_valid := Some True\<rparr>)"
  let ?t2 = "assign ?t1 k (lease_extend nsub now)"
  from Some lease have rev: "vt_rev_lookup vt t eth = Some k" by simp
  note k = rev_valid[OF rev]
  have t1: "inv ?t1" "vt_rev_lookup vt ?t1 eth = Some k" "leases ?t1 k \<noteq> None"
    using inv k rev by (auto intro!: assign_inv simp: assign_rev assign_valid)
  have t2: "inv ?t2" "vt_rev_lookup vt ?t2 eth = Some k"
    using t1 by (auto intro!: assign_inv simp: assign_rev)
  have ip: "l_ip (deref ?t1 k) = l_ip (deref t k)" by (simp add: assign_def deref_def)
  show ?thesis
  proof (rule ack_cases_Some[OF res[unfolded Some] refl refl], goal_cases)
    case (3 m sip)
    with make_ack_Some[OF 3(1)] ip inv rev t1 show ?case by auto
  next
    case (4 m sip)
    with make_ack_Some[OF 4(1)] t1 show ?case by auto
  next
    case (5 m sip)
    with make_ack_Some[OF 5(1)] t2 show ?case by auto
  qed (use inv in \<open>auto dest!: make_nak_Some\<close>)
qed

lemma ack_reply_contract:
  assumes "inv t" and "ack_reply e nsub now vt t p = Some (t', r)"
  shows "inv t' \<and> (\<forall>m. r = Some m \<longrightarrow> yiaddr m = be32 0 \<or>
    (\<exists>k. vt_rev_lookup vt t' (client_of p) = Some k \<and> yiaddr m = be32 (l_ip (deref t' k))))"
  using assms(2)
  by (auto simp: ack_reply_def client_of_def bind_eq_Some_conv rdn_eq_Some_iff Let_def
      dest!: ack_cases_contract[OF assms(1) refl])

lemma release_inv:
  "inv t \<Longrightarrow> release_push vt t p = Some t' \<Longrightarrow> inv t'"
  by (auto simp: release_push_def bind_eq_Some_conv remove_inv split: if_splits)

end

section \<open>A server on a pool\<close>

text \<open>
  The states of a pool that serves messages: every handler is run with its own reading of
  the clock, in any order and on any packets.
\<close>

inductive server_reachable :: "ip_addr \<Rightarrow> ip_addr \<Rightarrow> lease_pool \<Rightarrow> bool" for s e where
  srv_init: "pool_configure eth ip subnet s e = Some t \<Longrightarrow> server_reachable s e t"
| srv_offer: "server_reachable s e t \<Longrightarrow>
    offer_push en lib nsub (pool_vtable nsub now) pkt_id t p = Some (t', r) \<Longrightarrow> server_reachable s e t'"
| srv_ack: "server_reachable s e t \<Longrightarrow>
    ack_push en lib nsub now (pool_vtable nsub now) pkt_id t p = Some (t', r) \<Longrightarrow> server_reachable s e t'"
| srv_release: "server_reachable s e t \<Longrightarrow>
    release_push (pool_vtable nsub now) t p = Some t' \<Longrightarrow> server_reachable s e t'"

lemma push_replies:
  "offer_push en lib nsub vt pkt_id t p = Some (t', r) \<Longrightarrow> \<exists>q. offer_reply en nsub vt t p = Some (t', q)"
  "ack_push en lib nsub now vt pkt_id t p = Some (t', r) \<Longrightarrow> \<exists>q. ack_reply en nsub now vt t p = Some (t', q)"
  by (auto simp: offer_push_def ack_push_def send_reply_def Let_def case_prod_unfold
      split: option.splits)

lemma offer_lease_steps:
  "pool_step\<^sup>*\<^sup>* t (fst (offer_lease (pool_vtable nsub now) t eth req))"
proof -
  have new: "pool_step t t1" if "pool_new_lease nsub now t eth ip = (t1, l)" for t1 l ip
    using step_new[of t nsub now eth ip] that by simp
  have any: "pool_step t1 (fst (pool_new_lease_any nsub now t1 eth))" for t1 by (rule step_any)
  show ?thesis
    by (auto simp: offer_lease_def split: option.split prod.split
        intro: new any r_into_rtranclp rtranclp.rtrancl_into_rtrancl)
qed

lemma offer_reply_steps:
  assumes "offer_reply en nsub (pool_vtable nsub now) t p = Some (t', r)"
  shows "pool_step\<^sup>*\<^sup>* t t'"
proof -
  obtain eth req where "t' = fst (offer_lease (pool_vtable nsub now) t eth req)"
    using assms
    by (fastforce simp: offer_reply_def bind_eq_Some_conv Let_def case_prod_unfold split: option.splits)
  then show ?thesis by (simp add: offer_lease_steps)
qed

lemma ack_cases_steps:
  assumes "ack_cases en nsub now (pool_vtable nsub now) t d eth (table_rev_lookup t eth) ci sv rq = Some (t', r)"
  shows "pool_step\<^sup>*\<^sup>* t t'"
proof (cases "table_rev_lookup t eth")
  case None
  have "t' = t \<or> t' = fst (pool_new_lease_any nsub now t eth)"
    using assms None by (auto simp: ack_cases_def Let_def split: if_splits option.splits prod.splits)
  then show ?thesis by (auto intro: step_any)
next
  case (Some k)
  let ?t1 = "assign t k (\<lambda>l. l\<lparr>l_valid := Some True\<rparr>)"
  have s1: "pool_step t ?t1" by (rule step_valid[OF Some])
  have "table_rev_lookup ?t1 eth = Some k" using Some by (simp add: assign_rev_lookup rev_lookup_Some)
  then have "pool_step ?t1 (assign ?t1 k (lease_extend nsub now))" by (rule step_extend)
  with s1 have s2: "pool_step\<^sup>*\<^sup>* t (assign ?t1 k (lease_extend nsub now))" by simp
  show ?thesis
    by (rule ack_cases_Some[OF assms[unfolded Some] refl refl]) (use s1 s2 in auto)
qed

lemma ack_reply_steps:
  assumes "ack_reply en nsub now (pool_vtable nsub now) t p = Some (t', r)"
  shows "pool_step\<^sup>*\<^sup>* t t'"
  using assms by (auto simp: ack_reply_def bind_eq_Some_conv Let_def intro: ack_cases_steps)

lemma release_steps: "release_push (pool_vtable nsub now) t p = Some t' \<Longrightarrow> pool_step\<^sup>*\<^sup>* t t'"
  using r_into_rtranclp[of pool_step, OF step_remove]
  by (fastforce simp: release_push_def bind_eq_Some_conv split: if_splits)

lemma pool_reachable_steps: "pool_step\<^sup>*\<^sup>* t t' \<Longrightarrow> pool_reachable s e t \<Longrightarrow> pool_reachable s e t'"
  by (induction rule: rtranclp_induct) (auto intro: reach_step)

lemma server_reachable_pool: "server_reachable s e t \<Longrightarrow> pool_reachable s e t"
proof (induction rule: server_reachable.induct)
  case (srv_init eth ip subnet t)
  then show ?case by (rule reach_init)
qed (auto dest!: push_replies offer_reply_steps ack_reply_steps release_steps elim: pool_reachable_steps)

lemma pool_reply_own:
  assumes "pool_reachable s e t"
    and "offer_reply en nsub (pool_vtable nsub now) t p = Some (t', Some m) \<or>
         ack_reply en nsub now (pool_vtable nsub now) t p = Some (t', Some m)"
    and "yiaddr m \<noteq> be32 0"
  shows "\<exists>ip. yiaddr m = be32 ip \<and> ip \<in> {s..e} \<and> table_rev_lookup t' (client_of p) = Some ip \<and>
    l_eth (deref t' ip) = client_of p"
proof -
  from assms(2) have "pool_reachable s e t'"
    using assms(1) offer_reply_steps ack_reply_steps pool_reachable_steps by blast
  from pool_reachable_inv[OF this] have inv': "pool_inv t'" and m: "managed t' = {s..e}"
    by auto
  from pool_reachable_inv[OF assms(1)] have "pool_inv t" by simp
  then obtain k where k: "table_rev_lookup t' (client_of p) = Some k"
      "yiaddr m = be32 (l_ip (deref t' k))"
    using assms(2,3) pool.offer_reply_contract[of t en nsub nsub now p t' "Some m"]
      pool.ack_reply_contract[of t en nsub now nsub now p t' "Some m"] by auto
  with pool.rev_own[OF inv', of nsub now "client_of p" k]
  have "l_ip (deref t' k) = k" "l_eth (deref t' k) = client_of p" by simp_all
  moreover have "k \<in> managed t'" using k by (auto simp: managed_def rev_lookup_Some)
  ultimately show ?thesis using k m by auto
qed

section \<open>Release and classification against the option semantics\<close>

lemma release_push_eq:
  assumes "248 \<le> transport_length p"
  shows "release_push vt t p =
    (case packet_option p DHO_DHCP_SERVER_IDENTIFIER of
       Some v \<Rightarrow>
         if length v = 4
         then Some (if u32_of v = lt_ip t then vt_remove vt t (client_of p) else t)
         else None
     | None \<Rightarrow> None)"
proof -
  from assms have len: "76 \<le> length (data p)" and base: "thoff p + 8 + 240 \<le> length (data p)"
    by (simp_all add: transport_length_def)
  then have eth: "rdn (data p) 70 6 = Some (client_of p)" by (simp add: client_of_def)
  from fetch_refines[OF assms, of 54 4] obtain r where r: "fetch p 54 4 = Some r"
    "map_option (\<lambda>j. take 4 (drop j (data p))) r =
      (case packet_option p 54 of Some v \<Rightarrow> if length v = 4 then Some v else None | None \<Rightarrow> None)"
    by blast
  from fetch_Some_len[OF base, of 54 4] r(1)
  have "\<forall>j. r = Some j \<longrightarrow> j + 4 \<le> length (data p)" by simp
  then show ?thesis
    using r eth by (cases r) (auto simp: release_push_def split: option.splits if_splits)
qed

lemma classifier_push_eq:
  assumes "248 \<le> transport_length p"
  shows "classifier_push m p =
    (let port = (case packet_option p DHO_DHCP_MESSAGE_TYPE of
                   Some v \<Rightarrow> if length v = 1 then m (hd v) else - 1
                 | None \<Rightarrow> - 1)
     in Some (if port < 0 then m DHCP_REST else port))"
proof -
  from assms have base: "thoff p + 8 + 240 \<le> length (data p)"
    by (simp add: transport_length_def)
  from fetch_refines[OF assms, of 53 1] obtain r where r: "fetch p 53 1 = Some r"
    "map_option (\<lambda>j. take 1 (drop j (data p))) r =
      (case packet_option p 53 of Some v \<Rightarrow> if length v = 1 then Some v else None | None \<Rightarrow> None)"
    by blast
  from fetch_Some_len[OF base, of 53 1] r(1)
  have len: "j < length (data p)" if "r = Some j" for j using that by simp
  show ?thesis
  proof (cases r)
    case None
    with r show ?thesis
      by (auto simp: classifier_push_def Let_def split: option.splits if_splits)
  next
    case (Some j)
    note hd = hd_drop_conv_nth[OF len[OF Some]]
    with Some r len[OF Some] show ?thesis
      by (auto simp: classifier_push_def Let_def split: option.splits if_splits)
  qed
qed

lemma classifier_key_inj:
  "classifier_key s = Some k \<Longrightarrow> classifier_key s' = Some k \<Longrightarrow> s = s'"
  by (auto simp: classifier_key_def split: if_splits)

lemma classifier_args_keep:
  "classifier_args n conf m = Inr m' \<Longrightarrow> (\<forall>s \<in> set conf. classifier_key s \<noteq> Some k) \<Longrightarrow> m' k = m k"
  by (induction n conf m rule: classifier_args.induct) (auto split: option.splits)

lemma classifier_args_port:
  assumes "classifier_args n conf m = Inr m'" and "distinct conf"
    and "i < length conf" and "classifier_key (conf ! i) = Some k"
  shows "m' k = n + int i"
  using assms
proof (induction n conf m arbitrary: i rule: classifier_args.induct)
  case (2 argno s conf m)
  then obtain k' where k': "classifier_key s = Some k'" by (auto split: option.splits)
  show ?case
  proof (cases i)
    case 0
    with 2 k' have "\<forall>s' \<in> set conf. classifier_key s' \<noteq> Some k"
      using classifier_key_inj by fastforce
    with 0 2 k' classifier_args_keep[of "argno + 1" conf "m(k := argno)" m' k] show ?thesis by simp
  next
    case (Suc j)
    with 2(2-5) k' show ?thesis using "2.IH"[OF k' _ _, of j] by (simp del: fun_upd_apply)
  qed
qed simp

section \<open>Properties\<close>

text \<open>
  Property C3: whatever messages a server on a pool has handled, an address it offers or
  acknowledges lies in the configured range, is the one its table holds for the requesting
  hardware address, and the lease record names that client.
\<close>

theorem server_replies_own_lease:
  assumes "server_reachable s e t"
    and "offer_reply en nsub (pool_vtable nsub now) t p = Some (t', Some m) \<or>
         ack_reply en nsub now (pool_vtable nsub now) t p = Some (t', Some m)"
    and "yiaddr m \<noteq> be32 0"
  shows "\<exists>ip. yiaddr m = be32 ip \<and> ip \<in> {s..e} \<and> table_rev_lookup t' (client_of p) = Some ip \<and>
    l_eth (deref t' ip) = client_of p"
  using assms by (intro pool_reply_own[OF server_reachable_pool])

text \<open>A DISCOVER as it arrives: Ethernet, IP and UDP header bytes, then the message.\<close>

definition demo_msg :: "byte list \<Rightarrow> dhcpMessage" where
  "demo_msg os = zero_msg\<lparr>op := DHCP_BOOTREQUEST, htype := 1, hlen := 6, xid := [1, 2, 3, 4],
     chaddr := [1, 2, 3, 4, 5, 6] @ replicate 10 0, magic := DHCP_MAGIC, options := os\<rparr>"

definition demo_packet :: "byte list \<Rightarrow> packet" where
  "demo_packet os = \<lparr>data = replicate 42 0 @ dm_bytes (demo_msg os), thoff = 34\<rparr>"

lemma demo_msg_wf: "dm_wf (demo_msg os)"
  by (simp add: demo_msg_def dm_wf_def zero_msg_def)

lemma demo_packet_option:
  "packet_option (demo_packet os) want = msg_option want os (replicate 128 0) (replicate 64 0)"
proof -
  have "packet_option (demo_packet os) want =
      msg_option want (options (demo_msg os)) (bfile (demo_msg os)) (sname (demo_msg os))"
    by (rule packet_option_msg[OF demo_msg_wf]) (auto simp: demo_packet_def demo_msg_def)
  then show ?thesis by (simp add: demo_msg_def zero_msg_def)
qed

lemma demo_packet_reads:
  "client_of (demo_packet os) = [1, 2, 3, 4, 5, 6]"
  "rdn (data (demo_packet os)) 70 6 = Some [1, 2, 3, 4, 5, 6]"
  "rdn (data (demo_packet os)) 70 16 = Some ([1, 2, 3, 4, 5, 6] @ replicate 10 0)"
  "rdn (data (demo_packet os)) 46 4 = Some [1, 2, 3, 4]"
  "transport_length (demo_packet os) = 248 + length os"
  by (simp_all add: client_of_def demo_packet_def demo_msg_def dm_bytes_def zero_msg_def
      transport_length_def)

lemma fetch_demo_None:
  "msg_option want os (replicate 128 0) (replicate 64 0) = None \<Longrightarrow> fetch (demo_packet os) want n = Some None"
  using fetch_refines[of "demo_packet os" want n]
  by (simp add: demo_packet_reads demo_packet_option)

lemma demo_offer:
  "\<exists>t' m. offer_reply LittleEndian 1 (pool_vtable 1 0) demo_pool (demo_packet [53, 1, 1, 255]) =
     Some (t', Some m) \<and> yiaddr m = be32 5"
proof -
  have "fetch (demo_packet [53, 1, 1, 255]) 50 4 = Some None"
    by (rule fetch_demo_None) (simp add: msg_option_def)
  then show ?thesis
    by (simp add: offer_reply_def demo_packet_reads offer_lease_def demo_pool_def pool_defs table_defs
        make_offer_packet_def)
qed

theorem server_replies_own_lease_witness:
  "\<exists>t' m ip. offer_reply LittleEndian 1 (pool_vtable 1 0) demo_pool (demo_packet [53, 1, 1, 255]) =
      Some (t', Some m) \<and> yiaddr m = be32 ip \<and> ip \<in> {5..6} \<and>
    table_rev_lookup t' [1, 2, 3, 4, 5, 6] = Some ip"
proof -
  obtain t' m where o: "offer_reply LittleEndian 1 (pool_vtable 1 0) demo_pool
      (demo_packet [53, 1, 1, 255]) = Some (t', Some m)" and y: "yiaddr m = be32 5"
    using demo_offer by blast
  have "server_reachable 5 6 demo_pool" by (rule srv_init) (rule demo_pool_configure)
  from server_replies_own_lease[OF this disjI1, OF o] y o show ?thesis
    by (auto simp: be32_inj demo_packet_reads)
qed

text \<open>
  An ACK reads back as what the server meant. A receiver that parses the
  message built by \<open>make_ack_packet\<close>, behind any headers, finds message type 5, the lease
  duration in seconds in network order, the server's own address as server identifier, the
  leased address as \<open>yiaddr\<close>, and the transaction id and hardware address of the request.
\<close>

theorem ack_reads_back:
  assumes "make_ack_packet en nsub server_ip d l = Some m"
    and "data p = pre @ dm_bytes m" and "length pre = thoff p + sizeof_udp"
  shows "packet_option p DHO_DHCP_MESSAGE_TYPE = Some [DHCP_ACK] \<and>
    packet_option p DHO_DHCP_LEASE_TIME = Some (be32 (lease_seconds nsub l)) \<and>
    packet_option p DHO_DHCP_SERVER_IDENTIFIER = Some (be32 server_ip) \<and>
    yiaddr m = be32 (l_ip l) \<and> xid m = take 4 (drop 46 d) \<and> chaddr m = take 16 (drop 70 d)"
  using make_ack_Some[OF assms(1)]
  by (auto simp: packet_option_msg[OF _ _ assms(2,3)] msg_option_typed[OF _ _ refl, simplified])

definition demo_lease :: lease where
  "demo_lease = fresh_lease 1 0 [1, 2, 3, 4, 5, 6] 5"

theorem ack_reads_back_witness:
  "\<exists>m. make_ack_packet LittleEndian 1 9 (replicate 100 0) demo_lease = Some m \<and>
     packet_option \<lparr>data = replicate 42 0 @ dm_bytes m, thoff = 34\<rparr> DHO_DHCP_LEASE_TIME = Some (be32 60)"
proof -
  obtain m where m: "make_ack_packet LittleEndian 1 9 (replicate 100 0) demo_lease = Some m"
    by (simp add: make_ack_packet_def)
  from ack_reads_back[OF m, of "\<lparr>data = replicate 42 0 @ dm_bytes m, thoff = 34\<rparr>" "replicate 42 0"] m
  show ?thesis by (simp add: lease_seconds_def ts_sec_def demo_lease_def)
qed

text \<open>
  An OFFER does not read back that way. The lease time is copied in host byte
  order, so a little-endian server announces the byte-swapped number of seconds, and the
  server identifier is the offered address and not the address of the server.
\<close>

theorem offer_reads_back:
  assumes "make_offer_packet en nsub d l = Some m"
    and "data p = pre @ dm_bytes m" and "length pre = thoff p + sizeof_udp"
  shows "packet_option p DHO_DHCP_MESSAGE_TYPE = Some [DHCP_OFFER] \<and>
    packet_option p DHO_DHCP_LEASE_TIME = Some (be32 (htonl en (lease_seconds nsub l))) \<and>
    packet_option p DHO_DHCP_SERVER_IDENTIFIER = Some (be32 (l_ip l)) \<and>
    yiaddr m = be32 (l_ip l) \<and> xid m = take 4 (drop 46 d)"
proof -
  have "mem32 en w = be32 (htonl en w)" for w
    using mem32_htonl[of en "htonl en w"] by simp
  with make_offer_Some[OF assms(1)] show ?thesis
    by (auto simp: packet_option_msg[OF _ _ assms(2,3)] msg_option_typed[OF _ _ refl, simplified])
qed

text \<open>With the 60 second leases of both allocators a little-endian server offers 1006632960 seconds.\<close>

theorem offer_reads_back_witness:
  "\<exists>m. make_offer_packet LittleEndian 1 (replicate 100 0) demo_lease = Some m \<and>
     packet_option \<lparr>data = replicate 42 0 @ dm_bytes m, thoff = 34\<rparr> DHO_DHCP_LEASE_TIME =
       Some (be32 1006632960)"
proof -
  obtain m where m: "make_offer_packet LittleEndian 1 (replicate 100 0) demo_lease = Some m"
    by (simp add: make_offer_packet_def)
  have "htonl LittleEndian 60 = 1006632960"
    by (simp add: htonl_def u32_of_def be32_def be_bytes_rec[of 4] be_bytes_rec[of 3]
        be_bytes_rec[of 2] be_bytes_rec[of 1] be_val_def)
  with offer_reads_back[OF m, of "\<lparr>data = replicate 42 0 @ dm_bytes m, thoff = 34\<rparr>" "replicate 42 0"] m
  show ?thesis by (simp add: lease_seconds_def ts_sec_def demo_lease_def)
qed

text \<open>
  On a message with a whole fixed part, \<open>DHCPServerRelease\<close> releases the
  sender's lease exactly when the server identifier option names this server, and ignores
  another server's identifier; a RELEASE without that option (or with one that is not four
  bytes long) makes the handler read through a null pointer.
\<close>

theorem release_by_server_id:
  assumes "248 \<le> transport_length p"
  shows "release_push (pool_vtable nsub now) t p =
    (case packet_option p DHO_DHCP_SERVER_IDENTIFIER of
       Some v \<Rightarrow>
         if length v = 4
         then Some (if u32_of v = lt_ip t then pool_remove t (client_of p) else t)
         else None
     | None \<Rightarrow> None)"
  by (simp add: release_push_eq[OF assms] split: option.split)

theorem release_by_server_id_witness:
  "release_push (pool_vtable 1 0) demo_pool (demo_packet [53, 1, 7, 54, 4, 0, 0, 0, 1, 255, 0]) =
     Some (pool_remove demo_pool [1, 2, 3, 4, 5, 6]) \<and>
   release_push (pool_vtable 1 0) demo_pool (demo_packet [53, 1, 7, 255, 0]) = None"
proof -
  let ?p = "demo_packet [53, 1, 7, 54, 4, 0, 0, 0, 1, 255, 0]" and ?q = "demo_packet [53, 1, 7, 255, 0]"
  have "packet_option ?p 54 = Some [0, 0, 0, 1]" "packet_option ?q 54 = None"
    by (simp_all add: demo_packet_option msg_option_def)
  with release_by_server_id[of ?p 1 0 demo_pool] release_by_server_id[of ?q 1 0 demo_pool]
  show ?thesis by (simp add: demo_packet_reads u32_of_def be_val_def demo_pool_def)
qed

text \<open>
  A NAK does not answer the request it is built from. \<open>make_nak_packet\<close> leaves
  out the Ethernet header when it looks for the request, so the transaction id of the NAK is
  made of the end of the IP destination address and the UDP source port.
\<close>

theorem nak_transaction_id:
  assumes "make_nak_packet server_ip (eth_h @ ip_h @ udp_h @ dm_bytes rq) = Some m"
    and "length eth_h = sizeof_ether" and "length ip_h = sizeof_ip" and "length udp_h = sizeof_udp"
  shows "xid m = drop 18 ip_h @ take 2 udp_h"
  using make_nak_Some[OF assms(1)] assms(2-4) by simp

theorem nak_transaction_id_witness:
  "\<exists>m. make_nak_packet 1 (replicate 14 0 @ replicate 20 9 @ replicate 8 7 @ dm_bytes (demo_msg [])) = Some m \<and>
     xid m = [9, 9, 7, 7]"
proof -
  let ?d = "replicate 14 0 @ replicate 20 9 @ replicate 8 7 @ dm_bytes (demo_msg [])"
  have "length (dm_bytes (demo_msg [])) = 240"
    using dm_bytes_areas(8)[OF demo_msg_wf] by (simp add: demo_msg_def)
  then obtain m where m: "make_nak_packet 1 ?d = Some m"
    by (simp add: make_nak_packet_def rdn_def)
  with nak_transaction_id[OF m] show ?thesis by (simp add: numeral_eq_Suc)
qed

text \<open>
  \<open>DHCPClassifier\<close> sends a message to the output whose keyword names its type:
  with distinct keywords, a message whose type is the one of keyword number \<open>i\<close> leaves on
  port \<open>i\<close>, and a message of a type no keyword names leaves on the port of the keyword \<open>-\<close>.
\<close>

theorem classifier_dispatch:
  assumes "classifier_configure n conf = Inr m" and "distinct conf" and "i < n"
    and "248 \<le> transport_length p" and "packet_option p DHO_DHCP_MESSAGE_TYPE = Some [ty]"
    and "classifier_key (conf ! i) = Some ty \<or>
         conf ! i = ''-'' \<and> (\<forall>s \<in> set conf. classifier_key s \<noteq> Some ty)"
  shows "classifier_push m p = Some (int i)"
proof -
  from assms(1) have args: "classifier_args 0 conf (\<lambda>_. - 1) = Inr m" and n: "length conf = n"
    by (auto simp: classifier_configure_def split: if_splits)
  have "m ty = int i" if "classifier_key (conf ! i) = Some ty"
    using classifier_args_port[OF args assms(2) _ that] assms(3) n by simp
  moreover have "m ty = - 1 \<and> m DHCP_REST = int i"
    if "conf ! i = ''-''" "\<forall>s \<in> set conf. classifier_key s \<noteq> Some ty"
    using classifier_args_port[OF args assms(2), of i DHCP_REST] that assms(3) n
      classifier_args_keep[OF args that(2)] by (simp add: classifier_key_def)
  ultimately show ?thesis
    using assms(6) by (auto simp: classifier_push_eq[OF assms(4)] assms(5))
qed

theorem classifier_dispatch_witness:
  "\<exists>m. classifier_configure 2 [''discover'', ''-''] = Inr m \<and>
     classifier_push m (demo_packet [53, 1, 1, 255]) = Some 0 \<and>
     classifier_push m (demo_packet [53, 1, 7, 255]) = Some 1"
proof -
  obtain m where m: "classifier_configure 2 [''discover'', ''-''] = Inr m"
    by (simp add: classifier_configure_def classifier_key_def)
  show ?thesis
    using m classifier_dispatch[OF m, of 0 "demo_packet [53, 1, 1, 255]" 1]
      classifier_dispatch[OF m, of 1 "demo_packet [53, 1, 7, 255]" 7]
    by (simp add: demo_packet_reads demo_packet_option msg_option_def classifier_key_def)
qed

end
