(* ===== verification/DHCP_Client.thy ===== *)
theory DHCP_Client
  imports DHCP_Options
begin

text \<open>
  The DHCP client element (\<open>dhcp/package/dhcpclient.{hh,cc}\<close>): its state and timers, the
  messages it builds, the packet handler \<open>push\<close>, the choice among the offers, the timer
  callbacks and the write handlers. Packets are allocated without failure. A handler takes
  the environment of the call (clock, random numbers, byte order) and the element state, and
  returns the new state and what it emitted; \<^const>\<open>None\<close> is a read outside of a packet or
  through a null packet pointer.
\<close>

section \<open>State\<close>

datatype client_timer = T_TIMEOUT | T_SELECT | T_RESEND_DISCOVER | T_RESEND_REQUEST
  | T_RENEW | T_REBIND | T_LEASE_EXPIRED

datatype client_state = INIT_STATE | SELECTING_STATE | REQUESTING_STATE | INIT_REBOOT
  | REBOOTING | BOUND | RENEWING | REBINDING

text \<open>
  \<open>timers\<close> maps a scheduled timer to the delay, in seconds, it was scheduled with.
  \<open>curr_xid\<close> is the four bytes of the field in memory. \<open>offers\<close> is the linked list of
  packets, latest first.
\<close>

record client =
  timers :: "client_timer \<Rightarrow> u32 option"
  curr_backoff :: int
  cstate :: client_state
  curr_xid :: "byte list"
  ethAddr :: ether_addr
  my_ip :: ip_addr
  server_ip :: ip_addr
  lease_duration :: u32
  start_timestamp_sec :: u32
  t1_timestamp_sec :: u32
  t2_timestamp_sec :: u32
  lease_expired_sec :: u32
  offers :: "packet list"
  best_offer :: "packet option"
  has_lease_call :: bool

text \<open>
  What one call sees of its environment: the byte order, the current second, the value of
  \<open>click_random()\<close>, the values of the two calls of \<open>click_random(0, 9)\<close>, and the range and
  the value of the dice in \<open>rand_exp_backoff\<close>.
\<close>

record client_env =
  ce_endian :: endian
  ce_now :: u32
  ce_random :: u32
  ce_jitter1 :: u32
  ce_jitter2 :: u32
  ce_rand_max :: u32
  ce_dice :: u32

datatype client_output = Output nat "byte list" | LeaseCall string

abbreviation (input) "initial_interval_sec \<equiv> 4 :: int"
abbreviation (input) "backoff_cutoff_sec \<equiv> 16 :: int"
abbreviation (input) "timeout_sec \<equiv> 60 :: u32"
abbreviation (input) "select_interval_sec \<equiv> 1 :: u32"

definition schedule :: "client_timer \<Rightarrow> u32 \<Rightarrow> client \<Rightarrow> client" where
  "schedule t d c = c\<lparr>timers := (timers c)(t \<mapsto> d)\<rparr>"

definition unschedule :: "client_timer \<Rightarrow> client \<Rightarrow> client" where
  "unschedule t c = c\<lparr>timers := (timers c)(t := None)\<rparr>"

definition scheduled :: "client_timer \<Rightarrow> client \<Rightarrow> bool" where
  "scheduled t c \<longleftrightarrow> timers c t \<noteq> None"

section \<open>Messages\<close>

definition make_bootrequest ::
    "client \<Rightarrow> byte \<Rightarrow> ip_addr \<Rightarrow> byte list \<Rightarrow> dhcpMessage" where
  "make_bootrequest c mtype ci x =
     zero_msg\<lparr>op := DHCP_BOOTREQUEST, htype := ARPHRD_ETHER, hlen := 6, xid := x,
       ciaddr := be32 ci, chaddr := put_at 0 (ethAddr c) (replicate 16 0), magic := DHCP_MAGIC,
       options := put_at 0 [DHO_DHCP_MESSAGE_TYPE, 1, mtype] (replicate DHCP_OPTIONS_SIZE 0)\<rparr>"

text \<open>
  The options behind the message type: written at \<open>dm->options + 3\<close>, and the rest of the
  options field cut off by \<open>q->take\<close>.
\<close>

definition end_options :: "byte list \<Rightarrow> dhcpMessage \<Rightarrow> dhcpMessage" where
  "end_options os q = q\<lparr>options := take (3 + length os) (put_at 3 os (options q))\<rparr>"

definition make_request_with_ciaddr :: "client_env \<Rightarrow> client \<Rightarrow> client \<times> dhcpMessage" where
  "make_request_with_ciaddr env c =
     (let q = make_bootrequest c DHCP_REQUEST (my_ip c) (mem32 (ce_endian env) (ce_random env))
      in (c\<lparr>curr_xid := xid q\<rparr>, end_options [DHO_END] q))"

text \<open>\<open>make_request(offer)\<close>; the argument is a packet pointer and may be null.\<close>

definition make_request :: "client \<Rightarrow> packet option \<Rightarrow> dhcpMessage option" where
  "make_request c offer =
     do {
       p \<leftarrow> offer;
       let base = thoff p + sizeof_udp;
       x \<leftarrow> rdn (data p) (base + off_xid) 4;
       let q = make_bootrequest c DHCP_REQUEST 0 x;
       o1 \<leftarrow> (if cstate c \<in> {SELECTING_STATE, INIT_REBOOT, REBOOTING}
              then map_option (\<lambda>y. [DHO_DHCP_REQUESTED_ADDRESS, 4] @ y)
                     (rdn (data p) (base + off_yiaddr) 4)
              else Some []);
       leaseo \<leftarrow> fetch p DHO_DHCP_LEASE_TIME 4;
       let o2 = (case leaseo of
                   None \<Rightarrow> []
                 | Some i \<Rightarrow> [DHO_DHCP_LEASE_TIME, 4] @ take 4 (drop i (data p)));
       o3 \<leftarrow> (if cstate c = SELECTING_STATE
              then do {
                servero \<leftarrow> fetch p DHO_DHCP_SERVER_IDENTIFIER 4;
                Some (case servero of
                        None \<Rightarrow> []
                      | Some i \<Rightarrow> [DHO_DHCP_SERVER_IDENTIFIER, 4] @ take 4 (drop i (data p)))
              }
              else Some []);
       Some (end_options (o1 @ o2 @ o3 @ [DHO_END]) q)
     }"

definition make_release :: "client_env \<Rightarrow> client \<Rightarrow> client \<times> dhcpMessage" where
  "make_release env c =
     (let q = make_bootrequest c DHCP_RELEASE (my_ip c) (mem32 (ce_endian env) (ce_random env))
      in (c\<lparr>curr_xid := xid q\<rparr>,
          end_options ([DHO_DHCP_SERVER_IDENTIFIER, 4] @ be32 (server_ip c) @ [DHO_END]) q))"

definition make_discovery :: "client_env \<Rightarrow> client \<Rightarrow> client \<times> dhcpMessage" where
  "make_discovery env c =
     (let e = ce_endian env;
          q = make_bootrequest c DHCP_DISCOVER 0 (mem32 e (ce_random env));
          o1 = (if my_ip c \<noteq> 0 then [DHO_DHCP_REQUESTED_ADDRESS, 4] @ be32 (my_ip c) else []);
          o2 = (if 0 < lease_duration c
                then [DHO_DHCP_LEASE_TIME, 4] @ mem32 e (htonl e (lease_duration c)) else [])
      in (c\<lparr>curr_xid := xid q\<rparr>, end_options (o1 @ o2 @ [DHO_END]) q))"

section \<open>The lease\<close>

text \<open>Decimal numbers and dotted addresses, as \<open>StringAccum\<close> writes them.\<close>

definition digit :: "nat \<Rightarrow> char" where
  "digit d = char_of (48 + d)"

fun decimal :: "nat \<Rightarrow> string" where
  "decimal n = (if n < 10 then [digit n] else decimal (n div 10) @ [digit (n mod 10)])"

declare decimal.simps [simp del]

definition unparse_ip :: "ip_addr \<Rightarrow> string" where
  "unparse_ip ip =
     (case map (\<lambda>b. decimal (unat b)) (be32 ip) of
        [a, b, c, d] \<Rightarrow> a @ ''.'' @ b @ ''.'' @ c @ ''.'' @ d
      | _ \<Rightarrow> '''')"

definition unparse_lease :: "client \<Rightarrow> string" where
  "unparse_lease c =
     (if lease_duration c \<noteq> 0 then ''true'' else ''false'') @ '' '' @ unparse_ip (my_ip c) @
     (if lease_duration c \<noteq> 0
      then '' '' @ unparse_ip (server_ip c) @ '' '' @ decimal (unat (start_timestamp_sec c)) @
           '' '' @ decimal (unat (lease_expired_sec c))
      else '''')"

text \<open>The timer part of \<open>save_lease\<close>, all in 32-bit arithmetic.\<close>

definition set_lease_times :: "client_env \<Rightarrow> u32 \<Rightarrow> client \<Rightarrow> client" where
  "set_lease_times env d c =
     (let now_sec = ce_now env;
          c1 = c\<lparr>lease_duration := d, start_timestamp_sec := now_sec,
                 t1_timestamp_sec := d div 2 + now_sec, t2_timestamp_sec := d * 7 div 8 + now_sec,
                 lease_expired_sec := d + now_sec\<rparr>
      in schedule T_LEASE_EXPIRED d
           (schedule T_REBIND (d * 7 div 8 + ce_jitter2 env)
             (schedule T_RENEW (d div 2 + ce_jitter1 env) c1)))"

definition clear_lease_times :: "client \<Rightarrow> client" where
  "clear_lease_times c =
     unschedule T_LEASE_EXPIRED (unschedule T_REBIND (unschedule T_RENEW
       (c\<lparr>start_timestamp_sec := 0, t1_timestamp_sec := 0, t2_timestamp_sec := 0,
          lease_expired_sec := 0, lease_duration := 0xFFFFFFFF\<rparr>)))"

definition save_lease :: "client_env \<Rightarrow> packet \<Rightarrow> client \<Rightarrow> (client \<times> client_output list) option" where
  "save_lease env p c =
     do {
       y \<leftarrow> rdn (data p) (thoff p + sizeof_udp + off_yiaddr) 4;
       let c0 = c\<lparr>my_ip := u32_of y\<rparr>;
       leaseo \<leftarrow> fetch p DHO_DHCP_LEASE_TIME 4;
       let c1 = (case leaseo of
                   Some i \<Rightarrow> set_lease_times env (u32_of (take 4 (drop i (data p)))) c0
                 | None \<Rightarrow> clear_lease_times c0);
       srvo \<leftarrow> fetch p DHO_DHCP_SERVER_IDENTIFIER 4;
       let c2 = c1\<lparr>server_ip := (case srvo of
                                   Some i \<Rightarrow> u32_of (take 4 (drop i (data p)))
                                 | None \<Rightarrow> 0)\<rparr>;
       Some (c2, if has_lease_call c2 then [LeaseCall (unparse_lease c2)] else [])
     }"

section \<open>States\<close>

definition enter_init_state :: "client_env \<Rightarrow> client \<Rightarrow> client" where
  "enter_init_state env c =
     schedule T_RESEND_DISCOVER (ce_jitter1 env)
       (schedule T_TIMEOUT timeout_sec
         (c\<lparr>cstate := INIT_STATE, timers := Map.empty, t1_timestamp_sec := 0,
            t2_timestamp_sec := 0, lease_expired_sec := 0\<rparr>))"

definition enter_rebooting_state :: "client \<Rightarrow> client" where
  "enter_rebooting_state c = c\<lparr>cstate := REBOOTING\<rparr>"

definition enter_selecting_state :: "client \<Rightarrow> client" where
  "enter_selecting_state c = c\<lparr>cstate := SELECTING_STATE\<rparr>"

definition enter_init_reboot_state :: "client_env \<Rightarrow> client \<Rightarrow> client \<times> client_output list" where
  "enter_init_reboot_state env c =
     (let (c1, q) = make_request_with_ciaddr env (unschedule T_RESEND_DISCOVER c)
      in (enter_rebooting_state (schedule T_LEASE_EXPIRED 60 c1), [Output 0 (dm_bytes q)]))"

definition enter_renew_state :: "client_env \<Rightarrow> client \<Rightarrow> client \<times> client_output list" where
  "enter_renew_state env c =
     (let (c1, q) = make_request_with_ciaddr env c;
          next_timeout_sec = (t2_timestamp_sec c1 - ce_now env) div 2
      in (if 60 < next_timeout_sec then schedule T_RENEW next_timeout_sec c1 else c1,
          [Output 1 (dm_bytes q)]))"

definition enter_rebind_state :: "client_env \<Rightarrow> client \<Rightarrow> client \<times> client_output list" where
  "enter_rebind_state env c =
     (let (c1, q) = make_request_with_ciaddr env c;
          next_timeout_sec = (lease_expired_sec c1 - ce_now env) div 2
      in (if 60 < next_timeout_sec then schedule T_REBIND next_timeout_sec c1 else c1,
          [Output 0 (dm_bytes q)]))"

section \<open>Receiving\<close>

text \<open>The \<open>switch\<close> on the type of a message that is for this client and this transaction.\<close>

definition push_valid ::
    "client_env \<Rightarrow> packet \<Rightarrow> byte \<Rightarrow> client \<Rightarrow> (client \<times> client_output list) option" where
  "push_valid env p ty c =
     (if ty = DHCP_OFFER
      then let c1 = unschedule T_RESEND_DISCOVER c;
               c2 = (if scheduled T_SELECT c1 then c1
                     else schedule T_SELECT select_interval_sec c1)
           in Some (c2\<lparr>offers := p # offers c2\<rparr>, [])
      else if ty = DHCP_ACK
      then save_lease env p
             ((unschedule T_RESEND_REQUEST (unschedule T_TIMEOUT (c\<lparr>cstate := BOUND\<rparr>)))
               \<lparr>curr_backoff := initial_interval_sec, best_offer := None\<rparr>)
      else if ty = DHCP_NACK
      then Some (if cstate c \<noteq> BOUND then enter_init_state env c else c, [])
      else Some (c, []))"

definition client_push :: "client_env \<Rightarrow> packet \<Rightarrow> client \<Rightarrow> (client \<times> client_output list) option" where
  "client_push env p c =
     do {
       mtype \<leftarrow> fetch p DHO_DHCP_MESSAGE_TYPE 1;
       let base = thoff p + sizeof_udp;
       case mtype of
         None \<Rightarrow> Some (c, [Output 2 (data p)])
       | Some i \<Rightarrow> do {
           x \<leftarrow> rdn (data p) (base + off_xid) 4;
           ht \<leftarrow> rd8 (data p) (base + off_htype);
           hl \<leftarrow> rd8 (data p) (base + off_hlen);
           ch \<leftarrow> rdn (data p) (base + off_chaddr) 6;
           if x \<noteq> curr_xid c \<or> ht \<noteq> ARPHRD_ETHER \<or> hl \<noteq> 6 \<or> ch \<noteq> ethAddr c
           then Some (c, [Output 2 (data p)])
           else do { ty \<leftarrow> rd8 (data p) i; push_valid env p ty c }
         }
     }"

section \<open>Choosing among the offers\<close>

text \<open>The loop over \<open>_offers\<close>: \<open>best_offer\<close>, \<open>best_overall_offer\<close> and \<open>best_ltime\<close>.\<close>

type_synonym choice = "packet option \<times> packet option \<times> u32"

definition consider_offer :: "ip_addr \<Rightarrow> packet \<Rightarrow> choice \<Rightarrow> choice option" where
  "consider_offer ip p ch =
     (case ch of (best, overall, best_ltime) \<Rightarrow>
       do {
         leaseo \<leftarrow> fetch p DHO_DHCP_LEASE_TIME 4;
         case leaseo of
           None \<Rightarrow> Some ch
         | Some i \<Rightarrow>
             let ltime = u32_of (take 4 (drop i (data p)));
                 (overall1, best_ltime1) =
                   (if overall = None \<or> best = None \<and> best_ltime < ltime
                    then (Some p, ltime) else (overall, best_ltime))
             in if ip = 0 then Some (best, overall1, best_ltime1)
                else do {
                  y \<leftarrow> rdn (data p) (thoff p + sizeof_udp + off_yiaddr) 4;
                  Some (if y = be32 ip \<and> (best = None \<or> best_ltime1 < ltime)
                        then (Some p, overall1, ltime) else (best, overall1, best_ltime1))
                }
       })"

fun consider_offers :: "ip_addr \<Rightarrow> packet list \<Rightarrow> choice \<Rightarrow> choice option" where
  "consider_offers ip [] ch = Some ch"
| "consider_offers ip (p # ps) ch = do { ch' \<leftarrow> consider_offer ip p ch; consider_offers ip ps ch' }"

definition choose_offer :: "client \<Rightarrow> client option" where
  "choose_offer c =
     do {
       (best, overall, _) \<leftarrow> consider_offers (my_ip c) (offers c) (None, None, 0);
       Some (c\<lparr>best_offer := (if best = None then overall else best), offers := []\<rparr>)
     }"

section \<open>Timers\<close>

text \<open>\<open>rand_exp_backoff(_curr_backoff)\<close>.\<close>

definition backoff :: "client_env \<Rightarrow> client \<Rightarrow> u32" where
  "backoff env c = rand_exp_backoff (ce_rand_max env) (ce_dice env) (word_of_int (curr_backoff c))"

fun run_timer :: "client_env \<Rightarrow> client_timer \<Rightarrow> client \<Rightarrow> (client \<times> client_output list) option" where
  "run_timer env T_TIMEOUT c = Some (schedule T_TIMEOUT timeout_sec c, [])"
| "run_timer env T_SELECT c =
     do {
       c1 \<leftarrow> choose_offer c;
       if best_offer c1 = None then Some (c1, [])
       else do {
         q \<leftarrow> make_request c1 (best_offer c1);
         let c2 = c1\<lparr>cstate := REQUESTING_STATE, curr_backoff := initial_interval_sec\<rparr>;
         Some (schedule T_RESEND_REQUEST (backoff env c2) c2, [Output 0 (dm_bytes q)])
       }
     }"
| "run_timer env T_RESEND_DISCOVER c =
     (let (c1, q) = make_discovery env c;
          c2 = schedule T_RESEND_DISCOVER 6 c1
      in Some (if cstate c2 = INIT_STATE then enter_selecting_state c2 else c2, [Output 0 (dm_bytes q)]))"
| "run_timer env T_RESEND_REQUEST c =
     do {
       q \<leftarrow> make_request c (best_offer c);
       let b = 2 * curr_backoff c;
       let c1 = c\<lparr>curr_backoff := (if backoff_cutoff_sec < b then backoff_cutoff_sec else b)\<rparr>;
       Some (schedule T_RESEND_REQUEST (backoff env c1) c1, [Output 0 (dm_bytes q)])
     }"
| "run_timer env T_RENEW c = Some (enter_renew_state env c)"
| "run_timer env T_REBIND c = Some (enter_rebind_state env c)"
| "run_timer env T_LEASE_EXPIRED c = Some (enter_init_state env (c\<lparr>lease_duration := 0\<rparr>), [])"

section \<open>Handlers and initialisation\<close>

text \<open>The write handler \<open>lease\<close>, after its argument is parsed.\<close>

datatype lease_write = Inactive | Active ip_addr ip_addr u32 u32

fun write_lease :: "client_env \<Rightarrow> lease_write \<Rightarrow> client \<Rightarrow> client \<times> client_output list" where
  "write_lease env Inactive c = (enter_init_state env (c\<lparr>lease_duration := 0\<rparr>), [])"
| "write_lease env (Active ip server start en) c =
     enter_init_reboot_state env
       (c\<lparr>my_ip := ip, server_ip := server, start_timestamp_sec := start, lease_expired_sec := en,
          lease_duration := en - start\<rparr>)"

definition send_dhcp_lease :: "client_env \<Rightarrow> client \<Rightarrow> client \<times> client_output list" where
  "send_dhcp_lease env c = (let (c1, q) = make_release env c in (c1, [Output 1 (dm_bytes q)]))"

text \<open>Constructor, \<open>configure\<close> and \<open>initialize\<close>; fields no constructor sets are given as \<open>junk\<close>.\<close>

definition client_initialize :: "client_env \<Rightarrow> client \<Rightarrow> ether_addr \<Rightarrow> ip_addr \<Rightarrow> bool \<Rightarrow> client" where
  "client_initialize env junk eth ip call =
     enter_init_state env
       (junk\<lparr>timers := Map.empty, curr_xid := replicate 4 0, lease_duration := 0, offers := [],
          best_offer := None, has_lease_call := call, ethAddr := eth, my_ip := ip, server_ip := 0\<rparr>)"

section \<open>The offer that is chosen\<close>

text \<open>A packet with a whole fixed part; its lease time and its address.\<close>

definition whole :: "packet \<Rightarrow> bool" where
  "whole p \<longleftrightarrow> 248 \<le> transport_length p"

definition offer_ltime :: "packet \<Rightarrow> u32 option" where
  "offer_ltime p =
     (case packet_option p DHO_DHCP_LEASE_TIME of
        Some v \<Rightarrow> if length v = 4 then Some (u32_of v) else None
      | None \<Rightarrow> None)"

definition offer_ip :: "packet \<Rightarrow> byte list" where
  "offer_ip p = take 4 (drop (thoff p + sizeof_udp + off_yiaddr) (data p))"

text \<open>An offer with a lease time for the address the client asked for.\<close>

definition wanted :: "ip_addr \<Rightarrow> packet \<Rightarrow> bool" where
  "wanted ip p \<longleftrightarrow> ip \<noteq> 0 \<and> offer_ip p = be32 ip \<and> offer_ltime p \<noteq> None"

lemma wanted_timed: "wanted ip p \<Longrightarrow> offer_ltime p \<noteq> None"
  by (simp add: wanted_def)

lemma fetch_whole:
  assumes "whole p"
  obtains r where "fetch p want n = Some r"
    "map_option (\<lambda>j. take n (drop j (data p))) r =
      (case packet_option p want of Some v \<Rightarrow> if length v = n then Some v else None | None \<Rightarrow> None)"
  using fetch_refines[of p want n] assms by (auto simp: whole_def)

lemma whole_len: "whole p \<Longrightarrow> thoff p + 248 \<le> length (data p)"
  by (simp add: whole_def transport_length_def)

lemma fetch_ltime:
  assumes "whole p"
  obtains r where "fetch p DHO_DHCP_LEASE_TIME 4 = Some r"
    "offer_ltime p = map_option (\<lambda>j. u32_of (take 4 (drop j (data p)))) r"
proof (rule fetch_whole[OF assms, of 51 4])
  fix r assume r: "fetch p 51 4 = Some r" "map_option (\<lambda>j. take 4 (drop j (data p))) r =
      (case packet_option p 51 of Some v \<Rightarrow> if length v = 4 then Some v else None | None \<Rightarrow> None)"
  have "map_option (\<lambda>j. u32_of (take 4 (drop j (data p)))) r =
      map_option u32_of (map_option (\<lambda>j. take 4 (drop j (data p))) r)"
    by (simp add: option.map_comp comp_def)
  also have "\<dots> = offer_ltime p"
    unfolding r(2) by (simp add: offer_ltime_def split: option.split)
  finally show thesis using r(1) that by metis
qed

lemma consider_offer_eq:
  assumes "whole p"
  shows "consider_offer ip p (best, overall, lt) =
    Some (case offer_ltime p of
            None \<Rightarrow> (best, overall, lt)
          | Some l \<Rightarrow>
              let (overall1, lt1) = (if overall = None \<or> best = None \<and> lt < l then (Some p, l)
                                     else (overall, lt))
              in if wanted ip p \<and> (best = None \<or> lt1 < l) then (Some p, overall1, l)
                 else (best, overall1, lt1))"
proof -
  obtain r where r: "fetch p 51 4 = Some r"
    "offer_ltime p = map_option (\<lambda>j. u32_of (take 4 (drop j (data p)))) r"
    by (rule fetch_ltime[OF assms])
  from whole_len[OF assms] have "rdn (data p) (thoff p + 8 + 16) 4 = Some (offer_ip p)"
    by (simp add: offer_ip_def)
  with r show ?thesis
    by (cases r) (auto simp: consider_offer_def wanted_def Let_def)
qed

definition longest :: "(packet \<Rightarrow> bool) \<Rightarrow> packet set \<Rightarrow> u32 \<Rightarrow> bool" where
  "longest Q seen lt \<longleftrightarrow> (\<forall>p \<in> seen. \<forall>l. Q p \<longrightarrow> offer_ltime p = Some l \<longrightarrow> l \<le> lt)"

lemma longest_insert:
  "longest Q (insert p seen) lt \<longleftrightarrow>
     longest Q seen lt \<and> (Q p \<longrightarrow> (case offer_ltime p of Some l \<Rightarrow> l \<le> lt | None \<Rightarrow> True))"
  by (auto simp: longest_def split: option.splits)

lemma longest_mono: "longest Q seen lt \<Longrightarrow> lt < l \<Longrightarrow> longest Q seen l"
  by (auto simp: longest_def dest: order_trans less_imp_le)

lemma longest_none: "\<forall>p \<in> seen. \<not> Q p \<Longrightarrow> longest Q seen lt"
  "\<forall>p \<in> seen. offer_ltime p = None \<Longrightarrow> longest Q seen lt"
  by (auto simp: longest_def)

text \<open>What the loop has established when it has seen the offers in \<open>seen\<close>.\<close>

definition choice_inv :: "ip_addr \<Rightarrow> packet set \<Rightarrow> choice \<Rightarrow> bool" where
  "choice_inv ip seen ch =
     (case ch of (best, overall, lt) \<Rightarrow>
       (case best of
          Some b \<Rightarrow> b \<in> seen \<and> wanted ip b \<and> offer_ltime b = Some lt \<and> overall \<noteq> None \<and>
            longest (wanted ip) seen lt
        | None \<Rightarrow> (\<forall>p \<in> seen. \<not> wanted ip p) \<and>
            (case overall of
               Some b \<Rightarrow> b \<in> seen \<and> offer_ltime b = Some lt \<and> longest (\<lambda>_. True) seen lt
             | None \<Rightarrow> \<forall>p \<in> seen. offer_ltime p = None)))"

lemma consider_offer_inv:
  assumes "whole p" and "choice_inv ip seen ch"
  shows "\<exists>ch'. consider_offer ip p ch = Some ch' \<and> choice_inv ip (insert p seen) ch'"
proof (cases ch)
  case (fields best overall lt)
  show ?thesis
  proof (cases "offer_ltime p")
    case None
    then have "\<not> wanted ip p" by (simp add: wanted_def)
    with None assms fields show ?thesis
      by (auto simp: consider_offer_eq choice_inv_def longest_insert split: option.splits)
  next
    case (Some l)
    have inv: "choice_inv ip seen (best, overall, lt)" using assms(2) fields by simp
    show ?thesis
    proof (cases best)
      case None
      with inv Some show ?thesis
        unfolding fields consider_offer_eq[OF assms(1)]
        by (cases overall; cases "wanted ip p"; cases "lt < l")
          (simp_all add: choice_inv_def longest_insert longest_mono[of _ seen lt l] longest_none not_less)
    next
      case (Some b)
      with inv \<open>offer_ltime p = Some l\<close> show ?thesis
        unfolding fields consider_offer_eq[OF assms(1)]
        by (cases "wanted ip p"; cases "lt < l")
          (auto simp: choice_inv_def longest_insert longest_mono[of _ seen lt l] not_less)
    qed
  qed
qed

lemma consider_offers_inv:
  "\<forall>p \<in> set ps. whole p \<Longrightarrow> choice_inv ip seen ch \<Longrightarrow>
   \<exists>ch'. consider_offers ip ps ch = Some ch' \<and> choice_inv ip (seen \<union> set ps) ch'"
proof (induction ps arbitrary: seen ch)
  case (Cons p ps)
  then obtain ch' where "consider_offer ip p ch = Some ch'" "choice_inv ip (insert p seen) ch'"
    using consider_offer_inv[of p ip seen ch] by (meson list.set_intros(1))
  with Cons.IH[of "insert p seen" ch'] Cons.prems show ?case by simp
qed simp

lemma choose_offer_best:
  assumes "\<forall>p \<in> set (offers c). whole p"
  obtains b where "choose_offer c = Some (c\<lparr>best_offer := b, offers := []\<rparr>)"
    "case b of
       None \<Rightarrow> \<forall>p \<in> set (offers c). offer_ltime p = None
     | Some p \<Rightarrow> p \<in> set (offers c) \<and> offer_ltime p \<noteq> None \<and>
         (\<forall>p' \<in> set (offers c). offer_ltime p' \<noteq> None \<longrightarrow>
            (wanted (my_ip c) p' \<longrightarrow> wanted (my_ip c) p) \<and>
            (wanted (my_ip c) p' = wanted (my_ip c) p \<longrightarrow> the (offer_ltime p') \<le> the (offer_ltime p)))"
proof -
  have "choice_inv (my_ip c) {} (None, None, 0)" by (simp add: choice_inv_def)
  from consider_offers_inv[OF assms this] obtain best overall lt where
    l: "consider_offers (my_ip c) (offers c) (None, None, 0) = Some (best, overall, lt)"
    and inv: "choice_inv (my_ip c) (set (offers c)) (best, overall, lt)" by auto
  from inv show thesis
    by (intro that[of "if best = None then overall else best"])
      (auto simp: choose_offer_def l choice_inv_def longest_def split: option.splits dest: wanted_timed)
qed

section \<open>Runs of the client\<close>

text \<open>
  One step of the element: a packet is pushed, a scheduled timer fires (the scheduler
  unschedules it before it calls \<open>run_timer\<close>), or a write handler is called. The relation
  contains the steps that do not fault; \<open>net\<close> says which packets the network delivers.
\<close>

inductive client_step :: "(packet \<Rightarrow> bool) \<Rightarrow> client \<Rightarrow> client \<Rightarrow> bool" for net where
  cl_push: "net p \<Longrightarrow> client_push env p c = Some (c', os) \<Longrightarrow> client_step net c c'"
| cl_timer: "scheduled t c \<Longrightarrow> run_timer env t (unschedule t c) = Some (c', os) \<Longrightarrow> client_step net c c'"
| cl_lease: "client_step net c (fst (write_lease env w c))"
| cl_release: "client_step net c (fst (send_dhcp_lease env c))"

inductive client_reachable :: "(packet \<Rightarrow> bool) \<Rightarrow> client \<Rightarrow> bool" for net where
  cl_init: "client_reachable net (client_initialize env junk eth ip call)"
| cl_step: "client_reachable net c \<Longrightarrow> client_step net c c' \<Longrightarrow> client_reachable net c'"

inductive_cases client_step_cases: "client_step net c c'"

text \<open>
  The invariant: \<open>T_SELECT\<close> runs only when there are offers to select from, every stored
  packet has a whole fixed part, the back-off stays between its bounds while a request is
  outstanding.
\<close>

definition client_inv :: "client \<Rightarrow> bool" where
  "client_inv c \<longleftrightarrow>
     (scheduled T_SELECT c \<longrightarrow> offers c \<noteq> []) \<and>
     (\<forall>p \<in> set (offers c). whole p) \<and>
     (\<forall>p. best_offer c = Some p \<longrightarrow> whole p) \<and>
     (scheduled T_RESEND_REQUEST c \<longrightarrow> 4 \<le> curr_backoff c \<and> curr_backoff c \<le> 16)"

text \<open>The pending request has an offer to be built from.\<close>

definition request_has_offer :: "client \<Rightarrow> bool" where
  "request_has_offer c \<longleftrightarrow> (scheduled T_RESEND_REQUEST c \<longrightarrow> best_offer c \<noteq> None)"

lemma timer_simps [simp]:
  "scheduled t (schedule t' d c) \<longleftrightarrow> t = t' \<or> scheduled t c"
  "scheduled t (unschedule t' c) \<longleftrightarrow> t \<noteq> t' \<and> scheduled t c"
  "offers (schedule t d c) = offers c" "offers (unschedule t c) = offers c"
  "best_offer (schedule t d c) = best_offer c" "best_offer (unschedule t c) = best_offer c"
  "curr_backoff (schedule t d c) = curr_backoff c" "curr_backoff (unschedule t c) = curr_backoff c"
  "my_ip (schedule t d c) = my_ip c" "my_ip (unschedule t c) = my_ip c"
  "cstate (schedule t d c) = cstate c" "cstate (unschedule t c) = cstate c"
  by (auto simp: schedule_def unschedule_def scheduled_def)

lemma scheduled_update [simp]:
  "scheduled t (c\<lparr>offers := x\<rparr>) = scheduled t c" "scheduled t (c\<lparr>best_offer := b\<rparr>) = scheduled t c"
  "scheduled t (c\<lparr>cstate := s\<rparr>) = scheduled t c" "scheduled t (c\<lparr>curr_xid := y\<rparr>) = scheduled t c"
  "scheduled t (c\<lparr>curr_backoff := i\<rparr>) = scheduled t c" "scheduled t (c\<lparr>my_ip := ip\<rparr>) = scheduled t c"
  "scheduled t (c\<lparr>server_ip := ip\<rparr>) = scheduled t c" "scheduled t (c\<lparr>lease_duration := w\<rparr>) = scheduled t c"
  "scheduled t (c\<lparr>start_timestamp_sec := w\<rparr>) = scheduled t c"
  "scheduled t (c\<lparr>lease_expired_sec := w\<rparr>) = scheduled t c"
  "scheduled t (c\<lparr>t1_timestamp_sec := w\<rparr>) = scheduled t c"
  "scheduled t (c\<lparr>t2_timestamp_sec := w\<rparr>) = scheduled t c"
  "scheduled t (c\<lparr>timers := m\<rparr>) \<longleftrightarrow> m t \<noteq> None"
  by (simp_all add: scheduled_def)

lemma enter_init_fields:
  "scheduled t (enter_init_state env c) \<longleftrightarrow> t = T_TIMEOUT \<or> t = T_RESEND_DISCOVER"
  "offers (enter_init_state env c) = offers c" "best_offer (enter_init_state env c) = best_offer c"
  by (auto simp: enter_init_state_def)

text \<open>Operations that leave the offers and the two request timers alone.\<close>

definition same_offers :: "client \<Rightarrow> client \<Rightarrow> bool" where
  "same_offers c c' \<longleftrightarrow> offers c' = offers c \<and> best_offer c' = best_offer c \<and>
     curr_backoff c' = curr_backoff c \<and>
     scheduled T_SELECT c' = scheduled T_SELECT c \<and>
     scheduled T_RESEND_REQUEST c' = scheduled T_RESEND_REQUEST c"

lemma same_offers_inv:
  "same_offers c c' \<Longrightarrow> client_inv c \<Longrightarrow> client_inv c'"
  "same_offers c c' \<Longrightarrow> request_has_offer c \<Longrightarrow> request_has_offer c'"
  by (simp_all add: same_offers_def client_inv_def request_has_offer_def)

lemma same_offers_ops:
  "same_offers c (fst (enter_renew_state env c))"
  "same_offers c (fst (enter_rebind_state env c))"
  "same_offers c (fst (enter_init_reboot_state env c))"
  "same_offers c (fst (send_dhcp_lease env c))"
  "same_offers c (fst (make_discovery env c))"
  by (simp_all add: same_offers_def enter_renew_state_def enter_rebind_state_def
      enter_init_reboot_state_def enter_rebooting_state_def send_dhcp_lease_def make_release_def
      make_discovery_def make_request_with_ciaddr_def Let_def)

lemma init_inv:
  assumes "client_inv c" shows "client_inv (enter_init_state env c)"
  using assms by (simp add: client_inv_def enter_init_fields)

lemma lease_times_fields [simp]:
  "offers (set_lease_times env d c) = offers c" "offers (clear_lease_times c) = offers c"
  "best_offer (set_lease_times env d c) = best_offer c" "best_offer (clear_lease_times c) = best_offer c"
  "cstate (set_lease_times env d c) = cstate c" "cstate (clear_lease_times c) = cstate c"
  "my_ip (set_lease_times env d c) = my_ip c" "my_ip (clear_lease_times c) = my_ip c"
  "scheduled T_SELECT (set_lease_times env d c) = scheduled T_SELECT c"
  "scheduled T_SELECT (clear_lease_times c) = scheduled T_SELECT c"
  "scheduled T_RESEND_REQUEST (set_lease_times env d c) = scheduled T_RESEND_REQUEST c"
  "scheduled T_RESEND_REQUEST (clear_lease_times c) = scheduled T_RESEND_REQUEST c"
  by (simp_all add: set_lease_times_def clear_lease_times_def Let_def)

lemma save_lease_eq:
  assumes "save_lease env p c = Some (c', os)"
  obtains ip sip d where
    "c' = set_lease_times env d (c\<lparr>my_ip := ip\<rparr>)\<lparr>server_ip := sip\<rparr> \<or>
     c' = clear_lease_times (c\<lparr>my_ip := ip\<rparr>)\<lparr>server_ip := sip\<rparr>"
proof -
  obtain y where y: "rdn (data p) (thoff p + sizeof_udp + off_yiaddr) 4 = Some y"
    using assms by (auto simp: save_lease_def bind_eq_Some_conv)
  obtain l where l: "fetch p DHO_DHCP_LEASE_TIME 4 = Some l"
    using assms y by (auto simp: save_lease_def bind_eq_Some_conv Let_def)
  obtain r where r: "fetch p DHO_DHCP_SERVER_IDENTIFIER 4 = Some r"
    using assms y l by (auto simp: save_lease_def bind_eq_Some_conv Let_def)
  show thesis
    using assms y l r that by (cases l) (auto simp: save_lease_def Let_def)
qed

lemma save_lease_fields:
  assumes "save_lease env p c = Some (c', os)"
  shows "offers c' = offers c \<and> best_offer c' = best_offer c \<and> cstate c' = cstate c \<and>
    scheduled T_SELECT c' = scheduled T_SELECT c \<and>
    scheduled T_RESEND_REQUEST c' = scheduled T_RESEND_REQUEST c"
  by (rule save_lease_eq[OF assms]) (elim disjE, simp_all)

lemma fetch_Some_whole: "fetch p want n = Some (Some i) \<Longrightarrow> whole p"
proof -
  assume f: "fetch p want n = Some (Some i)"
  then have "fetch p want n \<noteq> None" by simp
  with fetch_None_iff[of p want n] have "whole p \<or> transport_length p < 240" by (auto simp: whole_def)
  with f show "whole p" by (auto simp: fetch_def fetch_next_def bind_eq_Some_conv)
qed

text \<open>The header fields \<open>push\<close> compares.\<close>

definition addressed :: "client \<Rightarrow> packet \<Rightarrow> bool" where
  "addressed c p \<longleftrightarrow>
     (let base = thoff p + sizeof_udp
      in take 4 (drop (base + off_xid) (data p)) = curr_xid c \<and> data p ! (base + off_htype) = ARPHRD_ETHER \<and>
         data p ! (base + off_hlen) = 6 \<and> take 6 (drop (base + off_chaddr) (data p)) = ethAddr c)"

lemma client_push_eq:
  assumes "whole p"
  shows "client_push env p c =
    (case packet_option p DHO_DHCP_MESSAGE_TYPE of
       Some v \<Rightarrow> if length v = 1 \<and> addressed c p then push_valid env p (hd v) c
                 else Some (c, [Output 2 (data p)])
     | None \<Rightarrow> Some (c, [Output 2 (data p)]))"
proof -
  obtain r where r: "fetch p 53 1 = Some r" "map_option (\<lambda>j. take 1 (drop j (data p))) r =
    (case packet_option p 53 of Some v \<Rightarrow> if length v = 1 then Some v else None | None \<Rightarrow> None)"
    by (rule fetch_whole[OF assms])
  show ?thesis
  proof (cases r)
    case None
    with r show ?thesis by (auto simp: client_push_def Let_def split: option.splits if_splits)
  next
    case (Some i)
    from fetch_Some_len[of p 53 1] whole_len[OF assms] r Some have i: "i < length (data p)" by simp
    then have "take 1 (drop i (data p)) = [data p ! i]" by (simp add: take_Suc hd_drop_conv_nth)
    with r Some have ty: "packet_option p 53 = Some [data p ! i]"
      by (auto split: option.splits if_splits)
    show ?thesis
      using r Some i ty whole_len[OF assms]
      by (simp add: client_push_def addressed_def Let_def cong: if_cong)
  qed
qed

lemma client_push_whole: "client_push env p c = Some (c', os) \<Longrightarrow> whole p \<or> c' = c"
proof -
  assume res: "client_push env p c = Some (c', os)"
  then obtain mt where mt: "fetch p 53 1 = Some mt"
    by (auto simp: client_push_def bind_eq_Some_conv)
  show ?thesis
  proof (cases mt)
    case None
    with mt res show ?thesis by (simp add: client_push_def Let_def)
  qed (use mt fetch_Some_whole in auto)
qed

lemma push_cases:
  assumes "client_push env p c = Some (c', os)"
  obtains (same) "c' = c"
  | (offer) c2 where "whole p" "c' = c2\<lparr>offers := p # offers c2\<rparr>" "offers c2 = offers c"
      "packet_option p DHO_DHCP_MESSAGE_TYPE = Some [DHCP_OFFER]"
      "best_offer c2 = best_offer c" "curr_backoff c2 = curr_backoff c"
      "scheduled T_RESEND_REQUEST c2 = scheduled T_RESEND_REQUEST c"
  | (ack) "offers c' = offers c" "best_offer c' = None" "\<not> scheduled T_RESEND_REQUEST c'"
      "scheduled T_SELECT c' = scheduled T_SELECT c"
  | (nak) "c' = enter_init_state env c"
proof (cases "whole p")
  case False
  with client_push_whole[OF assms] show thesis by (intro same) simp
next
  case True
  note eq = assms[unfolded client_push_eq[OF True]]
  then consider "c' = c" | ty where "packet_option p 53 = Some [ty]" "push_valid env p ty c = Some (c', os)"
    by (auto simp: length_Suc_conv split: option.splits if_splits)
  then show thesis
  proof cases
    case 2
    show thesis
    proof (cases "ty = DHCP_OFFER")
      case offer_type: True
      let ?c1 = "unschedule T_RESEND_DISCOVER c"
      let ?c2 = "if scheduled T_SELECT ?c1 then ?c1 else schedule T_SELECT 1 ?c1"
      from 2 offer_type have "c' = ?c2\<lparr>offers := p # offers ?c2\<rparr>"
        by (simp add: push_valid_def Let_def)
      then show thesis using True 2 offer_type by (intro offer[of ?c2]) simp_all
    next
      case False
      with 2 show thesis
        by (auto simp: push_valid_def split: if_splits dest!: save_lease_fields intro: same ack nak)
    qed
  qed (rule same)
qed

lemma push_inv:
  assumes "client_push env p c = Some (c', os)" and "client_inv c"
  shows "client_inv c'"
  using assms(1)
proof (cases rule: push_cases)
  case same
  with assms(2) show ?thesis by simp
next
  case (offer c2)
  with assms(2) show ?thesis by (auto simp: client_inv_def)
next
  case ack
  with assms(2) show ?thesis by (auto simp: client_inv_def)
next
  case nak
  with assms(2) show ?thesis by (simp add: init_inv)
qed

lemma make_request_whole: "whole p \<Longrightarrow> \<exists>q. make_request c (Some p) = Some q"
proof -
  assume w: "whole p"
  obtain r1 where "fetch p 51 4 = Some r1" by (rule fetch_whole[OF w])
  moreover obtain r2 where "fetch p 54 4 = Some r2" by (rule fetch_whole[OF w])
  ultimately show ?thesis using whole_len[OF w] by (simp add: make_request_def)
qed

text \<open>Every timer can run, but for a request without an offer.\<close>

lemma select_run:
  assumes "client_inv c"
  obtains b os where "choose_offer c = Some (c\<lparr>best_offer := b, offers := []\<rparr>)"
    "(\<exists>p \<in> set (offers c). offer_ltime p \<noteq> None) \<Longrightarrow> b \<noteq> None"
    "\<And>p. b = Some p \<Longrightarrow> p \<in> set (offers c)"
    "run_timer env T_SELECT c =
       Some (let c1 = c\<lparr>best_offer := b, offers := []\<rparr>
             in if b = None then c1
                else let c2 = c1\<lparr>cstate := REQUESTING_STATE, curr_backoff := initial_interval_sec\<rparr>
                     in schedule T_RESEND_REQUEST (backoff env c2) c2, os)"
proof -
  from assms have w: "\<forall>p \<in> set (offers c). whole p" by (simp add: client_inv_def)
  obtain b where b: "choose_offer c = Some (c\<lparr>best_offer := b, offers := []\<rparr>)"
    and best: "case b of
       None \<Rightarrow> \<forall>p \<in> set (offers c). offer_ltime p = None
     | Some p \<Rightarrow> p \<in> set (offers c)"
    by (rule choose_offer_best[OF w]) (auto split: option.splits)
  let ?c1 = "c\<lparr>best_offer := b, offers := []\<rparr>"
  show thesis
  proof (cases b)
    case None
    with b best show thesis by (intro that[of b "[]"]) auto
  next
    case (Some p)
    with best w obtain q where q: "make_request ?c1 (Some p) = Some q"
      using make_request_whole[of p ?c1] by auto
    with Some b best show thesis
      by (intro that[of b "[Output 0 (dm_bytes q)]"]) (simp_all add: Let_def)
  qed
qed

lemma timer_runs:
  assumes "client_inv c" and "request_has_offer c" and "scheduled t c"
  shows "\<exists>c' os. run_timer env t (unschedule t c) = Some (c', os)"
proof (cases t)
  case T_SELECT
  have "client_inv (unschedule t c)" using assms(1) by (simp add: client_inv_def)
  then show ?thesis by (rule select_run[of _ env]) (use T_SELECT in simp)
next
  case T_RESEND_REQUEST
  with assms obtain p where "best_offer c = Some p" "whole p"
    by (auto simp: request_has_offer_def client_inv_def)
  with T_RESEND_REQUEST make_request_whole[of p "unschedule t c"] show ?thesis
    by (auto simp: Let_def)
qed (auto simp: case_prod_unfold Let_def intro: prod.collapse[symmetric])

lemma timer_inv:
  assumes "client_inv c" and "run_timer env t (unschedule t c) = Some (c', os)" and "scheduled t c"
  shows "client_inv c'"
proof -
  let ?c = "unschedule t c"
  have inv: "client_inv ?c" using assms(1) by (simp add: client_inv_def)
  note same = same_offers_inv(1)[OF _ inv]
  show ?thesis
  proof (cases t)
    case T_SELECT
    obtain b os' where b: "\<And>p. b = Some p \<Longrightarrow> p \<in> set (offers ?c)"
      and run: "run_timer env T_SELECT ?c =
       Some (let c1 = ?c\<lparr>best_offer := b, offers := []\<rparr>
             in if b = None then c1
                else let c2 = c1\<lparr>cstate := REQUESTING_STATE, curr_backoff := initial_interval_sec\<rparr>
                     in schedule T_RESEND_REQUEST (backoff env c2) c2, os')"
      by (rule select_run[OF inv, of env]) blast
    from run assms(2) T_SELECT inv b show ?thesis
      by (auto simp: client_inv_def Let_def split: if_splits)
  next
    case T_RESEND_REQUEST
    with assms inv show ?thesis
      by (auto simp: client_inv_def bind_eq_Some_conv Let_def)
  next
    case T_RESEND_DISCOVER
    with assms(2) same[OF same_offers_ops(5)[of ?c env]] show ?thesis
      by (auto simp: client_inv_def enter_selecting_state_def Let_def case_prod_unfold split: if_splits)
  next
    case T_RENEW
    with assms(2) same[OF same_offers_ops(1)[of ?c env]] show ?thesis by simp
  next
    case T_REBIND
    with assms(2) same[OF same_offers_ops(2)[of ?c env]] show ?thesis by simp
  next
    case T_LEASE_EXPIRED
    have "client_inv (?c\<lparr>lease_duration := 0\<rparr>)" using inv by (simp add: client_inv_def)
    with T_LEASE_EXPIRED assms(2) init_inv show ?thesis by auto
  next
    case T_TIMEOUT
    with assms(2) inv show ?thesis by (auto simp: client_inv_def)
  qed
qed

lemma write_lease_cases:
  "(\<exists>c0. same_offers c c0 \<and> fst (write_lease env w c) = enter_init_state env c0) \<or>
   same_offers c (fst (write_lease env w c))"
proof (cases w)
  case Inactive
  have "same_offers c (c\<lparr>lease_duration := 0\<rparr>)" by (simp add: same_offers_def)
  with Inactive show ?thesis by auto
next
  case (Active ip server start en)
  let ?c = "c\<lparr>my_ip := ip, server_ip := server, start_timestamp_sec := start,
    lease_expired_sec := en, lease_duration := en - start\<rparr>"
  have "same_offers c ?c" by (simp add: same_offers_def)
  with Active same_offers_ops(3)[of ?c env] show ?thesis by (simp add: same_offers_def)
qed

lemma client_init_inv: "client_inv (client_initialize env junk eth ip call)"
  by (simp add: client_initialize_def client_inv_def enter_init_fields)

lemma client_step_inv: "client_step net c c' \<Longrightarrow> client_inv c \<Longrightarrow> client_inv c'"
proof (erule client_step_cases)
  fix env w assume "c' = fst (write_lease env w c)" and inv: "client_inv c"
  with write_lease_cases[of c env w] show "client_inv c'"
    using init_inv same_offers_inv(1)[OF _ inv] by auto
qed (auto intro: push_inv timer_inv same_offers_inv(1) same_offers_ops)

lemma client_reachable_inv: "client_reachable net c \<Longrightarrow> client_inv c"
  by (induction rule: client_reachable.induct) (auto intro: client_init_inv client_step_inv)

text \<open>A network on which every OFFER carries a lease time.\<close>

definition timed_offers :: "packet \<Rightarrow> bool" where
  "timed_offers p \<longleftrightarrow>
     (packet_option p DHO_DHCP_MESSAGE_TYPE = Some [DHCP_OFFER] \<longrightarrow> offer_ltime p \<noteq> None)"

definition all_timed :: "client \<Rightarrow> bool" where
  "all_timed c \<longleftrightarrow> (\<forall>p \<in> set (offers c). offer_ltime p \<noteq> None) \<and> request_has_offer c"

lemma all_timed_same: "same_offers c c' \<Longrightarrow> all_timed c \<Longrightarrow> all_timed c'"
  by (simp add: all_timed_def same_offers_def request_has_offer_def)

lemma all_timed_init: "all_timed c \<Longrightarrow> all_timed (enter_init_state env c)"
  by (simp add: all_timed_def request_has_offer_def enter_init_fields)

lemma all_timed_push:
  assumes "client_push env p c = Some (c', os)" and "timed_offers p" and "all_timed c"
  shows "all_timed c'"
  using assms(1)
proof (cases rule: push_cases)
  case same
  with assms(3) show ?thesis by simp
next
  case (offer c2)
  with assms show ?thesis by (auto simp: all_timed_def request_has_offer_def timed_offers_def)
next
  case ack
  with assms(3) show ?thesis by (auto simp: all_timed_def request_has_offer_def)
next
  case nak
  with assms(3) show ?thesis by (simp add: all_timed_init)
qed

lemma all_timed_timer:
  assumes "client_inv c" and "all_timed c" and "scheduled t c"
    and "run_timer env t (unschedule t c) = Some (c', os)"
  shows "all_timed c'"
proof -
  let ?c = "unschedule t c"
  have inv: "client_inv ?c" using assms(1) by (simp add: client_inv_def)
  have tc: "all_timed ?c" using assms(2) by (simp add: all_timed_def request_has_offer_def)
  note same = all_timed_same[OF _ tc]
  show ?thesis
  proof (cases t)
    case T_SELECT
    from assms(1,3) T_SELECT have "offers c \<noteq> []" by (simp add: client_inv_def)
    then have off: "\<exists>p \<in> set (offers ?c). offer_ltime p \<noteq> None"
      using assms(2) by (cases "offers c") (auto simp: all_timed_def)
    obtain b os' where "b \<noteq> None"
      and "run_timer env T_SELECT ?c =
       Some (let c1 = ?c\<lparr>best_offer := b, offers := []\<rparr>
             in if b = None then c1
                else let c2 = c1\<lparr>cstate := REQUESTING_STATE, curr_backoff := initial_interval_sec\<rparr>
                     in schedule T_RESEND_REQUEST (backoff env c2) c2, os')"
      by (rule select_run[OF inv, of env]) (use off in blast)
    with assms(4) T_SELECT show ?thesis by (auto simp: all_timed_def request_has_offer_def Let_def)
  next
    case T_RESEND_REQUEST
    with assms(2-4) show ?thesis
      by (auto simp: all_timed_def request_has_offer_def bind_eq_Some_conv Let_def)
  next
    case T_RESEND_DISCOVER
    with assms(4) same[OF same_offers_ops(5)[of ?c env]] show ?thesis
      by (auto simp: all_timed_def request_has_offer_def enter_selecting_state_def Let_def
          case_prod_unfold split: if_splits)
  next
    case T_RENEW
    with assms(4) same[OF same_offers_ops(1)[of ?c env]] show ?thesis by simp
  next
    case T_REBIND
    with assms(4) same[OF same_offers_ops(2)[of ?c env]] show ?thesis by simp
  next
    case T_LEASE_EXPIRED
    have "all_timed (?c\<lparr>lease_duration := 0\<rparr>)" using tc by (simp add: all_timed_def request_has_offer_def)
    with T_LEASE_EXPIRED assms(4) all_timed_init show ?thesis by auto
  next
    case T_TIMEOUT
    with assms(4) tc show ?thesis by (auto simp: all_timed_def request_has_offer_def)
  qed
qed

lemma all_timed_step:
  assumes "client_step timed_offers c c'" and "client_inv c" and "all_timed c"
  shows "all_timed c'"
  using assms(1)
proof (rule client_step_cases)
  fix env w assume "c' = fst (write_lease env w c)"
  with write_lease_cases[of c env w] show "all_timed c'"
    using all_timed_init all_timed_same[OF _ assms(3)] by auto
next
  fix env assume "c' = fst (send_dhcp_lease env c)"
  then show "all_timed c'" using all_timed_same[OF same_offers_ops(4) assms(3)] by simp
qed (auto intro: all_timed_push all_timed_timer assms(2,3))

lemma client_reachable_timed: "client_reachable timed_offers c \<Longrightarrow> all_timed c"
proof (induction rule: client_reachable.induct)
  case (cl_init env junk eth ip call)
  show ?case by (simp add: client_initialize_def all_timed_def request_has_offer_def enter_init_fields)
next
  case (cl_step c c')
  then show ?case using all_timed_step client_reachable_inv by blast
qed

section \<open>The requests\<close>

lemma end_options_eq:
  assumes "length os \<le> 305"
  shows "options (end_options os (make_bootrequest c ty ci x)) = [DHO_DHCP_MESSAGE_TYPE, 1, ty] @ os"
proof -
  have "take (3 + length os) (a # b # d # xs) = a # b # d # take (length os) xs" for a b d and xs :: "byte list"
    by (simp add: numeral_3_eq_3)
  with assms show ?thesis by (simp add: end_options_def make_bootrequest_def put_at_def)
qed

lemma bootrequest_fields:
  assumes "length x = 4" and "length (ethAddr c) = 6"
  shows "dm_wf (end_options os (make_bootrequest c ty ci x))"
    and "magic (end_options os (make_bootrequest c ty ci x)) = DHCP_MAGIC"
    and "xid (end_options os (make_bootrequest c ty ci x)) = x"
    and "ciaddr (end_options os (make_bootrequest c ty ci x)) = be32 ci"
    and "take 6 (chaddr (end_options os (make_bootrequest c ty ci x))) = ethAddr c"
  using assms by (simp_all add: end_options_def make_bootrequest_def dm_wf_def zero_msg_def put_at_def)

definition opt4 :: "packet \<Rightarrow> byte \<Rightarrow> byte list" where
  "opt4 p want =
     (case packet_option p want of
        Some v \<Rightarrow> if length v = 4 then [want, 4] @ v else []
      | None \<Rightarrow> [])"

lemma opt4_fetch:
  assumes "whole p"
  obtains r where "fetch p want 4 = Some r"
    "opt4 p want = (case r of None \<Rightarrow> [] | Some i \<Rightarrow> [want, 4] @ take 4 (drop i (data p)))"
proof (rule fetch_whole[OF assms, of want 4])
  fix r assume "fetch p want 4 = Some r" "map_option (\<lambda>j. take 4 (drop j (data p))) r =
      (case packet_option p want of Some v \<Rightarrow> if length v = 4 then Some v else None | None \<Rightarrow> None)"
  then show thesis
    by (intro that[of r]) (auto simp: opt4_def split: option.splits if_splits)
qed

lemma make_request_eq:
  assumes "whole p"
  shows "make_request c (Some p) = Some (end_options
    ((if cstate c \<in> {SELECTING_STATE, INIT_REBOOT, REBOOTING}
      then [DHO_DHCP_REQUESTED_ADDRESS, 4] @ offer_ip p else []) @
     opt4 p DHO_DHCP_LEASE_TIME @
     (if cstate c = SELECTING_STATE then opt4 p DHO_DHCP_SERVER_IDENTIFIER else []) @ [DHO_END])
    (make_bootrequest c DHCP_REQUEST 0 (take 4 (drop (thoff p + sizeof_udp + off_xid) (data p)))))"
proof -
  obtain r1 where r1: "fetch p 51 4 = Some r1"
    "opt4 p 51 = (case r1 of None \<Rightarrow> [] | Some i \<Rightarrow> [51, 4] @ take 4 (drop i (data p)))"
    by (rule opt4_fetch[OF assms])
  obtain r2 where r2: "fetch p 54 4 = Some r2"
    "opt4 p 54 = (case r2 of None \<Rightarrow> [] | Some i \<Rightarrow> [54, 4] @ take 4 (drop i (data p)))"
    by (rule opt4_fetch[OF assms])
  show ?thesis
    using r1 r2 whole_len[OF assms] by (simp add: make_request_def offer_ip_def Let_def)
qed

lemma length_offer_ip: "whole p \<Longrightarrow> length (offer_ip p) = 4"
  using whole_len[of p] by (simp add: offer_ip_def)

text \<open>The options of the two forms of a request for an offer with lease time and server.\<close>

lemma request_options:
  assumes "whole p" and "packet_option p DHO_DHCP_LEASE_TIME = Some lt" "length lt = 4"
    and "packet_option p DHO_DHCP_SERVER_IDENTIFIER = Some sid" "length sid = 4"
    and "make_request c (Some p) = Some q"
  shows "cstate c = SELECTING_STATE \<Longrightarrow> tlvs (options q) =
      [(DHO_DHCP_MESSAGE_TYPE, [DHCP_REQUEST]), (DHO_DHCP_REQUESTED_ADDRESS, offer_ip p),
       (DHO_DHCP_LEASE_TIME, lt), (DHO_DHCP_SERVER_IDENTIFIER, sid)]"
    and "cstate c = REQUESTING_STATE \<Longrightarrow> tlvs (options q) =
      [(DHO_DHCP_MESSAGE_TYPE, [DHCP_REQUEST]), (DHO_DHCP_LEASE_TIME, lt)]"
proof -
  from assms(2-5) have o4: "opt4 p 51 = [51, 4] @ lt" "opt4 p 54 = [54, 4] @ sid"
    by (simp_all add: opt4_def)
  note len = assms(3,5) length_offer_ip[OF assms(1)]
  show "cstate c = SELECTING_STATE \<Longrightarrow> tlvs (options q) =
      [(53, [3]), (50, offer_ip p), (51, lt), (54, sid)]"
    using assms(6) len by (auto simp: make_request_eq[OF assms(1)] end_options_eq o4)
  show "cstate c = REQUESTING_STATE \<Longrightarrow> tlvs (options q) = [(53, [3]), (51, lt)]"
    using assms(6) len by (auto simp: make_request_eq[OF assms(1)] end_options_eq o4)
qed

section \<open>Example packets\<close>

definition demo_reply :: "byte list \<Rightarrow> packet" where
  "demo_reply os = \<lparr>data = replicate 8 0 @
     dm_bytes (zero_msg\<lparr>htype := 1, hlen := 6, yiaddr := [10, 0, 0, 7], magic := DHCP_MAGIC, options := os\<rparr>),
     thoff = 0\<rparr>"

lemma demo_reply_reads:
  "whole (demo_reply os)" "offer_ip (demo_reply os) = [10, 0, 0, 7]"
  "packet_option (demo_reply os) want = msg_option want os (replicate 128 0) (replicate 64 0)"
  "addressed c (demo_reply os) \<longleftrightarrow> curr_xid c = replicate 4 0 \<and> ethAddr c = replicate 6 0"
proof -
  let ?m = "zero_msg\<lparr>htype := 1, hlen := 6, yiaddr := [10, 0, 0, 7], magic := DHCP_MAGIC, options := os\<rparr>"
  have wf: "dm_wf ?m" using zero_msg_wf by (simp add: dm_wf_def)
  show "packet_option (demo_reply os) want = msg_option want os (replicate 128 0) (replicate 64 0)"
    using packet_option_msg[OF wf, of "demo_reply os" "replicate 8 0" want]
    by (simp add: demo_reply_def zero_msg_def)
  show "whole (demo_reply os)" "offer_ip (demo_reply os) = [10, 0, 0, 7]"
    "addressed c (demo_reply os) \<longleftrightarrow> curr_xid c = replicate 4 0 \<and> ethAddr c = replicate 6 0"
    by (auto simp: demo_reply_def whole_def transport_length_def offer_ip_def addressed_def
        dm_bytes_def zero_msg_def Let_def nth_append)
qed

definition demo_env :: client_env where
  "demo_env = \<lparr>ce_endian = LittleEndian, ce_now = 1000, ce_random = 0, ce_jitter1 = 3, ce_jitter2 = 4,
     ce_rand_max = 0x7FFFFFFF, ce_dice = 0\<rparr>"

definition demo_junk :: client where
  "demo_junk = \<lparr>timers = Map.empty, curr_backoff = 0, cstate = BOUND, curr_xid = [], ethAddr = [],
     my_ip = 0, server_ip = 0, lease_duration = 0, start_timestamp_sec = 0, t1_timestamp_sec = 0,
     t2_timestamp_sec = 0, lease_expired_sec = 0, offers = [], best_offer = None,
     has_lease_call = False\<rparr>"

definition demo_client :: client where
  "demo_client = client_initialize demo_env demo_junk (replicate 6 0) 0 False"

abbreviation (input) "timed_offer \<equiv> demo_reply [53, 1, 2, 51, 4, 0, 0, 0, 60, 54, 4, 10, 0, 0, 1, 255]"
abbreviation (input) "untimed_offer \<equiv> demo_reply [53, 1, 2, 255, 0]"

lemma demo_offers:
  "packet_option timed_offer DHO_DHCP_MESSAGE_TYPE = Some [2]"
  "packet_option timed_offer DHO_DHCP_LEASE_TIME = Some [0, 0, 0, 60]"
  "packet_option timed_offer DHO_DHCP_SERVER_IDENTIFIER = Some [10, 0, 0, 1]"
  "offer_ltime timed_offer = Some 60"
  "packet_option untimed_offer DHO_DHCP_MESSAGE_TYPE = Some [2]"
  "offer_ltime untimed_offer = None"
  by (simp_all add: offer_ltime_def demo_reply_reads msg_option_def u32_of_def be_val_def)

text \<open>
  The run to the fault: an offer is selected and requested, then a second offer, without a
  lease time, arrives late.
\<close>

lemma demo_push_offer:
  assumes "addressed c (demo_reply os)" and "packet_option (demo_reply os) 53 = Some [2]"
  shows "\<exists>c' r. client_push demo_env (demo_reply os) c = Some (c', r) \<and> scheduled T_SELECT c' \<and>
    offers c' = demo_reply os # offers c \<and> curr_xid c' = curr_xid c \<and> ethAddr c' = ethAddr c \<and>
    scheduled T_RESEND_REQUEST c' = scheduled T_RESEND_REQUEST c \<and> my_ip c' = my_ip c"
  using assms
  by (simp add: client_push_eq demo_reply_reads push_valid_def Let_def unschedule_def schedule_def
      scheduled_def)

lemma select_fields:
  assumes "run_timer env T_SELECT c = Some (c', r)"
  shows "offers c' = [] \<and> curr_xid c' = curr_xid c \<and> ethAddr c' = ethAddr c \<and> my_ip c' = my_ip c"
  using assms
  by (auto simp: choose_offer_def bind_eq_Some_conv Let_def schedule_def split: if_splits)

lemma demo_requested:
  "\<exists>c. client_reachable (\<lambda>_. True) c \<and> scheduled T_RESEND_REQUEST c \<and> offers c = [] \<and>
     curr_xid c = replicate 4 0 \<and> ethAddr c = replicate 6 0"
proof -
  have r0: "client_reachable (\<lambda>_. True) demo_client"
    unfolding demo_client_def by (rule cl_init)
  have "addressed demo_client timed_offer"
    by (simp add: demo_reply_reads demo_client_def client_initialize_def enter_init_state_def schedule_def)
  from demo_push_offer[OF this demo_offers(1)] obtain c1 r where
    p1: "client_push demo_env timed_offer demo_client = Some (c1, r)" and c1: "scheduled T_SELECT c1"
      "offers c1 = timed_offer # offers demo_client" "curr_xid c1 = curr_xid demo_client"
      "ethAddr c1 = ethAddr demo_client" by blast
  note r1 = cl_step[OF r0 cl_push[OF TrueI p1]]
  let ?u = "unschedule T_SELECT c1"
  have inv: "client_inv ?u" using client_reachable_inv[OF r1] by (simp add: client_inv_def)
  have tm: "\<exists>p \<in> set (offers ?u). offer_ltime p \<noteq> None" using c1 demo_offers(4) by simp
  obtain b os where "b \<noteq> None" and run: "run_timer demo_env T_SELECT ?u =
       Some (let c1 = ?u\<lparr>best_offer := b, offers := []\<rparr>
             in if b = None then c1
                else let c2 = c1\<lparr>cstate := REQUESTING_STATE, curr_backoff := initial_interval_sec\<rparr>
                     in schedule T_RESEND_REQUEST (backoff demo_env c2) c2, os)"
    by (rule select_run[OF inv, of demo_env]) (use tm in blast)
  then obtain c2 where run2: "run_timer demo_env T_SELECT ?u = Some (c2, os)"
    and c2: "scheduled T_RESEND_REQUEST c2" by (auto simp: Let_def)
  from cl_step[OF r1 cl_timer[OF c1(1) run2]] c2 select_fields[OF run2] c1 show ?thesis
    by (auto simp: demo_client_def client_initialize_def enter_init_state_def schedule_def unschedule_def)
qed

section \<open>Properties\<close>

text \<open>
  Property C19: as long as every OFFER on the network carries a lease time, no timer callback
  of the client ever dereferences a null offer or reads outside of a packet, in any state the
  element can reach by receiving packets, firing timers and serving its write handlers.
\<close>

theorem client_timers_safe:
  assumes "client_reachable timed_offers c" and "scheduled t c"
  shows "\<exists>c' os. run_timer env t (unschedule t c) = Some (c', os)"
  using timer_runs[OF client_reachable_inv[OF assms(1)] _ assms(2)] client_reachable_timed[OF assms(1)]
  by (simp add: all_timed_def)

theorem client_timers_safe_witness:
  "\<exists>c' os. run_timer demo_env T_RESEND_DISCOVER (unschedule T_RESEND_DISCOVER demo_client) = Some (c', os)"
proof (rule client_timers_safe)
  show "client_reachable timed_offers demo_client" unfolding demo_client_def by (rule cl_init)
  show "scheduled T_RESEND_DISCOVER demo_client"
    by (simp add: demo_client_def client_initialize_def enter_init_fields)
qed

text \<open>
  Without that assumption the client can crash. A late OFFER without a lease
  time makes \<open>choose_offer\<close> drop the offer that the outstanding request was built from, and
  the retransmission timer, still scheduled, dereferences the null pointer.
\<close>

theorem late_offer_crashes_client:
  "\<exists>c. client_reachable (\<lambda>_. True) c \<and> scheduled T_RESEND_REQUEST c \<and>
     (\<forall>env. run_timer env T_RESEND_REQUEST (unschedule T_RESEND_REQUEST c) = None)"
proof -
  obtain c where c: "client_reachable (\<lambda>_. True) c" "scheduled T_RESEND_REQUEST c" "offers c = []"
    "curr_xid c = replicate 4 0" "ethAddr c = replicate 6 0"
    using demo_requested by blast
  then have "addressed c untimed_offer" by (simp add: demo_reply_reads)
  from demo_push_offer[OF this demo_offers(5)] obtain c1 r where
    p1: "client_push demo_env untimed_offer c = Some (c1, r)" and c1: "scheduled T_SELECT c1"
      "offers c1 = [untimed_offer]" "scheduled T_RESEND_REQUEST c1"
    using c by auto
  let ?u = "unschedule T_SELECT c1" and ?c2 = "(unschedule T_SELECT c1)\<lparr>best_offer := None, offers := []\<rparr>"
  have "choose_offer ?u = Some ?c2"
    using c1 by (simp add: choose_offer_def consider_offer_eq demo_reply_reads demo_offers(6))
  then have "run_timer demo_env T_SELECT ?u = Some (?c2, [])" by simp
  from cl_step[OF cl_step[OF c(1) cl_push[OF TrueI p1]] cl_timer[OF c1(1) this]]
  have "client_reachable (\<lambda>_. True) ?c2" .
  with c1 show ?thesis by (intro exI[of _ ?c2]) (simp add: make_request_def)
qed

text \<open>
  \<open>choose_offer\<close> selects the best offer. Among the offers with a lease time it
  takes one for the address the client already had, if there is one, and among those of the
  same rank one with the longest lease; it selects nothing only when no offer has a lease
  time, and it empties the list of offers.
\<close>

theorem choose_offer_optimal:
  assumes "\<forall>p \<in> set (offers c). whole p"
  shows "\<exists>b. choose_offer c = Some (c\<lparr>best_offer := b, offers := []\<rparr>) \<and>
    (case b of
       None \<Rightarrow> \<forall>p \<in> set (offers c). offer_ltime p = None
     | Some p \<Rightarrow> p \<in> set (offers c) \<and> offer_ltime p \<noteq> None \<and>
         (\<forall>p' \<in> set (offers c). offer_ltime p' \<noteq> None \<longrightarrow>
            (wanted (my_ip c) p' \<longrightarrow> wanted (my_ip c) p) \<and>
            (wanted (my_ip c) p' = wanted (my_ip c) p \<longrightarrow> the (offer_ltime p') \<le> the (offer_ltime p))))"
  by (rule choose_offer_best[OF assms]) blast

theorem choose_offer_optimal_witness:
  "\<exists>c'. choose_offer (demo_client\<lparr>offers := [untimed_offer, timed_offer]\<rparr>) = Some c' \<and>
     best_offer c' = Some timed_offer"
proof -
  let ?c = "demo_client\<lparr>offers := [untimed_offer, timed_offer]\<rparr>"
  have "\<forall>p \<in> set (offers ?c). whole p" by (simp add: demo_reply_reads)
  from choose_offer_optimal[OF this] demo_offers(4,6) show ?thesis
    by (auto split: option.splits)
qed

text \<open>
  For a lease of at most 613566756 seconds that ends before the 32-bit clock
  wraps, \<open>save_lease\<close> orders its three deadlines: renewal at half, rebinding at seven eighths
  and expiry at the end of the lease, and the expiry timer gets the whole duration.
\<close>

theorem lease_deadlines_ordered:
  assumes "7 * unat d < 2 ^ 32" and "unat d + unat (ce_now env) < 2 ^ 32"
  shows "let c' = set_lease_times env d c
    in unat (t1_timestamp_sec c') = unat (ce_now env) + unat d div 2 \<and>
       unat (t2_timestamp_sec c') = unat (ce_now env) + 7 * unat d div 8 \<and>
       unat (lease_expired_sec c') = unat (ce_now env) + unat d \<and>
       t1_timestamp_sec c' \<le> t2_timestamp_sec c' \<and> t2_timestamp_sec c' \<le> lease_expired_sec c' \<and>
       timers c' T_LEASE_EXPIRED = Some d"
proof -
  have m: "unat (d * 7) = 7 * unat d" using assms(1) by (simp add: unat_word_ariths(2))
  have q: "unat (d * 7 div 8) = 7 * unat d div 8" "unat (d div 2) = unat d div 2"
    by (simp_all add: unat_div m)
  have s: "unat (x + ce_now env) = unat (ce_now env) + unat x" if "unat x \<le> unat d" for x
    using assms(2) that by (simp add: unat_word_ariths(1))
  have t1: "unat (d div 2 + ce_now env) = unat (ce_now env) + unat d div 2"
    using s[of "d div 2"] by (simp add: q)
  have t2: "unat (d * 7 div 8 + ce_now env) = unat (ce_now env) + 7 * unat d div 8"
    using s[of "d * 7 div 8"] by (simp add: q)
  have t3: "unat (d + ce_now env) = unat (ce_now env) + unat d"
    using s[of d] by simp
  show ?thesis
    unfolding set_lease_times_def schedule_def Let_def
    by (simp add: t1 t2 t3 word_le_nat_alt; arith)
qed

theorem lease_deadlines_ordered_witness:
  "let c' = set_lease_times demo_env 3600 demo_client
   in t1_timestamp_sec c' \<le> t2_timestamp_sec c' \<and> unat (t2_timestamp_sec c') = 4150 \<and>
      timers c' T_LEASE_EXPIRED = Some 3600"
  using lease_deadlines_ordered[of 3600 demo_env demo_client] by (simp add: demo_env_def Let_def)

text \<open>
  With a longer lease the product \<open>_lease_duration * 7\<close> wraps around. For the
  infinite lease 0xFFFFFFFF the rebinding deadline is 0x1FFFFFFF seconds away, long before the
  renewal deadline at 0x7FFFFFFF seconds.
\<close>

theorem infinite_lease_rebinds_first:
  "let c' = set_lease_times env 0xFFFFFFFF c
   in timers c' T_REBIND = Some (0x1FFFFFFF + ce_jitter2 env) \<and>
      timers c' T_RENEW = Some (0x7FFFFFFF + ce_jitter1 env)"
  by (simp add: set_lease_times_def schedule_def Let_def)

text \<open>
  A retransmitted REQUEST is not the REQUEST that was sent first. The first one
  is built in the SELECTING state and names the offered address and the server; the
  retransmissions are built in the REQUESTING state and carry neither option, and both carry
  the lease time of the offer.
\<close>

theorem retransmitted_request_options:
  assumes "whole p" and "packet_option p DHO_DHCP_LEASE_TIME = Some lt" "length lt = 4"
    and "packet_option p DHO_DHCP_SERVER_IDENTIFIER = Some sid" "length sid = 4"
    and "make_request (c\<lparr>cstate := SELECTING_STATE\<rparr>) (Some p) = Some q1"
    and "make_request (c\<lparr>cstate := REQUESTING_STATE\<rparr>) (Some p) = Some q2"
  shows "tlvs (options q1) =
      [(DHO_DHCP_MESSAGE_TYPE, [DHCP_REQUEST]), (DHO_DHCP_REQUESTED_ADDRESS, offer_ip p),
       (DHO_DHCP_LEASE_TIME, lt), (DHO_DHCP_SERVER_IDENTIFIER, sid)] \<and>
    tlvs (options q2) = [(DHO_DHCP_MESSAGE_TYPE, [DHCP_REQUEST]), (DHO_DHCP_LEASE_TIME, lt)]"
  using request_options(1)[OF assms(1-6)] request_options(2)[OF assms(1-5,7)] by simp

theorem retransmitted_request_options_witness:
  "\<exists>q2. make_request (demo_client\<lparr>cstate := REQUESTING_STATE\<rparr>) (Some timed_offer) = Some q2 \<and>
     tlvs (options q2) = [(DHO_DHCP_MESSAGE_TYPE, [DHCP_REQUEST]), (DHO_DHCP_LEASE_TIME, [0, 0, 0, 60])]"
proof -
  obtain q1 where q1: "make_request (demo_client\<lparr>cstate := SELECTING_STATE\<rparr>) (Some timed_offer) = Some q1"
    using make_request_whole[OF demo_reply_reads(1)] by blast
  obtain q2 where q2: "make_request (demo_client\<lparr>cstate := REQUESTING_STATE\<rparr>) (Some timed_offer) = Some q2"
    using make_request_whole[OF demo_reply_reads(1)] by blast
  from retransmitted_request_options[OF demo_reply_reads(1) demo_offers(2) _ demo_offers(3) _ q1 q2] q2
  show ?thesis by simp
qed

end
