(* ===== verification/DHCP_Handshake.thy ===== *)
theory DHCP_Handshake
  imports DHCP_Server DHCP_Client
begin

text \<open>
  The DHCP client and a DHCP server on a lease pool, run against each other: DISCOVER, OFFER,
  REQUEST, ACK. The network delivers every message behind 42 bytes of Ethernet, IP and UDP
  headers, with the transport header annotation behind the first 34 of them.
\<close>

section \<open>Delivered messages\<close>

definition deliver :: "byte list \<Rightarrow> byte list \<Rightarrow> packet" where
  "deliver h b = \<lparr>data = h @ b, thoff = sizeof_ether + sizeof_ip\<rparr>"

lemma deliver_reads:
  assumes "dm_wf m" and "length h = 42"
  shows "whole (deliver h (dm_bytes m))"
    and "client_of (deliver h (dm_bytes m)) = take 6 (chaddr m)"
    and "rdn (data (deliver h (dm_bytes m))) 70 6 = Some (take 6 (chaddr m))"
    and "rdn (data (deliver h (dm_bytes m))) 54 4 = Some (ciaddr m)"
    and "offer_ip (deliver h (dm_bytes m)) = yiaddr m"
    and "take 4 (drop 46 (data (deliver h (dm_bytes m)))) = xid m"
    and "take 16 (drop 70 (data (deliver h (dm_bytes m)))) = chaddr m"
    and "86 \<le> length (data (deliver h (dm_bytes m)))"
  using assms
  by (simp_all add: deliver_def whole_def transport_length_def client_of_def offer_ip_def dm_wf_def
      dm_bytes_def)

lemma deliver_addressed:
  assumes "dm_wf m" and "length h = 42"
  shows "addressed c (deliver h (dm_bytes m)) \<longleftrightarrow>
    xid m = curr_xid c \<and> htype m = 1 \<and> hlen m = 6 \<and> take 6 (chaddr m) = ethAddr c"
  using assms
  by (simp add: deliver_def addressed_def dm_wf_def dm_bytes_def Let_def nth_append)

lemma deliver_option:
  assumes "dm_wf m" and "length h = 42" and "magic m = DHCP_MAGIC"
  shows "packet_option (deliver h (dm_bytes m)) want = msg_option want (options m) (bfile m) (sname m)"
  using packet_option_msg[OF assms(1,3), of "deliver h (dm_bytes m)" h want] assms(2)
  by (simp add: deliver_def)

lemma fetch_value:
  assumes "whole p" and "packet_option p want = Some v" and "length v = n"
  obtains i where "fetch p want n = Some (Some i)" "take n (drop i (data p)) = v"
  by (rule fetch_whole[OF assms(1), of want n]) (use assms in \<open>auto intro: that\<close>)

section \<open>The steps\<close>

lemma offer_lease_pool_Some:
  assumes "pool_inv t" and "table_rev_lookup t eth \<noteq> None \<or> \<not> dom (free t) \<subseteq> {0} \<and> next_free t \<noteq> Some 0"
  obtains t' k where "offer_lease (pool_vtable nsub now) t eth req = (t', Some k)"
proof -
  obtain t1 k1 where any: "pool_new_lease_any nsub now t eth = (t1, Some k1)"
    using pool_any_None_iff[OF assms(1), of nsub now eth] assms(2)
    by (metis not_None_eq prod.collapse)
  show thesis
  proof (cases req)
    case None
    with any that show thesis by (simp add: offer_lease_def)
  next
    case (Some ip)
    obtain t2 l where new: "pool_new_lease nsub now t eth ip = (t2, l)" by fastforce
    show thesis
    proof (cases l)
      case None
      with new pool.new_None[of nsub now t eth ip t2] have "t2 = t" by simp
      with None Some new any that show thesis by (simp add: offer_lease_def)
    next
      case (Some k)
      with new \<open>req = Some ip\<close> that show thesis by (simp add: offer_lease_def)
    qed
  qed
qed

lemma offer_lease_config: "lt_ip (fst (offer_lease (pool_vtable nsub now) t eth req)) = lt_ip t"
proof (cases req)
  case None
  then show ?thesis by (simp add: offer_lease_def pool_any_frame)
next
  case (Some ip)
  obtain t1 l where "pool_new_lease nsub now t eth ip = (t1, l)" by fastforce
  with Some pool_new_frame(1)[of nsub now t eth ip] show ?thesis
    by (simp add: offer_lease_def pool_any_frame split: option.split)
qed

text \<open>The server answers a DISCOVER when it has an address.\<close>

lemma server_offers:
  assumes "pool_inv t" and "dm_wf q" and "length h = 42"
    and "table_rev_lookup t (take 6 (chaddr q)) \<noteq> None \<or> \<not> dom (free t) \<subseteq> {0} \<and> next_free t \<noteq> Some 0"
  obtains t' k m where
    "offer_reply en nsub (pool_vtable nsub now) t (deliver h (dm_bytes q)) = Some (t', Some m)"
    "make_offer_packet en nsub (data (deliver h (dm_bytes q))) (deref t' k) = Some m"
    "table_rev_lookup t' (take 6 (chaddr q)) = Some k" "lt_ip t' = lt_ip t"
proof -
  let ?p = "deliver h (dm_bytes q)"
  note rd = deliver_reads[OF assms(2,3)]
  obtain r where r: "fetch ?p 50 4 = Some r" by (rule fetch_whole[OF rd(1)])
  obtain t' k where ol: "offer_lease (pool_vtable nsub now) t (take 6 (chaddr q))
      (map_option (\<lambda>i. u32_of (take 4 (drop i (data ?p)))) r) = (t', Some k)"
    by (rule offer_lease_pool_Some[OF assms(1,4)])
  obtain m where m: "make_offer_packet en nsub (data ?p) (deref t' k) = Some m"
    using rd(8) by (simp add: make_offer_packet_def)
  have "offer_reply en nsub (pool_vtable nsub now) t ?p = Some (t', Some m)"
    using r ol m rd(3) by (simp add: offer_reply_def Let_def)
  moreover have "table_rev_lookup t' (take 6 (chaddr q)) = Some k"
    using pool.offer_lease_rev[OF assms(1) ol] by simp
  moreover have "lt_ip t' = lt_ip t" using offer_lease_config ol by (metis fst_conv)
  ultimately show thesis using m that by blast
qed

text \<open>The server acknowledges a request that names the address it holds for the client.\<close>

lemma server_acks:
  assumes "dm_wf q" and "length h = 42" and "magic q = DHCP_MAGIC" and "ciaddr q = be32 0"
    and "tlvs (options q) = [(DHO_DHCP_MESSAGE_TYPE, [DHCP_REQUEST]), (DHO_DHCP_REQUESTED_ADDRESS, be32 ip),
       (DHO_DHCP_LEASE_TIME, lt), (DHO_DHCP_SERVER_IDENTIFIER, be32 sid)]"
    and "table_rev_lookup t (take 6 (chaddr q)) = Some k" and "l_ip (deref t k) = ip"
    and "ip \<noteq> 0" and "sid \<noteq> 0"
  obtains m where
    "ack_reply en nsub now (pool_vtable nsub now') t (deliver h (dm_bytes q)) =
       Some (assign t k (\<lambda>l. l\<lparr>l_valid := Some True\<rparr>), Some m)"
    "make_ack_packet en nsub (lt_ip t) (data (deliver h (dm_bytes q))) (deref t k) = Some m"
proof -
  let ?p = "deliver h (dm_bytes q)"
  note rd = deliver_reads[OF assms(1,2)]
  have "packet_option ?p 54 = Some (be32 sid)" "packet_option ?p 50 = Some (be32 ip)"
    by (simp_all add: deliver_option[OF assms(1-3)] msg_option_def assms(5))
  then obtain i j where f: "fetch ?p 54 4 = Some (Some i)" "take 4 (drop i (data ?p)) = be32 sid"
      "fetch ?p 50 4 = Some (Some j)" "take 4 (drop j (data ?p)) = be32 ip"
    using fetch_value[OF rd(1)] by (metis length_be32)
  obtain m where m: "make_ack_packet en nsub (lt_ip t) (data ?p) (deref t k) = Some m"
    using rd(8) by (simp add: make_ack_packet_def)
  have "ack_reply en nsub now (pool_vtable nsub now') t ?p =
      ack_cases en nsub now (pool_vtable nsub now') t (data ?p) (take 6 (chaddr q)) (Some k) 0 sid ip"
    using f rd(3,4) assms(4,6) by (simp add: ack_reply_def Let_def)
  also have "\<dots> = Some (assign t k (\<lambda>l. l\<lparr>l_valid := Some True\<rparr>), Some m)"
    using assms(7-9) m by (simp add: ack_cases_def)
  finally show thesis using m that by blast
qed

text \<open>The client requests the only offer it has.\<close>

lemma client_requests:
  assumes "whole p" and "packet_option p DHO_DHCP_MESSAGE_TYPE = Some [DHCP_OFFER]" and "addressed c p"
    and "packet_option p DHO_DHCP_LEASE_TIME = Some lt" "length lt = 4"
    and "offers c = []" and "cstate c = SELECTING_STATE"
  obtains c1 c2 q where "client_push env p c = Some (c1, [])"
    "run_timer env' T_SELECT (unschedule T_SELECT c1) = Some (c2, [Output 0 (dm_bytes q)])"
    "make_request (c1\<lparr>cstate := SELECTING_STATE\<rparr>) (Some p) = Some q"
    "curr_xid c2 = curr_xid c" "ethAddr c1 = ethAddr c" "ethAddr c2 = ethAddr c"
proof -
  let ?c0 = "unschedule T_RESEND_DISCOVER c"
  define c1 where "c1 = (if scheduled T_SELECT ?c0 then ?c0 else schedule T_SELECT 1 ?c0)\<lparr>offers := [p]\<rparr>"
  have push: "client_push env p c = Some (c1, [])"
    using assms(2,3,6) by (simp add: client_push_eq[OF assms(1)] push_valid_def Let_def c1_def)
  have c1: "cstate c1 = SELECTING_STATE" "offers c1 = [p]" "ethAddr c1 = ethAddr c" "curr_xid c1 = curr_xid c"
    using assms(7) by (simp_all add: c1_def unschedule_def schedule_def)
  define d where "d = (unschedule T_SELECT c1)\<lparr>best_offer := Some p, offers := []\<rparr>"
  have d: "cstate d = SELECTING_STATE" "ethAddr d = ethAddr c" "curr_xid d = curr_xid c" "best_offer d = Some p"
    using c1 by (simp_all add: d_def unschedule_def)
  have "offer_ltime p = Some (u32_of lt)" using assms(4,5) by (simp add: offer_ltime_def)
  then have ch: "choose_offer (unschedule T_SELECT c1) = Some d"
    by (simp add: choose_offer_def consider_offer_eq[OF assms(1)] c1 d_def)
  obtain q where q: "make_request (c1\<lparr>cstate := SELECTING_STATE\<rparr>) (Some p) = Some q"
    using make_request_whole[OF assms(1)] by blast
  then have q2: "make_request d (Some p) = Some q"
    using c1 d by (simp add: make_request_eq[OF assms(1)] make_bootrequest_def)
  define e where "e = d\<lparr>cstate := REQUESTING_STATE, curr_backoff := 4\<rparr>"
  have run: "run_timer env' T_SELECT (unschedule T_SELECT c1) =
      Some (schedule T_RESEND_REQUEST (backoff env' e) e, [Output 0 (dm_bytes q)])"
    using ch q2 d by (simp add: e_def Let_def)
  show thesis
    by (rule that[OF push run q]) (simp_all add: c1 d e_def schedule_def)
qed

lemma client_binds:
  assumes "whole p" and "packet_option p DHO_DHCP_MESSAGE_TYPE = Some [DHCP_ACK]" and "addressed c p"
    and "packet_option p DHO_DHCP_LEASE_TIME = Some (be32 d)"
    and "packet_option p DHO_DHCP_SERVER_IDENTIFIER = Some (be32 sip)"
    and "offer_ip p = be32 ip"
  obtains c' os where "client_push env p c = Some (c', os)" "cstate c' = BOUND" "my_ip c' = ip"
    "server_ip c' = sip" "lease_duration c' = d" "scheduled T_LEASE_EXPIRED c'"
    "\<not> scheduled T_RESEND_REQUEST c'"
proof -
  obtain i where i: "fetch p 51 4 = Some (Some i)" "take 4 (drop i (data p)) = be32 d"
    using fetch_value[OF assms(1,4)] by auto
  obtain j where j: "fetch p 54 4 = Some (Some j)" "take 4 (drop j (data p)) = be32 sip"
    using fetch_value[OF assms(1,5)] by auto
  have y: "rdn (data p) (24 + thoff p) 4 = Some (be32 ip)"
    using whole_len[OF assms(1)] assms(6) by (simp add: offer_ip_def add.commute)
  define c0 where "c0 = (unschedule T_RESEND_REQUEST (unschedule T_TIMEOUT (c\<lparr>cstate := BOUND\<rparr>)))
      \<lparr>curr_backoff := 4, best_offer := None\<rparr>"
  define c' where "c' = (set_lease_times env d (c0\<lparr>my_ip := ip\<rparr>))\<lparr>server_ip := sip\<rparr>"
  have "\<exists>os. save_lease env p c0 = Some (c', os)"
    using i j y by (simp add: save_lease_def Let_def c'_def)
  then obtain os where "client_push env p c = Some (c', os)"
    using assms(2,3) by (auto simp: client_push_eq[OF assms(1)] push_valid_def c0_def)
  then show thesis
    by (rule that) (simp_all add: c'_def c0_def, simp_all add: set_lease_times_def Let_def schedule_def
        scheduled_def)
qed

section \<open>The handshake\<close>

text \<open>
  The four messages, each delivered behind the headers \<open>h\<close>, with the client's environment
  \<open>env\<close> and the server's clock \<open>now\<close>; \<^const>\<open>None\<close> if a handler faults or does not answer.
\<close>

definition handshake ::
    "endian \<Rightarrow> int \<Rightarrow> timestamp \<Rightarrow> client_env \<Rightarrow> byte list \<Rightarrow> lease_pool \<Rightarrow> client \<Rightarrow>
     (lease_pool \<times> client) option" where
  "handshake en nsub now env h t c0 =
     do {
       let (c, discover) = make_discovery env c0;
       (t1, offer) \<leftarrow> offer_reply en nsub (pool_vtable nsub now) t (deliver h (dm_bytes discover));
       m1 \<leftarrow> offer;
       (c1, _) \<leftarrow> client_push env (deliver h (dm_bytes m1)) c;
       (c2, sent) \<leftarrow> run_timer env T_SELECT (unschedule T_SELECT c1);
       request \<leftarrow> (case sent of [Output 0 b] \<Rightarrow> Some b | _ \<Rightarrow> None);
       (t2, ack) \<leftarrow> ack_reply en nsub now (pool_vtable nsub now) t1 (deliver h request);
       m2 \<leftarrow> ack;
       (c3, _) \<leftarrow> client_push env (deliver h (dm_bytes m2)) c2;
       Some (t2, c3)
     }"

lemma discovery_fields:
  assumes "make_discovery env c0 = (c, q)" and "length (ethAddr c0) = 6"
  shows "dm_wf q" "take 6 (chaddr q) = ethAddr c0" "curr_xid c = xid q" "ethAddr c = ethAddr c0"
    "cstate c = cstate c0" "offers c = offers c0" "htype q = 1" "hlen q = 6"
  using assms
  by (auto simp: make_discovery_def Let_def bootrequest_fields)
    (simp_all add: end_options_def make_bootrequest_def zero_msg_def)

lemma reply_hw:
  "make_offer_packet en nsub d l = Some m \<Longrightarrow> htype m = 1 \<and> hlen m = 6"
  "make_ack_packet en nsub sip d l = Some m \<Longrightarrow> htype m = 1 \<and> hlen m = 6"
  by (auto simp: make_offer_packet_def make_ack_packet_def bind_eq_Some_conv)

text \<open>From the offer on: the request it leads to is acknowledged and the client is bound.\<close>

lemma offer_leads_to_ack:
  assumes m1: "make_offer_packet en nsub (data pd) (deref t1 k) = Some m1"
    and xd: "take 4 (drop 46 (data pd)) = curr_xid c" and hd: "take 6 (take 16 (drop 70 (data pd))) = ethAddr c"
    and rev: "table_rev_lookup t1 (ethAddr c) = Some k" and ip: "l_ip (deref t1 k) \<noteq> 0"
    and c: "offers c = []" "cstate c = SELECTING_STATE" "length (ethAddr c) = 6"
    and h: "length h = 42"
  obtains c1 c2 b t2 m2 c3 os3 where
    "client_push env (deliver h (dm_bytes m1)) c = Some (c1, [])"
    "run_timer env T_SELECT (unschedule T_SELECT c1) = Some (c2, [Output 0 b])"
    "ack_reply en nsub now (pool_vtable nsub now) t1 (deliver h b) = Some (t2, Some m2)"
    "client_push env (deliver h (dm_bytes m2)) c2 = Some (c3, os3)"
    "t2 = assign t1 k (\<lambda>l. l\<lparr>l_valid := Some True\<rparr>)"
    "cstate c3 = BOUND" "my_ip c3 = l_ip (deref t1 k)" "server_ip c3 = lt_ip t1"
    "lease_duration c3 = lease_seconds nsub (deref t1 k)" "scheduled T_LEASE_EXPIRED c3"
proof -
  let ?l = "deref t1 k" and ?p = "deliver h (dm_bytes m1)"
  note o = make_offer_Some[OF m1] and ohw = reply_hw(1)[OF m1]
  have wf: "dm_wf m1" and mg: "magic m1 = [99, 130, 83, 99]" and y: "yiaddr m1 = be32 (l_ip ?l)"
    and x: "xid m1 = curr_xid c" and ch: "take 6 (chaddr m1) = ethAddr c"
    using o xd hd by simp_all
  note rd = deliver_reads[OF wf h]
  have os: "packet_option ?p 53 = Some [2]" "packet_option ?p 51 = Some (mem32 en (lease_seconds nsub ?l))"
    "packet_option ?p 54 = Some (be32 (l_ip ?l))"
    using o by (simp_all add: deliver_option[OF wf h mg] msg_option_typed[OF _ _ refl, simplified])
  have ad: "addressed c ?p" using x ch ohw by (simp add: deliver_addressed[OF wf h])
  obtain c1 c2 q where cq: "client_push env ?p c = Some (c1, [])"
    "run_timer env T_SELECT (unschedule T_SELECT c1) = Some (c2, [Output 0 (dm_bytes q)])"
    "make_request (c1\<lparr>cstate := SELECTING_STATE\<rparr>) (Some ?p) = Some q"
    "curr_xid c2 = curr_xid c" "ethAddr c1 = ethAddr c" "ethAddr c2 = ethAddr c"
    by (rule client_requests[OF rd(1) os(1) ad os(2) _ c(1,2)]) simp
  have tl: "tlvs (options q) = [(53, [3]), (50, be32 (l_ip ?l)),
      (51, mem32 en (lease_seconds nsub ?l)), (54, be32 (l_ip ?l))]"
    using request_options(1)[OF rd(1) os(2) _ os(3) _ cq(3)] rd(5) y by simp
  have x1: "take 4 (drop (thoff ?p + 8 + 4) (data ?p)) = curr_xid c"
    using rd(6) x by (simp add: deliver_def)
  have lx: "length (curr_xid c) = 4" using wf x by (simp add: dm_wf_def)
  have q: "dm_wf q" "magic q = [99, 130, 83, 99]" "ciaddr q = be32 0" "xid q = curr_xid c"
    "take 6 (chaddr q) = ethAddr c"
    using cq(3,5) c(3) lx
    by (auto simp: make_request_eq[OF rd(1)] x1[simplified] bootrequest_fields)
  obtain m2 where m2: "ack_reply en nsub now (pool_vtable nsub now) t1 (deliver h (dm_bytes q)) =
       Some (assign t1 k (\<lambda>l. l\<lparr>l_valid := Some True\<rparr>), Some m2)"
    "make_ack_packet en nsub (lt_ip t1) (data (deliver h (dm_bytes q))) ?l = Some m2"
    by (rule server_acks[OF q(1) h q(2,3) tl _ refl ip ip]) (use rev q(5) in simp_all)
  note a = make_ack_Some[OF m2(2)]
  have wf2: "dm_wf m2" and mg2: "magic m2 = [99, 130, 83, 99]" using a by simp_all
  note rd2 = deliver_reads[OF wf2 h] and rq = deliver_reads[OF q(1) h]
  let ?p2 = "deliver h (dm_bytes m2)"
  have os2: "packet_option ?p2 53 = Some [5]" "packet_option ?p2 51 = Some (be32 (lease_seconds nsub ?l))"
    "packet_option ?p2 54 = Some (be32 (lt_ip t1))"
    using a by (simp_all add: deliver_option[OF wf2 h mg2] msg_option_typed[OF _ _ refl, simplified])
  have ad2: "addressed c2 ?p2"
    using a reply_hw(2)[OF m2(2)] rq(6,7) q(4,5) cq(4,6) by (simp add: deliver_addressed[OF wf2 h])
  have ip2: "offer_ip ?p2 = be32 (l_ip ?l)" using rd2(5) a by simp
  obtain c3 os3 where "client_push env ?p2 c2 = Some (c3, os3)" "cstate c3 = BOUND"
    "my_ip c3 = l_ip ?l" "server_ip c3 = lt_ip t1" "lease_duration c3 = lease_seconds nsub ?l"
    "scheduled T_LEASE_EXPIRED c3"
    by (rule client_binds[OF rd2(1) os2(1) ad2 os2(2,3) ip2]) blast
  with cq m2(1) show thesis using that by blast
qed

section \<open>Offers of an earlier transaction\<close>

text \<open>
  A NAK, like the end of a lease, brings the client back to the initial state and keeps the offers that came in after
  it had chosen. A client that chooses such an offer sends a request with the transaction identifier of the offer, and
  does not take the reply with that identifier for its own.
\<close>

lemma nak_keeps_offers:
  "cstate c \<noteq> BOUND \<Longrightarrow> \<exists>c'. push_valid env p DHCP_NACK c = Some (c', []) \<and> cstate c' = INIT_STATE \<and> offers c' = offers c"
  by (simp add: push_valid_def enter_init_state_def schedule_def)

lemma stale_offer_unanswered:
  assumes "whole p" "packet_option p DHO_DHCP_LEASE_TIME = Some lt" "length lt = 4" "offers c = [p]"
    and "take 4 (drop (thoff p + 12) (data p)) \<noteq> curr_xid c"
  shows "\<exists>c' q. run_timer env T_SELECT c = Some (c', [Output 0 (dm_bytes q)]) \<and> xid q \<noteq> curr_xid c' \<and>
    (\<forall>m h. dm_wf m \<and> length h = 42 \<and> xid m = xid q \<longrightarrow> \<not> addressed c' (deliver h (dm_bytes m)))"
proof -
  define d where "d = c\<lparr>best_offer := Some p, offers := []\<rparr>"
  have "offer_ltime p = Some (u32_of lt)" using assms(2,3) by (simp add: offer_ltime_def)
  then have ch: "choose_offer c = Some d"
    by (simp add: choose_offer_def consider_offer_eq[OF assms(1)] assms(4) d_def)
  obtain q where q: "make_request d (Some p) = Some q" using make_request_whole[OF assms(1)] by blast
  then have x: "xid q = take 4 (drop (thoff p + 12) (data p))"
    by (auto simp: make_request_eq[OF assms(1)] end_options_def make_bootrequest_def add.commute)
  define e where "e = d\<lparr>cstate := REQUESTING_STATE, curr_backoff := 4\<rparr>"
  have run: "run_timer env T_SELECT c = Some (schedule T_RESEND_REQUEST (backoff env e) e, [Output 0 (dm_bytes q)])"
    using ch q by (simp add: e_def d_def Let_def)
  have "curr_xid (schedule T_RESEND_REQUEST (backoff env e) e) = curr_xid c" by (simp add: e_def d_def schedule_def)
  then show ?thesis using run x assms(5) by (auto simp: deliver_addressed)
qed

section \<open>Properties\<close>

text \<open>
  Property C1: the handshake works. A client that is in the selecting state and holds no offer yet, and a server on a
  pool that has an address for it, complete DISCOVER, OFFER, REQUEST and ACK without a fault; the client ends up bound
  to an address of the configured range that the server's table holds for the client's hardware address and has marked
  valid, it knows the server's address and the duration of the lease, and its expiry timer runs. The pool has an
  address for a client that has a lease in it, and otherwise when an address other than 0.0.0.0 is free and the first
  free address of the queue is not 0.0.0.0. A client that holds offers of an earlier transaction may choose one of
  those and then ignores the reply.
\<close>

theorem handshake_binds:
  assumes "server_reachable s e t"
    and "table_rev_lookup t (ethAddr c0) \<noteq> None \<or> \<not> dom (free t) \<subseteq> {0} \<and> next_free t \<noteq> Some 0"
    and "cstate c0 = SELECTING_STATE" and "offers c0 = []" and "length (ethAddr c0) = 6"
    and "length h = 42"
  shows "\<exists>t' c'. handshake en nsub now env h t c0 = Some (t', c') \<and> cstate c' = BOUND \<and>
    my_ip c' \<in> {s..e} \<and> table_rev_lookup t' (ethAddr c0) = Some (my_ip c') \<and>
    l_valid (deref t' (my_ip c')) = Some True \<and> server_ip c' = lt_ip t \<and>
    lease_duration c' = lease_seconds nsub (deref t' (my_ip c')) \<and> scheduled T_LEASE_EXPIRED c'"
proof -
  note reach = server_reachable_pool[OF assms(1)]
  from pool_reachable_inv[OF reach] have inv: "pool_inv t" by simp
  obtain c q where dq: "make_discovery env c0 = (c, q)" by fastforce
  note d = discovery_fields[OF dq assms(5)]
  obtain t1 k m1 where o: "offer_reply en nsub (pool_vtable nsub now) t (deliver h (dm_bytes q)) = Some (t1, Some m1)"
    "make_offer_packet en nsub (data (deliver h (dm_bytes q))) (deref t1 k) = Some m1"
    "table_rev_lookup t1 (take 6 (chaddr q)) = Some k" "lt_ip t1 = lt_ip t"
    by (rule server_offers[OF inv d(1) assms(6)]) (use assms(2) d(2) in simp_all)
  from pool_reachable_steps[OF offer_reply_steps[OF o(1)] reach]
  have "pool_reachable s e t1" .
  from pool_reachable_inv[OF this] have inv1: "pool_inv t1" and m1: "managed t1 = {s..e}" by auto
  from pool.rev_own[OF inv1, of nsub now "ethAddr c0" k] o(3) d(2)
  have k: "l_ip (deref t1 k) = k" by simp
  have "k \<in> {s..e}" using o(3) m1 by (auto simp: managed_def rev_lookup_Some)
  have k0: "k \<noteq> 0" using o(3) inv1 by (auto simp: rev_lookup_Some pool_inv_def)
  note rd = deliver_reads[OF d(1) assms(6)]
  have pre: "take 4 (drop 46 (data (deliver h (dm_bytes q)))) = curr_xid c"
    "take 6 (take 16 (drop 70 (data (deliver h (dm_bytes q))))) = ethAddr c"
    "table_rev_lookup t1 (ethAddr c) = Some k" "l_ip (deref t1 k) \<noteq> 0" "offers c = []"
    "cstate c = SELECTING_STATE" "length (ethAddr c) = 6"
    using rd(6,7) d o(3) k k0 assms(3-5) by simp_all
  obtain c1 c2 b t2 m2 c3 os3 where a:
    "client_push env (deliver h (dm_bytes m1)) c = Some (c1, [])"
    "run_timer env T_SELECT (unschedule T_SELECT c1) = Some (c2, [Output 0 b])"
    "ack_reply en nsub now (pool_vtable nsub now) t1 (deliver h b) = Some (t2, Some m2)"
    "client_push env (deliver h (dm_bytes m2)) c2 = Some (c3, os3)"
    "t2 = assign t1 k (\<lambda>l. l\<lparr>l_valid := Some True\<rparr>)"
    "cstate c3 = BOUND" "my_ip c3 = l_ip (deref t1 k)" "server_ip c3 = lt_ip t1"
    "lease_duration c3 = lease_seconds nsub (deref t1 k)" "scheduled T_LEASE_EXPIRED c3"
    by (rule offer_leads_to_ack[OF o(2) pre assms(6)])
  have "handshake en nsub now env h t c0 = Some (t2, c3)"
    using dq o(1) a(1-4) by (simp add: handshake_def del: run_timer.simps)
  moreover have "table_rev_lookup t2 (ethAddr c0) = Some k"
    using pre(3) d(4) unfolding a(5) by (simp add: assign_rev_lookup rev_lookup_Some)
  moreover have "deref t2 k = (deref t1 k)\<lparr>l_valid := Some True\<rparr>"
    unfolding a(5) by (simp add: assign_def deref_def)
  ultimately show ?thesis
    using a(6-10) k \<open>k \<in> {s..e}\<close> o(4) by (auto simp: lease_seconds_def)
qed

theorem handshake_binds_witness:
  "\<exists>t' c'. handshake LittleEndian 1 0 demo_env (replicate 42 0) demo_pool
      (demo_client\<lparr>cstate := SELECTING_STATE\<rparr>) = Some (t', c') \<and>
     cstate c' = BOUND \<and> my_ip c' \<in> {5..6} \<and> server_ip c' = 1"
proof -
  let ?c = "demo_client\<lparr>cstate := SELECTING_STATE\<rparr>"
  have "server_reachable 5 6 demo_pool" by (rule srv_init) (rule demo_pool_configure)
  moreover have "\<not> dom (free demo_pool) \<subseteq> {0} \<and> next_free demo_pool \<noteq> Some 0"
    by (simp add: demo_pool_def next_free_def)
  moreover have "offers ?c = []" "length (ethAddr ?c) = 6"
    by (simp_all add: demo_client_def client_initialize_def enter_init_state_def schedule_def)
  ultimately have "\<exists>t' c'. handshake LittleEndian 1 0 demo_env (replicate 42 0) demo_pool ?c = Some (t', c') \<and>
      cstate c' = BOUND \<and> my_ip c' \<in> {5..6} \<and> table_rev_lookup t' (ethAddr ?c) = Some (my_ip c') \<and>
      l_valid (deref t' (my_ip c')) = Some True \<and> server_ip c' = lt_ip demo_pool \<and>
      lease_duration c' = lease_seconds 1 (deref t' (my_ip c')) \<and> scheduled T_LEASE_EXPIRED c'"
    by (intro handshake_binds) simp_all
  then show ?thesis by (auto simp: demo_pool_def)
qed

end
