(* ===== verification/PPP_Control.thy ===== *)
theory PPP_Control
  imports Click_Prelude
begin

text \<open>
  The finite state machine shared by the PPP control protocols
  (\<open>iias/ppp/pppcontrolprotocol.{hh,cc}\<close>). The class is a record that the derived protocols
  extend; its virtual functions \<open>addci\<close>, \<open>reqci\<close> and \<open>protreject\<close> are the fields of a vtable.
  A handler returns the new state and the frames it sends, or an error: a failed \<open>assert\<close>, a
  read outside of the packet, or an option loop that does not end.
\<close>

section \<open>State\<close>

datatype ppp_state = INITIAL | STARTING | CLOSED | STOPPED | CLOSING | STOPPING | REQSENT
  | ACKRCVD | ACKSENT | OPENED

abbreviation (input) CONFREQ :: byte where "CONFREQ \<equiv> 1"
abbreviation (input) CONFACK :: byte where "CONFACK \<equiv> 2"
abbreviation (input) CONFNAK :: byte where "CONFNAK \<equiv> 3"
abbreviation (input) CONFREJ :: byte where "CONFREJ \<equiv> 4"
abbreviation (input) TERMREQ :: byte where "TERMREQ \<equiv> 5"
abbreviation (input) TERMACK :: byte where "TERMACK \<equiv> 6"
abbreviation (input) CODEREJ :: byte where "CODEREJ \<equiv> 7"
abbreviation (input) PROTREJ :: byte where "PROTREJ \<equiv> 8"
abbreviation (input) "DEFMAXCONFREQS \<equiv> 10 :: int"

text \<open>\<open>timer\<close> says whether the retransmission timer is scheduled.\<close>

record ppp =
  protocol :: u16
  st :: ppp_state
  cur_id :: byte
  reqid :: byte
  seen_ack :: bool
  retransmits :: int
  timer :: bool

datatype ppp_error = AssertFailed | OutOfBounds | Diverges

type_synonym frame = "byte list"

text \<open>
  A packet under edit is its buffer and the length that is in use: \<open>take\<close> shortens a packet
  without touching the bytes behind its new end.
\<close>

type_synonym wpacket = "byte list \<times> nat"

text \<open>
  The virtual functions. \<open>addci\<close> gets the value of \<open>click_random()\<close>; \<open>reqci\<close> edits the packet
  and is \<^const>\<open>None\<close> when its loop does not end.
\<close>

record 's ppp_vtable =
  vt_addci :: "u32 \<Rightarrow> 's \<Rightarrow> 's \<times> byte list"
  vt_reqci :: "'s \<Rightarrow> wpacket \<Rightarrow> wpacket option"
  vt_protreject :: "byte list \<Rightarrow> 's \<Rightarrow> 's \<times> frame list"

definition ppp_init :: "u16 \<Rightarrow> ppp" where
  "ppp_init proto = \<lparr>protocol = proto, st = STOPPED, cur_id = 0, reqid = 0, seen_ack = False,
     retransmits = DEFMAXCONFREQS, timer = False\<rparr>"

section \<open>Sending\<close>

definition sdata :: "'a ppp_scheme \<Rightarrow> byte \<Rightarrow> byte \<Rightarrow> byte list \<Rightarrow> frame" where
  "sdata s code i d =
     [0xff, 0x03] @ be16 (protocol s) @ [code, i] @ be16 (word_of_nat (4 + length d)) @ d"

definition sconfreq ::
    "'a ppp_scheme ppp_vtable \<Rightarrow> u32 \<Rightarrow> bool \<Rightarrow> 'a ppp_scheme \<Rightarrow> 'a ppp_scheme \<times> frame list" where
  "sconfreq vt rnd retransmit s =
     (let s1 = (if retransmit then s
                else s\<lparr>retransmits := DEFMAXCONFREQS, cur_id := cur_id s + 1, reqid := cur_id s + 1\<rparr>);
          s2 = s1\<lparr>seen_ack := False\<rparr>;
          (s3, d) = vt_addci vt rnd s2
      in (s3\<lparr>retransmits := retransmits s3 - 1, timer := True\<rparr>, [sdata s3 CONFREQ (reqid s2) d]))"

section \<open>Receiving\<close>

text \<open>\<open>rconfreq\<close>: the packet itself is edited and sent back.\<close>

definition rconfreq ::
    "'a ppp_scheme ppp_vtable \<Rightarrow> u32 \<Rightarrow> byte list \<Rightarrow> 'a ppp_scheme \<Rightarrow>
     ppp_error + 'a ppp_scheme \<times> frame list" where
  "rconfreq vt rnd p s =
     (let (s1, fs) = (if st s \<in> {OPENED, STOPPED}
                      then let (s', f) = sconfreq vt rnd False s in (s'\<lparr>st := REQSENT\<rparr>, f)
                      else (s, []))
      in case vt_reqci vt s1 (p, length p) of
           None \<Rightarrow> Inl Diverges
         | Some (b, n) \<Rightarrow>
             let reply = fs @ [take n b]
             in if b ! 4 = CONFACK
                then if st s1 = ACKRCVD then Inr (s1\<lparr>timer := False, st := OPENED\<rparr>, reply)
                     else if timer s1 then Inr (s1\<lparr>st := ACKSENT\<rparr>, reply)
                     else Inl AssertFailed
                else if st s1 \<noteq> ACKRCVD
                     then if timer s1 then Inr (s1\<lparr>st := REQSENT\<rparr>, reply) else Inl AssertFailed
                     else Inr (s1, reply))"

definition rconfack ::
    "'a ppp_scheme ppp_vtable \<Rightarrow> u32 \<Rightarrow> byte list \<Rightarrow> 'a ppp_scheme \<Rightarrow>
     ppp_error + 'a ppp_scheme \<times> frame list" where
  "rconfack vt rnd p s =
     (let i = p ! 5
      in if i \<noteq> reqid s \<or> seen_ack s then Inr (s, [])
         else let s1 = s\<lparr>seen_ack := True\<rparr>
              in case st s1 of
                   STOPPED \<Rightarrow> Inr (s1, [sdata s1 TERMACK i []])
                 | REQSENT \<Rightarrow>
                     if timer s1 then Inr (s1\<lparr>st := ACKRCVD, retransmits := DEFMAXCONFREQS\<rparr>, [])
                     else Inl AssertFailed
                 | ACKSENT \<Rightarrow>
                     Inr (s1\<lparr>timer := False, st := OPENED, retransmits := DEFMAXCONFREQS\<rparr>, [])
                 | ACKRCVD \<Rightarrow>
                     let (s2, f) = sconfreq vt rnd False (s1\<lparr>timer := False\<rparr>)
                     in Inr (s2\<lparr>st := REQSENT\<rparr>, f)
                 | OPENED \<Rightarrow>
                     let (s2, f) = sconfreq vt rnd False (s1\<lparr>timer := False\<rparr>)
                     in Inr (s2\<lparr>st := REQSENT\<rparr>, f)
                 | _ \<Rightarrow> Inr (s1, []))"

definition rconfnakrej ::
    "'a ppp_scheme ppp_vtable \<Rightarrow> u32 \<Rightarrow> byte list \<Rightarrow> 'a ppp_scheme \<Rightarrow> 'a ppp_scheme \<times> frame list" where
  "rconfnakrej vt rnd p s =
     (let i = p ! 5
      in if i \<noteq> reqid s \<or> seen_ack s then (s, [])
         else let s1 = s\<lparr>seen_ack := True\<rparr>
              in case st s1 of
                   STOPPED \<Rightarrow> (s1, [sdata s1 TERMACK i []])
                 | REQSENT \<Rightarrow> sconfreq vt rnd False (s1\<lparr>timer := False\<rparr>)
                 | ACKSENT \<Rightarrow> sconfreq vt rnd False (s1\<lparr>timer := False\<rparr>)
                 | ACKRCVD \<Rightarrow>
                     let (s2, f) = sconfreq vt rnd False (s1\<lparr>timer := False\<rparr>)
                     in (s2\<lparr>st := REQSENT\<rparr>, f)
                 | OPENED \<Rightarrow>
                     let (s2, f) = sconfreq vt rnd False (s1\<lparr>timer := False\<rparr>)
                     in (s2\<lparr>st := REQSENT\<rparr>, f)
                 | _ \<Rightarrow> (s1, []))"

definition rtermreq :: "byte list \<Rightarrow> 'a ppp_scheme \<Rightarrow> 'a ppp_scheme \<times> frame list" where
  "rtermreq p s =
     (let s1 = (case st s of
                  ACKRCVD \<Rightarrow> s\<lparr>st := REQSENT\<rparr>
                | ACKSENT \<Rightarrow> s\<lparr>st := REQSENT\<rparr>
                | OPENED \<Rightarrow> s\<lparr>retransmits := 0, st := STOPPING, timer := True\<rparr>
                | _ \<Rightarrow> s)
      in (s1, [sdata s1 TERMACK (p ! 5) []]))"

definition rtermack ::
    "'a ppp_scheme ppp_vtable \<Rightarrow> u32 \<Rightarrow> 'a ppp_scheme \<Rightarrow> 'a ppp_scheme \<times> frame list" where
  "rtermack vt rnd s =
     (case st s of
        STOPPING \<Rightarrow> (s\<lparr>timer := False, st := STOPPED\<rparr>, [])
      | ACKRCVD \<Rightarrow> (s\<lparr>st := REQSENT\<rparr>, [])
      | OPENED \<Rightarrow> let (s1, f) = sconfreq vt rnd False s in (s1\<lparr>st := REQSENT\<rparr>, f)
      | _ \<Rightarrow> (s, []))"

text \<open>
  \<open>simple_action\<close>. The control header starts at offset 4: code, identifier, two bytes of
  length.
\<close>

definition simple_action ::
    "'a ppp_scheme ppp_vtable \<Rightarrow> u32 \<Rightarrow> byte list \<Rightarrow> 'a ppp_scheme \<Rightarrow>
     ppp_error + 'a ppp_scheme \<times> frame list" where
  "simple_action vt rnd p s =
     (if length p < 4 then Inr (s, [])
      else if u16_of (take 2 (drop 2 p)) \<noteq> protocol s then Inr (vt_protreject vt p s)
      else if length p \<le> 6 then Inr (s, [])
      else case rdn p 6 2 of
             None \<Rightarrow> Inl OutOfBounds
           | Some len \<Rightarrow>
               if length p < 4 + unat (u16_of len) then Inr (s, [])
               else let code = p ! 4
                    in if code = CONFREQ then rconfreq vt rnd p s
                       else if code = CONFACK then rconfack vt rnd p s
                       else if code = CONFNAK \<or> code = CONFREJ then Inr (rconfnakrej vt rnd p s)
                       else if code = TERMREQ then Inr (rtermreq p s)
                       else if code = TERMACK then Inr (rtermack vt rnd s)
                       else if code = CODEREJ
                       then Inr (if st s = ACKRCVD then s\<lparr>st := REQSENT\<rparr> else s, [])
                       else Inr (s, []))"

text \<open>\<open>timeout\<close>, called by the scheduler when the timer has fired.\<close>

definition timeout ::
    "'a ppp_scheme ppp_vtable \<Rightarrow> u32 \<Rightarrow> 'a ppp_scheme \<Rightarrow> ppp_error + 'a ppp_scheme \<times> frame list" where
  "timeout vt rnd s =
     (if st s = STOPPING
      then if retransmits s \<le> 0 then Inr (s\<lparr>st := STOPPED\<rparr>, [])
           else let s1 = s\<lparr>cur_id := cur_id s + 1, reqid := cur_id s + 1\<rparr>
                in Inr (s1\<lparr>timer := True, retransmits := retransmits s1 - 1\<rparr>,
                        [sdata s1 TERMREQ (reqid s1) []])
      else if st s \<in> {REQSENT, ACKRCVD, ACKSENT}
      then if retransmits s \<le> 0 then Inr (s\<lparr>st := STOPPED\<rparr>, [])
           else let (s1, f) = sconfreq vt rnd True s
                in if st s1 = ACKRCVD
                   then if timer s1 then Inr (s1\<lparr>st := REQSENT\<rparr>, f) else Inl AssertFailed
                   else Inr (s1, f)
      else Inr (s, []))"

text \<open>The scheduler clears the timer before it calls back.\<close>

definition ppp_fire ::
    "'a ppp_scheme ppp_vtable \<Rightarrow> u32 \<Rightarrow> 'a ppp_scheme \<Rightarrow> ppp_error + 'a ppp_scheme \<times> frame list" where
  "ppp_fire vt rnd s = timeout vt rnd (s\<lparr>timer := False\<rparr>)"

text \<open>A silent peer: the timer fires again and again, with fresh random numbers.\<close>

fun ppp_silence ::
    "'a ppp_scheme ppp_vtable \<Rightarrow> u32 list \<Rightarrow> 'a ppp_scheme \<Rightarrow>
     ppp_error + 'a ppp_scheme \<times> frame list" where
  "ppp_silence vt [] s = Inr (s, [])"
| "ppp_silence vt (r # rs) s =
     (if timer s
      then case ppp_fire vt r s of
             Inl e \<Rightarrow> Inl e
           | Inr (s1, f1) \<Rightarrow>
               (case ppp_silence vt rs s1 of Inl e \<Rightarrow> Inl e | Inr (s2, f2) \<Rightarrow> Inr (s2, f1 @ f2))
      else Inr (s, []))"

section \<open>What the machine relies on\<close>

text \<open>
  The derived protocols keep their hands off the machine: building options and rejecting a
  protocol do not change the state, the timer or the retransmission counter.
\<close>

definition fsm_of :: "'a ppp_scheme \<Rightarrow> u16 \<times> ppp_state \<times> byte \<times> bool \<times> int \<times> bool" where
  "fsm_of s = (protocol s, st s, reqid s, seen_ack s, retransmits s, timer s)"

locale ppp_protocol =
  fixes vt :: "'a ppp_scheme ppp_vtable"
  assumes addci_frame: "fsm_of (fst (vt_addci vt rnd s)) = fsm_of s"
    and protreject_frame: "fsm_of (fst (vt_protreject vt p s)) = fsm_of s"

text \<open>
  The invariant: only six states occur, the timer runs exactly in the four states that wait
  for the peer, and the retransmission counter stays within its bounds.
\<close>

definition ppp_inv :: "'a ppp_scheme \<Rightarrow> bool" where
  "ppp_inv s \<longleftrightarrow>
     st s \<in> {STOPPED, STOPPING, REQSENT, ACKRCVD, ACKSENT, OPENED} \<and>
     (timer s \<longleftrightarrow> st s \<in> {STOPPING, REQSENT, ACKRCVD, ACKSENT}) \<and>
     0 \<le> retransmits s \<and> retransmits s \<le> DEFMAXCONFREQS"

definition ppp_ok :: "ppp_error + 'a ppp_scheme \<times> frame list \<Rightarrow> bool" where
  "ppp_ok r = (case r of Inl e \<Rightarrow> e \<noteq> AssertFailed | Inr (s, _) \<Rightarrow> ppp_inv s)"

lemma ppp_ok_simps [simp]:
  "ppp_ok (Inr (s, f)) = ppp_inv s" "ppp_ok (Inl e) \<longleftrightarrow> e \<noteq> AssertFailed"
  by (simp_all add: ppp_ok_def)

lemma fsm_of_eq:
  "fsm_of s' = fsm_of s \<longleftrightarrow> protocol s' = protocol s \<and> st s' = st s \<and> reqid s' = reqid s \<and>
     seen_ack s' = seen_ack s \<and> retransmits s' = retransmits s \<and> timer s' = timer s"
  by (simp add: fsm_of_def)

context ppp_protocol
begin

lemma sconfreq_fields:
  assumes "sconfreq vt rnd re s = (s', f)"
  shows "st s' = st s" "timer s'" "\<not> seen_ack s'" "protocol s' = protocol s"
    "retransmits s' = (if re then retransmits s else DEFMAXCONFREQS) - 1"
    "reqid s' = (if re then reqid s else cur_id s + 1)" "length f = 1"
  using assms addci_frame[unfolded fsm_of_eq]
  by (auto simp: sconfreq_def Let_def case_prod_unfold)

lemma rconfreq_ok: "ppp_inv s \<Longrightarrow> ppp_ok (rconfreq vt rnd p s)"
proof -
  assume inv: "ppp_inv s"
  obtain s' f where sc: "sconfreq vt rnd False s = (s', f)" by fastforce
  note fields = sconfreq_fields[OF sc]
  show ?thesis
    using inv fields
    by (auto simp: rconfreq_def sc Let_def ppp_inv_def split: option.splits)
qed

lemma rconfack_ok: "ppp_inv s \<Longrightarrow> ppp_ok (rconfack vt rnd p s)"
proof -
  assume inv: "ppp_inv s"
  obtain s' f where sc: "sconfreq vt rnd False (s\<lparr>seen_ack := True, timer := False\<rparr>) = (s', f)" by fastforce
  note fields = sconfreq_fields[OF sc]
  show ?thesis
    using inv fields
    by (auto simp: rconfack_def sc Let_def ppp_inv_def split: ppp_state.splits)
qed

lemma rconfnakrej_inv: "ppp_inv s \<Longrightarrow> ppp_inv (fst (rconfnakrej vt rnd p s))"
proof -
  assume inv: "ppp_inv s"
  obtain s' f where sc: "sconfreq vt rnd False (s\<lparr>seen_ack := True, timer := False\<rparr>) = (s', f)" by fastforce
  note fields = sconfreq_fields[OF sc]
  show ?thesis
    using inv fields
    by (auto simp: rconfnakrej_def sc Let_def ppp_inv_def split: ppp_state.splits)
qed

lemma rterm_inv:
  assumes "ppp_inv s"
  shows "ppp_inv (fst (rtermreq p s))" and "ppp_inv (fst (rtermack vt rnd s))"
proof -
  obtain s' f where sc: "sconfreq vt rnd False s = (s', f)" by fastforce
  note fields = sconfreq_fields[OF sc]
  show "ppp_inv (fst (rtermreq p s))"
    using assms by (auto simp: rtermreq_def ppp_inv_def Let_def split: ppp_state.splits)
  show "ppp_inv (fst (rtermack vt rnd s))"
    using assms fields by (auto simp: rtermack_def sc ppp_inv_def Let_def split: ppp_state.splits)
qed

lemma protreject_inv: "ppp_inv s \<Longrightarrow> ppp_inv (fst (vt_protreject vt p s))"
  using protreject_frame[of p s] by (simp add: fsm_of_eq ppp_inv_def)

lemma ppp_ok_Inr: "ppp_inv (fst r) \<Longrightarrow> ppp_ok (Inr r)"
  by (cases r) simp

lemma simple_action_ok: "ppp_inv s \<Longrightarrow> ppp_ok (simple_action vt rnd p s)"
  unfolding simple_action_def Let_def
  by (auto intro: ppp_ok_Inr rconfreq_ok rconfack_ok rconfnakrej_inv rterm_inv protreject_inv
      split: option.split) (auto simp: ppp_inv_def)

lemma fire_ok: "ppp_inv s \<Longrightarrow> timer s \<Longrightarrow> ppp_ok (ppp_fire vt rnd s)"
proof -
  assume inv: "ppp_inv s" and t: "timer s"
  obtain s' f where sc: "sconfreq vt rnd True (s\<lparr>timer := False\<rparr>) = (s', f)" by fastforce
  note fields = sconfreq_fields[OF sc]
  show ?thesis
    using inv t fields
    by (auto simp: ppp_fire_def timeout_def sc Let_def ppp_inv_def split: ppp_state.splits)
qed

lemma fire_give_up: "ppp_inv s \<Longrightarrow> timer s \<Longrightarrow> retransmits s = 0 \<Longrightarrow>
    \<exists>s'. ppp_fire vt rnd s = Inr (s', []) \<and> st s' = STOPPED \<and> \<not> timer s'"
  by (auto simp: ppp_fire_def timeout_def ppp_inv_def)

lemma fire_retry:
  assumes "ppp_inv s" and "timer s" and "0 < retransmits s"
  obtains s' f where "ppp_fire vt rnd s = Inr (s', [f])" "ppp_inv s'" "timer s'"
    "retransmits s' = retransmits s - 1"
proof -
  obtain s' fs where sc: "sconfreq vt rnd True (s\<lparr>timer := False\<rparr>) = (s', fs)" by fastforce
  note fields = sconfreq_fields[OF sc]
  from fields(7) obtain f where f: "fs = [f]" by (cases fs) auto
  have "\<exists>s' f. ppp_fire vt rnd s = Inr (s', [f]) \<and> ppp_inv s' \<and> timer s' \<and> retransmits s' = retransmits s - 1"
    using assms fields
    by (auto simp: ppp_fire_def timeout_def sc f Let_def ppp_inv_def split: ppp_state.splits if_splits)
  then show thesis using that by blast
qed

lemma silence_stops:
  "ppp_inv s \<Longrightarrow> timer s \<Longrightarrow> retransmits s < int (length rnds) \<Longrightarrow>
   \<exists>s' fs. ppp_silence vt rnds s = Inr (s', fs) \<and> st s' = STOPPED \<and> \<not> timer s' \<and>
     int (length fs) = retransmits s"
proof (induction rnds arbitrary: s)
  case Nil
  then show ?case by (simp add: ppp_inv_def)
next
  case (Cons r rnds)
  show ?case
  proof (cases "retransmits s = 0")
    case True
    then obtain s' where "ppp_fire vt r s = Inr (s', [])" "st s' = STOPPED" "\<not> timer s'"
      using fire_give_up[OF Cons.prems(1,2), of r] by blast
    then show ?thesis using Cons.prems(2) True by (cases rnds) auto
  next
    case False
    with Cons.prems(1) have "0 < retransmits s" by (auto simp: ppp_inv_def)
    then obtain s' f where "ppp_fire vt r s = Inr (s', [f])" "ppp_inv s'" "timer s'"
        "retransmits s' = retransmits s - 1"
      using fire_retry[OF Cons.prems(1,2), of r] by blast
    with Cons.IH[of s'] Cons.prems show ?thesis by auto
  qed
qed

end

section \<open>Runs\<close>

text \<open>The machine from its initial state, receiving any packets and firing its timer.\<close>

inductive ppp_reachable :: "'a ppp_scheme ppp_vtable \<Rightarrow> 'a ppp_scheme \<Rightarrow> 'a ppp_scheme \<Rightarrow> bool"
  for vt s0 where
  ppp_start: "ppp_reachable vt s0 s0"
| ppp_packet: "ppp_reachable vt s0 s \<Longrightarrow> simple_action vt rnd p s = Inr (s', f) \<Longrightarrow> ppp_reachable vt s0 s'"
| ppp_timer: "ppp_reachable vt s0 s \<Longrightarrow> timer s \<Longrightarrow> ppp_fire vt rnd s = Inr (s', f) \<Longrightarrow>
    ppp_reachable vt s0 s'"

context ppp_protocol
begin

lemma reachable_inv: "ppp_reachable vt s0 s \<Longrightarrow> ppp_inv s0 \<Longrightarrow> ppp_inv s"
proof (induction rule: ppp_reachable.induct)
  case (ppp_packet s rnd p s' f)
  then show ?case using simple_action_ok[of s rnd p] by simp
next
  case (ppp_timer s rnd s' f)
  then show ?case using fire_ok[of s rnd] by simp
qed

lemma reachable_asserts:
  assumes "ppp_reachable vt s0 s" and "ppp_inv s0"
  shows "ppp_inv s \<and> simple_action vt rnd p s \<noteq> Inl AssertFailed \<and>
    (timer s \<longrightarrow> ppp_fire vt rnd s \<noteq> Inl AssertFailed)"
proof -
  have inv: "ppp_inv s" by (rule reachable_inv[OF assms])
  from simple_action_ok[OF inv, of rnd p] have "simple_action vt rnd p s \<noteq> Inl AssertFailed" by auto
  moreover from fire_ok[OF inv, of rnd] have "timer s \<longrightarrow> ppp_fire vt rnd s \<noteq> Inl AssertFailed" by auto
  ultimately show ?thesis using inv by blast
qed

lemma rconf_bounds:
  "rconfreq vt rnd p s \<noteq> Inl OutOfBounds" "rconfack vt rnd p s \<noteq> Inl OutOfBounds"
  by (auto simp: rconfreq_def rconfack_def Let_def case_prod_unfold split: option.splits ppp_state.splits)

lemma simple_action_bounds:
  "simple_action vt rnd p s = Inl OutOfBounds \<longleftrightarrow>
     length p = 7 \<and> u16_of (take 2 (drop 2 p)) = protocol s"
proof (cases "length p < 8")
  case True
  then show ?thesis by (auto simp: simple_action_def rdn_def)
next
  case False
  then show ?thesis by (auto simp: simple_action_def rconf_bounds Let_def)
qed

end

lemma ppp_init_inv: "ppp_inv (ppp_init proto)"
  by (simp add: ppp_inv_def ppp_init_def)

end
