(* ===== verification/PPP_Options.thy ===== *)
theory PPP_Options
  imports PPP_Control
begin

text \<open>
  The two PPP control protocols built on the machine of \<open>PPP_Control\<close>: LCP
  (\<open>iias/ppp/lcp.{hh,cc}\<close>) and IPCP (\<open>iias/ppp/ipcp.{hh,cc}\<close>). Both answer a configuration
  request by editing the received packet in place; their loops step by a length byte that the
  peer chose, so they are partial functions. Inside a loop every byte that is read lies before
  the end of the packet or, behind a removed option, before its old end.
\<close>

section \<open>Option lists in a packet\<close>

abbreviation (input) CI_ADDR :: byte where "CI_ADDR \<equiv> 3"
abbreviation (input) CI_MAGICNUMBER :: byte where "CI_MAGICNUMBER \<equiv> 5"

abbreviation (input) "ci_start \<equiv> 8 :: nat"

text \<open>\<open>cp->len = htons(ntohs(cp->len) - n)\<close>; \<open>memmove(ci, next, n)\<close>.\<close>

definition lendec :: "nat \<Rightarrow> byte list \<Rightarrow> byte list" where
  "lendec n b = put_at 6 (be16 (u16_of (take 2 (drop 6 b)) - word_of_nat n)) b"

definition memmove :: "nat \<Rightarrow> nat \<Rightarrow> nat \<Rightarrow> byte list \<Rightarrow> byte list" where
  "memmove dst src n b = put_at dst (take n (drop src b)) b"

text \<open>
  The loop that takes the options of type \<open>ty\<close> out of a rejected request: \<open>e\<close> is the end of
  the packet, \<open>ci\<close> the current option.
\<close>

partial_function (option) filter_ci :: "byte \<Rightarrow> byte list \<Rightarrow> nat \<Rightarrow> nat \<Rightarrow> wpacket option" where
  "filter_ci ty b e ci =
     (if ci + 1 < e
      then let len = unat (b ! (ci + 1)); nxt = ci + len
           in if e < nxt then Some (b, e)
              else if b ! ci = ty
              then let b1 = memmove ci nxt (e - nxt) (lendec len b);
                       e1 = e - (nxt - ci)
                   in filter_ci ty b1 e1 (ci + unat (b1 ! (ci + 1)))
              else filter_ci ty b e nxt
      else Some (b, e))"

section \<open>LCP\<close>

record lcp = ppp +
  magic :: u32

definition lcp_addci :: "endian \<Rightarrow> u32 \<Rightarrow> lcp \<Rightarrow> lcp \<times> byte list" where
  "lcp_addci en rnd s =
     (let s1 = (if st s \<noteq> REQSENT \<and> st s \<noteq> ACKRCVD \<and> st s \<noteq> ACKSENT then s\<lparr>magic := rnd\<rparr> else s)
      in (s1, [CI_MAGICNUMBER, 6] @ mem32 en (magic s1)))"

text \<open>The first loop of \<open>reqci\<close>: the code, and whether the function returns at once.\<close>

partial_function (option) lcp_scan :: "byte list \<Rightarrow> nat \<Rightarrow> nat \<Rightarrow> byte \<Rightarrow> (byte \<times> bool) option" where
  "lcp_scan b e ci code =
     (if ci + 1 < e
      then let nxt = ci + unat (b ! (ci + 1))
           in if e < nxt then Some (CONFREJ, True)
              else if b ! ci \<noteq> CI_MAGICNUMBER then Some (CONFREJ, False)
              else lcp_scan b e nxt CONFACK
      else Some (code, False))"

definition lcp_reqci :: "lcp \<Rightarrow> wpacket \<Rightarrow> wpacket option" where
  "lcp_reqci s p =
     (case p of (b, e) \<Rightarrow>
       do {
         (code, bail) \<leftarrow> lcp_scan (b[4 := CONFREJ]) e ci_start CONFREJ;
         let b1 = b[4 := code];
         if bail then Some (b1, e)
         else if code = CONFREJ then filter_ci CI_MAGICNUMBER b1 e ci_start
         else Some (b1, e)
       })"

definition lcp_protreject :: "byte list \<Rightarrow> lcp \<Rightarrow> lcp \<times> frame list" where
  "lcp_protreject p s =
     (let s1 = s\<lparr>cur_id := cur_id s + 1\<rparr>
      in (s1, [sdata s1 PROTREJ (cur_id s1) (drop 2 p)]))"

definition lcp_vtable :: "endian \<Rightarrow> lcp ppp_vtable" where
  "lcp_vtable en = \<lparr>vt_addci = lcp_addci en, vt_reqci = lcp_reqci, vt_protreject = lcp_protreject\<rparr>"

definition lcp_init :: lcp where
  "lcp_init = ppp.extend (ppp_init 0xc021) \<lparr>magic = 0\<rparr>"

section \<open>IPCP\<close>

record ipcp = ppp +
  localip :: ip_addr
  remoteip :: ip_addr

definition ipcp_addci :: "u32 \<Rightarrow> ipcp \<Rightarrow> ipcp \<times> byte list" where
  "ipcp_addci rnd s = (s, [CI_ADDR, 6] @ be32 (localip s))"

partial_function (option) ipcp_scan ::
    "ip_addr \<Rightarrow> byte list \<Rightarrow> nat \<Rightarrow> nat \<Rightarrow> byte \<Rightarrow> (byte \<times> bool) option" where
  "ipcp_scan remote b e ci code =
     (if ci + 1 < e
      then let len = unat (b ! (ci + 1)); nxt = ci + len
           in if e < nxt then Some (CONFREJ, True)
              else if b ! ci \<noteq> CI_ADDR \<or> len \<noteq> 6 then Some (CONFREJ, False)
              else ipcp_scan remote b e nxt
                     (if take 4 (drop (ci + 2) b) \<noteq> be32 remote then CONFNAK
                      else if code \<noteq> CONFNAK then CONFACK else CONFNAK)
      else Some (code, False))"

text \<open>
  The second loop does not change the code, so its two forms are two loops: taking the
  addresses out of a reject, and writing the peer's address into the others.
\<close>

partial_function (option) ipcp_fill ::
    "ip_addr \<Rightarrow> byte list \<Rightarrow> nat \<Rightarrow> nat \<Rightarrow> wpacket option" where
  "ipcp_fill remote b e ci =
     (if ci + 1 < e
      then let nxt = ci + unat (b ! (ci + 1))
           in if e < nxt then Some (b, e)
              else ipcp_fill remote (if b ! ci = CI_ADDR then put_at (ci + 2) (be32 remote) b else b) e nxt
      else Some (b, e))"

definition ipcp_reqci :: "ipcp \<Rightarrow> wpacket \<Rightarrow> wpacket option" where
  "ipcp_reqci s p =
     (case p of (b, e) \<Rightarrow>
       do {
         (code, bail) \<leftarrow> ipcp_scan (remoteip s) (b[4 := CONFREJ]) e ci_start CONFREJ;
         let b1 = b[4 := code];
         if bail then Some (b1, e)
         else if code = CONFREJ then filter_ci CI_ADDR b1 e ci_start
         else ipcp_fill (remoteip s) b1 e ci_start
       })"

definition ipcp_vtable :: "ipcp ppp_vtable" where
  "ipcp_vtable = \<lparr>vt_addci = ipcp_addci, vt_reqci = ipcp_reqci, vt_protreject = (\<lambda>_ s. (s, []))\<rparr>"

definition ipcp_init :: "ip_addr \<Rightarrow> ip_addr \<Rightarrow> ipcp" where
  "ipcp_init l r = ppp.extend (ppp_init 0x8021) \<lparr>localip = l, remoteip = r\<rparr>"

section \<open>Both are protocols of the machine\<close>

interpretation lcp: ppp_protocol "lcp_vtable en"
  by unfold_locales
    (simp_all add: lcp_vtable_def lcp_addci_def lcp_protreject_def fsm_of_def Let_def)

interpretation ipcp: ppp_protocol ipcp_vtable
  by unfold_locales (simp_all add: ipcp_vtable_def ipcp_addci_def fsm_of_def)

section \<open>Well-formed option lists\<close>

text \<open>An option is its type and its data; on the wire its length counts the two header bytes.\<close>

type_synonym ci = "byte \<times> byte list"

definition ci_enc :: "ci \<Rightarrow> byte list" where
  "ci_enc c = fst c # word_of_nat (2 + length (snd c)) # snd c"

definition ci_encs :: "ci list \<Rightarrow> byte list" where
  "ci_encs cs = concat (map ci_enc cs)"

definition ci_wf :: "ci \<Rightarrow> bool" where
  "ci_wf c \<longleftrightarrow> length (snd c) \<le> 253"

lemma ci_encs_simps [simp]: "ci_encs [] = []" "ci_encs (c # cs) = ci_enc c @ ci_encs cs"
  by (simp_all add: ci_encs_def)

lemma length_ci_enc [simp]: "length (ci_enc c) = 2 + length (snd c)"
  by (simp add: ci_enc_def)

lemma ci_len: "ci_wf c \<Longrightarrow> unat (word_of_nat (2 + length (snd c)) :: byte) = 2 + length (snd c)"
  unfolding unat_of_nat by (simp add: ci_wf_def)

text \<open>Reading the option at the end of a prefix.\<close>

lemma ci_read:
  assumes "b = pre @ ci_enc c @ rest" and "ci_wf c"
  shows "b ! length pre = fst c" and "unat (b ! (length pre + 1)) = length (ci_enc c)"
    and "take (length (snd c)) (drop (length pre + 2) b) = snd c"
  using assms ci_len[OF assms(2)] by (simp_all add: ci_enc_def nth_append)

lemma lcp_scan_encs:
  "\<forall>c \<in> set cs. ci_wf c \<Longrightarrow>
   lcp_scan (pre @ ci_encs cs @ rest) (length pre + length (ci_encs cs)) (length pre) code =
     Some (if \<forall>c \<in> set cs. fst c = CI_MAGICNUMBER then (if cs = [] then code else CONFACK) else CONFREJ, False)"
proof (induction cs arbitrary: pre code)
  case Nil
  then show ?case by (simp add: lcp_scan.simps)
next
  case (Cons c cs)
  let ?b = "pre @ ci_encs (c # cs) @ rest"
  have b: "?b = pre @ ci_enc c @ (ci_encs cs @ rest)" by simp
  note rd = ci_read[OF b]
  from Cons.prems have wf: "ci_wf c" by simp
  have IH: "lcp_scan ?b (length pre + length (ci_encs (c # cs))) (length pre + length (ci_enc c)) CONFACK =
      Some (if \<forall>c \<in> set cs. fst c = CI_MAGICNUMBER then CONFACK else CONFREJ, False)"
    using Cons.IH[of "pre @ ci_enc c" CONFACK] Cons.prems by (simp add: add.assoc cong: if_cong)
  show ?case
    using IH rd[OF wf] by (subst lcp_scan.simps) (simp add: Let_def)
qed

text \<open>
  What the reject filter really keeps: after it has removed an option it steps over the
  option that took its place without looking at its type.
\<close>

fun kept :: "byte \<Rightarrow> ci list \<Rightarrow> ci list" where
  "kept ty [] = []"
| "kept ty [c] = (if fst c = ty then [] else [c])"
| "kept ty (c # c' # cs) = (if fst c = ty then c' # kept ty cs else c # kept ty (c' # cs))"

lemma kept_subset: "set (kept ty cs) \<subseteq> set cs"
  by (induction ty cs rule: kept.induct) auto

lemma length_kept_encs: "length (ci_encs (kept ty cs)) \<le> length (ci_encs cs)"
  by (induction ty cs rule: kept.induct) auto

lemma lendec_append: "8 \<le> length h \<Longrightarrow> lendec n (h @ x) = lendec n h @ x"
  by (simp add: lendec_def put_at_def)

lemma length_lendec [simp]: "8 \<le> length h \<Longrightarrow> length (lendec n h) = length h"
  by (simp add: lendec_def)

lemma lendec_lendec: "8 \<le> length h \<Longrightarrow> lendec m (lendec n h) = lendec (n + m) h"
  by (simp add: lendec_def put_at_def diff_diff_eq)

lemma be16_u16_of: "length bs = 2 \<Longrightarrow> be16 (u16_of bs) = bs"
proof -
  assume l: "length bs = 2"
  then have "be_val bs < 2 ^ 16" using be_val_lt[of bs] by simp
  then have "unat (u16_of bs) = be_val bs" by (simp add: u16_of_def unat_of_nat)
  then show ?thesis using be_bytes_be_val[of bs] l by (simp add: be16_def)
qed

lemma lendec_0 [simp]: "8 \<le> length h \<Longrightarrow> lendec 0 h = h"
proof -
  assume "8 \<le> length h"
  moreover have "take 2 (drop 6 h) @ drop 8 h = drop 6 h"
    using append_take_drop_id[of 2 "drop 6 h"] by simp
  ultimately show ?thesis by (simp add: lendec_def be16_u16_of put_at_def)
qed

lemma filter_remove:
  assumes "8 \<le> length pre" and "b = pre @ ci_enc c @ x @ rest" and "ci_wf c" and "fst c = ty"
    and "e = length pre + length (ci_enc c) + length x"
  obtains rest' where
    "filter_ci ty b e (length pre) =
       (let b1 = lendec (length (ci_enc c)) pre @ x @ rest'
        in filter_ci ty b1 (length pre + length x) (length pre + unat (b1 ! (length pre + 1))))"
proof -
  let ?n = "length (ci_enc c)"
  note rd = ci_read[OF assms(2,3)]
  let ?rest' = "drop (length x) (ci_enc c @ x @ rest)"
  have "memmove (length pre) (length pre + ?n) (length x) (lendec ?n b) = lendec ?n pre @ x @ ?rest'"
    using assms(1) unfolding assms(2) by (simp add: lendec_append memmove_def put_at_def)
  then have "filter_ci ty b e (length pre) =
       (let b1 = lendec ?n pre @ x @ ?rest'
        in filter_ci ty b1 (length pre + length x) (length pre + unat (b1 ! (length pre + 1))))"
    using rd assms(4,5) by (subst filter_ci.simps) (simp add: Let_def)
  then show thesis by (rule that)
qed

lemma filter_skip:
  assumes "b = pre @ ci_enc c @ x @ rest" and "ci_wf c" and "fst c \<noteq> ty"
    and "e = length pre + length (ci_enc c) + length x"
  shows "filter_ci ty b e (length pre) = filter_ci ty b e (length pre + length (ci_enc c))"
  using ci_read[OF assms(1,2)] assms(3,4) by (subst filter_ci.simps) (simp add: Let_def)

lemma filter_end: "e \<le> ci + 1 \<Longrightarrow> filter_ci ty b e ci = Some (b, e)"
  by (simp add: filter_ci.simps)

lemma filter_encs:
  "8 \<le> length pre \<Longrightarrow> \<forall>c \<in> set cs. ci_wf c \<Longrightarrow>
   \<exists>rest'. filter_ci ty (pre @ ci_encs cs @ rest) (length pre + length (ci_encs cs)) (length pre) =
     Some (lendec (length (ci_encs cs) - length (ci_encs (kept ty cs))) pre @ ci_encs (kept ty cs) @ rest',
           length pre + length (ci_encs (kept ty cs)))"
proof (induction ty cs arbitrary: pre rest rule: kept.induct)
  case (1 ty)
  then show ?case by (auto simp: filter_end)
next
  case (2 ty c)
  let ?b = "pre @ ci_encs [c] @ rest"
  have b: "?b = pre @ ci_enc c @ [] @ rest" by simp
  show ?case
  proof (cases "fst c = ty")
    case True
    obtain rest' where "filter_ci ty ?b (length pre + length (ci_encs [c])) (length pre) =
       (let b1 = lendec (length (ci_enc c)) pre @ [] @ rest'
        in filter_ci ty b1 (length pre + length []) (length pre + unat (b1 ! (length pre + 1))))"
      by (rule filter_remove[OF "2.prems"(1) b _ True]) (use "2.prems" in simp_all)
    with True show ?thesis by (simp add: Let_def filter_end)
  next
    case False
    with filter_skip[OF b _ False] "2.prems" show ?thesis by (simp add: filter_end)
  qed
next
  case (3 ty c c' cs)
  let ?b = "pre @ ci_encs (c # c' # cs) @ rest"
  have b: "?b = pre @ ci_enc c @ ci_encs (c' # cs) @ rest" by simp
  show ?case
  proof (cases "fst c = ty")
    case True
    let ?n = "length (ci_enc c)"
    let ?pre = "lendec ?n pre"
    have len: "length ?pre = length pre" using "3.prems" by simp
    obtain rest' where r: "filter_ci ty ?b (length pre + length (ci_encs (c # c' # cs))) (length pre) =
       (let b1 = ?pre @ ci_encs (c' # cs) @ rest'
        in filter_ci ty b1 (length pre + length (ci_encs (c' # cs))) (length pre + unat (b1 ! (length pre + 1))))"
      by (rule filter_remove[OF "3.prems"(1) b _ True]) (use "3.prems" in \<open>simp_all add: add.assoc\<close>)
    have "unat ((?pre @ ci_encs (c' # cs) @ rest') ! (length pre + 1)) = length (ci_enc c')"
      using ci_read(2)[of "?pre @ ci_encs (c' # cs) @ rest'" ?pre c' "ci_encs cs @ rest'"] len "3.prems"
      by simp
    with r have "filter_ci ty ?b (length pre + length (ci_encs (c # c' # cs))) (length pre) =
        filter_ci ty ((?pre @ ci_enc c') @ ci_encs cs @ rest')
          (length (?pre @ ci_enc c') + length (ci_encs cs)) (length (?pre @ ci_enc c'))"
      using len by (simp add: Let_def add.assoc)
    moreover obtain rest'' where
      "filter_ci ty ((?pre @ ci_enc c') @ ci_encs cs @ rest')
          (length (?pre @ ci_enc c') + length (ci_encs cs)) (length (?pre @ ci_enc c')) =
       Some (lendec (length (ci_encs cs) - length (ci_encs (kept ty cs))) (?pre @ ci_enc c') @
          ci_encs (kept ty cs) @ rest'', length (?pre @ ci_enc c') + length (ci_encs (kept ty cs)))"
      using "3.IH"(1)[OF True, of "?pre @ ci_enc c'" rest'] "3.prems" len by auto
    ultimately show ?thesis
      using True "3.prems" len length_kept_encs[of ty cs]
      by (simp add: lendec_append lendec_lendec Suc_diff_le)
  next
    case False
    let ?cs = "c' # cs"
    have "filter_ci ty ?b (length pre + length (ci_encs (c # ?cs))) (length pre) =
        filter_ci ty ((pre @ ci_enc c) @ ci_encs ?cs @ rest)
          (length (pre @ ci_enc c) + length (ci_encs ?cs)) (length (pre @ ci_enc c))"
      using filter_skip[OF b _ False] "3.prems" by (simp add: add.assoc)
    moreover obtain rest'' where
      "filter_ci ty ((pre @ ci_enc c) @ ci_encs ?cs @ rest)
          (length (pre @ ci_enc c) + length (ci_encs ?cs)) (length (pre @ ci_enc c)) =
       Some (lendec (length (ci_encs ?cs) - length (ci_encs (kept ty ?cs))) (pre @ ci_enc c) @
          ci_encs (kept ty ?cs) @ rest'', length (pre @ ci_enc c) + length (ci_encs (kept ty ?cs)))"
      using "3.IH"(2)[OF False, of "pre @ ci_enc c" rest] "3.prems" by auto
    ultimately show ?thesis
      using False "3.prems" by (simp add: lendec_append)
  qed
qed

text \<open>The answer to a request, over the list of its options.\<close>

definition lcp_accepts :: "ci list \<Rightarrow> bool" where
  "lcp_accepts cs \<longleftrightarrow> cs \<noteq> [] \<and> (\<forall>c \<in> set cs. fst c = CI_MAGICNUMBER)"

lemma lcp_reqci_encs:
  assumes "length h = 8" and "\<forall>c \<in> set cs. ci_wf c"
  shows "\<exists>b n. lcp_reqci s (h @ ci_encs cs, 8 + length (ci_encs cs)) = Some (b, n) \<and>
    take n b =
      (if lcp_accepts cs then h[4 := CONFACK] @ ci_encs cs
       else lendec (length (ci_encs cs) - length (ci_encs (kept CI_MAGICNUMBER cs))) (h[4 := CONFREJ]) @
         ci_encs (kept CI_MAGICNUMBER cs))"
proof -
  have upd: "(h @ ci_encs cs)[4 := x] = h[4 := x] @ ci_encs cs" for x
    using assms(1) by (simp add: list_update_append)
  have scan: "lcp_scan (h[4 := CONFREJ] @ ci_encs cs) (8 + length (ci_encs cs)) 8 CONFREJ =
      Some (if lcp_accepts cs then CONFACK else CONFREJ, False)"
    using lcp_scan_encs[OF assms(2), of "h[4 := CONFREJ]" "[]" CONFREJ] assms(1)
    by (auto simp: lcp_accepts_def)
  obtain r where f: "filter_ci CI_MAGICNUMBER (h[4 := CONFREJ] @ ci_encs cs) (8 + length (ci_encs cs)) 8 =
     Some (lendec (length (ci_encs cs) - length (ci_encs (kept CI_MAGICNUMBER cs))) (h[4 := CONFREJ]) @
       ci_encs (kept CI_MAGICNUMBER cs) @ r, 8 + length (ci_encs (kept CI_MAGICNUMBER cs)))"
    using filter_encs[of "h[4 := CONFREJ]" cs CI_MAGICNUMBER "[]"] assms by auto
  show ?thesis
  proof (cases "lcp_accepts cs")
    case True
    with scan assms(1) show ?thesis by (simp add: lcp_reqci_def upd)
  next
    case False
    with scan f assms(1) show ?thesis by (simp add: lcp_reqci_def upd)
  qed
qed

definition ipcp_answer :: "ip_addr \<Rightarrow> ci list \<Rightarrow> byte" where
  "ipcp_answer remote cs =
     (if cs = [] \<or> (\<exists>c \<in> set cs. fst c \<noteq> CI_ADDR \<or> length (snd c) \<noteq> 4) then CONFREJ
      else if \<forall>c \<in> set cs. snd c = be32 remote then CONFACK else CONFNAK)"

lemma ipcp_scan_encs:
  assumes "\<forall>c \<in> set cs. ci_wf c"
  shows "ipcp_scan remote (pre @ ci_encs cs @ rest) (length pre + length (ci_encs cs)) (length pre) code =
     Some (if \<exists>c \<in> set cs. fst c \<noteq> CI_ADDR \<or> length (snd c) \<noteq> 4 then CONFREJ
           else if cs = [] then code
           else if (\<forall>c \<in> set cs. snd c = be32 remote) \<and> code \<noteq> CONFNAK then CONFACK else CONFNAK, False)"
  using assms
proof (induction cs arbitrary: pre code)
  case Nil
  then show ?case by (simp add: ipcp_scan.simps)
next
  case (Cons c cs)
  let ?b = "pre @ ci_encs (c # cs) @ rest" and ?e = "length pre + length (ci_encs (c # cs))"
  have b: "?b = pre @ ci_enc c @ (ci_encs cs @ rest)" by simp
  from Cons.prems have wf: "ci_wf c" by simp
  note rd = ci_read[OF b wf]
  show ?case
  proof (cases "fst c = CI_ADDR \<and> length (snd c) = 4")
    case False
    then have "b ! length pre \<noteq> 3 \<or> length (ci_enc c) \<noteq> 6" if "b = ?b" for b using rd that by auto
    with False rd show ?thesis by (subst ipcp_scan.simps) (auto simp: Let_def)
  next
    case True
    define code' where "code' = (if snd c \<noteq> be32 remote then CONFNAK
      else if code \<noteq> CONFNAK then CONFACK else CONFNAK)"
    have "ipcp_scan remote ?b ?e (length pre) code = ipcp_scan remote ?b ?e (length pre + length (ci_enc c)) code'"
      using True rd by (subst ipcp_scan.simps) (simp add: Let_def code'_def)
    also have "\<dots> = Some (if \<exists>c \<in> set cs. fst c \<noteq> CI_ADDR \<or> length (snd c) \<noteq> 4 then CONFREJ
           else if cs = [] then code'
           else if (\<forall>c \<in> set cs. snd c = be32 remote) \<and> code' \<noteq> CONFNAK then CONFACK else CONFNAK, False)"
      using Cons.IH[of "pre @ ci_enc c" code'] Cons.prems by (simp add: add.assoc cong: if_cong)
    finally show ?thesis using True by (auto simp: code'_def)
  qed
qed

lemma ipcp_fill_encs:
  assumes "\<forall>c \<in> set cs. fst c = CI_ADDR \<and> length (snd c) = 4"
  shows "ipcp_fill remote (pre @ ci_encs cs) (length pre + length (ci_encs cs)) (length pre) =
     Some (pre @ ci_encs (map (\<lambda>c. (CI_ADDR, be32 remote)) cs), length pre + length (ci_encs cs))"
  using assms
proof (induction cs arbitrary: pre)
  case Nil
  then show ?case by (simp add: ipcp_fill.simps)
next
  case (Cons c cs)
  let ?b = "pre @ ci_encs (c # cs)" and ?e = "length pre + length (ci_encs (c # cs))"
  let ?c = "(CI_ADDR, be32 remote)"
  have b: "?b = pre @ ci_enc c @ ci_encs cs" by simp
  from Cons.prems have c: "fst c = CI_ADDR" "length (snd c) = 4" and wf: "ci_wf c" by (auto simp: ci_wf_def)
  note rd = ci_read[OF b wf]
  have enc: "length (ci_enc c) = 6" "length (ci_enc ?c) = 6" using c by (simp_all add: ci_enc_def)
  have put: "put_at (length pre + 2) (be32 remote) ?b = pre @ ci_enc ?c @ ci_encs cs"
    using c by (simp add: put_at_def ci_enc_def)
  have "ipcp_fill remote ?b ?e (length pre) = ipcp_fill remote (pre @ ci_enc ?c @ ci_encs cs) ?e (length pre + 6)"
    using rd c enc put by (subst ipcp_fill.simps) (simp add: Let_def)
  also have "\<dots> = Some (pre @ ci_enc ?c @ ci_encs (map (\<lambda>c. ?c) cs), ?e)"
    using Cons.IH[of "pre @ ci_enc ?c"] Cons.prems enc by (simp add: add.assoc)
  finally show ?case by simp
qed

lemma ipcp_reqci_encs:
  assumes "length h = 8" and "\<forall>c \<in> set cs. ci_wf c"
  shows "\<exists>b n. ipcp_reqci s (h @ ci_encs cs, 8 + length (ci_encs cs)) = Some (b, n) \<and>
    take n b =
      (if ipcp_answer (remoteip s) cs = CONFREJ
       then lendec (length (ci_encs cs) - length (ci_encs (kept CI_ADDR cs))) (h[4 := CONFREJ]) @
         ci_encs (kept CI_ADDR cs)
       else h[4 := ipcp_answer (remoteip s) cs] @ ci_encs (map (\<lambda>c. (CI_ADDR, be32 (remoteip s))) cs))"
proof -
  let ?a = "ipcp_answer (remoteip s) cs"
  have upd: "(h @ ci_encs cs)[4 := x] = h[4 := x] @ ci_encs cs" for x
    using assms(1) by (simp add: list_update_append)
  have scan: "ipcp_scan (remoteip s) (h[4 := CONFREJ] @ ci_encs cs) (8 + length (ci_encs cs)) 8 CONFREJ =
      Some (?a, False)"
    using ipcp_scan_encs[OF assms(2), of "remoteip s" "h[4 := CONFREJ]" "[]" CONFREJ] assms(1)
    by (auto simp: ipcp_answer_def)
  obtain r where f: "filter_ci CI_ADDR (h[4 := CONFREJ] @ ci_encs cs) (8 + length (ci_encs cs)) 8 =
     Some (lendec (length (ci_encs cs) - length (ci_encs (kept CI_ADDR cs))) (h[4 := CONFREJ]) @
       ci_encs (kept CI_ADDR cs) @ r, 8 + length (ci_encs (kept CI_ADDR cs)))"
    using filter_encs[of "h[4 := CONFREJ]" cs CI_ADDR "[]"] assms by auto
  show ?thesis
  proof (cases "?a = CONFREJ")
    case True
    with scan f assms(1) show ?thesis by (simp add: ipcp_reqci_def upd)
  next
    case False
    then have all: "\<forall>c \<in> set cs. fst c = CI_ADDR \<and> length (snd c) = 4"
      by (auto simp: ipcp_answer_def split: if_splits)
    have len: "length (ci_encs (map (\<lambda>c. (CI_ADDR, be32 (remoteip s))) cs)) = length (ci_encs cs)"
      using all by (induction cs) auto
    from False scan ipcp_fill_encs[OF all, of "remoteip s" "h[4 := ?a]"] assms(1) len show ?thesis
      by (simp add: ipcp_reqci_def upd)
  qed
qed

section \<open>Options of length zero\<close>

lemma lcp_scan_zero:
  assumes "ci + 1 < e" and "b ! ci = CI_MAGICNUMBER" and "b ! (ci + 1) = 0"
  shows "lcp_scan b e ci code = None"
proof (rule ccontr)
  assume "lcp_scan b e ci code \<noteq> None"
  then obtain r where r: "lcp_scan b e ci code = Some r" by blast
  have step: "\<not> (ci + 1 < e \<and> b ! ci = CI_MAGICNUMBER \<and> b ! (ci + 1) = 0)"
    if "\<And>b e ci code r. f b e ci code = Some r \<Longrightarrow> \<not> (ci + 1 < e \<and> b ! ci = CI_MAGICNUMBER \<and> b ! (ci + 1) = 0)"
      and "(if ci + 1 < e
      then let nxt = ci + unat (b ! (ci + 1))
           in if e < nxt then Some (CONFREJ, True)
              else if b ! ci \<noteq> CI_MAGICNUMBER then Some (CONFREJ, False)
              else f b e nxt CONFACK
      else Some (code, False)) = Some r"
    for f :: "byte list \<Rightarrow> nat \<Rightarrow> nat \<Rightarrow> byte \<Rightarrow> (byte \<times> bool) option" and b e ci code r
    using that(1)[of b e ci CONFACK r] that(2) by (auto simp: Let_def split: if_splits)
  have "\<not> (ci + 1 < e \<and> b ! ci = CI_MAGICNUMBER \<and> b ! (ci + 1) = 0)"
    by (rule lcp_scan.raw_induct[where P = "\<lambda>b e ci code r. \<not> (ci + 1 < e \<and> b ! ci = CI_MAGICNUMBER \<and> b ! (ci + 1) = 0)"])
      (rule step, assumption+, rule r)
  with assms show False by blast
qed

section \<open>Configuration frames\<close>

text \<open>A frame of LCP with options, with identifier \<open>i\<close>.\<close>

definition conf_frame :: "byte \<Rightarrow> byte \<Rightarrow> ci list \<Rightarrow> byte list" where
  "conf_frame code i cs =
     [0xff, 0x03, 0xc0, 0x21, code, i] @ be16 (word_of_nat (4 + length (ci_encs cs))) @ ci_encs cs"

lemma conf_frame_reads:
  "u16_of (take 2 (drop 2 (conf_frame code i cs))) = 0xc021"
  "rdn (conf_frame code i cs) 6 2 = Some (be16 (word_of_nat (4 + length (ci_encs cs))))"
  "length (conf_frame code i cs) = 8 + length (ci_encs cs)"
  "conf_frame code i cs ! 4 = code" "conf_frame code i cs ! 5 = i"
  by (simp_all add: conf_frame_def rdn_def u16_of_def be_val_def)

lemma conf_frame_upd: "(conf_frame code i cs)[4 := x] = conf_frame x i cs"
  by (simp add: conf_frame_def eval_nat_numeral)

lemma conf_frame_dispatch:
  assumes "protocol s = 0xc021"
  shows "simple_action vt rnd (conf_frame CONFREQ i cs) s = rconfreq vt rnd (conf_frame CONFREQ i cs) s"
    and "simple_action vt rnd (conf_frame CONFACK i cs) s = rconfack vt rnd (conf_frame CONFACK i cs) s"
proof -
  have "unat (word_of_nat (4 + length (ci_encs cs)) :: u16) \<le> 4 + length (ci_encs cs)"
    unfolding unat_of_nat by (rule mod_less_eq_dividend)
  then show "simple_action vt rnd (conf_frame CONFREQ i cs) s = rconfreq vt rnd (conf_frame CONFREQ i cs) s"
    and "simple_action vt rnd (conf_frame CONFACK i cs) s = rconfack vt rnd (conf_frame CONFACK i cs) s"
    unfolding simple_action_def using assms by (simp_all add: conf_frame_reads Let_def)
qed

lemma lcp_answers_conf:
  assumes "\<forall>c \<in> set cs. ci_wf c" and "lcp_accepts cs"
  obtains b where "lcp_reqci s (conf_frame CONFREQ i cs, length (conf_frame CONFREQ i cs)) =
    Some (b, 8 + length (ci_encs cs))" "take (8 + length (ci_encs cs)) b = conf_frame CONFACK i cs" "b ! 4 = CONFACK"
proof -
  let ?h = "\<lambda>x. [0xff, 0x03, 0xc0, 0x21, x, i] @ be16 (word_of_nat (4 + length (ci_encs cs)))"
  have "lcp_scan (conf_frame CONFREJ i cs) (8 + length (ci_encs cs)) 8 CONFREJ = Some (CONFACK, False)"
    using lcp_scan_encs[OF assms(1), of "?h CONFREJ" "[]" CONFREJ] assms(2)
    by (simp add: conf_frame_def lcp_accepts_def)
  then have "lcp_reqci s (conf_frame CONFREQ i cs, length (conf_frame CONFREQ i cs)) =
      Some (conf_frame CONFACK i cs, 8 + length (ci_encs cs))"
    by (simp add: lcp_reqci_def conf_frame_upd conf_frame_reads)
  then show thesis by (rule that) (simp_all add: conf_frame_reads)
qed

lemma lcp_vt: "vt_reqci (lcp_vtable en) = lcp_reqci"
  by (simp add: lcp_vtable_def)

lemma lcp_open_steps:
  assumes "\<forall>c \<in> set cs. ci_wf c" and "lcp_accepts cs"
  shows "\<exists>s1 s2.
    simple_action (lcp_vtable en) rnd (conf_frame CONFREQ i cs) lcp_init =
      Inr (s1, [conf_frame CONFREQ 1 [(CI_MAGICNUMBER, mem32 en rnd)], conf_frame CONFACK i cs]) \<and>
    st s1 = ACKSENT \<and> timer s1 \<and>
    simple_action (lcp_vtable en) rnd' (conf_frame CONFACK 1 [(CI_MAGICNUMBER, mem32 en rnd)]) s1 = Inr (s2, []) \<and>
    st s2 = OPENED \<and> \<not> timer s2"
proof -
  define s0 where "s0 = lcp_init\<lparr>st := REQSENT, cur_id := 1, reqid := 1, retransmits := 9, timer := True, magic := rnd\<rparr>"
  have req: "sdata s0 CONFREQ 1 ([5, 6] @ mem32 en rnd) = conf_frame CONFREQ 1 [(5, mem32 en rnd)]"
    by (simp add: sdata_def conf_frame_def s0_def lcp_init_def ppp_init_def ppp.defs ci_enc_def be16_def
        be_bytes_rec[of 2] be_bytes_rec[of 1])
  have sc: "sconfreq (lcp_vtable en) rnd False lcp_init =
      (s0\<lparr>st := STOPPED\<rparr>, [sdata s0 CONFREQ 1 ([5, 6] @ mem32 en rnd)])"
    by (simp add: sconfreq_def lcp_vtable_def lcp_addci_def s0_def sdata_def lcp_init_def ppp_init_def
        ppp.defs Let_def)
  obtain b where b: "lcp_reqci s0 (conf_frame CONFREQ i cs, length (conf_frame CONFREQ i cs)) =
      Some (b, 8 + length (ci_encs cs))" "take (8 + length (ci_encs cs)) b = conf_frame CONFACK i cs" "b ! 4 = CONFACK"
    by (rule lcp_answers_conf[OF assms])
  have st0: "st lcp_init = STOPPED" "protocol lcp_init = 0xc021" "protocol s0 = 0xc021" "timer s0" "st s0 = REQSENT"
    "reqid s0 = 1" "\<not> seen_ack s0"
    by (simp_all add: s0_def lcp_init_def ppp_init_def ppp.defs)
  have same: "s0\<lparr>st := REQSENT\<rparr> = s0" by (simp add: s0_def)
  let ?s1 = "s0\<lparr>st := ACKSENT\<rparr>"
  have "rconfreq (lcp_vtable en) rnd (conf_frame CONFREQ i cs) lcp_init =
      Inr (?s1, [conf_frame CONFREQ 1 [(5, mem32 en rnd)], conf_frame CONFACK i cs])"
    using b st0 req by (simp add: rconfreq_def sc lcp_vt Let_def same)
  moreover have "\<exists>s2. rconfack (lcp_vtable en) rnd' (conf_frame CONFACK 1 [(5, mem32 en rnd)]) ?s1 = Inr (s2, []) \<and>
      st s2 = OPENED \<and> \<not> timer s2"
    using st0 by (simp add: rconfack_def conf_frame_reads Let_def)
  ultimately show ?thesis
    using st0 by (simp add: conf_frame_dispatch)
qed

section \<open>Properties\<close>

lemma lcp_init_inv: "ppp_inv lcp_init"
  by (simp add: lcp_init_def ppp_inv_def ppp_init_def ppp.defs)

lemma ipcp_init_inv: "ppp_inv (ipcp_init l r)"
  by (simp add: ipcp_init_def ppp_inv_def ppp_init_def ppp.defs)

text \<open>
  Property C26: the machine's invariant. In every state LCP or IPCP can reach, under any
  packets and timeouts, the retransmission timer is scheduled exactly in the states that wait
  for the peer, the retransmission counter is between 0 and its maximum, and therefore none of
  the \<open>assert\<close> statements on the timer can fail.
\<close>

theorem ppp_asserts_never_fail:
  "(ppp_reachable (lcp_vtable en) lcp_init s1 \<longrightarrow>
      ppp_inv s1 \<and> simple_action (lcp_vtable en) rnd p s1 \<noteq> Inl AssertFailed \<and>
      (timer s1 \<longrightarrow> ppp_fire (lcp_vtable en) rnd s1 \<noteq> Inl AssertFailed)) \<and>
   (ppp_reachable ipcp_vtable (ipcp_init l r) s2 \<longrightarrow>
      ppp_inv s2 \<and> simple_action ipcp_vtable rnd p s2 \<noteq> Inl AssertFailed \<and>
      (timer s2 \<longrightarrow> ppp_fire ipcp_vtable rnd s2 \<noteq> Inl AssertFailed))"
  using lcp.reachable_asserts[OF _ lcp_init_inv] ipcp.reachable_asserts[OF _ ipcp_init_inv] by blast

theorem ppp_asserts_never_fail_witness:
  "ppp_inv lcp_init \<and> simple_action (lcp_vtable LittleEndian) 0 [] lcp_init \<noteq> Inl AssertFailed \<and>
   ppp_inv (ipcp_init 1 2)"
  using ppp_asserts_never_fail[of LittleEndian lcp_init 0 "[]" 1 2 "ipcp_init 1 2"]
  by (simp add: ppp_start)

text \<open>
  Property C33: a silent peer is given up. In any reachable state that waits for the peer, if
  nothing is received the timer fires at most eleven times, one frame is sent for each
  retransmission that was left, and the machine ends in STOPPED with the timer off.
\<close>

theorem lcp_silent_peer_stops:
  assumes "ppp_reachable (lcp_vtable en) lcp_init s" and "timer s" and "11 \<le> length rnds"
  shows "\<exists>s' fs. ppp_silence (lcp_vtable en) rnds s = Inr (s', fs) \<and> st s' = STOPPED \<and>
    \<not> timer s' \<and> int (length fs) = retransmits s \<and> length fs \<le> 10"
proof -
  have inv: "ppp_inv s" by (rule lcp.reachable_inv[OF assms(1) lcp_init_inv])
  then have "retransmits s < int (length rnds)" using assms(3) by (simp add: ppp_inv_def)
  from lcp.silence_stops[OF inv assms(2) this, of en] obtain s' fs where
    "ppp_silence (lcp_vtable en) rnds s = Inr (s', fs)" "st s' = STOPPED" "\<not> timer s'"
    "int (length fs) = retransmits s" by blast
  moreover from inv have "retransmits s \<le> 10" by (simp add: ppp_inv_def)
  ultimately show ?thesis by auto
qed

theorem lcp_silent_peer_stops_witness:
  "\<exists>s s' fs. timer s \<and> ppp_silence (lcp_vtable LittleEndian) (replicate 11 0) s = Inr (s', fs) \<and>
     st s' = STOPPED \<and> \<not> timer s'"
proof -
  obtain s fs where s: "simple_action (lcp_vtable LittleEndian) 7 (conf_frame CONFREQ 9 [(5, [1, 2, 3, 4])]) lcp_init =
      Inr (s, fs)" "timer s"
    using lcp_open_steps[of "[(5, [1, 2, 3, 4])]" LittleEndian 7 9 0] by (auto simp: ci_wf_def lcp_accepts_def)
  from lcp_silent_peer_stops[OF ppp_packet[OF ppp_start s(1)] s(2), of "replicate 11 0"] s(2)
  show ?thesis by auto
qed

text \<open>
  The passive open of LCP. A stopped LCP that receives an acceptable
  Configuration Request (one or more options, all of them magic numbers) answers it with its
  own request, with identifier 1 and a fresh magic number, and an acknowledgement that
  repeats the peer's options, and waits; when the peer acknowledges its request, the link is
  open and the timer is off.
\<close>

theorem lcp_passive_open:
  assumes "\<forall>c \<in> set cs. ci_wf c" and "lcp_accepts cs"
  shows "\<exists>s1 s2.
    simple_action (lcp_vtable en) rnd (conf_frame CONFREQ i cs) lcp_init =
      Inr (s1, [conf_frame CONFREQ 1 [(CI_MAGICNUMBER, mem32 en rnd)], conf_frame CONFACK i cs]) \<and>
    st s1 = ACKSENT \<and> timer s1 \<and>
    simple_action (lcp_vtable en) rnd' (conf_frame CONFACK 1 [(CI_MAGICNUMBER, mem32 en rnd)]) s1 = Inr (s2, []) \<and>
    st s2 = OPENED \<and> \<not> timer s2"
  by (rule lcp_open_steps[OF assms])

theorem lcp_passive_open_witness:
  "\<exists>s1. simple_action (lcp_vtable LittleEndian) 7 (conf_frame CONFREQ 9 [(5, [1, 2, 3, 4])]) lcp_init =
      Inr (s1, [conf_frame CONFREQ 1 [(5, [7, 0, 0, 0])], conf_frame CONFACK 9 [(5, [1, 2, 3, 4])]]) \<and> timer s1"
proof -
  have "mem32 LittleEndian 7 = [7, 0, 0, 0]"
    by (simp add: mem32_def be32_def be_bytes_rec[of 4] be_bytes_rec[of 3] be_bytes_rec[of 2] be_bytes_rec[of 1])
  with lcp_passive_open[of "[(5, [1, 2, 3, 4])]" LittleEndian 7 9 0] show ?thesis
    by (auto simp: ci_wf_def lcp_accepts_def)
qed

text \<open>
  How LCP answers a well-formed request. It acknowledges it unchanged exactly
  when it has options and all of them are magic numbers. Otherwise it rejects it, and the
  reject repeats the options of the request without those that the filter removes: the filter
  steps over the option behind a removed one, so of two adjacent magic numbers the second is
  sent back as rejected. A request without options is rejected, too.
\<close>

theorem lcp_answer:
  assumes "length h = 8" and "\<forall>c \<in> set cs. ci_wf c"
  shows "\<exists>b n. lcp_reqci s (h @ ci_encs cs, 8 + length (ci_encs cs)) = Some (b, n) \<and>
    take n b =
      (if cs \<noteq> [] \<and> (\<forall>c \<in> set cs. fst c = CI_MAGICNUMBER) then h[4 := CONFACK] @ ci_encs cs
       else lendec (length (ci_encs cs) - length (ci_encs (kept CI_MAGICNUMBER cs))) (h[4 := CONFREJ]) @
         ci_encs (kept CI_MAGICNUMBER cs))"
  using lcp_reqci_encs[OF assms] unfolding lcp_accepts_def .

theorem lcp_answer_witness:
  "\<exists>b n. lcp_reqci lcp_init ([0xff, 0x03, 0xc0, 0x21, 1, 9, 0, 12] @ ci_encs [(5, []), (5, []), (1, [0, 0])], 16) =
      Some (b, n) \<and>
    take n b = [0xff, 0x03, 0xc0, 0x21, 4, 9, 0, 10] @ ci_encs [(5, []), (1, [0, 0])]"
proof -
  let ?h = "[0xff, 0x03, 0xc0, 0x21, 1, 9, 0, 12] :: byte list" and ?cs = "[(5, []), (5, []), (1, [0, 0])] :: ci list"
  have "lendec 2 (?h[4 := 4]) = [0xff, 0x03, 0xc0, 0x21, 4, 9, 0, 10]"
    by (simp add: lendec_def put_at_def u16_of_def be_val_def be16_def be_bytes_rec[of 2] be_bytes_rec[of 1])
  with lcp_answer[of ?h ?cs lcp_init] show ?thesis by (simp add: ci_wf_def)
qed

text \<open>
  How IPCP answers a well-formed request. A request with an option that is not
  a four-byte address is rejected, with the same filter; otherwise every address is replaced
  by the one configured for the peer, and the answer is an acknowledgement exactly when the
  peer had asked for that address in every option, and a Nak if not.
\<close>

theorem ipcp_answers:
  assumes "length h = 8" and "\<forall>c \<in> set cs. ci_wf c"
  shows "\<exists>b n. ipcp_reqci s (h @ ci_encs cs, 8 + length (ci_encs cs)) = Some (b, n) \<and>
    take n b =
      (if ipcp_answer (remoteip s) cs = CONFREJ
       then lendec (length (ci_encs cs) - length (ci_encs (kept CI_ADDR cs))) (h[4 := CONFREJ]) @
         ci_encs (kept CI_ADDR cs)
       else h[4 := ipcp_answer (remoteip s) cs] @ ci_encs (map (\<lambda>c. (CI_ADDR, be32 (remoteip s))) cs))"
  using assms by (rule ipcp_reqci_encs)

theorem ipcp_answers_witness:
  "\<exists>b n. ipcp_reqci (ipcp_init 1 2) ([0xff, 0x03, 0x80, 0x21, 1, 9, 0, 10] @ ci_encs [(3, [0, 0, 0, 0])], 14) =
      Some (b, n) \<and>
    take n b = [0xff, 0x03, 0x80, 0x21, 3, 9, 0, 10] @ ci_encs [(3, be32 2)]"
proof -
  let ?h = "[0xff, 0x03, 0x80, 0x21, 1, 9, 0, 10] :: byte list" and ?cs = "[(3, [0, 0, 0, 0])] :: ci list"
  have r: "remoteip (ipcp_init 1 2) = 2" by (simp add: ipcp_init_def ppp_init_def ppp.defs)
  have "be32 2 \<noteq> replicate 4 0" using be32_inj[of 2 0] by (simp add: be32_0)
  then have "ipcp_answer 2 ?cs = 3" by (simp add: ipcp_answer_def numeral_eq_Suc)
  with ipcp_answers[of ?h ?cs "ipcp_init 1 2"] r show ?thesis by (simp add: ci_wf_def)
qed

text \<open>
  An option with length zero hangs the element. A Configuration Request whose
  first option is a magic number of length zero never advances the option pointer, whatever
  the state of the machine.
\<close>

theorem lcp_zero_length_option_diverges:
  assumes "protocol s = 0xc021"
  shows "simple_action (lcp_vtable en) rnd ([0xff, 0x03, 0xc0, 0x21, CONFREQ, i, 0, 6, CI_MAGICNUMBER, 0] @ rest) s =
    Inl Diverges"
proof -
  let ?p = "[0xff, 0x03, 0xc0, 0x21, CONFREQ, i, 0, 6, CI_MAGICNUMBER, 0] @ rest"
  have "lcp_scan (?p[4 := CONFREJ]) (length ?p) 8 CONFREJ = None"
    by (rule lcp_scan_zero) (simp_all add: eval_nat_numeral)
  then have "lcp_reqci s' (?p, length ?p) = None" for s' unfolding lcp_reqci_def by (simp del: append.simps)
  then have "rconfreq (lcp_vtable en) rnd ?p s = Inl Diverges"
    by (simp add: rconfreq_def lcp_vtable_def Let_def case_prod_unfold del: append.simps)
  moreover have "simple_action (lcp_vtable en) rnd ?p s = rconfreq (lcp_vtable en) rnd ?p s"
    using assms by (simp add: simple_action_def u16_of_def be_val_def Let_def)
  ultimately show ?thesis by simp
qed

theorem lcp_zero_length_option_diverges_witness:
  "simple_action (lcp_vtable LittleEndian) 0 ([0xff, 0x03, 0xc0, 0x21, 1, 9, 0, 6, 5, 0] @ []) lcp_init = Inl Diverges"
  by (rule lcp_zero_length_option_diverges) (simp add: lcp_init_def ppp_init_def ppp.defs)

text \<open>
  The runt check is one byte short. A packet of the right protocol is read
  outside of its bounds exactly when it is seven bytes long: the check only makes sure that
  the first of the two bytes of the length field is there.
\<close>

theorem lcp_runt_off_by_one:
  "simple_action (lcp_vtable en) rnd p s = Inl OutOfBounds \<longleftrightarrow>
     length p = 7 \<and> u16_of (take 2 (drop 2 p)) = protocol s"
  by (rule lcp.simple_action_bounds)

end
