(* ===== verification/SNMP_BER.thy ===== *)
theory SNMP_BER
  imports Click_Prelude
begin

text \<open>
  The BER encoder of the SNMP package (\<open>snmp/snmpber.{hh,cc}\<close>): lengths, nested sequences,
  object identifiers, octet strings, null and integers. The accumulated bytes are a list;
  \<open>StringAccum::extend\<close> makes room without initialising it, so the new bytes are given by a
  function \<open>fill\<close> from positions to bytes. Memory is taken to be available. A failed
  \<open>assert\<close> is \<^const>\<open>None\<close>.
\<close>

section \<open>State and lengths\<close>

datatype ber_status = ERR_OK | ERR_INVALID | ERR_MEM | ERR_TOOBIG

record ber =
  sa :: "byte list"
  sequence_start :: "nat list"
  sequence_len_len :: "nat list"

definition ber_empty :: ber where
  "ber_empty = \<lparr>sa = [], sequence_start = [], sequence_len_len = []\<rparr>"

abbreviation (input) TAG_INTEGER :: byte where "TAG_INTEGER \<equiv> 0x02"
abbreviation (input) TAG_OCTET_STRING :: byte where "TAG_OCTET_STRING \<equiv> 0x04"
abbreviation (input) TAG_NULL :: byte where "TAG_NULL \<equiv> 0x05"
abbreviation (input) TAG_OID :: byte where "TAG_OID \<equiv> 0x06"
abbreviation (input) TAG_SEQUENCE :: byte where "TAG_SEQUENCE \<equiv> 0x30"
abbreviation (input) TAG_IPADDRESS :: byte where "TAG_IPADDRESS \<equiv> 0x40"
abbreviation (input) TAG_TIMETICKS :: byte where "TAG_TIMETICKS \<equiv> 0x43"

abbreviation (input) "LEN_1_MAX \<equiv> 0x7F :: nat"
abbreviation (input) "LEN_2_MAX \<equiv> 0xFF :: nat"
abbreviation (input) "LEN_3_MAX \<equiv> 0xFFFF :: nat"

definition extend :: "(nat \<Rightarrow> byte) \<Rightarrow> nat \<Rightarrow> byte list \<Rightarrow> byte list" where
  "extend fill n b = b @ map fill [length b ..< length b + n]"

text \<open>\<^const>\<open>None\<close> is \<open>ERR_TOOBIG\<close>.\<close>

definition calculate_len_len :: "nat \<Rightarrow> nat option" where
  "calculate_len_len len =
     (if len \<le> LEN_1_MAX then Some 1
      else if len \<le> LEN_2_MAX then Some 2
      else if len \<le> LEN_3_MAX then Some 3
      else None)"

text \<open>The bytes \<open>encode_len\<close> stores.\<close>

definition encode_len :: "nat \<Rightarrow> byte list" where
  "encode_len len =
     (if len \<le> LEN_1_MAX then [word_of_nat len]
      else if len \<le> LEN_2_MAX then [0x81, word_of_nat len]
      else [0x82, word_of_nat (len div 256), word_of_nat (len mod 256)])"

text \<open>The bytes \<open>encode_len_by_len_len\<close> stores.\<close>

definition encode_len_by_len_len :: "nat \<Rightarrow> nat \<Rightarrow> byte list option" where
  "encode_len_by_len_len len len_len =
     (if len_len = 1 then (if len \<le> LEN_1_MAX then Some [word_of_nat len] else None)
      else if len_len = 2 then (if len \<le> LEN_2_MAX then Some [0x81, word_of_nat len] else None)
      else if len_len = 3
      then (if len \<le> LEN_3_MAX then Some [0x82, word_of_nat (len div 256), word_of_nat (len mod 256)]
            else None)
      else None)"

section \<open>Sequences\<close>

definition push_sequence :: "(nat \<Rightarrow> byte) \<Rightarrow> byte \<Rightarrow> ber \<Rightarrow> ber" where
  "push_sequence fill tag s =
     (let b = (extend fill 2 (sa s))[length (sa s) := tag]
      in s\<lparr>sa := b, sequence_start := sequence_start s @ [length b - 2],
           sequence_len_len := sequence_len_len s @ [1]\<rparr>)"

definition push_long_sequence :: "(nat \<Rightarrow> byte) \<Rightarrow> byte \<Rightarrow> ber \<Rightarrow> ber" where
  "push_long_sequence fill tag s =
     (let b = (extend fill 4 (sa s))[length (sa s) := tag]
      in s\<lparr>sa := b, sequence_start := sequence_start s @ [length b - 4],
           sequence_len_len := sequence_len_len s @ [3]\<rparr>)"

definition pop_sequence :: "(nat \<Rightarrow> byte) \<Rightarrow> ber \<Rightarrow> ber option" where
  "pop_sequence fill s =
     (if sequence_start s = [] then None
      else let start = last (sequence_start s);
               expect_len_len = last (sequence_len_len s);
               len = length (sa s) - (start + 1 + expect_len_len);
               (b, len_len) =
                 (case calculate_len_len len of
                    Some ll \<Rightarrow>
                      if expect_len_len < ll
                      then let b0 = extend fill (ll - expect_len_len) (sa s)
                           in (put_at (start + ll) (take len (drop (start + expect_len_len) b0)) b0, ll)
                      else (sa s, expect_len_len)
                  | None \<Rightarrow> (sa s, expect_len_len))
           in do {
             l \<leftarrow> encode_len_by_len_len len len_len;
             Some (s\<lparr>sa := put_at (start + 1) l b, sequence_start := butlast (sequence_start s),
                     sequence_len_len := butlast (sequence_len_len s)\<rparr>)
           })"

definition abort_sequence :: "ber \<Rightarrow> (ber \<times> ber_status) option" where
  "abort_sequence s =
     (if sequence_start s = [] then None
      else Some (s\<lparr>sa := take (last (sequence_start s)) (sa s),
                   sequence_start := butlast (sequence_start s),
                   sequence_len_len := butlast (sequence_len_len s)\<rparr>, ERR_INVALID))"

section \<open>Object identifiers\<close>

type_synonym oid = "u32 list"

definition component_len :: "u32 \<Rightarrow> nat" where
  "component_len c =
     (if c \<le> 0x7F then 1 else if c \<le> 0x3FFF then 2 else if c \<le> 0x1FFFFF then 3
      else if c \<le> 0x0FFFFFFF then 4 else 5)"

text \<open>\<open>(component >> k) | 0x80\<close>, stored in a byte.\<close>

definition cont :: "nat \<Rightarrow> u32 \<Rightarrow> byte" where
  "cont k c = ucast (drop_bit k c) OR 0x80"

definition encode_component :: "u32 \<Rightarrow> byte list" where
  "encode_component c =
     (if c \<le> 0x7F then [ucast c]
      else if c \<le> 0x3FFF then [cont 7 c, ucast (c AND 0x7F)]
      else if c \<le> 0x1FFFFF then [cont 14 c, cont 7 c, ucast (c AND 0x7F)]
      else if c \<le> 0x0FFFFFFF then [cont 21 c, cont 14 c, cont 7 c, ucast (c AND 0x7F)]
      else [cont 28 c, cont 21 c, cont 14 c, cont 7 c, ucast (c AND 0x7F)])"

definition encode_snmp_oid :: "oid \<Rightarrow> ber \<Rightarrow> ber \<times> ber_status" where
  "encode_snmp_oid oid s =
     (if length oid < 2 \<or> 2 < oid ! 0 \<or> 40 \<le> oid ! 1 then (s, ERR_INVALID)
      else let len = 1 + sum_list (map component_len (drop 2 oid))
           in case calculate_len_len len of
                None \<Rightarrow> (s, ERR_TOOBIG)
              | Some len_len \<Rightarrow>
                  (s\<lparr>sa := sa s @ [TAG_OID] @ encode_len len @ [ucast (oid ! 0 * 40 + oid ! 1)] @
                     concat (map encode_component (drop 2 oid))\<rparr>, ERR_OK))"

section \<open>Octet strings, null, integers\<close>

text \<open>The data pointer may be null and the length negative.\<close>

definition encode_octet_string :: "byte \<Rightarrow> byte list option \<Rightarrow> int \<Rightarrow> ber \<Rightarrow> ber \<times> ber_status" where
  "encode_octet_string tag d len s =
     (case d of
        None \<Rightarrow> (s, ERR_INVALID)
      | Some bs \<Rightarrow>
          if len < 0 then (s, ERR_INVALID)
          else case calculate_len_len (nat len) of
                 None \<Rightarrow> (s, ERR_TOOBIG)
               | Some len_len \<Rightarrow>
                   (s\<lparr>sa := sa s @ [tag] @ encode_len (nat len) @ take (nat len) bs\<rparr>, ERR_OK))"

definition encode_null :: "ber \<Rightarrow> ber \<times> ber_status" where
  "encode_null s = (s\<lparr>sa := sa s @ [TAG_NULL, 0]\<rparr>, ERR_OK)"

definition encode_ip_address :: "ip_addr \<Rightarrow> ber \<Rightarrow> ber \<times> ber_status" where
  "encode_ip_address a s = encode_octet_string TAG_IPADDRESS (Some (be32 a)) 4 s"

text \<open>The loop that counts the bytes of an integer.\<close>

lemma unat_drop_bit: "unat (drop_bit n w) = unat w div 2 ^ n"
  for w :: "'a::len word"
proof -
  have "take_bit LENGTH('a) (unat w) = unat w" by (simp add: take_bit_nat_eq_self)
  then show ?thesis unfolding unsigned_drop_bit_eq by (simp add: drop_bit_eq_div[where ?'a = nat])
qed

function int_len :: "u64 \<Rightarrow> nat \<Rightarrow> nat" where
  "int_len x2 len = (if 0x7F < x2 then int_len (drop_bit 8 x2) (len + 1) else len)"
  by pat_completeness auto
termination
  by (relation "measure (\<lambda>(x, n). unat x)")
    (auto simp: unat_drop_bit word_less_nat_alt)

text \<open>The loop that stores them, from the last to the first.\<close>

function int_store :: "byte \<Rightarrow> u64 \<Rightarrow> nat \<Rightarrow> byte list \<Rightarrow> byte list" where
  "int_store flipper x len b =
     (if 0x7F < x
      then let x' = drop_bit 8 x
           in int_store flipper x' (len - 1) (b[len - 1 := ucast (x' AND 0xFF) XOR flipper])
      else b)"
  by pat_completeness auto
termination
  by (relation "measure (\<lambda>(f, x, n, b). unat x)")
    (auto simp: unat_drop_bit word_less_nat_alt)

declare int_len.simps [simp del] int_store.simps [simp del]

definition encode_integer ::
    "(nat \<Rightarrow> byte) \<Rightarrow> byte \<Rightarrow> u64 \<Rightarrow> bool \<Rightarrow> ber \<Rightarrow> ber \<times> ber_status" where
  "encode_integer fill tag x0 as_signed s =
     (let neg = as_signed \<and> sint x0 < 0;
          x = (if neg then - x0 - 1 else x0);
          flipper = (if neg then 255 else 0);
          len = int_len x 3;
          st0 = map fill [length (sa s) ..< length (sa s) + len];
          st1 = st0[0 := tag, 1 := word_of_nat (len - 2), len - 1 := ucast (x AND 0xFF) XOR flipper]
      in (s\<lparr>sa := sa s @ int_store flipper x (len - 1) st1\<rparr>, ERR_OK))"

definition encode_time_ticks :: "(nat \<Rightarrow> byte) \<Rightarrow> u32 \<Rightarrow> ber \<Rightarrow> ber \<times> ber_status" where
  "encode_time_ticks fill tt s = encode_integer fill TAG_TIMETICKS (ucast tt) False s"

section \<open>Reference decoder\<close>

text \<open>Tag, contents and rest of the first element.\<close>

definition decode_len :: "byte list \<Rightarrow> (nat \<times> byte list) option" where
  "decode_len bs =
     (case bs of
        b # rest \<Rightarrow>
          if b < 0x80 then Some (unat b, rest)
          else if b = 0x81 then (case rest of c # r \<Rightarrow> Some (unat c, r) | [] \<Rightarrow> None)
          else if b = 0x82 then (case rest of c # d # r \<Rightarrow> Some (256 * unat c + unat d, r) | _ \<Rightarrow> None)
          else None
      | [] \<Rightarrow> None)"

definition decode_tlv :: "byte list \<Rightarrow> (byte \<times> byte list \<times> byte list) option" where
  "decode_tlv bs =
     (case bs of
        [] \<Rightarrow> None
      | tag # rest \<Rightarrow>
          do {
            (n, r) \<leftarrow> decode_len rest;
            if n \<le> length r then Some (tag, take n r, drop n r) else None
          })"

fun decode_components :: "nat \<Rightarrow> byte list \<Rightarrow> nat list" where
  "decode_components acc [] = []"
| "decode_components acc (b # bs) =
     (if unat b < 128 then (128 * acc + unat b) # decode_components 0 bs
      else decode_components (128 * acc + (unat b - 128)) bs)"

definition decode_oid :: "byte list \<Rightarrow> nat list" where
  "decode_oid bs = (case bs of [] \<Rightarrow> [] | b # r \<Rightarrow> [unat b div 40, unat b mod 40] @ decode_components 0 r)"

text \<open>Two's complement, most significant byte first.\<close>

definition decode_int :: "byte list \<Rightarrow> int" where
  "decode_int bs =
     (if bs \<noteq> [] \<and> 128 \<le> unat (hd bs) then int (be_val bs) - 256 ^ length bs else int (be_val bs))"

lemma decode_encode_len:
  assumes "n \<le> LEN_3_MAX"
  shows "decode_len (encode_len n @ r) = Some (n, r)"
proof -
  have "unat (word_of_nat n :: byte) = n" if "n \<le> 255" using that by (simp add: unat_of_nat)
  moreover have "(word_of_nat n :: byte) < 0x80" if "n \<le> 127"
    using that by (simp add: word_less_nat_alt unat_of_nat)
  moreover have "unat (word_of_nat (n div 256) :: byte) = n div 256" "unat (word_of_nat (n mod 256) :: byte) = n mod 256"
    using assms by (simp_all add: unat_of_nat)
  ultimately show ?thesis by (auto simp: decode_len_def encode_len_def)
qed

lemma decode_tlv_encode:
  assumes "length c \<le> LEN_3_MAX"
  shows "decode_tlv ((tag # encode_len (length c) @ c) @ r) = Some (tag, c, r)"
  using decode_encode_len[OF assms, of "c @ r"] by (simp add: decode_tlv_def)

section \<open>Object identifiers read back\<close>

lemma or_80: "unat (x OR 0x80 :: byte) = 128 + unat x mod 128"
proof -
  have b: "bit (0x80 :: byte) n \<longleftrightarrow> n = 7" for n
    using bit_exp_iff[where ?'a = byte, of 7 n] by (auto simp: possible_bit_def)
  have t: "x OR 0x80 = take_bit 7 x OR 0x80"
  proof (rule bit_word_eqI)
    fix n assume "n < LENGTH(8)"
    then show "bit (x OR 0x80) n = bit (take_bit 7 x OR 0x80) n"
      by (cases "n = 7") (simp_all only: bit_or_iff bit_take_bit_iff b, auto)
  qed
  have "take_bit 7 x AND 0x80 = 0"
    by (rule bit_word_eqI) (simp only: bit_and_iff bit_take_bit_iff b, auto)
  then have "x OR 0x80 = take_bit 7 x + 0x80"
    unfolding t by (simp add: disjunctive_add_eq_or)
  moreover have "unat (take_bit 7 x) = unat x mod 128"
    by (simp add: take_bit_eq_mod unat_mod)
  ultimately show ?thesis by (simp add: unat_word_ariths(1))
qed

lemma unat_cont: "unat (cont k c) = 128 + unat c div 2 ^ k mod 128"
  by (simp add: cont_def or_80 unat_drop_bit unsigned_ucast_eq take_bit_eq_mod mod_mod_cancel)

lemma unat_low7: "unat (ucast (c AND 0x7F :: u32) :: byte) = unat c mod 128"
proof -
  have "c AND 0x7F = take_bit 7 c" by (simp add: take_bit_eq_mask mask_eq_exp_minus_1)
  then show ?thesis
    by (simp add: unsigned_ucast_eq take_bit_eq_mod unat_mod mod_mod_cancel)
qed

lemma length_encode_component: "length (encode_component c) = component_len c"
  by (simp add: encode_component_def component_len_def)

lemma decode_cont:
  "decode_components acc (cont k c # bs) = decode_components (128 * acc + unat c div 2 ^ k mod 128) bs"
  by (simp add: unat_cont)

lemma decode_last:
  "decode_components acc (ucast (c AND 0x7F) # bs) = (128 * acc + unat c mod 128) # decode_components 0 bs"
  for c :: u32
  by (simp add: unat_low7)

text \<open>Base 128 digits of a number.\<close>

lemma digit_step: "128 * (n div 2 ^ (k + 7)) + n div 2 ^ k mod 128 = n div 2 ^ k"
  for n :: nat
  by (simp add: power_add div_mult2_eq)

lemma digit_steps:
  "128 * (n div 2 ^ 7) + n mod 128 = n" "128 * (n div 2 ^ 14) + n div 2 ^ 7 mod 128 = n div 2 ^ 7"
  "128 * (n div 2 ^ 21) + n div 2 ^ 14 mod 128 = n div 2 ^ 14"
  "128 * (n div 2 ^ 28) + n div 2 ^ 21 mod 128 = n div 2 ^ 21"
  for n :: nat
  using digit_step[of n 0] digit_step[of n 7] digit_step[of n 14] digit_step[of n 21] by simp_all

lemma top_digit: "n < 128 * 2 ^ k \<Longrightarrow> n div 2 ^ k mod 128 = n div 2 ^ k" for n :: nat
  by (simp add: less_mult_imp_div_less mult.commute)

lemma decode_component: "decode_components 0 (encode_component c @ bs) = unat c # decode_components 0 bs"
proof -
  let ?n = "unat c"
  have lt: "?n < 2 ^ 32" using unsigned_less[of c, where ?'a = nat] by simp
  note le = word_le_nat_alt
  consider "c \<le> 0x7F" | "\<not> c \<le> 0x7F" "c \<le> 0x3FFF" | "\<not> c \<le> 0x3FFF" "c \<le> 0x1FFFFF"
    | "\<not> c \<le> 0x1FFFFF" "c \<le> 0x0FFFFFFF" | "\<not> c \<le> 0x0FFFFFFF" by blast
  then show ?thesis
  proof cases
    case 1
    then show ?thesis by (simp add: encode_component_def le unsigned_ucast_eq take_bit_eq_mod)
  next
    case 2
    then have "encode_component c = [cont 7 c, ucast (c AND 0x7F)]" by (simp add: encode_component_def)
    moreover have "?n < 128 * 2 ^ 7" using 2 by (simp add: le)
    ultimately show ?thesis by (simp only: append.simps decode_cont decode_last top_digit digit_steps mult_0_right add_0)
  next
    case 3
    then have "\<not> c \<le> 0x7F" by (simp add: le)
    with 3 have "encode_component c = [cont 14 c, cont 7 c, ucast (c AND 0x7F)]" by (simp add: encode_component_def)
    moreover have "?n < 128 * 2 ^ 14" using 3 by (simp add: le)
    ultimately show ?thesis by (simp only: append.simps decode_cont decode_last top_digit digit_steps mult_0_right add_0)
  next
    case 4
    then have "\<not> c \<le> 0x7F" "\<not> c \<le> 0x3FFF" by (simp_all add: le)
    with 4 have "encode_component c = [cont 21 c, cont 14 c, cont 7 c, ucast (c AND 0x7F)]"
      by (simp add: encode_component_def)
    moreover have "?n < 128 * 2 ^ 21" using 4 by (simp add: le)
    ultimately show ?thesis by (simp only: append.simps decode_cont decode_last top_digit digit_steps mult_0_right add_0)
  next
    case 5
    then have "\<not> c \<le> 0x7F" "\<not> c \<le> 0x3FFF" "\<not> c \<le> 0x1FFFFF" by (simp_all add: le)
    with 5 have "encode_component c = [cont 28 c, cont 21 c, cont 14 c, cont 7 c, ucast (c AND 0x7F)]"
      by (simp add: encode_component_def)
    moreover have "?n < 128 * 2 ^ 28" using lt by simp
    ultimately show ?thesis by (simp only: append.simps decode_cont decode_last top_digit digit_steps mult_0_right add_0)
  qed
qed

lemma decode_components_concat:
  "decode_components 0 (concat (map encode_component cs)) = map unat cs"
  by (induction cs) (simp_all add: decode_component)

lemma oid_content:
  assumes "2 \<le> length oid" and "oid ! 0 \<le> 2" and "oid ! 1 < 40"
  shows "decode_oid ([ucast (oid ! 0 * 40 + oid ! 1)] @ concat (map encode_component (drop 2 oid))) =
    map unat oid"
proof -
  have a: "unat (oid ! 0) \<le> 2" and b: "unat (oid ! 1) < 40"
    using assms(2,3) by (simp_all add: word_le_nat_alt word_less_nat_alt)
  then have "unat (oid ! 0 * 40 + oid ! 1) = unat (oid ! 0) * 40 + unat (oid ! 1)"
    by (simp add: unat_word_ariths)
  then have "unat (ucast (oid ! 0 * 40 + oid ! 1) :: byte) = unat (oid ! 0) * 40 + unat (oid ! 1)"
    using a b by (simp add: unsigned_ucast_eq take_bit_eq_mod)
  moreover have "oid = oid ! 0 # oid ! 1 # drop 2 oid"
    using assms(1) by (cases oid; cases "tl oid") auto
  ultimately show ?thesis
    using b by (simp add: decode_oid_def decode_components_concat) (metis list.simps(9))
qed

section \<open>Integers read back\<close>

text \<open>The shortest big-endian form whose first byte has its top bit clear.\<close>

function int_be :: "u64 \<Rightarrow> byte list" where
  "int_be x = (if 0x7F < x then int_be (drop_bit 8 x) @ [ucast x] else [ucast x])"
  by pat_completeness auto
termination
  by (relation "measure unat") (auto simp: unat_drop_bit word_less_nat_alt)

declare int_be.simps [simp del]

lemma int_be_not_Nil [simp]: "int_be x \<noteq> []"
  by (subst int_be.simps) simp

lemma hd_int_be: "unat (hd (int_be x)) < 128"
proof (induction x rule: int_be.induct)
  case (1 x)
  show ?case
  proof (cases "0x7F < x")
    case True
    then show ?thesis using 1 by (subst int_be.simps) simp
  next
    case False
    then have "unat x \<le> 127" by (simp add: word_less_nat_alt)
    with False show ?thesis
      by (subst int_be.simps) (simp add: unsigned_ucast_eq take_bit_eq_mod)
  qed
qed

lemma be_val_int_be: "be_val (int_be x) = unat x"
proof (induction x rule: int_be.induct)
  case (1 x)
  show ?case
  proof (cases "0x7F < x")
    case True
    then show ?thesis
      using 1 by (subst int_be.simps) (simp add: unat_drop_bit unsigned_ucast_eq take_bit_eq_mod)
  next
    case False
    then have "unat x \<le> 127" by (simp add: word_less_nat_alt)
    with False show ?thesis
      by (subst int_be.simps) (simp add: be_val_def unsigned_ucast_eq take_bit_eq_mod)
  qed
qed

lemma int_len_eq: "int_len x n = n + length (int_be x) - 1"
proof (induction x arbitrary: n rule: int_be.induct)
  case (1 x)
  have "0 < length (int_be (drop_bit 8 x))" by simp
  then show ?case
    using 1 by (subst int_len.simps, subst int_be.simps) auto
qed

text \<open>Bytes as the code stores them, and the length of an integer.\<close>

lemma ucast_and_ff: "ucast (x AND 0xFF) = (ucast x :: byte)" for x :: u64
proof -
  have "x AND 0xFF = take_bit 8 x" by (simp add: take_bit_eq_mask mask_eq_exp_minus_1)
  then show ?thesis
    by (simp add: word_unat_eq_iff unsigned_ucast_eq take_bit_eq_mod unat_mod)
qed

lemma last_int_be: "last (int_be x) = ucast x"
  by (subst int_be.simps) simp

lemma butlast_int_be: "0x7F < x \<Longrightarrow> butlast (int_be x) = int_be (drop_bit 8 x)"
  "\<not> 0x7F < x \<Longrightarrow> butlast (int_be x) = []"
  by (subst int_be.simps; simp)+

lemma int_store_eq:
  assumes "length (int_be x) - 1 \<le> n" and "n < length b"
  shows "int_store f x n b =
    take (n - (length (int_be x) - 1)) b @ map (\<lambda>y. y XOR f) (butlast (int_be x)) @ drop n b"
  using assms
proof (induction x arbitrary: n b rule: int_be.induct)
  case (1 x)
  show ?case
  proof (cases "0x7F < x")
    case False
    then have "length (int_be x) = 1" by (subst int_be.simps) simp
    with False show ?thesis by (subst int_store.simps) (simp add: butlast_int_be)
  next
    case True
    let ?x = "drop_bit 8 x"
    let ?y = "ucast ?x XOR f" and ?L = "length (int_be ?x)"
    have L: "length (int_be x) = ?L + 1" "0 < ?L" using True by (subst int_be.simps) simp_all
    with 1(2,3) have n: "?L \<le> n" "n < length b" by simp_all
    have snoc: "butlast (int_be ?x) @ [ucast ?x] = int_be ?x"
      using append_butlast_last_id[of "int_be ?x"] by (simp add: last_int_be)
    have mp: "map (\<lambda>y. y XOR f) (butlast (int_be ?x)) @ [?y] = map (\<lambda>y. y XOR f) (int_be ?x)"
      using arg_cong[OF snoc, of "map (\<lambda>y. y XOR f)"] by simp
    have dr: "drop (n - 1) (b[n - 1 := ?y]) = ?y # drop n b"
      using n L(2) Cons_nth_drop_Suc[of "n - 1" "b[n - 1 := ?y]"] by (cases n) simp_all
    have tk: "take (n - 1 - (?L - 1)) (b[n - 1 := ?y]) = take (n - ?L) b"
    proof -
      have "n - ?L \<le> n - 1" using L(2) by linarith
      moreover have "n - 1 - (?L - 1) = n - ?L" using n L(2) by linarith
      ultimately show ?thesis by (simp only: take_update_cancel)
    qed
    have "int_store f x n b = int_store f ?x (n - 1) (b[n - 1 := ?y])"
      using True by (subst int_store.simps) (simp add: ucast_and_ff Let_def)
    also have "\<dots> = take (n - 1 - (?L - 1)) (b[n - 1 := ?y]) @
        map (\<lambda>y. y XOR f) (butlast (int_be ?x)) @ drop (n - 1) (b[n - 1 := ?y])"
      using n L(2) by (intro 1(1)[OF True]) simp_all
    also have "\<dots> = take (n - ?L) b @ map (\<lambda>y. y XOR f) (int_be ?x) @ drop n b"
      unfolding tk dr mp[symmetric] by simp
    finally show ?thesis using True L by (simp add: butlast_int_be)
  qed
qed

lemma length_int_be: "unat x < 2 ^ (8 * k + 7) \<Longrightarrow> length (int_be x) \<le> k + 1"
proof (induction k arbitrary: x)
  case 0
  then have "\<not> 0x7F < x" by (simp add: word_less_nat_alt)
  then show ?case by (subst int_be.simps) simp
next
  case (Suc k)
  show ?case
  proof (cases "0x7F < x")
    case True
    have "unat (drop_bit 8 x) < 2 ^ (8 * k + 7)"
      using Suc.prems by (simp add: unat_drop_bit power_add less_mult_imp_div_less mult.commute)
    from Suc.IH[OF this] True show ?thesis by (subst int_be.simps) simp
  qed (subst int_be.simps, simp)
qed

lemma length_int_be_9: "length (int_be x) \<le> 9"
  using length_int_be[of x 8] unsigned_less[of x, where ?'a = nat] by simp

lemma encode_integer_eq:
  fixes x0 :: u64 and as_signed :: bool
  defines "neg \<equiv> as_signed \<and> sint x0 < 0"
  defines "x \<equiv> if neg then - x0 - 1 else x0"
  shows "encode_integer fill tag x0 as_signed s =
    (s\<lparr>sa := sa s @ [tag, word_of_nat (length (int_be x))] @
        map (\<lambda>y. y XOR (if neg then 255 else 0)) (int_be x)\<rparr>, ERR_OK)"
proof -
  let ?f = "if neg then 255 else 0 :: byte" and ?L = "length (int_be x)"
  have L: "0 < ?L" by simp
  then have len: "int_len x 3 = ?L + 2" by (simp add: int_len_eq)
  define st where "st = map fill [length (sa s) ..< length (sa s) + (?L + 2)]"
  define st1 where "st1 = st[0 := tag, 1 := word_of_nat ?L, ?L + 1 := ucast x XOR ?f]"
  have lst: "length st = ?L + 2" by (simp add: st_def)
  then have l1: "length st1 = ?L + 2" by (simp add: st1_def)
  have t2: "take 2 st1 = [tag, word_of_nat ?L]"
  proof (rule nth_equalityI)
    fix i assume "i < length (take 2 st1)"
    then have "i = 0 \<or> i = 1" by auto
    then show "take 2 st1 ! i = [tag, word_of_nat ?L] ! i" using L lst by (auto simp: st1_def)
  qed (simp add: l1)
  have dr: "drop (?L + 1) st1 = [ucast x XOR ?f]"
    using Cons_nth_drop_Suc[of "?L + 1" st1] l1 lst by (simp add: st1_def)
  have "int_store ?f x (?L + 1) st1 = take 2 st1 @ map (\<lambda>y. y XOR ?f) (butlast (int_be x)) @ drop (?L + 1) st1"
    using int_store_eq[of x "?L + 1" st1 ?f] l1 L by simp
  also have "\<dots> = [tag, word_of_nat ?L] @ map (\<lambda>y. y XOR ?f) (butlast (int_be x) @ [ucast x])"
    unfolding t2 dr by simp
  also have "butlast (int_be x) @ [ucast x] = int_be x"
    using append_butlast_last_id[of "int_be x"] by (simp add: last_int_be)
  finally show ?thesis
    by (simp add: encode_integer_def Let_def len ucast_and_ff st1_def st_def neg_def[symmetric] x_def[symmetric])
qed

lemma be_val_Cons: "be_val (b # bs) = unat b * 256 ^ length bs + be_val bs"
proof (induction bs rule: rev_induct)
  case Nil
  then show ?case by (simp add: be_val_def)
next
  case (snoc x xs)
  then show ?case
    using be_val_snoc[of "b # xs" x] by simp
qed

lemma unat_flip: "unat (x XOR 255 :: byte) = 255 - unat x"
proof -
  have "(255 :: byte) = - 1" by simp
  then have "x XOR 255 = NOT x" by (metis bit.xor_one_right)
  also have "\<dots> = - 1 - x" by (simp add: not_eq_complement)
  finally show ?thesis by (simp add: unat_sub unsigned_minus_1_eq_mask mask_eq_exp_minus_1)
qed

lemma be_val_flip: "be_val (map (\<lambda>y. y XOR 255) bs) + be_val bs + 1 = 256 ^ length bs"
proof (induction bs rule: rev_induct)
  case Nil
  then show ?case by simp
next
  case (snoc x xs)
  have "unat (x XOR 255) + unat x = 255" using unat_flip[of x] unat_lt_256[of x] by simp
  with snoc show ?case by simp
qed

lemma sint_cases:
  fixes x :: u64
  shows "sint x < 0 \<Longrightarrow> int (unat (- x - 1)) = - sint x - 1"
    and "\<not> sint x < 0 \<Longrightarrow> int (unat x) = sint x"
proof -
  have eq: "sint x = uint x - (if sint x < 0 then 2 ^ 64 else 0)"
  proof -
    have u: "uint x = sint x mod 2 ^ 64" by (simp add: uint_sint take_bit_eq_mod)
    have b: "- (2 ^ 63) \<le> sint x" "sint x < 2 ^ 63"
      using sint_greater_eq[of x] sint_less[of x] by simp_all
    show ?thesis
    proof (cases "sint x < 0")
      case True
      with b have "sint x mod 2 ^ 64 = sint x + 2 ^ 64"
        using mod_add_self2[of "sint x" "2 ^ 64"] mod_pos_pos_trivial[of "sint x + 2 ^ 64" "2 ^ 64"] by simp
      with u True show ?thesis by simp
    next
      case False
      with u b show ?thesis by simp
    qed
  qed
  show "int (unat x) = sint x" if "\<not> sint x < 0" using eq that by simp
  have "unat (- 1 - x) = 2 ^ 64 - 1 - unat x"
    using unat_sub[of x "- 1"] by (simp add: unsigned_minus_1_eq_mask mask_eq_exp_minus_1)
  moreover have "- x - 1 = - 1 - x" by simp
  ultimately have "int (unat (- x - 1)) = int (2 ^ 64 - 1 - unat x)" by (simp only:)
  also have "\<dots> = 2 ^ 64 - 1 - int (unat x)"
    using unsigned_less[of x, where ?'a = nat] by (subst of_nat_diff) simp_all
  finally have "int (unat (- x - 1)) = 2 ^ 64 - 1 - int (unat x)" .
  then show "int (unat (- x - 1)) = - sint x - 1" if "sint x < 0"
    using eq that by simp
qed

lemma decode_int_encoded:
  fixes x0 :: u64 and as_signed :: bool
  defines "neg \<equiv> as_signed \<and> sint x0 < 0"
  defines "x \<equiv> if neg then - x0 - 1 else x0"
  shows "decode_int (map (\<lambda>y. y XOR (if neg then 255 else 0)) (int_be x)) =
    (if as_signed then sint x0 else uint x0)"
proof (cases neg)
  case False
  then have "decode_int (map (\<lambda>y. y XOR (if neg then 255 else 0)) (int_be x)) = int (unat x)"
    using hd_int_be[of x] by (simp add: decode_int_def be_val_int_be)
  with False sint_cases(2)[of x0] show ?thesis by (auto simp: x_def neg_def)
next
  case True
  let ?bs = "map (\<lambda>y. y XOR 255) (int_be x)"
  have "hd ?bs = hd (int_be x) XOR 255" by (simp add: hd_map)
  then have "128 \<le> unat (hd ?bs)" using hd_int_be[of x] by (simp add: unat_flip)
  then have "decode_int ?bs = int (be_val ?bs) - 256 ^ length ?bs" by (simp add: decode_int_def)
  also have "\<dots> = - int (unat x) - 1"
  proof -
    have "int (be_val ?bs + unat x + 1) = 256 ^ length ?bs"
      using be_val_flip[of "int_be x"] by (simp add: be_val_int_be del: of_nat_add of_nat_Suc add.commute)
    then show ?thesis by simp
  qed
  finally show ?thesis using True sint_cases(1)[of x0] by (simp add: x_def neg_def)
qed

section \<open>Sequences\<close>

text \<open>Encoding the contents of an open sequence appends bytes and leaves the stack alone.\<close>

definition append_bytes :: "byte list \<Rightarrow> ber \<Rightarrow> ber" where
  "append_bytes c s = s\<lparr>sa := sa s @ c\<rparr>"

lemma push_sa:
  "sa (push_sequence fill tag s) = sa s @ [tag, fill (length (sa s) + 1)]"
  "\<exists>g. length g = 3 \<and> sa (push_long_sequence fill tag s) = sa s @ tag # g"
  by (simp_all add: push_sequence_def push_long_sequence_def extend_def Let_def eval_nat_numeral
      upt_conv_Cons list_update_append)

lemma pop_unfold:
  assumes "sequence_start t = ss @ [length pre]" and "sequence_len_len t = ls @ [e]"
    and "sa t = pre @ tag # g @ c" and "length g = e"
  shows "pop_sequence fill t =
    (let (b, len_len) =
       (case calculate_len_len (length c) of
          Some ll \<Rightarrow>
            if e < ll
            then let b0 = extend fill (ll - e) (sa t)
                 in (put_at (length pre + ll) (take (length c) (drop (length pre + e) b0)) b0, ll)
            else (sa t, e)
        | None \<Rightarrow> (sa t, e))
     in do {
       l \<leftarrow> encode_len_by_len_len (length c) len_len;
       Some (t\<lparr>sa := put_at (length pre + 1) l b, sequence_start := ss, sequence_len_len := ls\<rparr>)
     })"
proof -
  have "length (sa t) - (length pre + 1 + e) = length c" using assms(3,4) by simp
  then show ?thesis using assms(1,2) by (simp add: pop_sequence_def Let_def cong: if_cong option.case_cong)
qed

lemma put_over: "length l = length q \<Longrightarrow> put_at (length pre + 1) l (pre @ tag # q @ r) = pre @ tag # l @ r"
  by (simp add: put_at_def)

lemma pop_short:
  assumes "length c \<le> LEN_1_MAX"
  shows "pop_sequence fill' (append_bytes c (push_sequence fill tag s)) =
    Some (s\<lparr>sa := sa s @ tag # encode_len (length c) @ c\<rparr>)"
  using assms push_sa(1)[of fill tag s]
  by (simp add: pop_sequence_def append_bytes_def calculate_len_len_def encode_len_by_len_len_def
      encode_len_def put_at_def push_sequence_def Let_def extend_def)

lemma pop_long:
  assumes "length c \<le> LEN_3_MAX"
  shows "pop_sequence fill' (append_bytes c (push_long_sequence fill tag s)) =
    Some (s\<lparr>sa := sa s @ [tag, 0x82, word_of_nat (length c div 256), word_of_nat (length c mod 256)] @ c\<rparr>)"
proof -
  obtain g where g: "length g = 3" "sa (push_long_sequence fill tag s) = sa s @ tag # g"
    using push_sa(2) by blast
  let ?t = "append_bytes c (push_long_sequence fill tag s)"
  have st: "sequence_start ?t = sequence_start s @ [length (sa s)]" "sequence_len_len ?t = sequence_len_len s @ [3]"
    "sa ?t = sa s @ tag # g @ c"
    using g by (simp_all add: append_bytes_def push_long_sequence_def Let_def extend_def)
  have "?t\<lparr>sa := x, sequence_start := sequence_start s, sequence_len_len := sequence_len_len s\<rparr> = s\<lparr>sa := x\<rparr>" for x
    by (simp add: append_bytes_def push_long_sequence_def Let_def)
  then show ?thesis
    using assms g(1)
    by (simp add: pop_unfold[OF st(1,2) st(3) g(1)] calculate_len_len_def encode_len_by_len_len_def put_at_def st(3))
qed

lemma pop_grown:
  assumes "LEN_1_MAX < length c" and "length c \<le> LEN_3_MAX"
  shows "\<exists>i. pop_sequence fill' (append_bytes c (push_sequence fill tag s)) =
    Some (s\<lparr>sa := sa s @ tag # encode_len (length c) @ butlast c @ [fill' i]\<rparr>)"
proof -
  let ?t = "append_bytes c (push_sequence fill tag s)" and ?j = "fill (length (sa s) + 1)"
  let ?n = "length (sa s)" and ?L = "length c"
  have st: "sequence_start ?t = sequence_start s @ [?n]" "sequence_len_len ?t = sequence_len_len s @ [1]"
    "sa ?t = sa s @ tag # [?j] @ c"
    using push_sa(1)[of fill tag s] by (simp_all add: append_bytes_def push_sequence_def Let_def extend_def)
  have rest: "?t\<lparr>sa := x, sequence_start := sequence_start s, sequence_len_len := sequence_len_len s\<rparr> = s\<lparr>sa := x\<rparr>" for x
    by (simp add: append_bytes_def push_sequence_def Let_def)
  from assms obtain x c' where c: "c = x # c'" by (cases c) auto
  have tk: "take ?L (?j # c @ g) = ?j # butlast c" for g
    using take_append[of "length c'" "x # c'" g] by (simp add: butlast_conv_take c)
  show ?thesis
  proof (cases "?L \<le> LEN_2_MAX")
    case True
    let ?g = "fill' (?n + 2 + ?L)"
    have b0: "extend fill' 1 (sa ?t) = sa s @ tag # ?j # c @ [?g]"
      by (simp add: extend_def st)
    have "put_at (?n + 2) (take ?L (drop (?n + 1) (sa s @ tag # ?j # c @ [?g]))) (sa s @ tag # ?j # c @ [?g]) =
        sa s @ tag # [?j, ?j] @ butlast c @ [?g]"
      using tk[of "[?g]"] by (simp add: put_at_def c numeral_3_eq_3)
    with True assms have "pop_sequence fill' ?t = Some (s\<lparr>sa := sa s @ tag # encode_len ?L @ butlast c @ [?g]\<rparr>)"
      using put_over[of "encode_len ?L" "[?j, ?j]" "sa s" tag "butlast c @ [?g]"]
      by (simp add: pop_unfold[OF st] calculate_len_len_def encode_len_by_len_len_def encode_len_def b0[simplified]
          rest)
    then show ?thesis by blast
  next
    case False
    let ?g = "fill' (?n + 3 + ?L)" and ?g1 = "fill' (?n + 2 + ?L)"
    have b0: "extend fill' 2 (sa ?t) = sa s @ tag # ?j # c @ [?g1, ?g]"
      by (simp add: extend_def st eval_nat_numeral)
    have "put_at (?n + 3) (take ?L (drop (?n + 1) (sa s @ tag # ?j # c @ [?g1, ?g]))) (sa s @ tag # ?j # c @ [?g1, ?g]) =
        sa s @ tag # [?j, x, ?j] @ butlast c @ [?g]"
    proof -
      have "drop (4 + length c') (u # v # x # c' @ [y, z]) = [z]" for u v y z :: byte
        by (simp add: eval_nat_numeral)
      then show ?thesis using tk[of "[?g1, ?g]"] by (simp add: put_at_def c)
    qed
    with False assms have "pop_sequence fill' ?t = Some (s\<lparr>sa := sa s @ tag # encode_len ?L @ butlast c @ [?g]\<rparr>)"
      using put_over[of "encode_len ?L" "[?j, x, ?j]" "sa s" tag "butlast c @ [?g]"]
      by (simp add: pop_unfold[OF st] calculate_len_len_def encode_len_by_len_len_def encode_len_def b0[simplified]
          rest)
    then show ?thesis by blast
  qed
qed

section \<open>Properties\<close>

text \<open>
  Property C36: object identifiers survive BER. Encoding an identifier that starts with two
  legal components appends one element that a decoder reads back to the same components,
  whatever follows, as long as its contents fit in 65535 bytes; longer ones are refused and
  leave the encoder as it was.
\<close>

theorem oid_roundtrip:
  assumes "2 \<le> length oid" and "oid ! 0 \<le> 2" and "oid ! 1 < 40"
  shows "if sum_list (map component_len (drop 2 oid)) < 65535
    then \<exists>bs. encode_snmp_oid oid s = (s\<lparr>sa := sa s @ bs\<rparr>, ERR_OK) \<and>
           (\<forall>rest. \<exists>c. decode_tlv (bs @ rest) = Some (TAG_OID, c, rest) \<and> decode_oid c = map unat oid)
    else encode_snmp_oid oid s = (s, ERR_TOOBIG)"
proof -
  let ?c = "[ucast (oid ! 0 * 40 + oid ! 1)] @ concat (map encode_component (drop 2 oid))"
  have "length (concat (map encode_component cs)) = sum_list (map component_len cs)" for cs
    by (induction cs) (simp_all add: length_encode_component)
  then have len: "length ?c = 1 + sum_list (map component_len (drop 2 oid))" by simp
  from assms(2,3) have ok: "\<not> 2 < oid ! 0" "\<not> 40 \<le> oid ! 1" by simp_all
  show ?thesis
  proof (cases "sum_list (map component_len (drop 2 oid)) < 65535")
    case True
    let ?bs = "TAG_OID # encode_len (length ?c) @ ?c"
    from True have "length ?c \<le> 65535" using len by linarith
    from decode_tlv_encode[OF this, of TAG_OID] oid_content[OF assms]
    have "\<forall>rest. \<exists>c. decode_tlv (?bs @ rest) = Some (TAG_OID, c, rest) \<and> decode_oid c = map unat oid"
      by blast
    moreover have "encode_snmp_oid oid s = (s\<lparr>sa := sa s @ ?bs\<rparr>, ERR_OK)"
      using ok assms(1) True unfolding len
      by (simp add: encode_snmp_oid_def calculate_len_len_def Let_def)
    ultimately show ?thesis using True by auto
  next
    case False
    then show ?thesis using ok assms(1) by (simp add: encode_snmp_oid_def calculate_len_len_def Let_def)
  qed
qed

theorem oid_roundtrip_witness:
  "\<exists>bs c. encode_snmp_oid [1, 3, 6, 1, 300] ber_empty = (ber_empty\<lparr>sa := bs\<rparr>, ERR_OK) \<and>
     decode_tlv bs = Some (TAG_OID, c, []) \<and> decode_oid c = [1, 3, 6, 1, 300]"
  using oid_roundtrip[of "[1, 3, 6, 1, 300]" ber_empty]
  by (simp add: component_len_def ber_empty_def) (metis append_Nil2)

text \<open>
  Integers survive BER. \<open>encode_integer\<close> appends one element whose contents, read
  as a two's complement number, are the 64-bit argument: its signed value in the signed form,
  its unsigned value in the unsigned one, with at most nine bytes.
\<close>

theorem integer_roundtrip:
  "\<exists>bs. encode_integer fill tag x as_signed s = (s\<lparr>sa := sa s @ bs\<rparr>, ERR_OK) \<and>
     (\<forall>rest. \<exists>c. decode_tlv (bs @ rest) = Some (tag, c, rest) \<and> length c \<le> 9 \<and>
        decode_int c = (if as_signed then sint x else uint x))"
proof -
  define neg where "neg = (as_signed \<and> sint x < 0)"
  define y where "y = (if neg then - x - 1 else x)"
  define c where "c = map (\<lambda>b. b XOR (if neg then 255 else 0)) (int_be y)"
  have len: "length c \<le> 9" using length_int_be_9 by (simp add: c_def)
  have "encode_integer fill tag x as_signed s = (s\<lparr>sa := sa s @ (tag # encode_len (length c) @ c)\<rparr>, ERR_OK)"
    using encode_integer_eq[of fill tag x as_signed s] len
    unfolding c_def y_def neg_def by (simp add: encode_len_def)
  moreover have "decode_int c = (if as_signed then sint x else uint x)"
    unfolding c_def y_def neg_def by (rule decode_int_encoded)
  moreover have "decode_tlv ((tag # encode_len (length c) @ c) @ rest) = Some (tag, c, rest)" for rest
    using len by (intro decode_tlv_encode) simp
  ultimately show ?thesis using len by blast
qed

text \<open>
  Sequences opened for a short or for a long body are closed right. Popping a
  sequence opened by \<open>push_sequence\<close> whose contents have at most 127 bytes, or one opened by
  \<open>push_long_sequence\<close> whose contents have at most 65535, leaves one element that reads back
  to the tag and the contents, and restores the stack.
\<close>

theorem sequence_roundtrip:
  assumes "t = push_sequence fill tag s \<and> length c \<le> LEN_1_MAX \<or>
    t = push_long_sequence fill tag s \<and> length c \<le> LEN_3_MAX"
  shows "\<exists>bs. pop_sequence fill' (append_bytes c t) = Some (s\<lparr>sa := sa s @ bs\<rparr>) \<and>
    (\<forall>rest. decode_tlv (bs @ rest) = Some (tag, c, rest))"
  using assms
proof
  assume "t = push_sequence fill tag s \<and> length c \<le> LEN_1_MAX"
  then show ?thesis
    using pop_short[of c fill' fill tag s] decode_tlv_encode[of c tag] by auto
next
  assume t: "t = push_long_sequence fill tag s \<and> length c \<le> LEN_3_MAX"
  then have "length c div 256 < 256" using less_mult_imp_div_less[of "length c" 256 256] by simp
  then have "256 * unat (word_of_nat (length c div 256) :: byte) + unat (word_of_nat (length c mod 256) :: byte) = length c"
    by (simp add: unat_of_nat)
  then have "decode_tlv ([tag, 0x82, word_of_nat (length c div 256), word_of_nat (length c mod 256)] @ c @ rest) =
      Some (tag, c, rest)" for rest
    by (simp add: decode_tlv_def decode_len_def)
  with t pop_long[of c fill' fill tag s] show ?thesis by auto
qed

theorem sequence_roundtrip_witness:
  "\<exists>bs. pop_sequence (\<lambda>_. 0) (append_bytes [5, 0] (push_sequence (\<lambda>_. 0) TAG_SEQUENCE ber_empty)) =
      Some (ber_empty\<lparr>sa := bs\<rparr>) \<and> decode_tlv bs = Some (TAG_SEQUENCE, [5, 0], [])"
proof -
  obtain bs where "pop_sequence (\<lambda>_. 0) (append_bytes [5, 0] (push_sequence (\<lambda>_. 0) TAG_SEQUENCE ber_empty)) =
      Some (ber_empty\<lparr>sa := sa ber_empty @ bs\<rparr>)" "\<forall>rest. decode_tlv (bs @ rest) = Some (TAG_SEQUENCE, [5, 0], rest)"
    using sequence_roundtrip[of "push_sequence (\<lambda>_. 0) TAG_SEQUENCE ber_empty" "\<lambda>_. 0" TAG_SEQUENCE ber_empty "[5, 0]" "\<lambda>_. 0"]
    by auto
  then show ?thesis by (simp add: ber_empty_def) (metis append_Nil2)
qed

text \<open>
  A sequence that outgrows its one-byte length loses its last byte. Popping a
  sequence opened by \<open>push_sequence\<close> whose contents have 128 to 65535 bytes moves the contents
  one byte short: the element reads back with its last byte replaced by whatever the buffer
  held in the newly added space.
\<close>

theorem grown_sequence_loses_last_byte:
  assumes "LEN_1_MAX < length c" and "length c \<le> LEN_3_MAX"
  shows "\<exists>bs i. pop_sequence fill' (append_bytes c (push_sequence fill tag s)) = Some (s\<lparr>sa := sa s @ bs\<rparr>) \<and>
    (\<forall>rest. decode_tlv (bs @ rest) = Some (tag, butlast c @ [fill' i], rest))"
proof -
  obtain i where i: "pop_sequence fill' (append_bytes c (push_sequence fill tag s)) =
      Some (s\<lparr>sa := sa s @ tag # encode_len (length c) @ butlast c @ [fill' i]\<rparr>)"
    using pop_grown[OF assms] by blast
  have len: "length (butlast c @ [fill' i]) = length c" using assms(1) by simp
  have "decode_tlv ((tag # encode_len (length c) @ butlast c @ [fill' i]) @ rest) =
      Some (tag, butlast c @ [fill' i], rest)" for rest
    using decode_tlv_encode[of "butlast c @ [fill' i]" tag rest] assms(2) len by simp
  with i show ?thesis by blast
qed

theorem grown_sequence_loses_last_byte_witness:
  "\<exists>bs. pop_sequence (\<lambda>_. 0) (append_bytes (replicate 200 1) (push_sequence (\<lambda>_. 0) TAG_SEQUENCE ber_empty)) =
      Some (ber_empty\<lparr>sa := bs\<rparr>) \<and> decode_tlv bs = Some (TAG_SEQUENCE, replicate 199 1 @ [0], [])"
proof -
  let ?c = "replicate 200 (1 :: byte)"
  have l: "LEN_1_MAX < length ?c" "length ?c \<le> LEN_3_MAX" by simp_all
  have b: "butlast ?c = replicate 199 1" by (simp add: butlast_conv_take)
  obtain bs where p: "pop_sequence (\<lambda>_. 0) (append_bytes ?c (push_sequence (\<lambda>_. 0) TAG_SEQUENCE ber_empty)) =
      Some (ber_empty\<lparr>sa := sa ber_empty @ bs\<rparr>)"
    and d: "\<forall>rest. decode_tlv (bs @ rest) = Some (TAG_SEQUENCE, replicate 199 1 @ [0], rest)"
    using grown_sequence_loses_last_byte[OF l, of "\<lambda>_. 0" "\<lambda>_. 0" TAG_SEQUENCE ber_empty] unfolding b by blast
  have "sa ber_empty @ bs = bs" by (simp add: ber_empty_def)
  with p d[rule_format, of "[]"] show ?thesis by (metis append_Nil2)
qed

end
