(* ===== verification/SNMP_OidTree.thy ===== *)
theory SNMP_OidTree
  imports Click_Prelude
begin

text \<open>
  The tree of SNMP object identifiers (\<open>snmp/snmpoidtree.cc\<close>). Nodes are linked by parent,
  sibling and child pointers; they are allocated in groups of 256 that never move, so that a
  pointer is the index of the node in the order of allocation. Loops that follow pointers are
  partial functions: \<^const>\<open>None\<close> is a loop that does not end or an access outside of the
  allocated nodes.
\<close>

section \<open>Nodes and the tree\<close>

record oid_node =
  n_suffix :: u32
  n_parent :: "nat option"
  n_sibling :: "nat option"
  n_child :: "nat option"
  n_data :: int

record oid_tree =
  t_nodes :: "oid_node list"
  t_cap :: nat

abbreviation (input) "NODES_PER_GROUP \<equiv> 256 :: nat"

definition oid_tree_new :: oid_tree where
  "oid_tree_new = \<lparr>t_nodes = [], t_cap = NODES_PER_GROUP\<rparr>"

definition node_at :: "oid_node list \<Rightarrow> nat \<Rightarrow> oid_node option" where
  "node_at ns i = (if i < length ns then Some (ns ! i) else None)"

text \<open>
  When the groups are full, the new group is stored behind the end of the old group array and
  its entry in the new array stays uninitialised; the node is then taken through that entry.
\<close>

definition alloc_node ::
    "u32 \<Rightarrow> nat option \<Rightarrow> nat option \<Rightarrow> oid_tree \<Rightarrow> (oid_tree \<times> nat) option" where
  "alloc_node suffix par sibling t =
     (if length (t_nodes t) = t_cap t then None
      else let n = length (t_nodes t);
               ns0 = t_nodes t @ [\<lparr>n_suffix = suffix, n_parent = par, n_sibling = None, n_child = None, n_data = -1\<rparr>];
               ns1 = (case par of
                        Some p \<Rightarrow> if n_child (ns0 ! p) = None then ns0[p := (ns0 ! p)\<lparr>n_child := Some n\<rparr>] else ns0
                      | None \<Rightarrow> ns0);
               ns2 = (case sibling of
                        Some b \<Rightarrow> ns1[b := (ns1 ! b)\<lparr>n_sibling := Some n\<rparr>]
                      | None \<Rightarrow> ns1)
           in Some (t\<lparr>t_nodes := ns2\<rparr>, n))"

section \<open>Lookup\<close>

text \<open>The inner loop over the siblings.\<close>

partial_function (option) scan :: "oid_node list \<Rightarrow> nat option \<Rightarrow> u32 \<Rightarrow> nat option option" where
  "scan ns np want =
     (case np of
        None \<Rightarrow> Some None
      | Some i \<Rightarrow> do {
          n \<leftarrow> node_at ns i;
          if n_suffix n \<noteq> want then scan ns (n_sibling n) want else Some (Some i)
        })"

fun find_loop :: "oid_node list \<Rightarrow> nat option \<Rightarrow> bool \<Rightarrow> u32 list \<Rightarrow> nat option option" where
  "find_loop ns np first [] = Some np"
| "find_loop ns None first (want # rest) = Some None"
| "find_loop ns (Some i) first (want # rest) =
     do {
       n \<leftarrow> node_at ns i;
       np \<leftarrow> scan ns (if first then Some i else n_child n) want;
       find_loop ns np False rest
     }"

definition find_node :: "oid_tree \<Rightarrow> u32 list \<Rightarrow> nat option option" where
  "find_node t oid =
     (if t_nodes t = [] \<or> oid = [] then Some None else find_loop (t_nodes t) (Some 0) True oid)"

definition oid_find :: "oid_tree \<Rightarrow> u32 list \<Rightarrow> int option" where
  "oid_find t oid =
     do {
       np \<leftarrow> find_node t oid;
       (case np of None \<Rightarrow> Some (-1) | Some i \<Rightarrow> map_option n_data (node_at (t_nodes t) i))
     }"

text \<open>The data of the longest known prefix and its length.\<close>

fun prefix_loop :: "oid_node list \<Rightarrow> nat \<Rightarrow> nat option \<Rightarrow> nat \<Rightarrow> u32 list \<Rightarrow> (int \<times> nat) option" where
  "prefix_loop ns i prev pos [] = do { n \<leftarrow> node_at ns i; Some (n_data n, pos) }"
| "prefix_loop ns i prev pos (want # rest) =
     do {
       n \<leftarrow> node_at ns i;
       np \<leftarrow> scan ns (if pos = 0 then Some i else n_child n) want;
       (case np of
          None \<Rightarrow> (case prev of None \<Rightarrow> Some (-1, pos) | Some p \<Rightarrow> do { m \<leftarrow> node_at ns p; Some (n_data m, pos) })
        | Some j \<Rightarrow> prefix_loop ns j (Some j) (pos + 1) rest)
     }"

definition find_prefix :: "oid_tree \<Rightarrow> u32 list \<Rightarrow> (int \<times> nat) option" where
  "find_prefix t oid =
     (if t_nodes t = [] \<or> oid = [] then Some (-1, 0) else prefix_loop (t_nodes t) 0 None 0 oid)"

section \<open>Insertion\<close>

text \<open>The loop that remembers the last sibling it saw.\<close>

partial_function (option) scan_prev :: "oid_node list \<Rightarrow> nat \<Rightarrow> nat option \<Rightarrow> u32 \<Rightarrow> (nat \<times> nat option) option" where
  "scan_prev ns prev np want =
     (case np of
        None \<Rightarrow> Some (prev, None)
      | Some i \<Rightarrow> do {
          n \<leftarrow> node_at ns i;
          if n_suffix n \<noteq> want then scan_prev ns i (n_sibling n) want else Some (prev, Some i)
        })"

fun alloc_chain :: "oid_tree \<Rightarrow> nat \<Rightarrow> u32 list \<Rightarrow> (oid_tree \<times> nat) option" where
  "alloc_chain t np [] = Some (t, np)"
| "alloc_chain t np (k # ks) = do { (t1, n) \<leftarrow> alloc_node k (Some np) None t; alloc_chain t1 n ks }"

fun force_walk :: "oid_tree \<Rightarrow> nat \<Rightarrow> bool \<Rightarrow> u32 list \<Rightarrow> (oid_tree \<times> nat) option" where
  "force_walk t np first [] = Some (t, np)"
| "force_walk t np first (want # rest) =
     do {
       n \<leftarrow> node_at (t_nodes t) np;
       (case (if first then Some np else n_child n) of
          None \<Rightarrow> alloc_chain t np (want # rest)
        | Some start \<Rightarrow> do {
            (prev, found) \<leftarrow> scan_prev (t_nodes t) start (Some start) want;
            (case found of
               Some i \<Rightarrow> force_walk t i False rest
             | None \<Rightarrow> do {
                 p \<leftarrow> node_at (t_nodes t) prev;
                 (t1, i) \<leftarrow> alloc_node want (n_parent p) (Some prev) t;
                 force_walk t1 i False rest
               })
          })
     }"

definition force_node :: "oid_tree \<Rightarrow> u32 list \<Rightarrow> (oid_tree \<times> nat option) option" where
  "force_node t oid =
     (if oid = [] then Some (t, None)
      else do {
        t0 \<leftarrow> (if t_nodes t = [] then map_option fst (alloc_node (hd oid) None None t) else Some t);
        (t1, i) \<leftarrow> force_walk t0 0 True oid;
        Some (t1, Some i)
      })"

definition oid_insert :: "oid_tree \<Rightarrow> u32 list \<Rightarrow> int \<Rightarrow> (oid_tree \<times> nat option) option" where
  "oid_insert t oid d =
     do {
       (t1, np) \<leftarrow> force_node t oid;
       (case np of
          None \<Rightarrow> Some (t1, None)
        | Some i \<Rightarrow> Some (t1\<lparr>t_nodes := (t_nodes t1)[i := (t_nodes t1 ! i)\<lparr>n_data := d\<rparr>]\<rparr>, Some i))
     }"

section \<open>The identifier of a node\<close>

partial_function (option) extract_oid :: "oid_node list \<Rightarrow> nat option \<Rightarrow> u32 list option" where
  "extract_oid ns np =
     (case np of
        None \<Rightarrow> Some []
      | Some i \<Rightarrow> do {
          n \<leftarrow> node_at ns i;
          up \<leftarrow> extract_oid ns (n_parent n);
          Some (up @ [n_suffix n])
        })"

section \<open>Forests in the node array\<close>

text \<open>
  The abstract shape of the tree: a forest whose nodes carry the address of their record.
\<close>

datatype otree = ONode (oaddr: nat) (osuf: u32) (okids: "otree list")

fun oaddrs :: "otree list \<Rightarrow> nat list" where
  "oaddrs [] = []"
| "oaddrs (ONode a s ks # ts) = a # oaddrs ks @ oaddrs ts"

fun repr :: "oid_node list \<Rightarrow> nat option \<Rightarrow> nat option \<Rightarrow> otree list \<Rightarrow> bool" where
  "repr ns par ptr [] \<longleftrightarrow> ptr = None"
| "repr ns par ptr (ONode a s ks # ts) \<longleftrightarrow> ptr = Some a \<and> a < length ns \<and> n_suffix (ns ! a) = s \<and> n_parent (ns ! a) = par \<and>
     repr ns (Some a) (n_child (ns ! a)) ks \<and> repr ns par (n_sibling (ns ! a)) ts"

fun fnode :: "otree list \<Rightarrow> u32 list \<Rightarrow> otree option" where
  "fnode ts [] = None"
| "fnode [] (k # ks) = None"
| "fnode (t # ts) (k # ks) = (if osuf t = k then (if ks = [] then Some t else fnode (okids t) ks) else fnode ts (k # ks))"

fun chains :: "nat \<Rightarrow> u32 list \<Rightarrow> otree list" where
  "chains n [] = []"
| "chains n (k # ks) = [ONode n k (chains (Suc n) ks)]"

fun fforce :: "nat \<Rightarrow> u32 list \<Rightarrow> otree list \<Rightarrow> otree list" where
  "fforce n [] ts = ts"
| "fforce n (k # ks) [] = chains n (k # ks)"
| "fforce n (k # ks) (ONode a s kids # ts) =
     (if s = k then ONode a s (fforce n ks kids) # ts else ONode a s kids # fforce n (k # ks) ts)"

lemma repr_addrs: "repr ns par ptr ts \<Longrightarrow> a \<in> set (oaddrs ts) \<Longrightarrow> a < length ns"
  by (induction ts arbitrary: par ptr rule: oaddrs.induct) auto

text \<open>The array changed only at the addresses in \<open>A\<close> and by appending.\<close>

definition ext :: "oid_node list \<Rightarrow> oid_node list \<Rightarrow> nat set \<Rightarrow> bool" where
  "ext ns ns' A \<longleftrightarrow> length ns \<le> length ns' \<and> (\<forall>j<length ns. j \<notin> A \<longrightarrow> ns' ! j = ns ! j) \<and>
     (\<forall>j<length ns. n_data (ns' ! j) = n_data (ns ! j)) \<and> (\<forall>j. length ns \<le> j \<and> j < length ns' \<longrightarrow> n_data (ns' ! j) = -1)"

lemma ext_refl: "ext ns ns A"
  by (simp add: ext_def)

lemma ext_trans:
  assumes "ext ns ns1 A" "ext ns1 ns2 B" "\<forall>j\<in>B. j < length ns \<longrightarrow> j \<in> A"
  shows "ext ns ns2 A"
proof -
  have "n_data (ns2 ! j) = -1" if "length ns \<le> j" "j < length ns2" for j
    using assms(1,2) that unfolding ext_def by (cases "j < length ns1") auto
  with assms show ?thesis unfolding ext_def by (auto dest: order.strict_trans2)
qed

lemma ext_mono: "ext ns ns' A \<Longrightarrow> A \<subseteq> B \<Longrightarrow> ext ns ns' B"
  by (auto simp: ext_def Int_Un_distrib)

lemma repr_ext:
  assumes "repr ns par ptr ts" "ext ns ns' A" "A \<inter> set (oaddrs ts) = {}"
  shows "repr ns' par ptr ts"
  using assms by (induction ts arbitrary: par ptr rule: oaddrs.induct) (auto simp: ext_def Int_Un_distrib)

text \<open>Lookup in the array is lookup in the forest.\<close>

lemma scan_repr:
  assumes "repr ns par ptr ts"
  shows "scan ns ptr k = Some (map_option oaddr (fnode ts [k]))"
  using assms
proof (induction ts arbitrary: ptr)
  case Nil
  then show ?case by (simp add: scan.simps)
next
  case (Cons t ts)
  then show ?case by (cases t) (simp add: scan.simps[of ns "Some _"] node_at_def)
qed

lemma fnode_split:
  "ks \<noteq> [] \<Longrightarrow> fnode ts (k # ks) = (case fnode ts [k] of None \<Rightarrow> None | Some t \<Rightarrow> fnode (okids t) ks)"
  by (induction ts) auto

text \<open>How much of an identifier the forest has.\<close>

fun plen :: "otree list \<Rightarrow> u32 list \<Rightarrow> nat" where
  "plen ts [] = 0"
| "plen ts (k # ks) = (case fnode ts [k] of None \<Rightarrow> 0 | Some t \<Rightarrow> Suc (plen (okids t) ks))"

lemma plen_le: "plen ts q \<le> length q"
  by (induction ts q rule: plen.induct) (auto split: option.splits)

lemma plen_Nil [simp]: "plen [] q = 0"
  by (cases q) simp_all

lemma repr_kids:
  "repr ns par ptr ts \<Longrightarrow> fnode ts [k] = Some t \<Longrightarrow> oaddr t < length ns \<and> repr ns (Some (oaddr t)) (n_child (ns ! oaddr t)) (okids t)"
proof (induction ts arbitrary: ptr)
  case (Cons u ts)
  then show ?case by (cases u) (auto split: if_splits)
qed simp

lemma find_loop_kids:
  assumes "repr ns (Some i) (n_child (ns ! i)) ts" "i < length ns" "oid \<noteq> []"
  shows "find_loop ns (Some i) False oid = Some (map_option oaddr (fnode ts oid))"
  using assms
proof (induction oid arbitrary: i ts)
  case (Cons k ks)
  note sc = scan_repr[OF Cons.prems(1), of k]
  show ?case
  proof (cases "fnode ts [k]")
    case None
    then show ?thesis using Cons.prems sc fnode_split[of ks ts k] by (cases ks) (auto simp: node_at_def)
  next
    case (Some t)
    show ?thesis
    proof (cases "ks = []")
      case True
      then show ?thesis using Some Cons.prems sc by (simp add: node_at_def)
    next
      case False
      then show ?thesis using Some Cons.prems(2) sc Cons.IH[of "oaddr t" "okids t"] repr_kids[OF Cons.prems(1) Some] fnode_split[OF False, of ts k]
        by (simp add: node_at_def)
    qed
  qed
qed simp

lemma find_loop_top:
  assumes "repr ns par (Some i) ts" "oid \<noteq> []" "ts \<noteq> []"
  shows "find_loop ns (Some i) True oid = Some (map_option oaddr (fnode ts oid))"
proof -
  obtain k ks where oid: "oid = k # ks" using assms(2) by (cases oid) auto
  have i: "i < length ns" using assms(1,3) by (cases ts rule: oaddrs.cases) auto
  note sc = scan_repr[OF assms(1), of k]
  show ?thesis
  proof (cases "fnode ts [k]")
    case None
    then show ?thesis using oid i sc fnode_split[of ks ts k] by (cases ks) (auto simp: node_at_def)
  next
    case (Some t)
    then show ?thesis using oid i sc repr_kids[OF assms(1) Some] find_loop_kids[of ns "oaddr t" "okids t" ks] fnode_split[of ks ts k]
      by (cases "ks = []") (simp_all add: node_at_def)
  qed
qed

section \<open>Insertion into the forest\<close>

definition new_node :: "u32 \<Rightarrow> nat option \<Rightarrow> oid_node" where
  "new_node k par = \<lparr>n_suffix = k, n_parent = par, n_sibling = None, n_child = None, n_data = -1\<rparr>"

lemma alloc_child:
  assumes "i < length (t_nodes t)" "n_child (t_nodes t ! i) = None" "length (t_nodes t) < t_cap t"
  shows "alloc_node k (Some i) None t =
    Some (t\<lparr>t_nodes := (t_nodes t)[i := (t_nodes t ! i)\<lparr>n_child := Some (length (t_nodes t))\<rparr>] @ [new_node k (Some i)]\<rparr>, length (t_nodes t))"
  using assms by (simp add: alloc_node_def Let_def new_node_def nth_append list_update_append)

lemma alloc_sibling:
  assumes "prev < length (t_nodes t)" "length (t_nodes t) < t_cap t"
    and "\<forall>p. par = Some p \<longrightarrow> p < length (t_nodes t) \<and> n_child (t_nodes t ! p) \<noteq> None"
  shows "alloc_node k par (Some prev) t =
    Some (t\<lparr>t_nodes := (t_nodes t)[prev := (t_nodes t ! prev)\<lparr>n_sibling := Some (length (t_nodes t))\<rparr>] @ [new_node k par]\<rparr>, length (t_nodes t))"
  using assms by (auto simp: alloc_node_def Let_def new_node_def nth_append list_update_append split: option.splits)

lemma ext_append:
  assumes "i < length ns" "n_data n = n_data (ns ! i)" "n_data m = -1"
  shows "ext ns (ns[i := n] @ [m]) {i}"
  using assms by (auto simp: ext_def nth_append nth_list_update)

lemma fforce_Nil: "fforce n oid [] = chains n oid"
  by (cases oid) auto

lemma alloc_chain_repr:
  assumes "i < length (t_nodes t)" "n_child (t_nodes t ! i) = None" "length (t_nodes t) + length ks \<le> t_cap t" "ks \<noteq> []"
  shows "\<exists>t' j x. alloc_chain t i ks = Some (t', j) \<and> t_cap t' = t_cap t \<and> length (t_nodes t') = length (t_nodes t) + length ks \<and>
    ext (t_nodes t) (t_nodes t') {i} \<and> t_nodes t' ! i = (t_nodes t ! i)\<lparr>n_child := Some (length (t_nodes t))\<rparr> \<and>
    repr (t_nodes t') (Some i) (Some (length (t_nodes t))) (chains (length (t_nodes t)) ks) \<and>
    fnode (chains (length (t_nodes t)) ks) ks = Some x \<and> oaddr x = j"
  using assms
proof (induction ks arbitrary: t i)
  case (Cons k ks)
  define n where "n = length (t_nodes t)"
  define t1 where "t1 = t\<lparr>t_nodes := (t_nodes t)[i := (t_nodes t ! i)\<lparr>n_child := Some n\<rparr>] @ [new_node k (Some i)]\<rparr>"
  have a: "alloc_node k (Some i) None t = Some (t1, n)" using alloc_child[of i t k] Cons.prems by (simp add: t1_def n_def)
  have t1: "length (t_nodes t1) = Suc n" "t_nodes t1 ! n = new_node k (Some i)" "t_cap t1 = t_cap t"
    "t_nodes t1 ! i = (t_nodes t ! i)\<lparr>n_child := Some n\<rparr>"
    using Cons.prems(1) by (simp_all add: t1_def n_def nth_append)
  have e1: "ext (t_nodes t) (t_nodes t1) {i}" using Cons.prems(1) ext_append[of i "t_nodes t"] by (simp add: t1_def new_node_def)
  have i: "i \<noteq> n" "i < n" using Cons.prems(1) by (auto simp: n_def)
  show ?case
  proof (cases "ks = []")
    case True
    then show ?thesis using a e1 t1 i by (auto simp: n_def[symmetric] new_node_def)
  next
    case False
    have pre: "n < length (t_nodes t1)" "n_child (t_nodes t1 ! n) = None" "length (t_nodes t1) + length ks \<le> t_cap t1"
      using Cons.prems(3) t1 by (auto simp: new_node_def n_def)
    obtain t2 j x where t2: "alloc_chain t1 n ks = Some (t2, j)" "t_cap t2 = t_cap t1" "length (t_nodes t2) = Suc n + length ks"
      "ext (t_nodes t1) (t_nodes t2) {n}" "t_nodes t2 ! n = (t_nodes t1 ! n)\<lparr>n_child := Some (Suc n)\<rparr>"
      "repr (t_nodes t2) (Some n) (Some (Suc n)) (chains (Suc n) ks)" "fnode (chains (Suc n) ks) ks = Some x" "oaddr x = j"
      using Cons.IH[OF pre False] t1(1) by auto
    have e2: "ext (t_nodes t) (t_nodes t2) {i}"
      using ext_trans[OF e1 t2(4)] by (auto simp: n_def)
    have i2: "t_nodes t2 ! i = (t_nodes t ! i)\<lparr>n_child := Some n\<rparr>" using t2(4) t1 i by (auto simp: ext_def)
    show ?thesis using a t2 t1 e2 i2 False by (auto simp: n_def[symmetric] new_node_def)
  qed
qed simp

text \<open>The part of \<open>force_node\<close> that searches one level and continues below.\<close>

definition level :: "oid_tree \<Rightarrow> nat \<Rightarrow> nat option \<Rightarrow> u32 \<Rightarrow> u32 list \<Rightarrow> (oid_tree \<times> nat) option" where
  "level t prev ptr want rest =
     do {
       (prev, found) \<leftarrow> scan_prev (t_nodes t) prev ptr want;
       (case found of
          Some i \<Rightarrow> force_walk t i False rest
        | None \<Rightarrow> do {
            p \<leftarrow> node_at (t_nodes t) prev;
            (t1, i) \<leftarrow> alloc_node want (n_parent p) (Some prev) t;
            force_walk t1 i False rest
          })
     }"

lemma level_next:
  "i < length (t_nodes t) \<Longrightarrow> n_suffix (t_nodes t ! i) \<noteq> want \<Longrightarrow> level t prev (Some i) want rest = level t i (n_sibling (t_nodes t ! i)) want rest"
  by (simp add: level_def scan_prev.simps[of _ _ "Some i"] node_at_def)

lemma level_found:
  "i < length (t_nodes t) \<Longrightarrow> n_suffix (t_nodes t ! i) = want \<Longrightarrow> level t prev (Some i) want rest = force_walk t i False rest"
  by (simp add: level_def scan_prev.simps[of _ _ "Some i"] node_at_def)

lemma level_end:
  "prev < length (t_nodes t) \<Longrightarrow> level t prev None want rest =
     do { (t1, i) \<leftarrow> alloc_node want (n_parent (t_nodes t ! prev)) (Some prev) t; force_walk t1 i False rest }"
  by (simp add: level_def scan_prev.simps[of _ _ None] node_at_def)

lemma force_walk_level:
  "i < length (t_nodes t) \<Longrightarrow> n_child (t_nodes t ! i) = Some a \<Longrightarrow> force_walk t i False (k # ks) = level t a (Some a) k ks"
proof -
  assume i: "i < length (t_nodes t)" "n_child (t_nodes t ! i) = Some a"
  then have "node_at (t_nodes t) i = Some (t_nodes t ! i)" by (simp add: node_at_def)
  with i(2) show ?thesis by (simp add: level_def)
qed

text \<open>What it means to have inserted \<open>oid\<close> below node \<open>i\<close>.\<close>

definition node_ok :: "u32 list \<Rightarrow> bool" where
  "node_ok oid \<longleftrightarrow> (\<forall>t i kids. repr (t_nodes t) (Some i) (n_child (t_nodes t ! i)) kids \<longrightarrow> i < length (t_nodes t) \<longrightarrow>
     distinct (i # oaddrs kids) \<longrightarrow> length (t_nodes t) + length oid \<le> t_cap t \<longrightarrow>
     (\<exists>t' j. force_walk t i False oid = Some (t', j) \<and> t_cap t' = t_cap t \<and> length (t_nodes t') + plen kids oid = length (t_nodes t) + length oid \<and>
       ext (t_nodes t) (t_nodes t') (insert i (set (oaddrs kids))) \<and>
       t_nodes t' ! i = (t_nodes t ! i)\<lparr>n_child := n_child (t_nodes t' ! i)\<rparr> \<and>
       repr (t_nodes t') (Some i) (n_child (t_nodes t' ! i)) (fforce (length (t_nodes t)) oid kids) \<and>
       (if oid = [] then j = i else \<exists>x. fnode (fforce (length (t_nodes t)) oid kids) oid = Some x \<and> oaddr x = j)))"

lemma node_okD:
  assumes "node_ok oid" "repr (t_nodes t) (Some i) (n_child (t_nodes t ! i)) kids" "i < length (t_nodes t)"
    "distinct (i # oaddrs kids)" "length (t_nodes t) + length oid \<le> t_cap t"
  obtains t' j where "force_walk t i False oid = Some (t', j)" "t_cap t' = t_cap t" "length (t_nodes t') + plen kids oid = length (t_nodes t) + length oid"
    "ext (t_nodes t) (t_nodes t') (insert i (set (oaddrs kids)))"
    "t_nodes t' ! i = (t_nodes t ! i)\<lparr>n_child := n_child (t_nodes t' ! i)\<rparr>"
    "repr (t_nodes t') (Some i) (n_child (t_nodes t' ! i)) (fforce (length (t_nodes t)) oid kids)"
    "if oid = [] then j = i else \<exists>x. fnode (fforce (length (t_nodes t)) oid kids) oid = Some x \<and> oaddr x = j"
  using assms unfolding node_ok_def by blast

lemma level_ok:
  assumes rest: "node_ok rest"
    and r: "repr (t_nodes t) par (n_sibling (t_nodes t ! prev)) ts" "prev < length (t_nodes t)" "distinct (prev # oaddrs ts)"
    and par: "n_parent (t_nodes t ! prev) = par" "\<forall>p. par = Some p \<longrightarrow> p < length (t_nodes t) \<and> n_child (t_nodes t ! p) \<noteq> None"
    and cap: "length (t_nodes t) + length (k # rest) \<le> t_cap t"
  shows "\<exists>t' j x. level t prev (n_sibling (t_nodes t ! prev)) k rest = Some (t', j) \<and> t_cap t' = t_cap t \<and>
    length (t_nodes t') + plen ts (k # rest) = length (t_nodes t) + length (k # rest) \<and>
    ext (t_nodes t) (t_nodes t') (insert prev (set (oaddrs ts))) \<and>
    t_nodes t' ! prev = (t_nodes t ! prev)\<lparr>n_sibling := n_sibling (t_nodes t' ! prev)\<rparr> \<and>
    repr (t_nodes t') par (n_sibling (t_nodes t' ! prev)) (fforce (length (t_nodes t)) (k # rest) ts) \<and>
    fnode (fforce (length (t_nodes t)) (k # rest) ts) (k # rest) = Some x \<and> oaddr x = j"
  using r par(1)
proof (induction ts arbitrary: prev)
  case Nil
  define n where "n = length (t_nodes t)"
  define t1 where "t1 = t\<lparr>t_nodes := (t_nodes t)[prev := (t_nodes t ! prev)\<lparr>n_sibling := Some n\<rparr>] @ [new_node k par]\<rparr>"
  have a: "alloc_node k par (Some prev) t = Some (t1, n)" using alloc_sibling[of prev t par k] Nil par(2) cap by (simp add: t1_def n_def)
  have t1: "length (t_nodes t1) = Suc n" "t_nodes t1 ! n = new_node k par" "t_cap t1 = t_cap t"
    "t_nodes t1 ! prev = (t_nodes t ! prev)\<lparr>n_sibling := Some n\<rparr>"
    using Nil(2) by (simp_all add: t1_def n_def nth_append)
  have e1: "ext (t_nodes t) (t_nodes t1) {prev}" using Nil(2) ext_append[of prev "t_nodes t"] by (simp add: t1_def new_node_def)
  have p: "prev < n" "prev \<noteq> n" using Nil(2) by (auto simp: n_def)
  have "repr (t_nodes t1) (Some n) (n_child (t_nodes t1 ! n)) []" "n < length (t_nodes t1)" "distinct (n # oaddrs [])"
      "length (t_nodes t1) + length rest \<le> t_cap t1"
    using t1 cap by (simp_all add: new_node_def n_def)
  then obtain t' j where w: "force_walk t1 n False rest = Some (t', j)" "t_cap t' = t_cap t1"
    "length (t_nodes t') + plen [] rest = length (t_nodes t1) + length rest" "ext (t_nodes t1) (t_nodes t') (insert n (set (oaddrs [])))"
    "t_nodes t' ! n = (t_nodes t1 ! n)\<lparr>n_child := n_child (t_nodes t' ! n)\<rparr>"
    "repr (t_nodes t') (Some n) (n_child (t_nodes t' ! n)) (fforce (length (t_nodes t1)) rest [])"
    "if rest = [] then j = n else \<exists>x. fnode (fforce (length (t_nodes t1)) rest []) rest = Some x \<and> oaddr x = j"
    by (rule node_okD[OF rest])
  note t' = w(1,2) w(3)[unfolded t1(1)] w(4)[unfolded oaddrs.simps list.set] w(5) w(6,7)[unfolded t1(1) fforce_Nil]
  have sib: "n_sibling (t_nodes t ! prev) = None" using Nil(1) by simp
  have e2: "ext (t_nodes t) (t_nodes t') {prev}" using ext_trans[OF e1 t'(4)] by (auto simp: n_def)
  have p2: "t_nodes t' ! prev = (t_nodes t ! prev)\<lparr>n_sibling := Some n\<rparr>" using t'(4) t1 p by (auto simp: ext_def)
  have ln: "n < length (t_nodes t')" using t'(4) t1(1) by (simp add: ext_def)
  have f: "\<exists>x. fnode (chains n (k # rest)) (k # rest) = Some x \<and> oaddr x = j" using t'(7) by (auto split: if_splits)
  have flds: "n_suffix (t_nodes t' ! n) = k" "n_parent (t_nodes t' ! n) = par" "n_sibling (t_nodes t' ! n) = None"
    by (subst t'(5), simp add: t1(2) new_node_def)+
  then have rp: "repr (t_nodes t') par (Some n) (chains n (k # rest))" using t'(6) ln by simp
  have "level t prev None k rest = Some (t', j)" using level_end[OF Nil(2), of k rest] a t'(1) Nil(4) by simp
  then show ?case unfolding sib using e2 p2 rp t'(2,3) t1(3) f by (auto simp: n_def[symmetric])
next
  case (Cons u us)
  obtain a s ks where u: "u = ONode a s ks" by (cases u)
  have r: "n_sibling (t_nodes t ! prev) = Some a" "a < length (t_nodes t)" "n_suffix (t_nodes t ! a) = s" "n_parent (t_nodes t ! a) = par"
    "repr (t_nodes t) (Some a) (n_child (t_nodes t ! a)) ks" "repr (t_nodes t) par (n_sibling (t_nodes t ! a)) us"
    using Cons.prems(1) by (auto simp: u)
  have d: "distinct (a # oaddrs ks)" "distinct (a # oaddrs us)" "prev \<notin> insert a (set (oaddrs ks) \<union> set (oaddrs us))"
    "set (oaddrs ks) \<inter> set (oaddrs us) = {}"
    using Cons.prems(3) by (auto simp: u)
  show ?case
  proof (cases "s = k")
    case True
    obtain t' j where t': "force_walk t a False rest = Some (t', j)" "t_cap t' = t_cap t" "length (t_nodes t') + plen ks rest = length (t_nodes t) + length rest"
      "ext (t_nodes t) (t_nodes t') (insert a (set (oaddrs ks)))"
      "t_nodes t' ! a = (t_nodes t ! a)\<lparr>n_child := n_child (t_nodes t' ! a)\<rparr>"
      "repr (t_nodes t') (Some a) (n_child (t_nodes t' ! a)) (fforce (length (t_nodes t)) rest ks)"
      "if rest = [] then j = a else \<exists>x. fnode (fforce (length (t_nodes t)) rest ks) rest = Some x \<and> oaddr x = j"
      using node_okD[OF rest r(5,2) d(1)] cap by auto
    have us: "repr (t_nodes t') par (n_sibling (t_nodes t ! a)) us" using repr_ext[OF r(6) t'(4)] d by auto
    have la: "a < length (t_nodes t')" using t'(4) r(2) by (simp add: ext_def)
    have flds: "n_suffix (t_nodes t' ! a) = s" "n_parent (t_nodes t' ! a) = par" "n_sibling (t_nodes t' ! a) = n_sibling (t_nodes t ! a)"
      by (subst t'(5), simp add: r)+
    have cnt: "length (t_nodes t') + plen (u # us) (k # rest) = length (t_nodes t) + length (k # rest)" using t'(3) True by (simp add: u)
    have pv: "t_nodes t' ! prev = t_nodes t ! prev" using t'(4) d(3) Cons.prems(2) by (auto simp: ext_def)
    have f: "\<exists>x. fnode (fforce (length (t_nodes t)) (k # rest) (u # us)) (k # rest) = Some x \<and> oaddr x = j"
      using t'(7) True by (auto simp: u split: if_splits)
    have "repr (t_nodes t') par (Some a) (fforce (length (t_nodes t)) (k # rest) (u # us))"
      using True us la flds t'(6) by (simp add: u)
    moreover have "ext (t_nodes t) (t_nodes t') (insert prev (set (oaddrs (u # us))))" using t'(4) by (rule ext_mono) (auto simp: u)
    ultimately show ?thesis using level_found[OF r(2), of k prev rest] r(1,3) True t'(1,2) cnt pv f by (auto simp del: plen.simps)
  next
    case False
    obtain t' j x where t': "level t a (n_sibling (t_nodes t ! a)) k rest = Some (t', j)" "t_cap t' = t_cap t"
      "length (t_nodes t') + plen us (k # rest) = length (t_nodes t) + length (k # rest)"
      "ext (t_nodes t) (t_nodes t') (insert a (set (oaddrs us)))"
      "t_nodes t' ! a = (t_nodes t ! a)\<lparr>n_sibling := n_sibling (t_nodes t' ! a)\<rparr>"
      "repr (t_nodes t') par (n_sibling (t_nodes t' ! a)) (fforce (length (t_nodes t)) (k # rest) us)"
      "fnode (fforce (length (t_nodes t)) (k # rest) us) (k # rest) = Some x" "oaddr x = j"
      using Cons.IH[OF r(6,2) d(2) r(4)] by blast
    have ks: "repr (t_nodes t') (Some a) (n_child (t_nodes t ! a)) ks" using repr_ext[OF r(5) t'(4)] d by auto
    have la: "a < length (t_nodes t')" using t'(4) r(2) by (simp add: ext_def)
    have flds: "n_suffix (t_nodes t' ! a) = s" "n_parent (t_nodes t' ! a) = par" "n_child (t_nodes t' ! a) = n_child (t_nodes t ! a)"
      by (subst t'(5), simp add: r)+
    have cnt: "length (t_nodes t') + plen (u # us) (k # rest) = length (t_nodes t) + length (k # rest)" using t'(3) False by (simp add: u)
    have pv: "t_nodes t' ! prev = t_nodes t ! prev" using t'(4) d(3) Cons.prems(2) by (auto simp: ext_def)
    have "repr (t_nodes t') par (Some a) (fforce (length (t_nodes t)) (k # rest) (u # us))"
      using False ks la flds t'(6) by (simp add: u)
    moreover have "ext (t_nodes t) (t_nodes t') (insert prev (set (oaddrs (u # us))))" using t'(4) by (rule ext_mono) (auto simp: u)
    moreover have "fnode (fforce (length (t_nodes t)) (k # rest) (u # us)) (k # rest) = Some x" using False t'(7) by (simp add: u)
    ultimately show ?thesis using level_next[OF r(2), of k prev rest] r(1,3) False t'(1,2,8) cnt pv by (auto simp del: plen.simps)
  qed
qed

lemma level_head:
  assumes rest: "node_ok rest" and r: "repr (t_nodes t) par (Some a) ts" "distinct (oaddrs ts)" "ts \<noteq> []"
    and par: "\<forall>p. par = Some p \<longrightarrow> p < length (t_nodes t) \<and> n_child (t_nodes t ! p) \<noteq> None"
    and cap: "length (t_nodes t) + length (k # rest) \<le> t_cap t"
  shows "\<exists>t' j x. level t a (Some a) k rest = Some (t', j) \<and> t_cap t' = t_cap t \<and>
    length (t_nodes t') + plen ts (k # rest) = length (t_nodes t) + length (k # rest) \<and> ext (t_nodes t) (t_nodes t') (set (oaddrs ts)) \<and>
    repr (t_nodes t') par (Some a) (fforce (length (t_nodes t)) (k # rest) ts) \<and>
    fnode (fforce (length (t_nodes t)) (k # rest) ts) (k # rest) = Some x \<and> oaddr x = j"
proof -
  obtain s ks us where ts: "ts = ONode a s ks # us" using r(1,3) by (cases ts rule: oaddrs.cases) auto
  have q: "a < length (t_nodes t)" "n_suffix (t_nodes t ! a) = s" "n_parent (t_nodes t ! a) = par"
    "repr (t_nodes t) (Some a) (n_child (t_nodes t ! a)) ks" "repr (t_nodes t) par (n_sibling (t_nodes t ! a)) us"
    using r(1) by (auto simp: ts)
  have d: "distinct (a # oaddrs ks)" "distinct (a # oaddrs us)" "set (oaddrs ks) \<inter> set (oaddrs us) = {}" using r(2) by (auto simp: ts)
  show ?thesis
  proof (cases "s = k")
    case True
    obtain t' j where t': "force_walk t a False rest = Some (t', j)" "t_cap t' = t_cap t" "length (t_nodes t') + plen ks rest = length (t_nodes t) + length rest"
      "ext (t_nodes t) (t_nodes t') (insert a (set (oaddrs ks)))"
      "t_nodes t' ! a = (t_nodes t ! a)\<lparr>n_child := n_child (t_nodes t' ! a)\<rparr>"
      "repr (t_nodes t') (Some a) (n_child (t_nodes t' ! a)) (fforce (length (t_nodes t)) rest ks)"
      "if rest = [] then j = a else \<exists>x. fnode (fforce (length (t_nodes t)) rest ks) rest = Some x \<and> oaddr x = j"
      using node_okD[OF rest q(4,1) d(1)] cap by auto
    have flds: "n_suffix (t_nodes t' ! a) = s" "n_parent (t_nodes t' ! a) = par" "n_sibling (t_nodes t' ! a) = n_sibling (t_nodes t ! a)"
      by (subst t'(5), simp add: q)+
    have "repr (t_nodes t') par (Some a) (fforce (length (t_nodes t)) (k # rest) ts)"
      using True repr_ext[OF q(5) t'(4)] d flds t'(4,6) q(1) by (auto simp: ts ext_def)
    moreover have "ext (t_nodes t) (t_nodes t') (set (oaddrs ts))" using t'(4) by (rule ext_mono) (auto simp: ts)
    moreover have "\<exists>x. fnode (fforce (length (t_nodes t)) (k # rest) ts) (k # rest) = Some x \<and> oaddr x = j"
      using t'(7) True by (auto simp: ts split: if_splits)
    moreover have "length (t_nodes t') + plen (ts) (k # rest) = length (t_nodes t) + length (k # rest)" using t'(3) True by (simp add: ts)
    ultimately show ?thesis using level_found[OF q(1), of k a rest] q(2) True t'(1,2) by (auto simp del: plen.simps)
  next
    case False
    obtain t' j x where t': "level t a (n_sibling (t_nodes t ! a)) k rest = Some (t', j)" "t_cap t' = t_cap t"
      "length (t_nodes t') + plen us (k # rest) = length (t_nodes t) + length (k # rest)"
      "ext (t_nodes t) (t_nodes t') (insert a (set (oaddrs us)))"
      "t_nodes t' ! a = (t_nodes t ! a)\<lparr>n_sibling := n_sibling (t_nodes t' ! a)\<rparr>"
      "repr (t_nodes t') par (n_sibling (t_nodes t' ! a)) (fforce (length (t_nodes t)) (k # rest) us)"
      "fnode (fforce (length (t_nodes t)) (k # rest) us) (k # rest) = Some x" "oaddr x = j"
      using level_ok[OF rest q(5,1) d(2) q(3) par cap] by blast
    have flds: "n_suffix (t_nodes t' ! a) = s" "n_parent (t_nodes t' ! a) = par" "n_child (t_nodes t' ! a) = n_child (t_nodes t ! a)"
      by (subst t'(5), simp add: q)+
    have "repr (t_nodes t') par (Some a) (fforce (length (t_nodes t)) (k # rest) ts)"
      using False repr_ext[OF q(4) t'(4)] d flds t'(4,6) q(1) by (auto simp: ts ext_def)
    moreover have "ext (t_nodes t) (t_nodes t') (set (oaddrs ts))" using t'(4) by (rule ext_mono) (auto simp: ts)
    moreover have "fnode (fforce (length (t_nodes t)) (k # rest) ts) (k # rest) = Some x" using False t'(7) by (simp add: ts)
    moreover have "length (t_nodes t') + plen (ts) (k # rest) = length (t_nodes t) + length (k # rest)" using t'(3) False by (simp add: ts)
    ultimately show ?thesis using level_next[OF q(1), of k a rest] q(2) False t'(1,2,8) by (auto simp del: plen.simps)
  qed
qed

lemma node_ok_all: "node_ok oid"
proof (induction oid)
  case Nil
  then show ?case by (auto simp: node_ok_def ext_refl)
next
  case (Cons k ks)
  show ?case unfolding node_ok_def
  proof (intro allI impI)
    fix t :: oid_tree and i kids
    assume r: "repr (t_nodes t) (Some i) (n_child (t_nodes t ! i)) kids" and i: "i < length (t_nodes t)"
      and d: "distinct (i # oaddrs kids)" and cap: "length (t_nodes t) + length (k # ks) \<le> t_cap t"
    show "\<exists>t' j. force_walk t i False (k # ks) = Some (t', j) \<and> t_cap t' = t_cap t \<and> length (t_nodes t') + plen kids (k # ks) = length (t_nodes t) + length (k # ks) \<and>
       ext (t_nodes t) (t_nodes t') (insert i (set (oaddrs kids))) \<and>
       t_nodes t' ! i = (t_nodes t ! i)\<lparr>n_child := n_child (t_nodes t' ! i)\<rparr> \<and>
       repr (t_nodes t') (Some i) (n_child (t_nodes t' ! i)) (fforce (length (t_nodes t)) (k # ks) kids) \<and>
       (if k # ks = [] then j = i else \<exists>x. fnode (fforce (length (t_nodes t)) (k # ks) kids) (k # ks) = Some x \<and> oaddr x = j)"
    proof (cases "kids = []")
      case True
      then have n: "n_child (t_nodes t ! i) = None" using r by simp
      have "force_walk t i False (k # ks) = alloc_chain t i (k # ks)" using i n by (simp add: node_at_def)
      moreover obtain t' j x where t': "alloc_chain t i (k # ks) = Some (t', j)" "t_cap t' = t_cap t"
        "length (t_nodes t') = length (t_nodes t) + length (k # ks)" "ext (t_nodes t) (t_nodes t') {i}"
        "t_nodes t' ! i = (t_nodes t ! i)\<lparr>n_child := Some (length (t_nodes t))\<rparr>"
        "repr (t_nodes t') (Some i) (Some (length (t_nodes t))) (chains (length (t_nodes t)) (k # ks))"
        "fnode (chains (length (t_nodes t)) (k # ks)) (k # ks) = Some x" "oaddr x = j"
        using alloc_chain_repr[OF i n cap] by blast
      moreover have "n_child (t_nodes t' ! i) = Some (length (t_nodes t))" by (simp add: t'(5))
      ultimately show ?thesis using True by (simp add: fforce_Nil del: chains.simps force_walk.simps alloc_chain.simps)
    next
      case False
      then obtain a where a: "n_child (t_nodes t ! i) = Some a" using r by (cases kids rule: oaddrs.cases) auto
      have par: "\<forall>p. Some i = Some p \<longrightarrow> p < length (t_nodes t) \<and> n_child (t_nodes t ! p) \<noteq> None" using i a by simp
      have r': "repr (t_nodes t) (Some i) (Some a) kids" "distinct (oaddrs kids)" using r a d by auto
      obtain t' j x where t': "level t a (Some a) k ks = Some (t', j)" "t_cap t' = t_cap t"
        "length (t_nodes t') + plen kids (k # ks) = length (t_nodes t) + length (k # ks)" "ext (t_nodes t) (t_nodes t') (set (oaddrs kids))"
        "repr (t_nodes t') (Some i) (Some a) (fforce (length (t_nodes t)) (k # ks) kids)"
        "fnode (fforce (length (t_nodes t)) (k # ks) kids) (k # ks) = Some x" "oaddr x = j"
        using level_head[OF Cons.IH r' False par cap] by blast
      have ni: "t_nodes t' ! i = t_nodes t ! i" using t'(4) d i by (auto simp: ext_def)
      have "ext (t_nodes t) (t_nodes t') (insert i (set (oaddrs kids)))" using t'(4) by (rule ext_mono) auto
      then show ?thesis using force_walk_level[OF i a, of k ks] t' ni a by (simp del: force_walk.simps fforce.simps)
    qed
  qed
qed

section \<open>Addresses\<close>

lemma fnode_addr: "fnode ts q = Some x \<Longrightarrow> oaddr x \<in> set (oaddrs ts)"
proof (induction ts q rule: fnode.induct)
  case (3 t ts k ks)
  then show ?case by (cases t) (auto split: if_splits)
qed auto

lemma chains_addrs: "oaddrs (chains n ks) = [n..<n + length ks]"
  by (induction ks arbitrary: n) (auto simp: upt_conv_Cons simp del: upt_Suc)

lemma disjoint_above: "X \<subseteq> K \<union> {n..} \<Longrightarrow> \<forall>t\<in>T. t < n \<Longrightarrow> K \<inter> T = {} \<Longrightarrow> X \<inter> T = {}"
  for n :: nat
  by (meson Un_iff atLeast_iff disjoint_iff not_le subset_iff)

lemma fforce_addrs:
  assumes "\<forall>a\<in>set (oaddrs ts). a < n" "distinct (oaddrs ts)"
  shows "distinct (oaddrs (fforce n oid ts)) \<and> set (oaddrs (fforce n oid ts)) \<subseteq> set (oaddrs ts) \<union> {n..}"
  using assms
proof (induction n oid ts rule: fforce.induct)
  case (2 n k ks)
  then show ?case using chains_addrs[of n "k # ks"] by (simp del: chains.simps) auto
next
  case (3 n k ks a s kids ts)
  have bound: "\<forall>x\<in>set (oaddrs kids). x < n" "\<forall>x\<in>set (oaddrs ts). x < n" "a < n" using 3(3) by auto
  have d: "distinct (oaddrs kids)" "distinct (oaddrs ts)" "set (oaddrs kids) \<inter> set (oaddrs ts) = {}"
    "a \<notin> set (oaddrs kids)" "a \<notin> set (oaddrs ts)" using 3(4) by auto
  show ?case
  proof (cases "s = k")
    case True
    then have F: "distinct (oaddrs (fforce n ks kids))" "set (oaddrs (fforce n ks kids)) \<subseteq> set (oaddrs kids) \<union> {n..}"
      using 3(1)[OF _ bound(1) d(1)] by auto
    have "a \<notin> set (oaddrs (fforce n ks kids))" using F(2) bound(3) d(4) by auto
    moreover have "set (oaddrs (fforce n ks kids)) \<inter> set (oaddrs ts) = {}" by (rule disjoint_above[OF F(2) bound(2) d(3)])
    ultimately show ?thesis using True F d(2,5) by auto
  next
    case False
    then have F: "distinct (oaddrs (fforce n (k # ks) ts))" "set (oaddrs (fforce n (k # ks) ts)) \<subseteq> set (oaddrs ts) \<union> {n..}"
      using 3(2)[OF _ bound(2) d(2)] by auto
    have "a \<notin> set (oaddrs (fforce n (k # ks) ts))" using F(2) bound(3) d(5) by auto
    moreover have "set (oaddrs (fforce n (k # ks) ts)) \<inter> set (oaddrs kids) = {}"
      by (rule disjoint_above[OF F(2) bound(1)]) (use d(3) in blast)
    ultimately show ?thesis using False F d(1,4) by auto
  qed
qed simp

lemma fforce_fnode:
  "case fnode ts q of
     Some x \<Rightarrow> (\<exists>y. fnode (fforce n oid ts) q = Some y \<and> oaddr y = oaddr x)
   | None \<Rightarrow> (\<forall>y. fnode (fforce n oid ts) q = Some y \<longrightarrow> n \<le> oaddr y)"
proof (induction n oid ts arbitrary: q rule: fforce.induct)
  case (2 n k ks)
  then show ?case using fnode_addr[of "chains n (k # ks)" q] chains_addrs[of n "k # ks"]
    by (cases q) (auto simp del: chains.simps)
next
  case (3 n k ks a s kids ts)
  show ?case
  proof (cases q)
    case (Cons j js)
    then show ?thesis using 3(1)[of js] 3(2)[of "j # js"] by (auto split: option.splits)
  qed simp
qed (auto split: option.splits)

lemma fnode_inj:
  assumes "distinct (oaddrs ts)" "fnode ts p = Some x" "fnode ts q = Some y" "oaddr x = oaddr y"
  shows "p = q"
  using assms
proof (induction ts p arbitrary: q rule: fnode.induct)
  case (3 t ts k ks)
  obtain a s kids where t: "t = ONode a s kids" by (cases t)
  obtain j js where q: "q = j # js" using 3(5) by (cases q) auto
  have d: "distinct (oaddrs kids)" "distinct (oaddrs ts)" "set (oaddrs kids) \<inter> set (oaddrs ts) = {}"
    "a \<notin> set (oaddrs kids)" "a \<notin> set (oaddrs ts)" using 3(3) by (auto simp: t)
  note in_kids = fnode_addr[of kids] note in_ts = fnode_addr[of ts]
  consider "s = k" "s = j" | "s = k" "s \<noteq> j" | "s \<noteq> k" "s = j" | "s \<noteq> k" "s \<noteq> j" by blast
  then show ?case
  proof cases
    case 1
    then show ?thesis using 3(1)[of js] 3(4,5,6) d(1,4) in_kids[of ks x] in_kids[of js y] by (auto simp: t q split: if_splits)
  next
    case 2
    then show ?thesis using 3(4,5,6) d in_kids[of ks x] in_ts[of "j # js" y] by (auto simp: t q split: if_splits)
  next
    case 3: 3
    then show ?thesis using \<open>fnode (t # ts) (k # ks) = Some x\<close> \<open>fnode (t # ts) q = Some y\<close> \<open>oaddr x = oaddr y\<close> d
        in_kids[of js y] in_ts[of "k # ks" x] by (auto simp: t q split: if_splits)
  next
    case 4
    then show ?thesis using 3(2)[of q] 3(4,5,6) d(2) by (simp add: t q)
  qed
qed auto

lemma fnode_Nil [simp]: "fnode [] q = None"
  by (cases q) simp_all

lemma fforce_exists:
  "fnode (fforce n oid ts) q \<noteq> None \<longleftrightarrow> fnode ts q \<noteq> None \<or> (q \<noteq> [] \<and> (\<exists>r. oid = q @ r))"
proof (induction n oid ts arbitrary: q rule: fforce.induct)
  case (2 n k ks)
  have "fnode (chains n oid) q \<noteq> None \<longleftrightarrow> q \<noteq> [] \<and> (\<exists>r. oid = q @ r)" for n oid
  proof (induction oid arbitrary: n q)
    case (Cons j js)
    show ?case
    proof (cases q)
      case (Cons x xs)
      then show ?thesis using Cons.IH[of "Suc n" xs] by (cases "xs = []") auto
    qed simp
  qed (cases q; simp)
  then show ?case by (simp del: chains.simps)
next
  case (3 n k ks a s kids ts)
  show ?case
  proof (cases q)
    case (Cons j js)
    then show ?thesis using 3(1)[of js] 3(2)[of "j # js"] by (cases "s = k") auto
  qed simp
qed (cases q; simp)

section \<open>The tree as a map\<close>

definition tree_repr :: "oid_tree \<Rightarrow> otree list \<Rightarrow> bool" where
  "tree_repr t ts \<longleftrightarrow> repr (t_nodes t) None (if t_nodes t = [] then None else Some 0) ts \<and> distinct (oaddrs ts)"

definition tree_ok :: "oid_tree \<Rightarrow> bool" where
  "tree_ok t \<longleftrightarrow> (\<exists>ts. tree_repr t ts)"

lemma tree_repr_Nil: "tree_repr t ts \<Longrightarrow> ts = [] \<longleftrightarrow> t_nodes t = []"
  by (cases ts rule: oaddrs.cases) (auto simp: tree_repr_def split: if_splits)

lemma tree_ok_new: "tree_repr oid_tree_new []"
  by (simp add: tree_repr_def oid_tree_new_def)

lemma find_node_repr:
  assumes "tree_repr t ts"
  shows "find_node t q = Some (map_option oaddr (fnode ts q))"
proof (cases "t_nodes t = [] \<or> q = []")
  case True
  then show ?thesis using tree_repr_Nil[OF assms] by (cases q) (auto simp: find_node_def)
next
  case False
  then show ?thesis using assms find_loop_top[of "t_nodes t" None 0 ts q] tree_repr_Nil[OF assms]
    by (simp add: find_node_def tree_repr_def)
qed

definition data_at :: "oid_node list \<Rightarrow> otree option \<Rightarrow> int" where
  "data_at ns x = (case x of None \<Rightarrow> -1 | Some y \<Rightarrow> n_data (ns ! oaddr y))"

lemma oid_find_repr:
  assumes "tree_repr t ts"
  shows "oid_find t q = Some (data_at (t_nodes t) (fnode ts q))"
proof (cases "fnode ts q")
  case (Some x)
  then have "oaddr x < length (t_nodes t)" using assms fnode_addr repr_addrs by (auto simp: tree_repr_def)
  then show ?thesis using Some find_node_repr[OF assms, of q] by (simp add: oid_find_def node_at_def data_at_def)
qed (use find_node_repr[OF assms, of q] in \<open>simp add: oid_find_def data_at_def\<close>)

lemma data_at_ext:
  assumes e: "ext ns ns' A" and ts: "\<forall>a\<in>set (oaddrs ts). a < length ns" and ts': "\<forall>a\<in>set (oaddrs (fforce (length ns) oid ts)). a < length ns'"
  shows "data_at ns' (fnode (fforce (length ns) oid ts) q) = data_at ns (fnode ts q)"
proof (cases "fnode ts q")
  case None
  have "n_data (ns' ! oaddr y) = -1" if "fnode (fforce (length ns) oid ts) q = Some y" for y
  proof -
    have "length ns \<le> oaddr y" using fforce_fnode[where ts = ts and q = q and n = "length ns" and oid = oid] None that by simp
    moreover have "oaddr y < length ns'" using ts' fnode_addr[OF that] by blast
    ultimately show ?thesis using e by (simp add: ext_def)
  qed
  with None show ?thesis by (auto simp: data_at_def split: option.splits)
next
  case (Some x)
  then obtain y where y: "fnode (fforce (length ns) oid ts) q = Some y" "oaddr y = oaddr x"
    using fforce_fnode[where ts = ts and q = q and n = "length ns" and oid = oid] by auto
  have "oaddr x < length ns" using ts fnode_addr[OF Some] by blast
  then show ?thesis using e y Some by (simp add: data_at_def ext_def)
qed

text \<open>\<open>force_node\<close> on a tree with a root.\<close>

lemma force_walk_top:
  assumes r: "tree_repr t ts" "t_nodes t \<noteq> []" and oid: "oid \<noteq> []" and cap: "length (t_nodes t) + length oid \<le> t_cap t"
  shows "\<exists>t' j ts' x. force_walk t 0 True oid = Some (t', j) \<and> t_cap t' = t_cap t \<and> length (t_nodes t') + plen ts oid = length (t_nodes t) + length oid \<and>
    tree_repr t' ts' \<and> fnode ts' oid = Some x \<and> oaddr x = j \<and> (\<forall>q. oid_find t' q = oid_find t q) \<and>
    (\<forall>q. fnode ts' q \<noteq> None \<longleftrightarrow> fnode ts q \<noteq> None \<or> (q \<noteq> [] \<and> (\<exists>r. oid = q @ r)))"
proof -
  obtain k ks where kk: "oid = k # ks" using oid by (cases oid) auto
  have ts: "repr (t_nodes t) None (Some 0) ts" "distinct (oaddrs ts)" "ts \<noteq> []" using r tree_repr_Nil[OF r(1)] by (auto simp: tree_repr_def)
  obtain t' j x where t': "level t 0 (Some 0) k ks = Some (t', j)" "t_cap t' = t_cap t" "length (t_nodes t') + plen ts oid = length (t_nodes t) + length oid"
    "ext (t_nodes t) (t_nodes t') (set (oaddrs ts))" "repr (t_nodes t') None (Some 0) (fforce (length (t_nodes t)) oid ts)"
    "fnode (fforce (length (t_nodes t)) oid ts) oid = Some x" "oaddr x = j"
    using level_head[OF node_ok_all ts _ cap[unfolded kk]] unfolding kk by blast
  have "node_at (t_nodes t) 0 = Some (t_nodes t ! 0)" using r(2) by (simp add: node_at_def)
  then have fw: "force_walk t 0 True oid = Some (t', j)" using t'(1) by (simp add: kk level_def)
  have old: "\<forall>a\<in>set (oaddrs ts). a < length (t_nodes t)" using repr_addrs[OF ts(1)] by blast
  have new: "\<forall>a\<in>set (oaddrs (fforce (length (t_nodes t)) oid ts)). a < length (t_nodes t')" using repr_addrs[OF t'(5)] by blast
  have "t_nodes t' \<noteq> []" using t'(4) r(2) by (auto simp: ext_def)
  then have tr: "tree_repr t' (fforce (length (t_nodes t)) oid ts)"
    using t'(5) fforce_addrs[OF old ts(2)] by (simp add: tree_repr_def)
  have "oid_find t' q = oid_find t q" for q
    using oid_find_repr[OF tr, of q] oid_find_repr[OF r(1), of q] data_at_ext[OF t'(4) old new, where q = q] by simp
  with fw t' tr fforce_exists[of "length (t_nodes t)" oid ts] show ?thesis by blast
qed

lemma force_node_ok:
  assumes r: "tree_repr t ts" and oid: "oid \<noteq> []" and cap: "length (t_nodes t) + length oid < t_cap t"
  shows "\<exists>t' j ts' x. force_node t oid = Some (t', Some j) \<and> t_cap t' = t_cap t \<and> length (t_nodes t') + plen ts oid = length (t_nodes t) + length oid \<and>
    tree_repr t' ts' \<and> fnode ts' oid = Some x \<and> oaddr x = j \<and> (\<forall>q. oid_find t' q = oid_find t q) \<and>
    (\<forall>q. fnode ts' q \<noteq> None \<longleftrightarrow> fnode ts q \<noteq> None \<or> (q \<noteq> [] \<and> (\<exists>r. oid = q @ r)))"
proof (cases "t_nodes t = []")
  case False
  have "force_node t oid = (case force_walk t 0 True oid of None \<Rightarrow> None | Some (t1, i) \<Rightarrow> Some (t1, Some i))"
    using False oid by (simp add: force_node_def split: option.splits bind_splits)
  moreover obtain t' j ts' x where "force_walk t 0 True oid = Some (t', j)" "t_cap t' = t_cap t"
    "length (t_nodes t') + plen ts oid = length (t_nodes t) + length oid" "tree_repr t' ts'" "fnode ts' oid = Some x" "oaddr x = j"
    "\<forall>q. oid_find t' q = oid_find t q"
    "\<forall>q. fnode ts' q \<noteq> None \<longleftrightarrow> fnode ts q \<noteq> None \<or> (q \<noteq> [] \<and> (\<exists>r. oid = q @ r))"
    using force_walk_top[OF r False oid less_imp_le[OF cap]] by blast
  ultimately show ?thesis by (intro exI[of _ t'] exI[of _ j] exI[of _ ts'] exI[of _ x]) simp
next
  case True
  define t0 where "t0 = t\<lparr>t_nodes := [new_node (hd oid) None]\<rparr>"
  have a: "alloc_node (hd oid) None None t = Some (t0, 0)" using True cap by (simp add: alloc_node_def t0_def new_node_def)
  have r0: "tree_repr t0 [ONode 0 (hd oid) []]" by (simp add: tree_repr_def t0_def new_node_def)
  have "oid_find t0 q = oid_find t q" for q
  proof -
    have "data_at (t_nodes t0) (fnode [ONode 0 (hd oid) []] q) = -1"
      by (cases q) (auto simp: data_at_def t0_def new_node_def split: option.splits)
    moreover have "ts = []" using tree_repr_Nil[OF r] True by simp
    then have "data_at (t_nodes t) (fnode ts q) = -1" by (cases q) (simp_all add: data_at_def)
    ultimately show ?thesis using oid_find_repr[OF r0, of q] oid_find_repr[OF r, of q] by simp
  qed
  moreover have "force_node t oid = (case force_walk t0 0 True oid of None \<Rightarrow> None | Some (t1, i) \<Rightarrow> Some (t1, Some i))"
    using True a oid by (simp add: force_node_def split: option.splits bind_splits)
  moreover obtain t' j ts' x where w: "force_walk t0 0 True oid = Some (t', j)" "t_cap t' = t_cap t0"
    "length (t_nodes t') + plen [ONode 0 (hd oid) []] oid = length (t_nodes t0) + length oid" "tree_repr t' ts'" "fnode ts' oid = Some x" "oaddr x = j"
    "\<forall>q. oid_find t' q = oid_find t0 q"
    and ex: "\<forall>q. fnode ts' q \<noteq> None \<longleftrightarrow> fnode [ONode 0 (hd oid) []] q \<noteq> None \<or> (q \<noteq> [] \<and> (\<exists>r. oid = q @ r))"
    using force_walk_top[OF r0 _ oid] cap True by (auto simp: t0_def)
  moreover have "fnode ts' q \<noteq> None \<longleftrightarrow> fnode ts q \<noteq> None \<or> (q \<noteq> [] \<and> (\<exists>r. oid = q @ r))" for q
  proof -
    have "fnode [ONode 0 (hd oid) []] q \<noteq> None \<Longrightarrow> q \<noteq> [] \<and> (\<exists>r. oid = q @ r)"
      using oid by (cases q; cases oid) (auto split: if_splits)
    then show ?thesis using ex tree_repr_Nil[OF r] True by auto
  qed
  moreover have "plen [ONode 0 (hd oid) []] oid = 1" "plen ts oid = 0" using oid tree_repr_Nil[OF r] True by (cases oid; simp)+
  ultimately show ?thesis using True by (intro exI[of _ t'] exI[of _ j] exI[of _ ts'] exI[of _ x]) (simp add: t0_def)
qed

lemma repr_data: "repr (ns[i := (ns ! i)\<lparr>n_data := d\<rparr>]) par ptr ts \<longleftrightarrow> repr ns par ptr ts"
proof (induction ts arbitrary: par ptr rule: oaddrs.induct)
  case (2 a s ks ts)
  then show ?case by (cases "i < length ns") (auto simp: nth_list_update)
qed simp

lemma extract_repr:
  assumes "repr ns par ptr ts" "extract_oid ns par = Some pre" "fnode ts q = Some x"
  shows "extract_oid ns (Some (oaddr x)) = Some (pre @ q)"
  using assms
proof (induction ts q arbitrary: par ptr pre rule: fnode.induct)
  case (3 t ts k ks)
  obtain a s kids where t: "t = ONode a s kids" by (cases t)
  have a: "a < length ns" "n_suffix (ns ! a) = s" "n_parent (ns ! a) = par" "repr ns (Some a) (n_child (ns ! a)) kids"
    "repr ns par (n_sibling (ns ! a)) ts" using 3(3) by (auto simp: t)
  have ea: "extract_oid ns (Some a) = Some (pre @ [s])"
    using 3(4) a by (simp add: extract_oid.simps[of ns "Some a"] node_at_def)
  show ?case
  proof (cases "s = k")
    case True
    show ?thesis
    proof (cases "ks = []")
      case True
      then show ?thesis using 3(5) ea \<open>s = k\<close> by (auto simp: t)
    next
      case False
      then show ?thesis using 3(1)[OF _ False, of "Some a" "n_child (ns ! a)" "pre @ [s]"] 3(5) a(4) ea True by (simp add: t)
    qed
  next
    case False
    then show ?thesis using 3(2)[OF _ a(5) 3(4)] 3(5) by (simp add: t)
  qed
qed auto

lemma oid_insert_ok:
  assumes r: "tree_repr t ts" and oid: "oid \<noteq> []" and cap: "length (t_nodes t) + length oid < t_cap t"
  shows "\<exists>t' i ts'. oid_insert t oid d = Some (t', Some i) \<and> t_cap t' = t_cap t \<and> length (t_nodes t') + plen ts oid = length (t_nodes t) + length oid \<and>
    tree_repr t' ts' \<and> (\<forall>q. fnode ts' q \<noteq> None \<longleftrightarrow> fnode ts q \<noteq> None \<or> (q \<noteq> [] \<and> (\<exists>r. oid = q @ r))) \<and>
    find_node t' oid = Some (Some i) \<and> extract_oid (t_nodes t') (Some i) = Some oid \<and> (\<forall>q. oid_find t' q = (if q = oid then Some d else oid_find t q))"
proof -
  obtain t1 i ts' x where t1: "force_node t oid = Some (t1, Some i)" "t_cap t1 = t_cap t" "length (t_nodes t1) + plen ts oid = length (t_nodes t) + length oid"
    "tree_repr t1 ts'" "fnode ts' oid = Some x" "oaddr x = i" "\<forall>q. oid_find t1 q = oid_find t q"
    and ex: "(\<forall>q. fnode ts' q \<noteq> None \<longleftrightarrow> fnode ts q \<noteq> None \<or> (q \<noteq> [] \<and> (\<exists>r. oid = q @ r)))" using force_node_ok[OF assms] by blast
  define t' where "t' = t1\<lparr>t_nodes := (t_nodes t1)[i := (t_nodes t1 ! i)\<lparr>n_data := d\<rparr>]\<rparr>"
  have rr: "repr (t_nodes t1) None (if t_nodes t1 = [] then None else Some 0) ts'" using t1(4) by (simp add: tree_repr_def)
  have tr: "tree_repr t' ts'" using t1(4) by (simp add: tree_repr_def t'_def repr_data)
  have repr': "repr (t_nodes t') None (if t_nodes t' = [] then None else Some 0) ts'" using tr by (simp add: tree_repr_def)
  have i: "i < length (t_nodes t1)" using repr_addrs[OF rr] fnode_addr[OF t1(5)] t1(6) by blast
  have "oid_find t' q = (if q = oid then Some d else oid_find t q)" for q
  proof (cases "fnode ts' q")
    case None
    then have "q \<noteq> oid" using t1(5) by auto
    then show ?thesis using None oid_find_repr[OF tr, of q] oid_find_repr[OF t1(4), of q] t1(7) by (auto simp: data_at_def)
  next
    case (Some y)
    have "oaddr y = i \<longleftrightarrow> q = oid" using fnode_inj[of ts' q y oid x] Some t1(4,5,6) by (auto simp: tree_repr_def)
    then show ?thesis using Some i oid_find_repr[OF tr, of q] oid_find_repr[OF t1(4), of q] t1(7)
      by (auto simp: data_at_def t'_def nth_list_update)
  qed
  moreover have "extract_oid (t_nodes t') (Some i) = Some oid"
    using extract_repr[OF repr' _ t1(5), of "[]"] t1(6) by (simp add: extract_oid.simps[of _ None])
  moreover have "oid_insert t oid d = Some (t', Some i)" using t1(1) by (simp add: oid_insert_def t'_def)
  moreover have "find_node t' oid = Some (Some i)" using find_node_repr[OF tr, of oid] t1(5,6) by simp
  ultimately show ?thesis using tr t1(2,3) ex by (intro exI[of _ t'] exI[of _ i] exI[of _ ts']) (simp add: t'_def)
qed
section \<open>Longest prefix\<close>

lemma plen_exists: "m \<le> length q \<Longrightarrow> fnode ts (take m q) \<noteq> None \<longleftrightarrow> 0 < m \<and> m \<le> plen ts q"
proof (induction q arbitrary: ts m)
  case (Cons k ks)
  show ?case
  proof (cases m)
    case (Suc j)
    then show ?thesis using Cons.IH[of j] Cons.prems fnode_split[of "take j ks" ts k]
      by (cases "take j ks = []") (auto split: option.splits)
  qed simp
qed simp

lemma prefix_loop_kids:
  assumes "repr ns (Some i) (n_child (ns ! i)) ts" "i < length ns" "0 < pos"
  shows "prefix_loop ns i (Some i) pos q =
    Some (if plen ts q = 0 then n_data (ns ! i) else data_at ns (fnode ts (take (plen ts q) q)), pos + plen ts q)"
  using assms
proof (induction q arbitrary: i ts pos)
  case (Cons k ks)
  note sc = scan_repr[OF Cons.prems(1), of k]
  show ?case
  proof (cases "fnode ts [k]")
    case (Some t)
    note rk = repr_kids[OF Cons.prems(1) Some]
    show ?thesis using Some Cons.prems(2,3) sc rk Cons.IH[of "oaddr t" "okids t" "pos + 1"] fnode_split[of "take (plen (okids t) ks) ks" ts k]
      by (cases "take (plen (okids t) ks) ks = []") (auto simp: node_at_def data_at_def)
  qed (use Cons.prems sc in \<open>simp add: node_at_def\<close>)
qed (simp add: node_at_def)

lemma find_prefix_repr:
  assumes "tree_repr t ts"
  shows "find_prefix t q = Some (data_at (t_nodes t) (fnode ts (take (plen ts q) q)), plen ts q)"
proof (cases "t_nodes t = [] \<or> q = []")
  case True
  then show ?thesis using tree_repr_Nil[OF assms] by (cases q) (auto simp: find_prefix_def data_at_def)
next
  case False
  then obtain k ks where q: "q = k # ks" by (cases q) auto
  have r: "repr (t_nodes t) None (Some 0) ts" using False assms by (simp add: tree_repr_def)
  note sc = scan_repr[OF r, of k]
  show ?thesis
  proof (cases "fnode ts [k]")
    case None
    then show ?thesis using False sc by (simp add: find_prefix_def q node_at_def data_at_def)
  next
    case (Some x)
    note rk = repr_kids[OF r Some]
    show ?thesis using Some False sc rk prefix_loop_kids[of "t_nodes t" "oaddr x" "okids x" 1 ks] fnode_split[of "take (plen (okids x) ks) ks" ts k]
      by (cases "take (plen (okids x) ks) ks = []") (auto simp: find_prefix_def q node_at_def data_at_def)
  qed
qed

section \<open>The contract of a bounded store\<close>

text \<open>
  A store that can take new keys as long as it has room: after an insertion the new key has its
  value, every other key keeps its own, and a key is known once it or a key above it is inserted.
\<close>

locale bounded_store =
  fixes ok :: "'s \<Rightarrow> bool" and room :: "'s \<Rightarrow> nat" and cost :: "'k \<Rightarrow> nat" and below :: "'k \<Rightarrow> 'k \<Rightarrow> bool"
    and ins :: "'s \<Rightarrow> 'k \<Rightarrow> 'v \<Rightarrow> 's option" and look :: "'s \<Rightarrow> 'k \<Rightarrow> 'v" and knows :: "'s \<Rightarrow> 'k \<Rightarrow> bool"
  assumes ins_ok: "ok s \<Longrightarrow> 0 < cost k \<Longrightarrow> cost k \<le> room s \<Longrightarrow>
    \<exists>s'. ins s k d = Some s' \<and> ok s' \<and> room s \<le> room s' + cost k \<and>
      (\<forall>q. look s' q = (if q = k then d else look s q)) \<and> (\<forall>q. knows s' q \<longleftrightarrow> knows s q \<or> below q k)"
begin

fun load :: "'s \<Rightarrow> ('k \<times> 'v) list \<Rightarrow> 's option" where
  "load s [] = Some s"
| "load s ((k, d) # kvs) = Option.bind (ins s k d) (\<lambda>s. load s kvs)"

lemma load_ok:
  assumes "ok s" "\<forall>(k, d)\<in>set kvs. 0 < cost k" "(\<Sum>(k, d)\<leftarrow>kvs. cost k) \<le> room s"
  shows "\<exists>s'. load s kvs = Some s' \<and> ok s' \<and> room s \<le> room s' + (\<Sum>(k, d)\<leftarrow>kvs. cost k) \<and>
    (\<forall>q. look s' q = (case map_of (rev kvs) q of None \<Rightarrow> look s q | Some d \<Rightarrow> d)) \<and>
    (\<forall>q. knows s' q \<longleftrightarrow> knows s q \<or> (\<exists>k\<in>fst ` set kvs. below q k))"
  using assms
proof (induction kvs arbitrary: s)
  case (Cons kd kvs)
  obtain k d where kd: "kd = (k, d)" by (cases kd)
  have c: "0 < cost k" "cost k \<le> room s" "(\<Sum>(k, d)\<leftarrow>kvs. cost k) + cost k \<le> room s" using Cons.prems by (auto simp: kd)
  obtain s1 where s1: "ins s k d = Some s1" "ok s1" "room s \<le> room s1 + cost k"
    "\<forall>q. look s1 q = (if q = k then d else look s q)" "\<forall>q. knows s1 q \<longleftrightarrow> knows s q \<or> below q k"
    using ins_ok[OF Cons.prems(1) c(1,2)] by blast
  have pre: "\<forall>(k, d)\<in>set kvs. 0 < cost k" "(\<Sum>(k, d)\<leftarrow>kvs. cost k) \<le> room s1" using Cons.prems(2) c(3) s1(3) by auto
  obtain s' where s': "load s1 kvs = Some s'" "ok s'" "\<forall>q. look s' q = (case map_of (rev kvs) q of None \<Rightarrow> look s1 q | Some d \<Rightarrow> d)"
    "\<forall>q. knows s' q \<longleftrightarrow> knows s1 q \<or> (\<exists>k\<in>fst ` set kvs. below q k)"
    "room s1 \<le> room s' + (\<Sum>(k, d)\<leftarrow>kvs. cost k)"
    using Cons.IH[OF s1(2) pre] by blast
  have "room s \<le> room s' + (\<Sum>(k, d)\<leftarrow>kd # kvs. cost k)" using s1(3) s'(5) by (simp add: kd)
  moreover have "look s' q = (case map_of (rev (kd # kvs)) q of None \<Rightarrow> look s q | Some d \<Rightarrow> d)" for q
    using s'(3) s1(4) by (auto simp: kd map_add_def split: option.splits)
  moreover have "knows s' q \<longleftrightarrow> knows s q \<or> (\<exists>k\<in>fst ` set (kd # kvs). below q k)" for q
    using s'(4) s1(5) by (auto simp: kd)
  ultimately show ?case using s1(1) s'(1,2) by (simp add: kd)
qed simp

end

definition tree_insert :: "oid_tree \<Rightarrow> u32 list \<Rightarrow> int \<Rightarrow> oid_tree option" where
  "tree_insert t oid d = map_option fst (oid_insert t oid d)"

fun insert_all :: "oid_tree \<Rightarrow> (u32 list \<times> int) list \<Rightarrow> oid_tree option" where
  "insert_all t [] = Some t"
| "insert_all t ((oid, d) # kvs) = do { (t1, i) \<leftarrow> oid_insert t oid d; insert_all t1 kvs }"

definition oid_cost :: "u32 list \<Rightarrow> nat" where
  "oid_cost oid = (if oid = [] then 0 else length oid + 1)"

definition oid_below :: "u32 list \<Rightarrow> u32 list \<Rightarrow> bool" where
  "oid_below q oid \<longleftrightarrow> q \<noteq> [] \<and> take (length q) oid = q"

lemma oid_below_iff: "oid_below q oid \<longleftrightarrow> q \<noteq> [] \<and> (\<exists>r. oid = q @ r)"
  unfolding oid_below_def by (metis append_eq_conv_conj append_take_drop_id)

interpretation ot: bounded_store tree_ok "\<lambda>t. t_cap t - length (t_nodes t)" oid_cost oid_below tree_insert
  "\<lambda>t q. the (oid_find t q)" "\<lambda>t q. find_node t q \<noteq> Some None"
proof unfold_locales
  fix t :: oid_tree and oid d
  assume a: "tree_ok t" "0 < oid_cost oid" "oid_cost oid \<le> t_cap t - length (t_nodes t)"
  then obtain ts where r: "tree_repr t ts" by (auto simp: tree_ok_def)
  have oid: "oid \<noteq> []" "length (t_nodes t) + length oid < t_cap t" "oid_cost oid = length oid + 1" using a(2,3) by (auto simp: oid_cost_def split: if_splits)
  obtain t' i ts' where t': "oid_insert t oid d = Some (t', Some i)" "t_cap t' = t_cap t" "length (t_nodes t') + plen ts oid = length (t_nodes t) + length oid"
    "tree_repr t' ts'" "\<forall>q. oid_find t' q = (if q = oid then Some d else oid_find t q)"
    "\<forall>q. fnode ts' q \<noteq> None \<longleftrightarrow> fnode ts q \<noteq> None \<or> (q \<noteq> [] \<and> (\<exists>r. oid = q @ r))"
    using oid_insert_ok[OF r oid(1,2)] by blast
  have "find_node t' q \<noteq> Some None \<longleftrightarrow> find_node t q \<noteq> Some None \<or> oid_below q oid" for q
    using find_node_repr[OF r, of q] find_node_repr[OF t'(4), of q] t'(6) by (simp add: oid_below_iff)
  then show "\<exists>s'. tree_insert t oid d = Some s' \<and> tree_ok s' \<and> t_cap t - length (t_nodes t) \<le> t_cap s' - length (t_nodes s') + oid_cost oid \<and>
      (\<forall>q. the (oid_find s' q) = (if q = oid then d else the (oid_find t q))) \<and>
      (\<forall>q. (find_node s' q \<noteq> Some None) = (find_node t q \<noteq> Some None \<or> oid_below q oid))"
    using t' oid(3) by (intro exI[of _ t']) (auto simp: tree_insert_def tree_ok_def)
qed

lemma insert_all_load: "insert_all t kvs = ot.load t kvs"
  by (induction kvs arbitrary: t) (auto simp: tree_insert_def split: option.splits bind_splits)

lemma insert_all_ok:
  assumes "\<forall>(oid, d)\<in>set kvs. oid \<noteq> []" "(\<Sum>(oid, d)\<leftarrow>kvs. length oid + 1) \<le> 256"
  shows "\<exists>t. insert_all oid_tree_new kvs = Some t \<and> tree_ok t \<and> 256 \<le> t_cap t - length (t_nodes t) + (\<Sum>(oid, d)\<leftarrow>kvs. length oid + 1) \<and>
    (\<forall>q. oid_find t q = Some (case map_of (rev kvs) q of None \<Rightarrow> -1 | Some d \<Rightarrow> d)) \<and>
    (\<forall>q. find_node t q \<noteq> Some None \<longleftrightarrow> (\<exists>oid\<in>fst ` set kvs. oid_below q oid))"
proof -
  have new: "tree_ok oid_tree_new" using tree_ok_new by (auto simp: tree_ok_def)
  have c: "\<forall>(k, d)\<in>set kvs. 0 < oid_cost k" using assms(1) by (auto simp: oid_cost_def)
  have e: "(\<Sum>(k, d)\<leftarrow>kvs. oid_cost k) = (\<Sum>(oid, d)\<leftarrow>kvs. length oid + 1)"
    using assms(1) by (intro arg_cong[where f = sum_list] map_cong) (auto simp: oid_cost_def)
  have r: "t_cap oid_tree_new - length (t_nodes oid_tree_new) = 256" by (simp add: oid_tree_new_def)
  have s: "(\<Sum>(k, d)\<leftarrow>kvs. oid_cost k) \<le> t_cap oid_tree_new - length (t_nodes oid_tree_new)"
    unfolding e r by (rule assms(2))
  obtain t where t: "insert_all oid_tree_new kvs = Some t" "tree_ok t"
    "256 \<le> t_cap t - length (t_nodes t) + (\<Sum>(oid, d)\<leftarrow>kvs. length oid + 1)"
    "\<forall>q. the (oid_find t q) = (case map_of (rev kvs) q of None \<Rightarrow> the (oid_find oid_tree_new q) | Some d \<Rightarrow> d)"
    "\<forall>q. (find_node t q \<noteq> Some None) = (find_node oid_tree_new q \<noteq> Some None \<or> (\<exists>k\<in>fst ` set kvs. oid_below q k))"
    using ot.load_ok[OF new c s] unfolding insert_all_load e r by blast
  have n: "oid_find oid_tree_new q = Some (-1)" "find_node oid_tree_new q = Some None" for q
    by (simp_all add: oid_find_def find_node_def oid_tree_new_def)
  have "oid_find t q = Some (case map_of (rev kvs) q of None \<Rightarrow> -1 | Some d \<Rightarrow> d)" for q
  proof -
    obtain d where "oid_find t q = Some d" using t(2) oid_find_repr by (auto simp: tree_ok_def)
    then show ?thesis using t(4)[rule_format, of q] n(1)[of q] by (simp split: option.splits)
  qed
  moreover have "find_node t q \<noteq> Some None \<longleftrightarrow> (\<exists>oid\<in>fst ` set kvs. oid_below q oid)" for q using t(5) n(2) by simp
  ultimately show ?thesis using t(1-3) by blast
qed

section \<open>Counting nodes\<close>

text \<open>The capacity only matters when it is reached: with another one a run is the same as far as its nodes fit.\<close>

definition same_run :: "nat \<Rightarrow> nat \<Rightarrow> oid_tree \<Rightarrow> 'x \<Rightarrow> (oid_tree \<times> 'x) option \<Rightarrow> bool" where
  "same_run c n t' x r \<longleftrightarrow> n \<le> length (t_nodes t') \<and> (n \<le> c \<longrightarrow> r = (if length (t_nodes t') \<le> c then Some (t'\<lparr>t_cap := c\<rparr>, x) else None))"

lemma alloc_node_cap:
  assumes "alloc_node k par sib t = Some (t', n)"
  shows "length (t_nodes t') = Suc (length (t_nodes t))" "same_run c (length (t_nodes t)) t' n (alloc_node k par sib (t\<lparr>t_cap := c\<rparr>))"
  using assms by (auto simp: alloc_node_def Let_def same_run_def split: option.splits if_splits)

lemma same_run_bind:
  assumes "same_run c n t1 x (r :: (oid_tree \<times> 'x) option)" "\<And>c. same_run c (length (t_nodes t1)) t' y (f (t1\<lparr>t_cap := c\<rparr>) x)"
  shows "same_run c n t' y (Option.bind r (\<lambda>(t, x). f t x))"
  using assms(1) assms(2)[of c] by (auto simp: same_run_def)

lemma alloc_chain_cap: "alloc_chain t i ks = Some (t', j) \<Longrightarrow> same_run c (length (t_nodes t)) t' j (alloc_chain (t\<lparr>t_cap := c\<rparr>) i ks)"
proof (induction ks arbitrary: t i c)
  case (Cons k ks)
  then obtain t1 n where a: "alloc_node k (Some i) None t = Some (t1, n)" "alloc_chain t1 n ks = Some (t', j)"
    by (auto split: bind_splits)
  show ?case unfolding alloc_chain.simps by (rule same_run_bind[OF alloc_node_cap(2)[OF a(1)]]) (rule Cons.IH[OF a(2)])
qed (simp add: same_run_def)

lemma force_walk_cap: "force_walk t i first oid = Some (t', j) \<Longrightarrow> same_run c (length (t_nodes t)) t' j (force_walk (t\<lparr>t_cap := c\<rparr>) i first oid)"
proof (induction oid arbitrary: t i first c)
  case (Cons k ks)
  obtain n where n: "node_at (t_nodes t) i = Some n" using Cons.prems by (auto split: bind_splits)
  show ?case
  proof (cases "if first then Some i else n_child n")
    case None
    then show ?thesis using Cons.prems alloc_chain_cap[of t i "k # ks" t' j c] n by (simp del: alloc_chain.simps)
  next
    case (Some start)
    obtain prev found where sp: "scan_prev (t_nodes t) start (Some start) k = Some (prev, found)" using Cons.prems n Some by (auto split: bind_splits)
    show ?thesis
    proof (cases found)
      case (Some m)
      then show ?thesis using Cons.prems Cons.IH[of t m False c] n \<open>(if first then Some i else n_child n) = Some start\<close> sp by simp
    next
      case None
      obtain p t1 m where a: "node_at (t_nodes t) prev = Some p" "alloc_node k (n_parent p) (Some prev) t = Some (t1, m)" "force_walk t1 m False ks = Some (t', j)"
        using Cons.prems n Some sp None by (auto split: bind_splits)
      have "same_run c (length (t_nodes t)) t' j (Option.bind (alloc_node k (n_parent p) (Some prev) (t\<lparr>t_cap := c\<rparr>)) (\<lambda>(t1, i). force_walk t1 i False ks))"
        by (rule same_run_bind[OF alloc_node_cap(2)[OF a(2)]]) (rule Cons.IH[OF a(3)])
      then show ?thesis using n Some sp None a(1) by simp
    qed
  qed
qed (simp add: same_run_def)

lemma oid_insert_cap:
  assumes "oid_insert t oid d = Some (t', j)"
  shows "same_run c (length (t_nodes t)) t' j (oid_insert (t\<lparr>t_cap := c\<rparr>) oid d)"
proof (cases "oid = []")
  case True
  then show ?thesis using assms by (auto simp: oid_insert_def force_node_def same_run_def)
next
  case False
  define start where "start t = (if t_nodes t = [] then map_option (\<lambda>x. (fst x, ())) (alloc_node (hd oid) None None t) else Some (t, ()))" for t :: oid_tree
  define fin where "fin t x = Some (t\<lparr>t_nodes := (t_nodes t)[x := (t_nodes t ! x)\<lparr>n_data := d\<rparr>]\<rparr>, Some x)" for t :: oid_tree and x
  have e: "oid_insert t oid d = Option.bind (start t) (\<lambda>(t, _). Option.bind (force_walk t 0 True oid) (\<lambda>(t, x). fin t x))" for t
    using False by (auto simp: oid_insert_def force_node_def start_def fin_def split: bind_splits option.splits prod.splits)
  obtain t0 t1 i where w: "start t = Some (t0, ())" "force_walk t0 0 True oid = Some (t1, i)" "fin t1 i = Some (t', j)"
    using assms unfolding e by (auto split: bind_splits)
  have s: "same_run c (length (t_nodes t)) t0 () (start (t\<lparr>t_cap := c\<rparr>))"
    using w(1) alloc_node_cap(2)[of "hd oid" None None t t0 _ c] unfolding start_def
    by (auto simp: same_run_def split: if_splits)
  show ?thesis unfolding e
  proof (rule same_run_bind[OF s], rule same_run_bind[OF force_walk_cap[OF w(2)]])
    show "same_run c (length (t_nodes t1)) t' j (fin (t1\<lparr>t_cap := c\<rparr>) i)" for c
      using w(3) by (auto simp: fin_def same_run_def)
  qed
qed

lemma insert_all_grows: "insert_all t kvs = Some t' \<Longrightarrow> length (t_nodes t) \<le> length (t_nodes t')"
proof (induction kvs arbitrary: t)
  case (Cons kd kvs)
  obtain k d where kd: "kd = (k, d)" by (cases kd)
  obtain t1 i where "oid_insert t k d = Some (t1, i)" "insert_all t1 kvs = Some t'" using Cons.prems by (auto simp: kd split: bind_splits)
  then show ?case using Cons.IH[of t1] oid_insert_cap[of t k d t1 i] by (fastforce simp: same_run_def)
qed simp

lemma insert_all_cap:
  "insert_all t kvs = Some t' \<Longrightarrow> length (t_nodes t) \<le> c \<Longrightarrow>
   insert_all (t\<lparr>t_cap := c\<rparr>) kvs = (if length (t_nodes t') \<le> c then Some (t'\<lparr>t_cap := c\<rparr>) else None)"
proof (induction kvs arbitrary: t)
  case (Cons kd kvs)
  obtain k d where kd: "kd = (k, d)" by (cases kd)
  obtain t1 i where a: "oid_insert t k d = Some (t1, i)" "insert_all t1 kvs = Some t'" using Cons.prems(1) by (auto simp: kd split: bind_splits)
  have s: "length (t_nodes t) \<le> length (t_nodes t1)"
    "oid_insert (t\<lparr>t_cap := c\<rparr>) k d = (if length (t_nodes t1) \<le> c then Some (t1\<lparr>t_cap := c\<rparr>, i) else None)"
    using oid_insert_cap[OF a(1), of c] Cons.prems(2) by (auto simp: same_run_def)
  show ?case
  proof (cases "length (t_nodes t1) \<le> c")
    case True
    then show ?thesis using Cons.IH[OF a(2) True] s by (simp add: kd)
  next
    case False
    have "length (t_nodes t1) \<le> length (t_nodes t')" by (rule insert_all_grows[OF a(2)])
    then show ?thesis using False s by (simp add: kd)
  qed
qed simp

text \<open>The nodes are the prefixes of what was inserted.\<close>

definition known :: "oid_tree \<Rightarrow> u32 list set" where
  "known t = {q. find_node t q \<noteq> Some None}"

definition counted :: "oid_tree \<Rightarrow> bool" where
  "counted t \<longleftrightarrow> finite (known t) \<and> card (known t) = length (t_nodes t)"

lemma oid_insert_counted:
  assumes "tree_ok t" "counted t" "oid \<noteq> []" "length (t_nodes t) + length oid < t_cap t"
  shows "\<exists>t' i. oid_insert t oid d = Some (t', i) \<and> tree_ok t' \<and> counted t' \<and> t_cap t' = t_cap t \<and>
    length (t_nodes t') \<le> length (t_nodes t) + length oid \<and> known t' = known t \<union> {q. oid_below q oid} \<and> (\<forall>q. oid_find t' q = (if q = oid then Some d else oid_find t q))"
proof -
  obtain ts where r: "tree_repr t ts" using assms(1) by (auto simp: tree_ok_def)
  obtain t' i ts' where t': "oid_insert t oid d = Some (t', Some i)" "t_cap t' = t_cap t" "length (t_nodes t') + plen ts oid = length (t_nodes t) + length oid"
    "tree_repr t' ts'" "\<forall>q. fnode ts' q \<noteq> None \<longleftrightarrow> fnode ts q \<noteq> None \<or> (q \<noteq> [] \<and> (\<exists>r. oid = q @ r))"
    "\<forall>q. oid_find t' q = (if q = oid then Some d else oid_find t q)"
    using oid_insert_ok[OF r assms(3,4)] by blast
  have k: "known t = {q. fnode ts q \<noteq> None}" "known t' = {q. fnode ts' q \<noteq> None}"
    by (simp_all add: known_def find_node_repr[OF r] find_node_repr[OF t'(4)])
  have k': "known t' = known t \<union> {q. oid_below q oid}" unfolding k using t'(5) by (auto simp: oid_below_iff)
  define new where "new = (\<lambda>m. take m oid) ` {plen ts oid<..length oid}"
  have inj: "inj_on (\<lambda>m. take m oid) {plen ts oid<..length oid}"
    by (rule inj_onI) (metis greaterThanAtMost_iff length_take min.absorb2)
  have disj: "known t \<inter> new = {}" using plen_exists[of _ oid ts] by (fastforce simp: k new_def)
  have all: "known t' = known t \<union> new"
  proof -
    have "q \<in> known t \<or> q \<in> new" if q: "oid_below q oid" for q
    proof -
      have l: "length q \<le> length oid" "take (length q) oid = q" "0 < length q" using q by (auto simp: oid_below_def) (metis length_take min.cobounded1)
      show ?thesis
      proof (cases "length q \<le> plen ts oid")
        case True
        then have "fnode ts q \<noteq> None" using plen_exists[OF l(1), of ts] l(2,3) by simp
        then show ?thesis by (simp add: k)
      next
        case False
        then have "q \<in> new" unfolding new_def using l by (intro image_eqI[of _ _ "length q"]) auto
        then show ?thesis by simp
      qed
    qed
    moreover have "oid_below q oid" if "q \<in> new" for q using that assms(3) by (auto simp: new_def oid_below_def)
    ultimately show ?thesis using k' by auto
  qed
  have "card new = length oid - plen ts oid" unfolding new_def card_image[OF inj] by simp
  then have "card (known t') = length (t_nodes t')" "finite (known t')"
    using assms(2) disj t'(3) plen_le[of ts oid] by (auto simp: all counted_def card_Un_disjoint new_def)
  then show ?thesis using t'(1,2,3,4,6) k' by (auto simp: counted_def tree_ok_def)
qed

lemma insert_all_counted:
  assumes "tree_ok t" "counted t" "length (t_nodes t) + (\<Sum>(oid, d)\<leftarrow>kvs. length oid + 1) \<le> t_cap t"
  shows "\<exists>t'. insert_all t kvs = Some t' \<and> counted t' \<and> known t' = known t \<union> {q. \<exists>oid\<in>fst ` set kvs. oid_below q oid} \<and>
    (\<forall>q. oid_find t' q = (case map_of (rev (filter (\<lambda>kv. fst kv \<noteq> []) kvs)) q of None \<Rightarrow> oid_find t q | Some d \<Rightarrow> Some d))"
  using assms
proof (induction kvs arbitrary: t)
  case (Cons kd kvs)
  obtain k d where kd: "kd = (k, d)" by (cases kd)
  show ?case
  proof (cases "k = []")
    case True
    have "oid_insert t k d = Some (t, None)" using True by (simp add: oid_insert_def force_node_def)
    moreover have "\<not> oid_below q k" for q using True by (cases q) (simp_all add: oid_below_def)
    ultimately show ?thesis using Cons.IH[OF Cons.prems(1,2)] Cons.prems(3) True by (simp add: kd)
  next
    case False
    obtain t1 i where t1: "oid_insert t k d = Some (t1, i)" "tree_ok t1" "counted t1" "t_cap t1 = t_cap t" "length (t_nodes t1) \<le> length (t_nodes t) + length k"
      "known t1 = known t \<union> {q. oid_below q k}" "\<forall>q. oid_find t1 q = (if q = k then Some d else oid_find t q)"
      using oid_insert_counted[OF Cons.prems(1,2) False, of d] Cons.prems(3) by (auto simp: kd)
    obtain t' where t': "insert_all t1 kvs = Some t'" "counted t'" "known t' = known t1 \<union> {q. \<exists>oid\<in>fst ` set kvs. oid_below q oid}"
      "\<forall>q. oid_find t' q = (case map_of (rev (filter (\<lambda>kv. fst kv \<noteq> []) kvs)) q of None \<Rightarrow> oid_find t1 q | Some d \<Rightarrow> Some d)"
      using Cons.IH[OF t1(2,3)] Cons.prems(3) t1(4,5) by (auto simp: kd)
    have "oid_find t' q = (case map_of (rev (filter (\<lambda>kv. fst kv \<noteq> []) (kd # kvs))) q of None \<Rightarrow> oid_find t q | Some d \<Rightarrow> Some d)" for q
      using t'(4)[rule_format, of q] t1(7) False by (auto simp: kd map_add_def split: option.splits)
    moreover have "known t' = known t \<union> {q. \<exists>oid\<in>fst ` set (kd # kvs). oid_below q oid}" using t'(3) t1(6) by (auto simp: kd)
    ultimately show ?thesis using t'(1,2) t1(1) by (auto simp: kd)
  qed
qed simp

section \<open>What the tree promises\<close>

text \<open>
  Property C12: the tree is a finite map, as long as its first group of nodes has room. Any sequence of insertions into a new
  tree succeeds exactly if the identifiers have, together, at most 256 different non-empty prefixes (each is a node; the 257th is written
  through an uninitialised pointer). Then every lookup answers as the finite map with the same updates does: the data of
  the last insertion of the identifier, and -1 for an identifier that was never inserted. The empty identifier is never
  stored: its insertion is ignored.
\<close>

theorem oid_tree_refines_map:
  "case insert_all oid_tree_new kvs of
     None \<Rightarrow> 256 < card {q. q \<noteq> [] \<and> (\<exists>oid\<in>fst ` set kvs. take (length q) oid = q)}
   | Some t \<Rightarrow> card {q. q \<noteq> [] \<and> (\<exists>oid\<in>fst ` set kvs. take (length q) oid = q)} \<le> 256 \<and>
       (\<forall>q. oid_find t q = Some (case map_of (rev (filter (\<lambda>kv. fst kv \<noteq> []) kvs)) q of None \<Rightarrow> -1 | Some d \<Rightarrow> d))"
proof -
  define big where "big = oid_tree_new\<lparr>t_cap := (\<Sum>(oid, d)\<leftarrow>kvs. length oid + 1)\<rparr>"
  have b: "t_nodes big = []" "big\<lparr>t_cap := 256\<rparr> = oid_tree_new" by (simp_all add: big_def oid_tree_new_def)
  have e: "known big = {}" "\<And>q. oid_find big q = Some (-1)" by (auto simp: known_def find_node_def oid_find_def b)
  have ok: "tree_ok big" "counted big" using e b by (auto simp: tree_ok_def tree_repr_def counted_def intro!: exI[of _ "[]"])
  have cap: "length (t_nodes big) + (\<Sum>(oid, d)\<leftarrow>kvs. length oid + 1) \<le> t_cap big" by (simp add: big_def oid_tree_new_def)
  obtain t where t: "insert_all big kvs = Some t" "counted t" "known t = {q. \<exists>oid\<in>fst ` set kvs. oid_below q oid}"
    "\<forall>q. oid_find t q = (case map_of (rev (filter (\<lambda>kv. fst kv \<noteq> []) kvs)) q of None \<Rightarrow> Some (-1) | Some d \<Rightarrow> Some d)"
    using insert_all_counted[OF ok cap] unfolding e Un_empty_left by blast
  have c: "card {q. q \<noteq> [] \<and> (\<exists>oid\<in>fst ` set kvs. take (length q) oid = q)} = length (t_nodes t)"
    using t(2,3) by (simp add: counted_def oid_below_def)
  have "insert_all oid_tree_new kvs = (if length (t_nodes t) \<le> 256 then Some (t\<lparr>t_cap := 256\<rparr>) else None)"
    using insert_all_cap[OF t(1), of 256] b by simp
  moreover have n: "t_nodes (t\<lparr>t_cap := 256\<rparr>) = t_nodes t" by simp
  have "oid_find (t\<lparr>t_cap := 256\<rparr>) q = oid_find t q" for q by (simp only: oid_find_def find_node_def n)
  ultimately show ?thesis using c t(4) by (auto split: option.splits)
qed

theorem oid_tree_refines_map_witness:
  "\<exists>t. insert_all oid_tree_new [([1, 3, 6], 7), ([1, 3], 8), ([2], 9), ([1, 3, 6], 10)] = Some t \<and>
    oid_find t [1, 3, 6] = Some 10 \<and> oid_find t [1, 3] = Some 8 \<and> oid_find t [1] = Some (-1) \<and> oid_find t [2, 1] = Some (-1)"
proof -
  let ?kvs = "[([1, 3, 6], 7), ([1, 3], 8), ([2], 9), ([1, 3, 6], 10)] :: (u32 list \<times> int) list"
  have "{q. q \<noteq> [] \<and> (\<exists>oid\<in>fst ` set ?kvs. take (length q) oid = q)} \<subseteq> (\<lambda>(n, oid). take n oid) ` ({0..3} \<times> fst ` set ?kvs)"
  proof
    fix q assume "q \<in> {q. q \<noteq> [] \<and> (\<exists>oid\<in>fst ` set ?kvs. take (length q) oid = q)}"
    then obtain oid where o: "oid \<in> fst ` set ?kvs" "take (length q) oid = q" by blast
    then have "length q \<le> length oid" by (metis length_take min.cobounded1)
    also have "length oid \<le> 3" using o(1) by auto
    finally show "q \<in> (\<lambda>(n, oid). take n oid) ` ({0..3} \<times> fst ` set ?kvs)" using o by (intro image_eqI[of _ _ "(length q, oid)"]) auto
  qed
  then have "card {q. q \<noteq> [] \<and> (\<exists>oid\<in>fst ` set ?kvs. take (length q) oid = q)} \<le> card ((\<lambda>(n, oid). take n oid) ` ({0..3 :: nat} \<times> fst ` set ?kvs))"
    by (rule card_mono[rotated]) simp
  also have "\<dots> \<le> card ({0..3 :: nat} \<times> fst ` set ?kvs)" by (rule card_image_le) simp
  also have "\<dots> \<le> 4 * 4" unfolding card_cartesian_product
    by (intro mult_le_mono order.trans[OF card_image_le] order.trans[OF card_length]) simp_all
  finally show ?thesis using oid_tree_refines_map[of ?kvs] by (cases "insert_all oid_tree_new ?kvs") auto
qed

text \<open>
  \<open>find_prefix\<close> returns the length of the longest prefix of its argument that is a
  node of the tree, which is the longest prefix shared with an inserted identifier, and the data
  stored for that prefix.
\<close>

theorem find_prefix_longest:
  assumes "\<forall>(oid, d)\<in>set kvs. oid \<noteq> []" "(\<Sum>(oid, d)\<leftarrow>kvs. length oid + 1) \<le> 256"
  shows "\<exists>t d n. insert_all oid_tree_new kvs = Some t \<and> find_prefix t q = Some (d, n) \<and> oid_find t (take n q) = Some d \<and>
    n \<le> length q \<and> (\<forall>m. 0 < m \<and> m \<le> length q \<longrightarrow> m \<le> n \<longleftrightarrow> (\<exists>(oid, d)\<in>set kvs. take m oid = take m q \<and> m \<le> length oid))"
proof -
  obtain t ts where t: "insert_all oid_tree_new kvs = Some t" "tree_repr t ts"
    and known: "\<And>p. find_node t p \<noteq> Some None \<longleftrightarrow> (\<exists>oid\<in>fst ` set kvs. oid_below p oid)"
    using insert_all_ok[OF assms] by (auto simp: tree_ok_def)
  have "m \<le> plen ts q \<longleftrightarrow> (\<exists>(oid, d)\<in>set kvs. take m oid = take m q \<and> m \<le> length oid)" if m: "0 < m" "m \<le> length q" for m
  proof -
    have "oid_below (take m q) oid \<longleftrightarrow> take m oid = take m q \<and> m \<le> length oid" for oid
    proof -
      have l: "length (take m q) = m" "take m q \<noteq> []" using m by auto
      have "take m oid = take m q \<Longrightarrow> m \<le> length oid" using l(1) by (metis length_take min.cobounded1)
      then show ?thesis using l unfolding oid_below_def by auto
    qed
    then show ?thesis using known[of "take m q"] find_node_repr[OF t(2), of "take m q"] plen_exists[OF m(2), of ts] m(1) by force
  qed
  with t find_prefix_repr[OF t(2), of q] oid_find_repr[OF t(2)] plen_le[of ts q] show ?thesis by blast
qed

theorem find_prefix_longest_witness:
  "\<exists>t d n. insert_all oid_tree_new [([1, 3, 6], 7), ([1, 3], 8)] = Some t \<and> find_prefix t [1, 3, 9] = Some (d, n) \<and>
    oid_find t (take n [1, 3, 9]) = Some d \<and> n \<le> 3 \<and> 2 \<le> n"
proof -
  have "\<exists>(oid, d)\<in>set [([1, 3, 6], 7), ([1, 3], 8)]. take 2 oid = take 2 [1, 3, 9::u32] \<and> 2 \<le> length oid" by simp
  with find_prefix_longest[of "[([1, 3, 6], 7), ([1, 3], 8)]" "[1, 3, 9]"] show ?thesis by force
qed

text \<open>
  The node an insertion returns gives the inserted identifier back
  (\<open>extract_oid\<close> follows the parent pointers and ends).
\<close>

theorem insert_extract_roundtrip:
  assumes "\<forall>(oid, d)\<in>set kvs. oid \<noteq> []" "(\<Sum>(oid, d)\<leftarrow>kvs. length oid + 1) + length oid < 256" "oid \<noteq> []"
  shows "\<exists>t t' i. insert_all oid_tree_new kvs = Some t \<and> oid_insert t oid d = Some (t', Some i) \<and>
    find_node t' oid = Some (Some i) \<and> extract_oid (t_nodes t') (Some i) = Some oid"
proof -
  have sm: "(\<Sum>(oid, d)\<leftarrow>kvs. length oid + 1) \<le> 256" using assms(2) by simp
  obtain t ts where t: "insert_all oid_tree_new kvs = Some t" "tree_repr t ts"
    "256 \<le> t_cap t - length (t_nodes t) + (\<Sum>(oid, d)\<leftarrow>kvs. length oid + 1)"
    using insert_all_ok[OF assms(1) sm] by (auto simp: tree_ok_def)
  have "length (t_nodes t) + length oid < t_cap t" using t(3) assms(2) by linarith
  then show ?thesis using oid_insert_ok[OF t(2) assms(3), of d] t(1) by blast
qed

theorem insert_extract_roundtrip_witness:
  "\<exists>t t' i. insert_all oid_tree_new [([1, 3, 6], 7)] = Some t \<and> oid_insert t [1, 4] 5 = Some (t', Some i) \<and>
    find_node t' [1, 4] = Some (Some i) \<and> extract_oid (t_nodes t') (Some i) = Some [1, 4]"
  by (rule insert_extract_roundtrip) simp_all

text \<open>The 257th node is written through an uninitialised entry of the group array.\<close>

lemma alloc_node_second_group:
  "length (t_nodes t) = t_cap t \<Longrightarrow> alloc_node suffix par sibling t = None"
  by (simp add: alloc_node_def)

end
