(* ===== verification/Click_Checksum.thy ===== *)
theory Click_Checksum
  imports Click_Prelude
begin

text \<open>
  Internet checksums in packets. \<open>click_in_cksum\<close> belongs to Click: it is a parameter \<open>ck\<close> of the
  definitions that use it, and the one law they rely on is \<open>cksum_law\<close>. The sum of RFC 1071
  satisfies the law and serves as the concrete instance.
\<close>

section \<open>Storing and checking\<close>

type_synonym cksum = "byte list \<Rightarrow> u16"

text \<open>
  The \<open>set_checksum\<close> methods of the packet formats: zero the field at \<open>off + k\<close>, then store the
  checksum of the \<open>n\<close> bytes from \<open>off\<close>.
\<close>

definition store_checksum ::
    "endian \<Rightarrow> cksum \<Rightarrow> nat \<Rightarrow> nat \<Rightarrow> nat \<Rightarrow> byte list \<Rightarrow> byte list option" where
  "store_checksum en ck off k n b =
     do {
       b0 \<leftarrow> wr (off + k) (mem16 en 0) b;
       c \<leftarrow> rdn b0 off n;
       wr (off + k) (mem16 en (ck c)) b0
     }"

text \<open>
  The documented behaviour of an Internet checksum: storing the checksum, computed with the
  field zeroed, into the field makes the checksum of the whole zero.
\<close>

definition cksum_law :: "endian \<Rightarrow> cksum \<Rightarrow> bool" where
  "cksum_law en ck \<longleftrightarrow>
     (\<forall>b k. even k \<and> k + 2 \<le> length b \<longrightarrow>
        ck (put_at k (mem16 en (ck (put_at k (mem16 en 0) b))) b) = 0)"

definition stamp :: "endian \<Rightarrow> cksum \<Rightarrow> nat \<Rightarrow> byte list \<Rightarrow> byte list" where
  "stamp en ck k b = put_at k (mem16 en (ck (put_at k (mem16 en 0) b))) b"

lemma length_stamp [simp]: "k + 2 \<le> length b \<Longrightarrow> length (stamp en ck k b) = length b"
  by (simp add: stamp_def)

lemma stamp_valid: "cksum_law en ck \<Longrightarrow> even k \<Longrightarrow> k + 2 \<le> length b \<Longrightarrow> ck (stamp en ck k b) = 0"
  by (simp add: stamp_def cksum_law_def)

lemma put_at_put_at:
  "length u = length v \<Longrightarrow> k + length v \<le> length b \<Longrightarrow> put_at k v (put_at k u b) = put_at k v b"
  by (simp add: put_at_def)

lemma stamp_put_at:
  "length u = 2 \<Longrightarrow> k + 2 \<le> length b \<Longrightarrow> stamp en ck k (put_at k u b) = stamp en ck k b"
  by (simp add: stamp_def put_at_put_at)

lemma store_checksum_mid:
  assumes "length pre = off" "length mid = n" "k + 2 \<le> n"
  shows "store_checksum en ck off k n (pre @ mid @ post) = Some (pre @ stamp en ck k mid @ post)"
  using assms by (simp add: store_checksum_def put_at_mid rdn_mid stamp_def put_at_put_at)

lemma rdn_put_at_other:
  assumes "k + length src \<le> length b" and "i + n \<le> k \<or> k + length src \<le> i"
  shows "rdn (put_at k src b) i n = rdn b i n"
proof -
  have "take n (drop i (put_at k src b)) = take n (drop i b)" if "i + n \<le> length b"
    using assms that by (intro nth_equalityI) (auto simp: nth_put_at)
  with assms(1) show ?thesis by (simp add: rdn_def)
qed

lemma rdn_stamp:
  assumes "k + 2 \<le> length b" and "i + n \<le> k \<or> k + 2 \<le> i"
  shows "rdn (stamp en ck k b) i n = rdn b i n"
  using assms by (simp add: stamp_def rdn_put_at_other)

lemma rd16_stamp:
  assumes "k + 2 \<le> length b" and "i + 2 \<le> k \<or> k + 2 \<le> i"
  shows "rd16 en (stamp en' ck k b) i = rd16 en b i"
  using assms by (simp add: rd16_def rdn_stamp)

lemma unat_of_nat_small: "x < 2 ^ LENGTH('a) \<Longrightarrow> unat (word_of_nat x :: 'a::len word) = x"
  by (simp add: unat_of_nat)

lemma mem16_pair: obtains a b where "mem16 en w = [a, b]"
  by (cases en) (auto simp: mem16_def be16_def numeral_2_eq_2 intro: that)

section \<open>An Internet checksum\<close>

text \<open>The sum of RFC 1071, for concrete instances of \<open>cksum_law\<close>.\<close>

fun wsum :: "endian \<Rightarrow> byte list \<Rightarrow> nat" where
  "wsum en [] = 0"
| "wsum en [b] = unat (mem_u16 en [b, 0])"
| "wsum en (b # c # r) = unat (mem_u16 en [b, c]) + wsum en r"

definition fold16 :: "nat \<Rightarrow> nat" where
  "fold16 s = (if s = 0 then 0 else (s - 1) mod 65535 + 1)"

definition rfc1071 :: "endian \<Rightarrow> cksum" where
  "rfc1071 en b = word_of_nat (65535 - fold16 (wsum en b))"

lemma wsum_append: "even (length a) \<Longrightarrow> wsum en (a @ b) = wsum en a + wsum en b"
  by (induction en a rule: wsum.induct) auto

lemma fold16_complement: "fold16 (s + (65535 - fold16 s)) = 65535"
proof (cases "s = 0")
  case False
  then obtain a where a: "s = a + 1" by (metis add.commute Suc_eq_plus1 not0_implies_Suc)
  have r: "a mod 65535 \<le> 65534" using mod_less_divisor[of 65535 a] by simp
  have "s + (65535 - fold16 s) - 1 = a + (65534 - a mod 65535)" by (simp add: a fold16_def)
  also have "\<dots> = a div 65535 * 65535 + 65534" using r div_mult_mod_eq[of a 65535] by linarith
  finally have "s + (65535 - fold16 s) - 1 = a div 65535 * 65535 + 65534" .
  then have "(s + (65535 - fold16 s) - 1) mod 65535 = 65534" by (simp only: mod_mult_self3) simp
  with False show ?thesis unfolding fold16_def[of "s + (65535 - fold16 s)"] by simp
qed (simp add: fold16_def)

lemma rfc1071_law: "cksum_law en (rfc1071 en)"
  unfolding cksum_law_def
proof (intro allI impI)
  fix b :: "byte list" and k
  assume k: "even k \<and> k + 2 \<le> length b"
  define s where "s = wsum en (take k b) + wsum en (drop (k + 2) b)"
  have ws: "wsum en (put_at k (mem16 en w) b) = s + unat w" for w
  proof -
    obtain x y where xy: "mem16 en w = [x, y]" by (rule mem16_pair)
    then have "unat (mem_u16 en [x, y]) = unat w" by (metis mem_u16_mem16)
    then show ?thesis using k by (simp add: put_at_def wsum_append xy s_def)
  qed
  have z: "rfc1071 en (put_at k (mem16 en 0) b) = word_of_nat (65535 - fold16 s)"
    by (simp add: rfc1071_def ws)
  have "unat (word_of_nat (65535 - fold16 s) :: u16) = 65535 - fold16 s"
    by (rule unat_of_nat_small) simp
  then have "rfc1071 en (put_at k (mem16 en (word_of_nat (65535 - fold16 s))) b) = word_of_nat (65535 - 65535)"
    unfolding rfc1071_def[of en "put_at k (mem16 en (word_of_nat (65535 - fold16 s))) b"] ws
    by (simp add: fold16_complement)
  then show "rfc1071 en (put_at k (mem16 en (rfc1071 en (put_at k (mem16 en 0) b))) b) = 0"
    unfolding z by simp
qed

end
