(* ===== verification/Roofnet_Frag.thy ===== *)
theory Roofnet_Frag
  imports Click_Checksum "HOL-Library.Multiset"
begin

text \<open>
  Link-layer fragmentation of Roofnet (\<open>roofnet/frag\<close>): the packet format of \<open>frag.hh\<close> and the
  elements on the data path, \<open>FragmentEncap\<close>, \<open>CheckFragment\<close>, \<open>Fragment\<close>, \<open>Defragment\<close> and
  \<open>FragmentDecap\<close>.

  A fragmented packet is a 26-byte header (14 bytes of Ethernet header and six \<open>uint16_t\<close> in
  host order) followed by its fragments; a fragment is a 6-byte header and \<open>frag_size\<close> bytes
  of data. \<open>click_in_cksum\<close> belongs to Click: it is the parameter \<open>ck\<close>, and the one law the
  elements rely on is \<open>cksum_law\<close>. Memory that \<open>Packet::make\<close> leaves uninitialised has the
  contents \<open>junk\<close>. An access outside of a packet's data is \<^const>\<open>None\<close>.
\<close>

section \<open>Formats\<close>

abbreviation (input) "frag_sz \<equiv> 6 :: nat"
abbreviation (input) "fh_sz \<equiv> 26 :: nat"

abbreviation (input) "off_src \<equiv> 6 :: nat"
abbreviation (input) "off_ether_type \<equiv> 12 :: nat"
abbreviation (input) "off_flags \<equiv> 14 :: nat"
abbreviation (input) "off_num_frags \<equiv> 16 :: nat"
abbreviation (input) "off_num_frags_packet \<equiv> 18 :: nat"
abbreviation (input) "off_packet_num \<equiv> 20 :: nat"
abbreviation (input) "off_frag_size \<equiv> 22 :: nat"
abbreviation (input) "off_header_checksum \<equiv> 24 :: nat"

text \<open>Offset of \<open>get_frag(x)\<close> in the packet; \<open>frag_header::packet_size\<close>.\<close>

definition get_frag :: "nat \<Rightarrow> nat \<Rightarrow> nat" where
  "get_frag fs x = fh_sz + x * (frag_sz + fs)"

definition packet_size :: "nat \<Rightarrow> nat \<Rightarrow> nat" where
  "packet_size frags fs = fh_sz + frags * (fs + frag_sz)"

definition frag_set_checksum :: "endian \<Rightarrow> cksum \<Rightarrow> nat \<Rightarrow> nat \<Rightarrow> byte list \<Rightarrow> byte list option" where
  "frag_set_checksum en ck fs off = store_checksum en ck off 4 (frag_sz + fs)"

definition frag_valid_checksum :: "cksum \<Rightarrow> nat \<Rightarrow> nat \<Rightarrow> byte list \<Rightarrow> bool option" where
  "frag_valid_checksum ck fs off b = do { c \<leftarrow> rdn b off (frag_sz + fs); Some (ck c = 0) }"

definition fh_set_checksum :: "endian \<Rightarrow> cksum \<Rightarrow> byte list \<Rightarrow> byte list option" where
  "fh_set_checksum en ck = store_checksum en ck 0 off_header_checksum fh_sz"

definition fh_valid_checksum :: "cksum \<Rightarrow> byte list \<Rightarrow> bool option" where
  "fh_valid_checksum ck b = do { c \<leftarrow> rdn b 0 fh_sz; Some (ck c = 0) }"

section \<open>FragmentEncap\<close>

record fragment_encap =
  enc_frag_length :: u32
  enc_packet_num :: u32

datatype frag_error = DivisionByZero | OutOfBuffer

definition encap_frag ::
    "endian \<Rightarrow> cksum \<Rightarrow> nat \<Rightarrow> u32 \<Rightarrow> byte list \<Rightarrow> nat \<Rightarrow> byte list \<Rightarrow> byte list option" where
  "encap_frag en ck fs pnum p x b =
     do {
       d \<leftarrow> rdn p (14 + x * fs) fs;
       b1 \<leftarrow> wr (get_frag fs x + frag_sz) d b;
       b2 \<leftarrow> wr (get_frag fs x + 2) [word_of_nat x] b1;
       b3 \<leftarrow> wr (get_frag fs x) (mem16 en (ucast pnum)) b2;
       frag_set_checksum en ck fs (get_frag fs x) b3
     }"

text \<open>
  \<open>n\<close> is the number of fragments; \<open>num_frags\<close>, \<open>num_frags_packet\<close>, \<open>packet_num\<close> and
  \<open>frag_size\<close> are truncated to 16 bits, and \<open>get_frag\<close> uses the truncated size.
\<close>

definition encap_build ::
    "endian \<Rightarrow> cksum \<Rightarrow> (nat \<Rightarrow> byte) \<Rightarrow> fragment_encap \<Rightarrow> nat \<Rightarrow> byte list \<Rightarrow> byte list option" where
  "encap_build en ck junk s n p =
     (let new_size = (fh_sz + n * (unat (enc_frag_length s) + frag_sz)) mod 2 ^ 32;
          fsz = ucast (enc_frag_length s) :: u16
      in do {
        b \<leftarrow> wr 0 (take 14 p @ mem16 en 0 @ mem16 en (word_of_nat n) @ mem16 en (word_of_nat n) @
                   mem16 en (ucast (enc_packet_num s)) @ mem16 en fsz @ mem16 en 0)
                (map junk [0..<new_size]);
        b1 \<leftarrow> fh_set_checksum en ck b;
        forM (encap_frag en ck (unat fsz) (enc_packet_num s) p) [0..<n] b1
      })"

definition encap_simple_action ::
    "endian \<Rightarrow> cksum \<Rightarrow> (nat \<Rightarrow> byte) \<Rightarrow> fragment_encap \<Rightarrow> byte list
      \<Rightarrow> frag_error + fragment_encap \<times> byte list option" where
  "encap_simple_action en ck junk s p =
     (if length p < 14 then Inr (s, None)
      else let data_length = length p - 14; fl = unat (enc_frag_length s)
      in if fl = 0 then Inl DivisionByZero
      else let n0 = data_length div fl
      in if n0 = 0 then Inl DivisionByZero
      else let n = (if data_length mod n0 \<noteq> 0 then n0 + 1 else n0)
      in case encap_build en ck junk s n p of
           None \<Rightarrow> Inl OutOfBuffer
         | Some q \<Rightarrow> Inr (s\<lparr>enc_packet_num := enc_packet_num s + 1\<rparr>, Some q))"

section \<open>CheckFragment\<close>

datatype check_out = Out0 | Out1 | Killed

fun check_loop :: "cksum \<Rightarrow> nat \<Rightarrow> byte list \<Rightarrow> nat list \<Rightarrow> bool option" where
  "check_loop ck fs p [] = Some True"
| "check_loop ck fs p (x # xs) =
     do { ok \<leftarrow> frag_valid_checksum ck fs (get_frag fs x) p;
          if ok then check_loop ck fs p xs else Some False }"

definition check_simple_action ::
    "endian \<Rightarrow> cksum \<Rightarrow> bool \<Rightarrow> nat \<Rightarrow> byte list \<Rightarrow> check_out option" where
  "check_simple_action en ck header_only nout p =
     (let drop_out = (if 1 < nout then Out1 else Killed);
          drop1_out = (if header_only then Out0 else drop_out)
      in if length p < fh_sz then Some drop_out
      else do {
        hv \<leftarrow> fh_valid_checksum ck p;
        if \<not> hv then Some drop_out
        else do {
          nf \<leftarrow> rd16 en p off_num_frags;
          fs \<leftarrow> rd16 en p off_frag_size;
          if packet_size (unat nf) (unat fs) mod 2 ^ 32 \<noteq> length p then Some drop1_out
          else do {
            ok \<leftarrow> check_loop ck (unat fs) p [0..<unat nf];
            Some (if ok then Out0 else drop1_out)
          }
        }
      })"

section \<open>Fragment\<close>

definition fragment_one ::
    "endian \<Rightarrow> cksum \<Rightarrow> byte list \<Rightarrow> nat \<Rightarrow> byte list list option" where
  "fragment_one en ck p x =
     do {
       fs \<leftarrow> rd16 en p off_frag_size;
       ok \<leftarrow> frag_valid_checksum ck (unat fs) (get_frag (unat fs) x) p;
       if \<not> ok then Some []
       else do {
         h \<leftarrow> rdn p 0 fh_sz;
         h1 \<leftarrow> wr off_num_frags (mem16 en 1) h;
         h2 \<leftarrow> fh_set_checksum en ck h1;
         f \<leftarrow> rdn p (fh_sz + x * (unat fs + frag_sz)) (frag_sz + unat fs);
         Some [h2 @ f]
       }
     }"

definition fragment_push :: "endian \<Rightarrow> cksum \<Rightarrow> byte list \<Rightarrow> byte list list option" where
  "fragment_push en ck p =
     do {
       nf \<leftarrow> rd16 en p off_num_frags;
       fs \<leftarrow> those (map (fragment_one en ck p) [0..<unat nf]);
       Some (concat fs)
     }"

section \<open>Defragment\<close>

record packet_info =
  pi_src :: ether_addr
  pi_packet :: u16
  pi_num_frags :: nat
  pi_frag_size :: nat
  pi_fragments_rx :: nat
  pi_fragments :: "byte list option list"

type_synonym defragment = "u16 \<rightharpoonup> packet_info"

definition new_packet_info :: "ether_addr \<Rightarrow> u16 \<Rightarrow> nat \<Rightarrow> nat \<Rightarrow> packet_info" where
  "new_packet_info s p fs nf =
     \<lparr>pi_src = s, pi_packet = p, pi_num_frags = nf, pi_frag_size = fs, pi_fragments_rx = 0,
      pi_fragments = replicate nf None\<rparr>"

definition defrag_copy :: "packet_info \<Rightarrow> nat \<Rightarrow> byte list \<Rightarrow> byte list option" where
  "defrag_copy i x b =
     do {
       f \<leftarrow> pi_fragments i ! x;
       d \<leftarrow> rdn f fh_sz (pi_frag_size i + frag_sz);
       wr (get_frag (pi_frag_size i) x) d b
     }"

definition reassemble ::
    "endian \<Rightarrow> cksum \<Rightarrow> (nat \<Rightarrow> byte) \<Rightarrow> packet_info \<Rightarrow> byte list option" where
  "reassemble en ck junk i =
     (let len = packet_size (pi_num_frags i) (pi_frag_size i) mod 2 ^ 32
      in do {
        f0 \<leftarrow> pi_fragments i ! 0;
        h \<leftarrow> rdn f0 0 fh_sz;
        b1 \<leftarrow> wr 0 h (map junk [0..<len]);
        b2 \<leftarrow> wr off_num_frags_packet (mem16 en (word_of_nat (pi_num_frags i))) b1;
        b3 \<leftarrow> wr off_num_frags (mem16 en (word_of_nat (pi_num_frags i))) b2;
        b4 \<leftarrow> wr off_packet_num (mem16 en (pi_packet i)) b3;
        b5 \<leftarrow> wr off_frag_size (mem16 en (word_of_nat (pi_frag_size i))) b4;
        b6 \<leftarrow> fh_set_checksum en ck b5;
        forM (defrag_copy i) [0..<pi_num_frags i] b6
      })"

definition defrag_store ::
    "endian \<Rightarrow> cksum \<Rightarrow> (nat \<Rightarrow> byte) \<Rightarrow> nat \<Rightarrow> u16 \<Rightarrow> packet_info \<Rightarrow> defragment \<Rightarrow> byte list
      \<Rightarrow> (defragment \<times> byte list option) option" where
  "defrag_store en ck junk fnum pnum i t p =
     (if length (pi_fragments i) \<le> fnum then Some (t, None)
      else if pi_fragments i ! fnum \<noteq> None then Some (t, None)
      else let i1 = i\<lparr>pi_fragments := (pi_fragments i)[fnum := Some p],
                      pi_fragments_rx := pi_fragments_rx i + 1\<rparr>;
               t1 = t(pnum \<mapsto> i1)
           in if pi_fragments_rx i1 \<noteq> pi_num_frags i1 then Some (t1, None)
              else do {
                q \<leftarrow> reassemble en ck junk i1;
                Some (t1(pi_packet i1 := None), Some q)
              })"

definition defrag_simple_action ::
    "endian \<Rightarrow> cksum \<Rightarrow> (nat \<Rightarrow> byte) \<Rightarrow> defragment \<Rightarrow> byte list
      \<Rightarrow> (defragment \<times> byte list option) option" where
  "defrag_simple_action en ck junk t p =
     (if length p < 14 then Some (t, None)
      else do {
        fs \<leftarrow> rd16 en p off_frag_size;
        ok \<leftarrow> frag_valid_checksum ck (unat fs) fh_sz p;
        if \<not> ok then Some (t, None)
        else do {
          src \<leftarrow> rdn p off_src 6;
          pnum \<leftarrow> rd16 en p fh_sz;
          fnum \<leftarrow> rd8 p (fh_sz + 2);
          nfp \<leftarrow> rd16 en p off_num_frags_packet;
          let i = (case t pnum of Some i \<Rightarrow> i | None \<Rightarrow> new_packet_info src pnum (unat fs) (unat nfp));
          defrag_store en ck junk (unat fnum) pnum i (t(pnum \<mapsto> i)) p
        }
      })"

section \<open>FragmentDecap\<close>

text \<open>The product of the two \<open>uint16_t\<close> is computed as a signed 32-bit \<open>int\<close>.\<close>

definition decap_simple_action :: "endian \<Rightarrow> byte list \<Rightarrow> byte list option option" where
  "decap_simple_action en p =
     (if length p < 14 then Some None
      else do {
        nf \<leftarrow> rd16 en p off_num_frags;
        fs \<leftarrow> rd16 en p off_frag_size;
        if 2 ^ 31 \<le> unat nf * unat fs then None
        else do {
          ds \<leftarrow> those (map (\<lambda>x. rdn p (fh_sz + x * (frag_sz + unat fs) + frag_sz) (unat fs)) [0..<unat nf]);
          Some (Some (take 14 p @ concat ds))
        }
      })"

section \<open>Checksummed records\<close>

text \<open>The bytes of a fragment and of a fragment header.\<close>

definition frag_img :: "endian \<Rightarrow> cksum \<Rightarrow> u16 \<Rightarrow> byte \<Rightarrow> byte \<Rightarrow> byte list \<Rightarrow> byte list" where
  "frag_img en ck pnum x j d = stamp en ck 4 (mem16 en pnum @ [x, j, 0, 0] @ d)"

definition fh_img :: "endian \<Rightarrow> cksum \<Rightarrow> byte list \<Rightarrow> u16 \<Rightarrow> u16 \<Rightarrow> u16 \<Rightarrow> u16 \<Rightarrow> u16 \<Rightarrow> byte list" where
  "fh_img en ck eth fl nf nfp pnum fs =
     stamp en ck off_header_checksum
       (eth @ mem16 en fl @ mem16 en nf @ mem16 en nfp @ mem16 en pnum @ mem16 en fs @ mem16 en 0)"

lemma length_frag_img [simp]: "length (frag_img en ck pnum x j d) = 6 + length d"
  by (simp add: frag_img_def)

lemma length_fh_img [simp]: "length eth = 14 \<Longrightarrow> length (fh_img en ck eth fl nf nfp pnum fs) = 26"
  by (simp add: fh_img_def)

lemma frag_img_valid: "cksum_law en ck \<Longrightarrow> ck (frag_img en ck pnum x j d) = 0"
  by (simp add: frag_img_def stamp_valid)

lemma fh_img_valid: "cksum_law en ck \<Longrightarrow> length eth = 14 \<Longrightarrow> ck (fh_img en ck eth fl nf nfp pnum fs) = 0"
  by (simp add: fh_img_def stamp_valid)

lemma six_bytes:
  assumes "length m = 6 + n"
  obtains a b c d e f r where "m = [a, b, c, d, e, f] @ r" "length r = n"
proof -
  have "\<exists>a b c d e f r. m = a # b # c # d # e # f # r"
    using assms by (auto simp: eval_nat_numeral length_Suc_conv)
  with assms that show thesis by auto
qed



lemma frag_built:
  assumes "length m = 6 + length d"
  shows "stamp en ck 4 (put_at 0 (mem16 en pnum) (put_at 2 [x] (put_at 6 d m))) =
    frag_img en ck pnum x (m ! 3) d"
proof -
  obtain a0 a1 a2 a3 a4 a5 r where m: "m = [a0, a1, a2, a3, a4, a5] @ r" "length r = length d"
    using six_bytes[OF assms] .
  obtain p q where pq: "mem16 en pnum = [p, q]" by (rule mem16_pair)
  have "put_at 0 (mem16 en pnum) (put_at 2 [x] (put_at 6 d m)) =
      put_at 4 [a4, a5] (mem16 en pnum @ [x, m ! 3, 0, 0] @ d)"
    using m by (simp add: put_at_def pq eval_nat_numeral)
  then show ?thesis by (simp add: stamp_put_at frag_img_def)
qed

lemma encap_frag_step:
  assumes "length pre = get_frag fs x" "length mid = 6 + fs" "14 + x * fs + fs \<le> length p"
  shows "encap_frag en ck fs pnum p x (pre @ mid @ post) =
    Some (pre @ frag_img en ck (ucast pnum) (word_of_nat x) (mid ! 3) (take fs (drop (14 + x * fs) p)) @ post)"
  using assms
  by (simp add: encap_frag_def put_at_mid frag_set_checksum_def store_checksum_mid frag_built)

section \<open>Packets as a header and a list of fragments\<close>

lemma length_concat_uniform: "(\<And>F. F \<in> set Fs \<Longrightarrow> length F = m) \<Longrightarrow> length (concat Fs) = length Fs * m"
  by (induction Fs) auto

lemma rdn_frag:
  assumes h: "length h = fh_sz" and u: "\<And>F. F \<in> set Fs \<Longrightarrow> length F = 6 + fs"
    and x: "x < length Fs" and k: "k + n \<le> 6 + fs"
  shows "rdn (h @ concat Fs) (get_frag fs x + k) n = rdn (Fs ! x) k n"
proof -
  let ?pre = "h @ concat (take x Fs)"
  have eq: "h @ concat Fs = ?pre @ Fs ! x @ concat (drop (Suc x) Fs)"
    using id_take_nth_drop[OF x] by (metis append.assoc concat.simps(2) concat_append)
  have "length (concat (take x Fs)) = length (take x Fs) * (6 + fs)"
    by (rule length_concat_uniform) (meson in_set_takeD u)
  then have l: "length ?pre = get_frag fs x" using h x by (simp add: get_frag_def)
  have "length (Fs ! x) = 6 + fs" using u x by simp
  with k l show ?thesis unfolding eq by (subst rdn_mid) auto
qed

lemma fill_loop:
  assumes H: "length H = fh_sz" and J: "length J = n * (6 + fs)" and F: "\<And>x. length (F x) = 6 + fs"
    and step: "\<And>x pre mid post. x < n \<Longrightarrow> length pre = get_frag fs x \<Longrightarrow>
      mid = take (6 + fs) (drop (x * (6 + fs)) J) \<Longrightarrow> length mid = 6 + fs \<Longrightarrow>
      f x (pre @ mid @ post) = Some (pre @ F x @ post)"
  shows "forM f [0..<n] (H @ J) = Some (H @ concat (map F [0..<n]))"
proof -
  define g where "g x = H @ concat (map F [0..<x]) @ drop (x * (6 + fs)) J" for x
  have "f x (g x) = Some (g (Suc x))" if x: "x < n" for x
  proof -
    have len: "length (H @ concat (map F [0..<x])) = get_frag fs x"
      using H F length_concat_uniform[of "map F [0..<x]" "6 + fs"] by (auto simp: get_frag_def)
    have "Suc x * (6 + fs) \<le> n * (6 + fs)" using x by (intro mult_le_mono1) simp
    then have slot: "length (take (6 + fs) (drop (x * (6 + fs)) J)) = 6 + fs" using J by simp
    have "drop (x * (6 + fs)) J =
        take (6 + fs) (drop (x * (6 + fs)) J) @ drop (Suc x * (6 + fs)) J"
      by (metis append_take_drop_id drop_drop mult_Suc)
    then have "g x = (H @ concat (map F [0..<x])) @ take (6 + fs) (drop (x * (6 + fs)) J) @ drop (Suc x * (6 + fs)) J"
      unfolding g_def by (simp only: append_assoc) 
    then have "f x (g x) = Some ((H @ concat (map F [0..<x])) @ F x @ drop (Suc x * (6 + fs)) J)"
      using step[OF x len refl] slot by simp
    then show ?thesis by (simp add: g_def)
  qed
  then have "forM f [0..<n] (g 0) = Some (g n)" by (rule forM_range)
  moreover have "g n = H @ concat (map F [0..<n])" using J by (simp add: g_def)
  ultimately show ?thesis by (simp add: g_def)
qed

lemma fh_img_fields:
  assumes "length eth = 14"
  shows "rd16 en (fh_img en ck eth fl nf nfp pnum fs) off_flags = Some fl"
    and "rd16 en (fh_img en ck eth fl nf nfp pnum fs) off_num_frags = Some nf"
    and "rd16 en (fh_img en ck eth fl nf nfp pnum fs) off_num_frags_packet = Some nfp"
    and "rd16 en (fh_img en ck eth fl nf nfp pnum fs) off_packet_num = Some pnum"
    and "rd16 en (fh_img en ck eth fl nf nfp pnum fs) off_frag_size = Some fs"
    and "rdn (fh_img en ck eth fl nf nfp pnum fs) off_src 6 = Some (take 6 (drop 6 eth))"
    and "rdn (fh_img en ck eth fl nf nfp pnum fs) 0 14 = Some eth"
  using assms by (simp_all add: fh_img_def rd16_stamp rdn_stamp del: rdn_Some) (simp_all add: rd16_def)

lemma frag_img_fields:
  shows "rd16 en (frag_img en ck pnum x j d) 0 = Some pnum"
    and "rdn (frag_img en ck pnum x j d) 2 1 = Some [x]"
    and "rdn (frag_img en ck pnum x j d) 6 (length d) = Some d"
  by (simp_all add: frag_img_def rd16_stamp rdn_stamp del: rdn_Some) (simp_all add: rd16_def)

lemma rd8_rdn: "rd8 b i = map_option hd (rdn b i 1)"
  by (simp add: rd8_def rdn_def hd_drop_conv_nth)

text \<open>Writing the fields of a header and stamping it again.\<close>

lemma fh_img_set_num_frags:
  assumes "length eth = 14"
  shows "stamp en ck off_header_checksum (put_at off_num_frags (mem16 en w) (fh_img en ck eth fl nf nfp pnum fs)) =
    fh_img en ck eth fl w nfp pnum fs"
proof -
  let ?c = "mem16 en (ck (put_at 24 (mem16 en 0) (eth @ mem16 en fl @ mem16 en nf @ mem16 en nfp @ mem16 en pnum @ mem16 en fs @ mem16 en 0)))"
  have "put_at off_num_frags (mem16 en w) (fh_img en ck eth fl nf nfp pnum fs) =
      put_at 24 ?c (eth @ mem16 en fl @ mem16 en w @ mem16 en nfp @ mem16 en pnum @ mem16 en fs @ mem16 en 0)"
    using assms by (simp add: fh_img_def stamp_def put_at_def)
  then show ?thesis using assms by (simp add: stamp_put_at) (simp add: fh_img_def)
qed

lemma fh_img_set_all:
  assumes "length eth = 14"
  shows "stamp en ck off_header_checksum
      (put_at off_frag_size (mem16 en fs') (put_at off_packet_num (mem16 en pnum')
        (put_at off_num_frags (mem16 en nf') (put_at off_num_frags_packet (mem16 en nfp')
          (fh_img en ck eth fl nf nfp pnum fs))))) =
    fh_img en ck eth fl nf' nfp' pnum' fs'"
proof -
  let ?c = "mem16 en (ck (put_at 24 (mem16 en 0) (eth @ mem16 en fl @ mem16 en nf @ mem16 en nfp @ mem16 en pnum @ mem16 en fs @ mem16 en 0)))"
  have "put_at off_frag_size (mem16 en fs') (put_at off_packet_num (mem16 en pnum')
        (put_at off_num_frags (mem16 en nf') (put_at off_num_frags_packet (mem16 en nfp')
          (fh_img en ck eth fl nf nfp pnum fs)))) =
      put_at 24 ?c (eth @ mem16 en fl @ mem16 en nf' @ mem16 en nfp' @ mem16 en pnum' @ mem16 en fs' @ mem16 en 0)"
    using assms by (simp add: fh_img_def stamp_def put_at_def)
  then show ?thesis using assms by (simp add: stamp_put_at) (simp add: fh_img_def)
qed

section \<open>The elements on well-formed packets\<close>

text \<open>A list of fragments of size \<open>fs\<close> with correct checksums.\<close>

definition frags_ok :: "cksum \<Rightarrow> nat \<Rightarrow> byte list list \<Rightarrow> bool" where
  "frags_ok ck fs Fs \<longleftrightarrow> (\<forall>F\<in>set Fs. length F = 6 + fs \<and> ck F = 0)"

lemma frags_ok_length: "frags_ok ck fs Fs \<Longrightarrow> F \<in> set Fs \<Longrightarrow> length F = 6 + fs"
  by (simp add: frags_ok_def)

lemma frags_ok_valid:
  assumes "frags_ok ck fs Fs" "length h = fh_sz" "x < length Fs"
  shows "frag_valid_checksum ck fs (get_frag fs x) (h @ concat Fs) = Some True"
  using rdn_frag[of h Fs fs x 0 "6 + fs"] assms
  by (auto simp: frag_valid_checksum_def frags_ok_def)

lemma check_loop_ok:
  assumes "\<And>x. x \<in> set xs \<Longrightarrow> frag_valid_checksum ck fs (get_frag fs x) p = Some True"
  shows "check_loop ck fs p xs = Some True"
  using assms by (induction xs) auto

lemma check_passes:
  assumes "frags_ok ck fs Fs" "length h = fh_sz" "ck h = 0"
    and "rd16 en h off_num_frags = Some (word_of_nat (length Fs))" "length Fs < 2 ^ 16"
    and "rd16 en h off_frag_size = Some (word_of_nat fs)" "fs < 2 ^ 16"
    and "packet_size (length Fs) fs < 2 ^ 32"
  shows "check_simple_action en ck ho nout (h @ concat Fs) = Some Out0"
proof -
  have len: "length (h @ concat Fs) = packet_size (length Fs) fs"
    using assms(2) length_concat_uniform[of Fs "6 + fs"] frags_ok_length[OF assms(1)]
    by (simp add: packet_size_def add.commute)
  have "check_loop ck fs (h @ concat Fs) [0..<length Fs] = Some True"
    using frags_ok_valid[OF assms(1,2)] by (intro check_loop_ok) auto
  moreover have "fh_valid_checksum ck (h @ concat Fs) = Some True"
    using assms(2,3) by (simp add: fh_valid_checksum_def)
  moreover have "unat (word_of_nat (length Fs) :: u16) = length Fs" "unat (word_of_nat fs :: u16) = fs"
    using assms(5,7) by (simp_all add: unat_of_nat_small)
  ultimately show ?thesis
    using assms(2,4,6,8) len by (simp add: check_simple_action_def rd16_append1 Let_def)
qed

lemma fragment_one_img:
  assumes "frags_ok ck (unat fs) Fs" "length eth = 14" "x < length Fs"
  shows "fragment_one en ck (fh_img en ck eth fl nf nfp pnum fs @ concat Fs) x =
    Some [fh_img en ck eth fl 1 nfp pnum fs @ Fs ! x]"
proof -
  define h where "h = fh_img en ck eth fl nf nfp pnum fs"
  have h: "length h = fh_sz" using assms(2) by (simp add: h_def)
  have f: "rdn (h @ concat Fs) (fh_sz + x * (unat fs + frag_sz)) (frag_sz + unat fs) = Some (Fs ! x)"
    using rdn_frag[of h Fs "unat fs" x 0 "6 + unat fs"] h assms(1,3)
    by (simp add: get_frag_def frags_ok_def add.commute)
  have fs: "rd16 en (h @ concat Fs) off_frag_size = Some fs"
    using h assms(2) by (simp add: rd16_append1) (simp add: h_def fh_img_fields)
  have "fh_set_checksum en ck (put_at off_num_frags (mem16 en 1) h) = Some (fh_img en ck eth fl 1 nfp pnum fs)"
    using store_checksum_mid[of "[]" 0 "put_at off_num_frags (mem16 en 1) h" fh_sz 24 en ck "[]"] h assms(2)
    by (simp add: fh_set_checksum_def h_def fh_img_set_num_frags)
  moreover have "rdn (h @ concat Fs) 0 fh_sz = Some h" using h by simp
  ultimately have "fragment_one en ck (h @ concat Fs) x = Some [fh_img en ck eth fl 1 nfp pnum fs @ Fs ! x]"
    unfolding fragment_one_def using frags_ok_valid[OF assms(1) h assms(3)] f fs h by simp
  then show ?thesis unfolding h_def .
qed

lemma fragment_img:
  assumes "frags_ok ck (unat fs) Fs" "length eth = 14" "unat nf = length Fs"
  shows "fragment_push en ck (fh_img en ck eth fl nf nfp pnum fs @ concat Fs) =
    Some (map (\<lambda>F. fh_img en ck eth fl 1 nfp pnum fs @ F) Fs)"
proof -
  define p where "p = fh_img en ck eth fl nf nfp pnum fs @ concat Fs"
  have nf: "rd16 en p off_num_frags = Some nf"
    using assms(2) by (simp add: p_def rd16_append1 fh_img_fields)
  have "those (map (fragment_one en ck p) [0..<length Fs]) =
      Some (map (\<lambda>x. [fh_img en ck eth fl 1 nfp pnum fs @ Fs ! x]) [0..<length Fs])"
    using fragment_one_img[OF assms(1,2)] by (intro those_map_Some) (simp add: p_def)
  moreover have "concat (map (\<lambda>x. [fh_img en ck eth fl 1 nfp pnum fs @ Fs ! x]) [0..<length Fs]) =
      map (\<lambda>F. fh_img en ck eth fl 1 nfp pnum fs @ F) Fs"
    by (rule nth_equalityI) (auto simp: concat_map_singleton)
  ultimately have "fragment_push en ck p = Some (map (\<lambda>F. fh_img en ck eth fl 1 nfp pnum fs @ F) Fs)"
    unfolding fragment_push_def using nf assms(3) by simp
  then show ?thesis unfolding p_def .
qed

lemma decap_img:
  assumes "\<And>F. F \<in> set Fs \<Longrightarrow> length F = 6 + unat fs" "length eth = 14" "unat nf = length Fs" "unat nf * unat fs < 2 ^ 31"
  shows "decap_simple_action en (fh_img en ck eth fl nf nfp pnum fs @ concat Fs) =
    Some (Some (eth @ concat (map (drop 6) Fs)))"
proof -
  define h where "h = fh_img en ck eth fl nf nfp pnum fs"
  have h: "length h = fh_sz" "rd16 en h off_num_frags = Some nf" "rd16 en h off_frag_size = Some fs" "take 14 h = eth"
    using assms(2) fh_img_fields(7)[OF assms(2), of en ck fl nf nfp pnum fs]
    by (simp_all add: h_def fh_img_fields)
  have "rdn (h @ concat Fs) (fh_sz + x * (frag_sz + unat fs) + frag_sz) (unat fs) = Some (drop 6 (Fs ! x))"
    if "x < length Fs" for x
    using rdn_frag[of h Fs "unat fs" x 6 "unat fs"] that h(1) assms(1)
    by (simp add: get_frag_def)
  then have "those (map (\<lambda>x. rdn (h @ concat Fs) (fh_sz + x * (frag_sz + unat fs) + frag_sz) (unat fs)) [0..<length Fs]) =
      Some (map (\<lambda>x. drop 6 (Fs ! x)) [0..<length Fs])"
    by (intro those_map_Some) simp
  moreover have "map (\<lambda>x. drop 6 (Fs ! x)) [0..<length Fs] = map (drop 6) Fs"
    by (rule nth_equalityI) auto
  ultimately have "decap_simple_action en (h @ concat Fs) = Some (Some (eth @ concat (map (drop 6) Fs)))"
    unfolding decap_simple_action_def using h assms(3,4) by (simp add: rd16_append1)
  then show ?thesis unfolding h_def .
qed

subsection \<open>Reassembly\<close>

text \<open>The fragment packets of one packet, and what the table holds after those in \<open>S\<close> arrived.\<close>

definition frag_packet ::
    "endian \<Rightarrow> cksum \<Rightarrow> byte list \<Rightarrow> u16 \<Rightarrow> u16 \<Rightarrow> u16 \<Rightarrow> u16 \<Rightarrow> (nat \<Rightarrow> byte) \<Rightarrow> (nat \<Rightarrow> byte list) \<Rightarrow> nat \<Rightarrow> byte list" where
  "frag_packet en ck eth fl nfp pnum fs j d x =
     fh_img en ck eth fl 1 nfp pnum fs @ frag_img en ck pnum (word_of_nat x) (j x) (d x)"

definition info_of :: "byte list \<Rightarrow> u16 \<Rightarrow> nat \<Rightarrow> nat \<Rightarrow> (nat \<Rightarrow> byte list) \<Rightarrow> nat set \<Rightarrow> packet_info" where
  "info_of eth pnum n fs P S =
     \<lparr>pi_src = take 6 (drop 6 eth), pi_packet = pnum, pi_num_frags = n, pi_frag_size = fs,
      pi_fragments_rx = card S, pi_fragments = map (\<lambda>x. if x \<in> S then Some (P x) else None) [0..<n]\<rparr>"

lemma info_of_empty: "new_packet_info (take 6 (drop 6 eth)) pnum fs n = info_of eth pnum n fs P {}"
  by (simp add: info_of_def new_packet_info_def map_replicate_trivial)

lemma info_of_insert:
  assumes "x < n" "x \<notin> S" "finite S"
  shows "(info_of eth pnum n fs P S)\<lparr>pi_fragments := (pi_fragments (info_of eth pnum n fs P S))[x := Some (P x)],
      pi_fragments_rx := pi_fragments_rx (info_of eth pnum n fs P S) + 1\<rparr> = info_of eth pnum n fs P (insert x S)"
proof -
  have "(map (\<lambda>x. if x \<in> S then Some (P x) else None) [0..<n])[x := Some (P x)] =
      map (\<lambda>y. if y \<in> insert x S then Some (P y) else None) [0..<n]"
    by (rule nth_equalityI) (use assms in \<open>auto simp: nth_list_update\<close>)
  with assms show ?thesis by (simp add: info_of_def)
qed

lemma reassemble_full:
  assumes eth: "length eth = 14" and nfp: "unat nfp = n" and n: "0 < n"
    and d: "\<And>x. x < n \<Longrightarrow> length (d x) = unat fs" and sz: "packet_size n (unat fs) < 2 ^ 32"
  shows "reassemble en ck junk (info_of eth pnum n (unat fs) (frag_packet en ck eth fl nfp pnum fs j d) {..<n}) =
    Some (fh_img en ck eth fl nfp nfp pnum fs @
      concat (map (\<lambda>x. frag_img en ck pnum (word_of_nat x) (j x) (d x)) [0..<n]))"
proof -
  define h where "h = fh_img en ck eth fl 1 nfp pnum fs"
  define i where "i = info_of eth pnum n (unat fs) (frag_packet en ck eth fl nfp pnum fs j d) {..<n}"
  define J where "J = map junk [fh_sz..<packet_size n (unat fs)]"
  have i: "pi_num_frags i = n" "pi_frag_size i = unat fs" "pi_packet i = pnum"
    "x < n \<Longrightarrow> pi_fragments i ! x = Some (h @ frag_img en ck pnum (word_of_nat x) (j x) (d x))" for x
    by (simp_all add: i_def info_of_def frag_packet_def h_def)
  have h: "length h = fh_sz" using eth by (simp add: h_def)
  have J: "length J = n * (6 + unat fs)" by (simp add: J_def packet_size_def add.commute)
  have buf: "map junk [0..<packet_size n (unat fs)] = map junk [0..<fh_sz] @ J"
    unfolding J_def by (metis map_append le_add1 packet_size_def upt_add_eq_append le0 le_Suc_ex)
  have b1: "put_at 0 h (map junk [0..<packet_size n (unat fs)]) = h @ J"
    unfolding buf using h by (simp add: put_at_def)
  have put: "put_at k w (g @ J) = put_at k w g @ J" if "k + length w \<le> length g" for k w and g :: "byte list"
    using that put_at_mid[of "[]" k w g J] by simp
  define H where "H = fh_img en ck eth fl nfp nfp pnum fs"
  have H: "length H = fh_sz" using eth by (simp add: H_def)
  have b6: "fh_set_checksum en ck (put_at off_frag_size (mem16 en fs) (put_at off_packet_num (mem16 en pnum)
        (put_at off_num_frags (mem16 en nfp) (put_at off_num_frags_packet (mem16 en nfp) h))) @ J) = Some (H @ J)"
    unfolding fh_set_checksum_def using h store_checksum_mid[of "[]" 0] eth
    by (simp add: fh_img_set_all h_def H_def)
  have loop: "forM (defrag_copy i) [0..<n] (H @ J) =
      Some (H @ concat (map (\<lambda>x. let y = (if x < n then d x else replicate (unat fs) 0)
        in frag_img en ck pnum (word_of_nat x) (j x) y) [0..<n]))"
    using d by (intro fill_loop[OF H J]) (auto simp: Let_def defrag_copy_def i h J get_frag_def put_at_def)
  have map_eq: "map (\<lambda>x. let y = (if x < n then d x else replicate (unat fs) 0)
        in frag_img en ck pnum (word_of_nat x) (j x) y) [0..<n] =
      map (\<lambda>x. frag_img en ck pnum (word_of_nat x) (j x) (d x)) [0..<n]" by simp
  have w: "word_of_nat n = nfp" "word_of_nat (unat fs) = fs" using nfp by auto
  have "reassemble en ck junk i = Some (H @ concat (map (\<lambda>x. frag_img en ck pnum (word_of_nat x) (j x) (d x)) [0..<n]))"
    unfolding reassemble_def Let_def i(1,2,3) w
    using n sz h J b1 b6 loop[unfolded map_eq] i(4)[of 0]
    by (simp add: put packet_size_def)
  then show ?thesis unfolding H_def i_def .
qed

lemma defrag_step:
  assumes law: "cksum_law en ck" and eth: "length eth = 14" and nfp: "unat nfp = n" "n \<le> 256"
    and d: "\<And>x. x < n \<Longrightarrow> length (d x) = unat fs" and sz: "packet_size n (unat fs) < 2 ^ 32"
    and P: "P = frag_packet en ck eth fl nfp pnum fs j d"
    and S: "S \<subseteq> {..<n}" "x < n" "x \<notin> S"
    and t: "t pnum = Some (info_of eth pnum n (unat fs) P S) \<or> t pnum = None \<and> S = {}"
  shows "defrag_simple_action en ck junk t (P x) =
    (if card (insert x S) \<noteq> n then Some (t(pnum \<mapsto> info_of eth pnum n (unat fs) P (insert x S)), None)
     else Some (t(pnum := None), Some (fh_img en ck eth fl nfp nfp pnum fs @
      concat (map (\<lambda>x. frag_img en ck pnum (word_of_nat x) (j x) (d x)) [0..<n]))))"
proof -
  define h where "h = fh_img en ck eth fl 1 nfp pnum fs"
  define F where "F = frag_img en ck pnum (word_of_nat x) (j x) (d x)"
  have Px: "P x = h @ F @ []" by (simp add: P frag_packet_def h_def F_def)
  have h: "length h = fh_sz" "rd16 en h off_frag_size = Some fs" "rd16 en h off_num_frags_packet = Some nfp"
    "rdn h off_src 6 = Some (take 6 (drop 6 eth))"
    using eth by (simp_all add: h_def fh_img_fields del: rdn_Some)
  have lF: "length F = 6 + unat fs" using d S(2) by (simp add: F_def)
  have b: "unat (word_of_nat x :: byte) = x" using S(2) nfp(2) by (intro unat_of_nat_small) simp
  have rF: "rd16 en (P x) fh_sz = Some pnum" "rd8 (P x) (fh_sz + 2) = Some (word_of_nat x)"
    using frag_img_fields(1)[of en ck pnum "word_of_nat x" "j x" "d x"]
      frag_img_fields(2)[of en ck pnum "word_of_nat x" "j x" "d x"] h(1) lF
    unfolding Px by (simp_all add: rd16_def rd8_rdn rdn_mid F_def del: append_Nil2 rdn_Some)
  have ok: "frag_valid_checksum ck (unat fs) fh_sz (P x) = Some True"
    using h(1) lF frag_img_valid[OF law] unfolding Px frag_valid_checksum_def by (simp add: F_def)
  have lk: "(case t pnum of Some i \<Rightarrow> i | None \<Rightarrow> new_packet_info (take 6 (drop 6 eth)) pnum (unat fs) (unat nfp)) =
      info_of eth pnum n (unat fs) P S"
    using t nfp(1) info_of_empty[of eth pnum "unat fs" n P] by auto
  define i where "i = info_of eth pnum n (unat fs) P S"
  have i: "length (pi_fragments i) = n" "pi_fragments i ! x = None" using S by (simp_all add: i_def info_of_def)
  have i1: "i\<lparr>pi_fragments := (pi_fragments i)[x := Some (P x)], pi_fragments_rx := pi_fragments_rx i + 1\<rparr> =
      info_of eth pnum n (unat fs) P (insert x S)"
    unfolding i_def using S by (intro info_of_insert) (auto intro: finite_subset)
  have act: "defrag_simple_action en ck junk t (P x) = defrag_store en ck junk x pnum i (t(pnum \<mapsto> i)) (P x)"
    unfolding defrag_simple_action_def using ok h lF rF lk
    by (simp add: Px rd16_append1 rdn_append1 b i_def Let_def del: rdn_Some)
  show ?thesis
  proof (cases "card (insert x S) = n")
    case True
    then have "insert x S = {..<n}" using S by (intro card_subset_eq) auto
    then have "reassemble en ck junk (info_of eth pnum n (unat fs) P (insert x S)) =
        Some (fh_img en ck eth fl nfp nfp pnum fs @
          concat (map (\<lambda>x. frag_img en ck pnum (word_of_nat x) (j x) (d x)) [0..<n]))"
      using reassemble_full[OF eth nfp(1), where d = d and fs = fs and en = en and ck = ck and junk = junk and pnum = pnum and fl = fl and j = j]
        d sz S(2) unfolding P by simp
    then show ?thesis using True S(2) i unfolding act defrag_store_def i1 Let_def by (simp add: info_of_def)
  next
    case False
    then show ?thesis using S(2) i unfolding act defrag_store_def i1 Let_def by (simp add: info_of_def)
  qed
qed

text \<open>A sequence of packets pushed through \<open>Defragment\<close>, with what it emits.\<close>

fun defrag_run ::
    "endian \<Rightarrow> cksum \<Rightarrow> (nat \<Rightarrow> byte) \<Rightarrow> defragment \<Rightarrow> byte list list \<Rightarrow> (defragment \<times> byte list list) option" where
  "defrag_run en ck junk t [] = Some (t, [])"
| "defrag_run en ck junk t (p # ps) =
     do {
       (t1, q) \<leftarrow> defrag_simple_action en ck junk t p;
       (t2, qs) \<leftarrow> defrag_run en ck junk t1 ps;
       Some (t2, (case q of None \<Rightarrow> qs | Some r \<Rightarrow> r # qs))
     }"

lemma defrag_run_all:
  assumes law: "cksum_law en ck" and eth: "length eth = 14" and nfp: "unat nfp = n" "n \<le> 256"
    and d: "\<And>x. x < n \<Longrightarrow> length (d x) = unat fs" and sz: "packet_size n (unat fs) < 2 ^ 32"
    and P: "P = frag_packet en ck eth fl nfp pnum fs j d"
    and xs: "distinct xs" "S \<subseteq> {..<n}" "set xs = {..<n} - S" "xs \<noteq> []"
    and t: "t pnum = Some (info_of eth pnum n (unat fs) P S) \<or> t pnum = None \<and> S = {}"
  shows "defrag_run en ck junk t (map P xs) = Some (t(pnum := None), [fh_img en ck eth fl nfp nfp pnum fs @
      concat (map (\<lambda>x. frag_img en ck pnum (word_of_nat x) (j x) (d x)) [0..<n])])"
  using xs t
proof (induction xs arbitrary: S t)
  case Nil
  then show ?case by simp
next
  case (Cons x xs)
  have x: "x < n" "x \<notin> S" using Cons.prems(3) by auto
  have S': "insert x S \<subseteq> {..<n}" "set xs = {..<n} - insert x S" using Cons.prems(1-3) x by auto
  note step = defrag_step[OF law eth nfp, where d = d and fs = fs and P = P and fl = fl and j = j and t = t and junk = junk,
      OF d sz P Cons.prems(2) x Cons.prems(5)]
  show ?case
  proof (cases "xs = []")
    case True
    then have "insert x S = {..<n}" using S' by auto
    then have "card (insert x S) = n" by simp
    then have "defrag_simple_action en ck junk t (P x) = Some (t(pnum := None), Some (fh_img en ck eth fl nfp nfp pnum fs @
          concat (map (\<lambda>x. frag_img en ck pnum (word_of_nat x) (j x) (d x)) [0..<n])))"
      using step by simp
    then show ?thesis unfolding True by simp (rule ext, simp)
  next
    case False
    have "insert x S \<noteq> {..<n}" using False S'(2) by (metis Diff_cancel set_empty)
    then have "card (insert x S) \<noteq> n" using S'(1) card_subset_eq[of "{..<n}" "insert x S"] by auto
    moreover have "defrag_run en ck junk (t(pnum \<mapsto> info_of eth pnum n (unat fs) P (insert x S))) (map P xs) =
        Some (t(pnum := None), [fh_img en ck eth fl nfp nfp pnum fs @
          concat (map (\<lambda>x. frag_img en ck pnum (word_of_nat x) (j x) (d x)) [0..<n])])"
      using Cons.IH[OF _ S'(1,2) False, of "t(pnum \<mapsto> info_of eth pnum n (unat fs) P (insert x S))"] Cons.prems(1)
      by (simp add: fun_upd_def cong: if_cong)
    ultimately show ?thesis using step by simp (rule ext, simp)
  qed
qed

subsection \<open>Encapsulation\<close>

definition encap_img :: "endian \<Rightarrow> cksum \<Rightarrow> (nat \<Rightarrow> byte) \<Rightarrow> fragment_encap \<Rightarrow> byte list \<Rightarrow> nat \<Rightarrow> byte list" where
  "encap_img en ck junk s p x =
     (let fs = unat (enc_frag_length s)
      in frag_img en ck (ucast (enc_packet_num s)) (word_of_nat x) (junk (get_frag fs x + 3))
           (take fs (drop (14 + x * fs) p)))"

lemma encap_build_img:
  assumes fs: "fs = unat (enc_frag_length s)" "fs < 2 ^ 16" and p: "14 + n * fs \<le> length p"
    and sz: "packet_size n fs < 2 ^ 32"
  shows "encap_build en ck junk s n p =
    Some (fh_img en ck (take 14 p) 0 (word_of_nat n) (word_of_nat n) (ucast (enc_packet_num s)) (ucast (enc_frag_length s))
      @ concat (map (encap_img en ck junk s p) [0..<n]))"
proof -
  define raw where "raw = take 14 p @ mem16 en 0 @ mem16 en (word_of_nat n) @ mem16 en (word_of_nat n) @
      mem16 en (ucast (enc_packet_num s)) @ mem16 en (ucast (enc_frag_length s)) @ mem16 en 0"
  define H where "H = stamp en ck off_header_checksum raw"
  define J where "J = map junk [fh_sz..<packet_size n fs]"
  have raw: "length raw = fh_sz" using p by (simp add: raw_def)
  then have H: "length H = fh_sz" by (simp add: H_def)
  have J: "length J = n * (6 + fs)" by (simp add: J_def packet_size_def add.commute)
  have buf: "map junk [0..<packet_size n fs] = map junk [0..<fh_sz] @ J"
    unfolding J_def by (metis map_append le_add1 packet_size_def upt_add_eq_append le0 le_Suc_ex)
  have b: "put_at 0 raw (map junk [0..<packet_size n fs]) = raw @ J"
    unfolding buf using raw by (simp add: put_at_def)
  have b1: "fh_set_checksum en ck (raw @ J) = Some (H @ J)"
    using store_checksum_mid[of "[]" 0 raw fh_sz 24 en ck J] raw by (simp add: fh_set_checksum_def H_def)
  have u: "unat (ucast (enc_frag_length s) :: u16) = fs"
    using fs by (simp add: unsigned_ucast_eq take_bit_eq_mod)
  have slot: "(take (6 + fs) (drop (x * (6 + fs)) J)) ! 3 = junk (get_frag fs x + 3)" if "x < n" for x
  proof -
    have "Suc x * (6 + fs) \<le> n * (6 + fs)" using that by (intro mult_le_mono1) simp
    then have "x * (6 + fs) + 3 < length J" using J by simp
    then have "J ! (x * (6 + fs) + 3) = junk (get_frag fs x + 3)"
      unfolding J_def by (subst nth_map) (simp_all add: get_frag_def)
    with \<open>x * (6 + fs) + 3 < length J\<close> show ?thesis by simp
  qed
  have step: "encap_frag en ck fs (enc_packet_num s) p x (pre @ mid @ post) =
      Some (pre @ (if x < n then encap_img en ck junk s p x else replicate (6 + fs) 0) @ post)"
    if "x < n" "length pre = get_frag fs x" "mid = take (6 + fs) (drop (x * (6 + fs)) J)" "length mid = 6 + fs" for x pre mid post
  proof -
    have "Suc x * fs \<le> n * fs" using that(1) by (intro mult_le_mono1) simp
    then have "14 + x * fs + fs \<le> length p" using p by simp
    from encap_frag_step[OF that(2,4) this] show ?thesis
      using that(1,3) slot by (simp add: encap_img_def fs(1) Let_def)
  qed
  have lens: "length (if x < n then encap_img en ck junk s p x else replicate (6 + fs) 0) = 6 + fs" for x
  proof (cases "x < n")
    case True
    then have "Suc x * fs \<le> n * fs" by (intro mult_le_mono1) simp
    with p True show ?thesis by (simp add: encap_img_def Let_def fs(1))
  qed simp
  have "forM (encap_frag en ck fs (enc_packet_num s) p) [0..<n] (H @ J) =
      Some (H @ concat (map (\<lambda>x. if x < n then encap_img en ck junk s p x else replicate (6 + fs) 0) [0..<n]))"
    by (rule fill_loop[OF H J lens step])
  moreover have "map (\<lambda>x. if x < n then encap_img en ck junk s p x else replicate (6 + fs) 0) [0..<n] =
      map (encap_img en ck junk s p) [0..<n]" by simp
  ultimately show ?thesis
    unfolding encap_build_def Let_def u raw_def[symmetric] fh_img_def H_def[symmetric]
    using sz raw b b1 fs(1) by (simp add: packet_size_def H_def raw_def[symmetric])
qed

lemma encap_img_length:
  assumes "fs = unat (enc_frag_length s)" "14 + n * fs \<le> length p" "x < n"
  shows "length (encap_img en ck junk s p x) = 6 + fs"
proof -
  have "Suc x * fs \<le> n * fs" using assms(3) by (intro mult_le_mono1) simp
  with assms(2) show ?thesis by (simp add: encap_img_def Let_def assms(1))
qed

lemma drop_img: "k = 6 \<Longrightarrow> drop k (frag_img en ck pnum x j d) = d"
  using frag_img_fields(3)[of en ck pnum x j d] by simp

lemma encap_chunks:
  assumes "fs = unat (enc_frag_length s)" "14 + n * fs \<le> length p"
  shows "concat (map (\<lambda>x. drop 6 (encap_img en ck junk s p x)) [0..<n]) = take (n * fs) (drop 14 p)"
  using assms(2)
proof (induction n)
  case 0
  then show ?case by simp
next
  case (Suc n)
  have "take (Suc n * fs) (drop 14 p) = take (n * fs) (drop 14 p) @ take fs (drop (n * fs) (drop 14 p))"
    by (metis add.commute mult_Suc take_add)
  with Suc show ?case by (simp add: encap_img_def Let_def drop_img assms(1) add.commute)
qed

lemma encap_overread:
  assumes fs: "fs = unat (enc_frag_length s)" "fs < 2 ^ 16" and p: "length p < 14 + Suc n * fs"
  shows "encap_build en ck junk s (Suc n) p = None"
proof -
  have u: "unat (ucast (enc_frag_length s) :: u16) = fs"
    using fs by (simp add: unsigned_ucast_eq take_bit_eq_mod)
  have "encap_frag en ck fs pn p n b = None" for pn b
    using p by (simp add: encap_frag_def)
  then have "forM (encap_frag en ck fs pn p) [0..<Suc n] b = None" for pn b
    by (simp add: forM_append bind_eq_None_conv)
  then show ?thesis unfolding encap_build_def Let_def u by (simp add: bind_eq_None_conv)
qed

section \<open>Properties\<close>

lemma mset_map_order:
  assumes "mset gs = mset (map f ys)"
  obtains xs where "mset xs = mset ys" "gs = map f xs"
  using assms
proof (induction gs arbitrary: ys thesis)
  case Nil
  then show ?case by simp
next
  case (Cons g gs)
  have "g \<in> set (map f ys)" using mset_eq_setD[OF Cons.prems(2)] by auto
  then obtain y where y: "y \<in> set ys" "g = f y" by auto
  then have "mset ys = add_mset y (mset (remove1 y ys))" by simp
  then have "image_mset f (mset ys) = add_mset g (image_mset f (mset (remove1 y ys)))" by (simp only: y image_mset_add_mset)
  then have "mset gs = mset (map f (remove1 y ys))" using Cons.prems(2)
    unfolding mset_map mset.simps(2) by (metis add_mset_remove_trivial)
  from Cons.IH[OF _ this] obtain xs where "mset xs = mset (remove1 y ys)" "gs = map f xs" by blast
  with y show ?case by (intro Cons.prems(1)[of "y # xs"]) auto
qed

lemma packet_size_bound: "n \<le> 256 \<Longrightarrow> fs < 2 ^ 16 \<Longrightarrow> packet_size n fs < 2 ^ 32"
proof -
  assume "n \<le> 256" "fs < 2 ^ 16"
  then have "n * (fs + 6) \<le> 256 * (2 ^ 16 + 6)" by (intro mult_le_mono) auto
  then show ?thesis by (simp add: packet_size_def)
qed

text \<open>
  Property C9: fragmentation round trip. A packet whose data is a whole number \<open>n\<close> (at most
  256) of fragment lengths is encapsulated; the result passes \<open>CheckFragment\<close>; \<open>Fragment\<close> cuts it
  into \<open>n\<close> packets that pass \<open>CheckFragment\<close>; and in whatever order these reach a \<open>Defragment\<close>
  that has no packet of that number, exactly one packet comes out, which passes
  \<open>CheckFragment\<close> and which \<open>FragmentDecap\<close> turns back into the original, and the table is as
  before.
\<close>

theorem fragmentation_roundtrip:
  assumes law: "cksum_law en ck"
    and L: "L = unat (enc_frag_length s)" "0 < L" "L < 2 ^ 16"
    and p: "length p = 14 + n * L" "0 < n" "n \<le> 256"
    and t: "t (ucast (enc_packet_num s)) = None"
  shows "\<exists>q frs. encap_simple_action en ck junk s p = Inr (s\<lparr>enc_packet_num := enc_packet_num s + 1\<rparr>, Some q) \<and>
    check_simple_action en ck ho nout q = Some Out0 \<and> fragment_push en ck q = Some frs \<and> length frs = n \<and>
    (\<forall>f\<in>set frs. check_simple_action en ck ho nout f = Some Out0) \<and>
    (\<forall>gs. mset gs = mset frs \<longrightarrow> (\<exists>r. defrag_run en ck junk' t gs = Some (t, [r]) \<and>
       check_simple_action en ck ho nout r = Some Out0 \<and> decap_simple_action en r = Some (Some p)))"
proof -
  define eth where "eth = take 14 p"
  define pnum where "pnum = (ucast (enc_packet_num s) :: u16)"
  define nf where "nf = (word_of_nat n :: u16)"
  define fs where "fs = (ucast (enc_frag_length s) :: u16)"
  define j where "j x = junk (get_frag L x + 3)" for x
  define d where "d x = take L (drop (14 + x * L) p)" for x
  define F where "F x = frag_img en ck pnum (word_of_nat x) (j x) (d x)" for x
  define Fs where "Fs = map F [0..<n]"
  define q where "q = fh_img en ck eth 0 nf nf pnum fs @ concat Fs"
  define P where "P = frag_packet en ck eth 0 nf pnum fs j d"
  have eth: "length eth = 14" using p by (simp add: eth_def)
  have nf: "unat nf = n" using p(3) unfolding nf_def by (intro unat_of_nat_small) simp
  have fs: "unat fs = L" "fs = word_of_nat L" using L(1,3) by (simp_all add: fs_def unsigned_ucast_eq take_bit_eq_mod unsigned_word_eqI unat_of_nat)
  have sz: "packet_size n L < 2 ^ 32" "packet_size 1 L < 2 ^ 32" using packet_size_bound p(3) L(3) by auto
  have F: "F x = encap_img en ck junk s p x" for x by (simp add: F_def encap_img_def Let_def pnum_def j_def d_def L(1))
  have lF: "length (F x) = 6 + L" if "x < n" for x unfolding F by (rule encap_img_length[OF L(1) _ that]) (simp add: p)
  have ok: "frags_ok ck L Fs" unfolding frags_ok_def Fs_def using lF frag_img_valid[OF law] by (auto simp: F_def)
  have d: "length (d x) = unat fs" if "x < n" for x using lF[OF that] fs by (simp add: F_def)
  have mod: "n * L mod L = 0" "(n * L) div L = n" using L(2) by auto
  have enc: "encap_simple_action en ck junk s p = Inr (s\<lparr>enc_packet_num := enc_packet_num s + 1\<rparr>, Some q)"
    using encap_build_img[OF L(1,3), of n p en ck junk] sz(1) p(1,2) L(1,2)
    by (simp add: encap_simple_action_def Let_def q_def Fs_def F eth_def nf_def pnum_def fs_def cong: map_cong)
  have chk: "check_simple_action en ck ho nout q = Some Out0" unfolding q_def
    using ok eth fh_img_valid[OF law eth] L(3) sz(1) p(3) fs by (intro check_passes) (auto simp: fh_img_fields Fs_def nf_def)
  have frs: "fragment_push en ck q = Some (map P [0..<n])"
    using fragment_img[of ck fs Fs eth nf en 0 nf pnum] ok eth nf fs
    by (simp add: q_def P_def frag_packet_def Fs_def F_def comp_def)
  have "frags_ok ck L [F x]" if "x < n" for x using ok that by (auto simp: frags_ok_def Fs_def)
  then have chks: "check_simple_action en ck ho nout (P x) = Some Out0" if "x < n" for x
    using check_passes[of ck L "[F x]" "fh_img en ck eth 0 1 nf pnum fs" en ho nout] that eth fh_img_valid[OF law eth] L(3) sz(2) fs
    by (simp add: fh_img_fields P_def frag_packet_def F_def)
  have dec: "decap_simple_action en q = Some (Some p)"
  proof -
    have "n * L \<le> 256 * 2 ^ 16" using p(3) L(3) by (intro mult_le_mono) auto
    then have "decap_simple_action en q = Some (Some (eth @ concat (map (drop 6) Fs)))"
      unfolding q_def using ok eth nf fs by (intro decap_img) (auto simp: frags_ok_def Fs_def)
    moreover have "concat (map (drop 6) Fs) = drop 14 p"
      using encap_chunks[OF L(1), of n p en ck junk] p(1) by (simp add: Fs_def F comp_def)
    ultimately show ?thesis by (simp add: eth_def)
  qed
  have run: "defrag_run en ck junk' t gs = Some (t, [q])" if gs: "mset gs = mset (map P [0..<n])" for gs
  proof -
    obtain xs where xs: "mset xs = mset [0..<n]" "gs = map P xs" using gs by (rule mset_map_order)
    have dx: "distinct xs" using mset_eq_imp_distinct_iff[OF xs(1)] by simp
    have sx: "set xs = {..<n} - {}" using mset_eq_setD[OF xs(1)] by (simp add: atLeast0LessThan)
    have "0 \<in> set xs" unfolding sx using p(2) by simp
    then have nx: "xs \<noteq> []" by (metis empty_iff list.set(1))
    have sz': "packet_size n (unat fs) < 2 ^ 32" using sz(1) fs(1) by simp
    have "defrag_run en ck junk' t (map P xs) = Some (t(pnum := None), [q])"
      unfolding q_def Fs_def F_def
      by (rule defrag_run_all[OF law eth nf p(3) d sz' P_def dx _ sx nx]) (use t pnum_def in auto)
    moreover have "t(pnum := None) = t" using t pnum_def by auto
    ultimately show ?thesis by (simp only: xs(2))
  qed
  show ?thesis using enc chk frs chks dec run by (intro exI[of _ q] exI[of _ "map P [0..<n]"]) auto
qed

theorem fragmentation_roundtrip_witness:
  "\<exists>q frs. encap_simple_action LittleEndian (rfc1071 LittleEndian) (\<lambda>_. 0xAA) \<lparr>enc_frag_length = 3, enc_packet_num = 9\<rparr> (replicate 20 7) =
      Inr (\<lparr>enc_frag_length = 3, enc_packet_num = 10\<rparr>, Some q) \<and>
    check_simple_action LittleEndian (rfc1071 LittleEndian) False 1 q = Some Out0 \<and>
    fragment_push LittleEndian (rfc1071 LittleEndian) q = Some frs \<and> length frs = 2 \<and>
    (\<exists>r. defrag_run LittleEndian (rfc1071 LittleEndian) (\<lambda>_. 0xBB) Map.empty (rev frs) = Some (Map.empty, [r]) \<and>
      decap_simple_action LittleEndian r = Some (Some (replicate 20 7)))"
proof -
  from fragmentation_roundtrip[OF rfc1071_law, of 3 "\<lparr>enc_frag_length = 3, enc_packet_num = 9\<rparr>" "replicate 20 7" 2 Map.empty
      LittleEndian "\<lambda>_. 0xAA" False 1 "\<lambda>_. 0xBB"]
  obtain q frs where "encap_simple_action LittleEndian (rfc1071 LittleEndian) (\<lambda>_. 0xAA) \<lparr>enc_frag_length = 3, enc_packet_num = 9\<rparr> (replicate 20 7) =
      Inr (\<lparr>enc_frag_length = 3, enc_packet_num = 9\<rparr>\<lparr>enc_packet_num := 9 + 1\<rparr>, Some q)"
    "check_simple_action LittleEndian (rfc1071 LittleEndian) False 1 q = Some Out0"
    "fragment_push LittleEndian (rfc1071 LittleEndian) q = Some frs" "length frs = 2"
    and r: "\<forall>gs. mset gs = mset frs \<longrightarrow> (\<exists>r. defrag_run LittleEndian (rfc1071 LittleEndian) (\<lambda>_. 0xBB) Map.empty gs = Some (Map.empty, [r]) \<and>
       check_simple_action LittleEndian (rfc1071 LittleEndian) False 1 r = Some Out0 \<and> decap_simple_action LittleEndian r = Some (Some (replicate 20 7)))"
    by auto
  moreover from r have "\<exists>r. defrag_run LittleEndian (rfc1071 LittleEndian) (\<lambda>_. 0xBB) Map.empty (rev frs) = Some (Map.empty, [r]) \<and>
      decap_simple_action LittleEndian r = Some (Some (replicate 20 7))" by (metis mset_rev)
  ultimately show ?thesis by simp
qed

text \<open>
  What \<open>FragmentEncap\<close> does with \<open>D\<close> bytes of data and fragments of \<open>L\<close> bytes.
  Less data than one fragment divides by zero. Otherwise, with \<open>r\<close> the remainder, the number of
  fragments is rounded up only if the number of whole fragments does not divide \<open>r\<close>, and then
  the last fragment is copied from beyond the end of the packet; in all other cases a packet
  is emitted that decapsulates to the original without its last \<open>r\<close> bytes.
\<close>

theorem encap_outcome:
  assumes L: "L = unat (enc_frag_length s)" "0 < L" "L < 2 ^ 16"
    and p: "length p = 14 + D" "D < 2 ^ 16"
  shows "if D < L then encap_simple_action en ck junk s p = Inl DivisionByZero
    else if D mod L mod (D div L) \<noteq> 0 then encap_simple_action en ck junk s p = Inl OutOfBuffer
    else \<exists>q. encap_simple_action en ck junk s p = Inr (s\<lparr>enc_packet_num := enc_packet_num s + 1\<rparr>, Some q) \<and>
      decap_simple_action en q = Some (Some (take (14 + D div L * L) p))"
proof (cases "D < L")
  case True
  then show ?thesis using p by (simp add: encap_simple_action_def Let_def L(1))
next
  case False
  define n where "n = D div L"
  have n: "0 < n" using False L(2) by (simp add: n_def div_greater_zero_iff)
  have Dn: "D = D mod L + n * L" by (simp add: n_def)
  then have m: "D mod n = D mod L mod n" by (metis mod_mult_self2)
  have le: "n * L \<le> D" by (simp add: n_def)
  have fl: "unat (enc_frag_length s) \<noteq> 0" using L by simp
  show ?thesis
  proof (cases "D mod L mod n = 0")
    case True
    define fs where "fs = (ucast (enc_frag_length s) :: u16)"
    have fs: "unat fs = L" using L(1,3) by (simp add: fs_def unsigned_ucast_eq take_bit_eq_mod)
    have nD: "n \<le> D" using le L(2) by (metis le_trans mult.right_neutral mult_le_mono2 Suc_leI One_nat_def)
    have nf: "unat (word_of_nat n :: u16) = n" using nD p(2) by (intro unat_of_nat_small) simp
    have sz: "packet_size n L < 2 ^ 32" using le nD p(2) by (simp add: packet_size_def distrib_left)
    define Fs where "Fs = map (encap_img en ck junk s p) [0..<n]"
    define q where "q = fh_img en ck (take 14 p) 0 (word_of_nat n) (word_of_nat n) (ucast (enc_packet_num s)) fs @ concat Fs"
    have "encap_build en ck junk s n p = Some q"
      using encap_build_img[OF L(1,3), of n p en ck junk] le p(1) sz by (simp add: q_def Fs_def fs_def)
    then have e: "encap_simple_action en ck junk s p = Inr (s\<lparr>enc_packet_num := enc_packet_num s + 1\<rparr>, Some q)"
      using p(1) True m n fl by (simp add: encap_simple_action_def Let_def L(1)[symmetric] n_def[symmetric])
    have lens: "length F = 6 + unat fs" if "F \<in> set Fs" for F
      using that encap_img_length[OF L(1), of n p] le p(1) fs by (auto simp: Fs_def)
    have "decap_simple_action en q = Some (Some (take 14 p @ concat (map (drop 6) Fs)))"
      unfolding q_def using lens p(1) nf fs le p(2) by (intro decap_img) (auto simp: Fs_def)
    moreover have "concat (map (drop 6) Fs) = take (n * L) (drop 14 p)"
      using encap_chunks[OF L(1), of n p en ck junk] le p(1) by (simp add: Fs_def comp_def)
    ultimately have "decap_simple_action en q = Some (Some (take (14 + n * L) p))" by (simp add: take_add)
    with e True False show ?thesis unfolding n_def[symmetric] by auto
  next
    case r: False
    have "D mod L < L" using L(2) by simp
    then have "length p < 14 + Suc n * L" using p(1) Dn by simp
    from encap_overread[OF L(1,3) this] have "encap_build en ck junk s (Suc n) p = None" .
    then have "encap_simple_action en ck junk s p = Inl OutOfBuffer"
      using p(1) r m n fl by (simp add: encap_simple_action_def Let_def L(1)[symmetric] n_def[symmetric])
    with r False show ?thesis unfolding n_def[symmetric] by auto
  qed
qed

theorem encap_outcome_witness:
  "encap_simple_action LittleEndian (\<lambda>_. 0) (\<lambda>_. 0) \<lparr>enc_frag_length = 100, enc_packet_num = 0\<rparr> (replicate 64 0) = Inl DivisionByZero \<and>
   encap_simple_action LittleEndian (\<lambda>_. 0) (\<lambda>_. 0) \<lparr>enc_frag_length = 2, enc_packet_num = 0\<rparr> (replicate 19 0) = Inl OutOfBuffer \<and>
   (\<exists>s q. encap_simple_action LittleEndian (\<lambda>_. 0) (\<lambda>_. 0) \<lparr>enc_frag_length = 2, enc_packet_num = 0\<rparr> (replicate 17 0) = Inr (s, Some q) \<and>
      decap_simple_action LittleEndian q = Some (Some (replicate 16 0)))"
  using encap_outcome[of 100 "\<lparr>enc_frag_length = 100, enc_packet_num = 0\<rparr>" "replicate 64 0" 50 LittleEndian "\<lambda>_. 0" "\<lambda>_. 0"]
    encap_outcome[of 2 "\<lparr>enc_frag_length = 2, enc_packet_num = 0\<rparr>" "replicate 19 0" 5 LittleEndian "\<lambda>_. 0" "\<lambda>_. 0"]
    encap_outcome[of 2 "\<lparr>enc_frag_length = 2, enc_packet_num = 0\<rparr>" "replicate 17 0" 3 LittleEndian "\<lambda>_. 0" "\<lambda>_. 0"]
  by (simp add: min_def) blast

subsection \<open>What the checker guarantees\<close>

lemma check_loop_True:
  "check_loop ck fs p xs = Some True \<longleftrightarrow> (\<forall>x\<in>set xs. frag_valid_checksum ck fs (get_frag fs x) p = Some True)"
  by (induction xs) (auto split: bind_splits if_splits)

text \<open>The 32-bit truncation of the expected length does not matter for packets below 64 KB.\<close>

lemma packet_size_no_wrap:
  assumes "n < 2 ^ 16" "fs < 2 ^ 16" "packet_size n fs mod 2 ^ 32 = l" "26 \<le> l" "l < 2 ^ 16"
  shows "packet_size n fs = l"
proof (rule ccontr)
  assume neq: "packet_size n fs \<noteq> l"
  define T where "T = packet_size n fs"
  have "n * (fs + 6) \<le> 65535 * 65541" using assms(1,2) by (intro mult_le_mono) auto
  then have up: "T \<le> 4295229461" by (simp add: T_def packet_size_def)
  have big: "4294967296 \<le> T"
  proof (rule ccontr)
    assume "\<not> ?thesis"
    then show False using neq assms(3) by (simp add: T_def)
  qed
  have "T - 4294967296 = l"
    using assms(3) big up le_mod_geq[of "2 ^ 32" T] unfolding T_def[symmetric] by simp
  then have T: "26 \<le> T - 4294967296" "T - 4294967296 < 65536" using assms(4,5) by auto
  have lo: "65531 \<le> n"
  proof (rule ccontr)
    assume "\<not> 65531 \<le> n"
    then have "n * (fs + 6) \<le> 65530 * 65541" using assms(2) by (intro mult_le_mono) auto
    then show False using big by (simp add: T_def packet_size_def)
  qed
  then have "n = 65531 \<or> n = 65532 \<or> n = 65533 \<or> n = 65534 \<or> n = 65535" using assms(1) by auto
  moreover have "fs \<le> 65529 \<or> fs = 65530 \<or> fs = 65531 \<or> fs = 65532 \<or> fs = 65533 \<or> fs = 65534 \<or> fs = 65535" using assms(2) by auto
  ultimately show False using T unfolding T_def packet_size_def by (elim disjE) auto
qed

lemma check_out0:
  assumes "check_simple_action en ck False nout p = Some Out0" "length p < 2 ^ 16"
  obtains nf fs where "rd16 en p off_num_frags = Some nf" "rd16 en p off_frag_size = Some fs"
    "packet_size (unat nf) (unat fs) = length p" "ck (take fh_sz p) = 0"
    "\<And>x. x < unat nf \<Longrightarrow> frag_valid_checksum ck (unat fs) (get_frag (unat fs) x) p = Some True"
proof -
  have l: "fh_sz \<le> length p" using assms(1) by (auto simp: check_simple_action_def Let_def split: if_splits)
  then obtain nf fs where r: "rd16 en p off_num_frags = Some nf" "rd16 en p off_frag_size = Some fs"
    by (cases "rd16 en p off_num_frags"; cases "rd16 en p off_frag_size") (auto simp: rd16_eq_None_iff)
  then have c: "ck (take fh_sz p) = 0" "packet_size (unat nf) (unat fs) mod 2 ^ 32 = length p"
    "check_loop ck (unat fs) p [0..<unat nf] = Some True"
    using assms(1) l by (auto simp: check_simple_action_def fh_valid_checksum_def Let_def split: if_splits bind_splits)
  have "packet_size (unat nf) (unat fs) = length p"
    using packet_size_no_wrap[OF _ _ c(2) l assms(2)] unsigned_less[of nf, where ?'a = nat] unsigned_less[of fs, where ?'a = nat] by simp
  with r c show thesis by (intro that[of nf fs]) (auto simp: check_loop_True)
qed

text \<open>A fragment that lies inside of the packet can be read.\<close>

lemma get_frag_inside:
  assumes "packet_size n fs = length p" "x < n"
  shows "get_frag fs x + 6 + fs \<le> length p"
proof -
  have "Suc x * (6 + fs) \<le> n * (6 + fs)" using assms(2) by (intro mult_le_mono1) simp
  then show ?thesis using assms(1) by (simp add: get_frag_def packet_size_def add.commute)
qed

lemma fragment_push_checked:
  assumes "check_simple_action en ck False nout p = Some Out0" "length p < 2 ^ 16"
  shows "\<exists>fs. fragment_push en ck p = Some fs"
proof -
  obtain nf fs where c: "rd16 en p off_num_frags = Some nf" "rd16 en p off_frag_size = Some fs"
    "packet_size (unat nf) (unat fs) = length p"
    "\<And>x. x < unat nf \<Longrightarrow> frag_valid_checksum ck (unat fs) (get_frag (unat fs) x) p = Some True"
    using check_out0[OF assms] by metis
  have "\<exists>r. fragment_one en ck p x = Some r" if "x < unat nf" for x
    using get_frag_inside[OF c(3) that] c(2) c(4)[OF that]
    by (simp add: fragment_one_def fh_set_checksum_def store_checksum_def get_frag_def add.commute add.left_commute)
  then have "\<exists>r. \<forall>x\<in>set [0..<unat nf]. fragment_one en ck p x = Some (r x)" by (metis atLeastLessThan_iff set_upt)
  then obtain r where "\<And>x. x \<in> set [0..<unat nf] \<Longrightarrow> fragment_one en ck p x = Some (r x)" by blast
  then have "those (map (fragment_one en ck p) [0..<unat nf]) = Some (map r [0..<unat nf])" by (rule those_map_Some)
  then show ?thesis by (simp add: fragment_push_def c(1))
qed

lemma decap_checked:
  assumes "check_simple_action en ck False nout p = Some Out0" "length p < 2 ^ 16"
  shows "\<exists>q. decap_simple_action en p = Some (Some q)"
proof -
  obtain nf fs where c: "rd16 en p off_num_frags = Some nf" "rd16 en p off_frag_size = Some fs"
    "packet_size (unat nf) (unat fs) = length p"
    using check_out0[OF assms] by metis
  have "rdn p (fh_sz + x * (frag_sz + unat fs) + frag_sz) (unat fs) =
      Some (take (unat fs) (drop (fh_sz + x * (frag_sz + unat fs) + frag_sz) p))" if "x < unat nf" for x
    using get_frag_inside[OF c(3) that] by (intro rdn_Some) (simp add: get_frag_def)
  then have "\<exists>ds. those (map (\<lambda>x. rdn p (fh_sz + x * (frag_sz + unat fs) + frag_sz) (unat fs)) [0..<unat nf]) = Some ds"
    by (intro exI[of _ "map (\<lambda>x. take (unat fs) (drop (fh_sz + x * (frag_sz + unat fs) + frag_sz) p)) [0..<unat nf]"] those_map_Some)
      (simp del: rdn_Some)
  moreover have "unat nf * unat fs < 2 ^ 31" "14 \<le> length p"
    using c(3) assms(2) by (simp_all add: packet_size_def distrib_left)
  ultimately show ?thesis using c by (auto simp: decap_simple_action_def)
qed

subsection \<open>The reassembly table\<close>

definition info_ok :: "nat \<Rightarrow> u16 \<Rightarrow> packet_info \<Rightarrow> bool" where
  "info_ok fs pnum i \<longleftrightarrow> pi_packet i = pnum \<and> pi_frag_size i = fs \<and> pi_num_frags i < 2 ^ 16 \<and>
     length (pi_fragments i) = pi_num_frags i \<and>
     pi_fragments_rx i = length (filter (\<lambda>f. f \<noteq> None) (pi_fragments i)) \<and>
     (0 < pi_num_frags i \<longrightarrow> pi_fragments_rx i < pi_num_frags i) \<and>
     (\<forall>f. Some f \<in> set (pi_fragments i) \<longrightarrow> fh_sz + frag_sz + fs \<le> length f)"

definition table_ok :: "nat \<Rightarrow> defragment \<Rightarrow> bool" where
  "table_ok fs t \<longleftrightarrow> (\<forall>pnum i. t pnum = Some i \<longrightarrow> info_ok fs pnum i)"

lemma filter_update:
  assumes "x < length xs" "\<not> P (xs ! x)" "P y"
  shows "length (filter P (xs[x := y])) = Suc (length (filter P xs))"
  using assms by (induction xs arbitrary: x) (auto simp: nth_Cons split: nat.splits)

lemma reassemble_total:
  assumes fs: "pi_frag_size i = fs" "fs < 2 ^ 16 - 32" and n: "0 < pi_num_frags i" "pi_num_frags i < 2 ^ 16"
    and f: "\<And>x. x < pi_num_frags i \<Longrightarrow> \<exists>f. pi_fragments i ! x = Some f \<and> fh_sz + frag_sz + fs \<le> length f"
  shows "\<exists>q. reassemble en ck junk i = Some q \<and> length q = packet_size (pi_num_frags i) fs"
proof -
  define m where "m = packet_size (pi_num_frags i) fs"
  have "pi_num_frags i * (fs + 6) \<le> 65535 * 65509" using fs n by (intro mult_le_mono) auto
  then have m: "m < 2 ^ 32" "fh_sz \<le> m" by (simp_all add: m_def packet_size_def)
  obtain f0 where f0: "pi_fragments i ! 0 = Some f0" "fh_sz + frag_sz + fs \<le> length f0" using f[OF n(1)] by blast
  have "\<exists>c. defrag_copy i x b = Some c \<and> length c = m" if "x < pi_num_frags i" "length b = m" for x b
    using f[OF that(1)] get_frag_inside[of "pi_num_frags i" fs b x] that fs(1)
    by (auto simp: defrag_copy_def m_def)
  then have loop: "\<exists>c. forM (defrag_copy i) [0..<pi_num_frags i] b = Some c \<and> length c = m" if "length b = m" for b
    using forM_invariant[of "pi_num_frags i" "\<lambda>_ b. length b = m" "defrag_copy i" b] that by blast
  show ?thesis unfolding reassemble_def Let_def fs(1) m_def[symmetric]
    using f0 m loop by (simp add: fh_set_checksum_def store_checksum_def)
qed

lemma defrag_store_total:
  assumes ok: "info_ok fs pnum i" "table_ok fs t" "t pnum = Some i" and fs: "fs < 2 ^ 16 - 32"
    and p: "fh_sz + frag_sz + fs \<le> length p"
  shows "\<exists>t' q. defrag_store en ck junk fnum pnum i t p = Some (t', q) \<and> table_ok fs t'"
proof (cases "length (pi_fragments i) \<le> fnum \<or> pi_fragments i ! fnum \<noteq> None")
  case True
  then show ?thesis using ok by (auto simp: defrag_store_def)
next
  case False
  define i1 where "i1 = i\<lparr>pi_fragments := (pi_fragments i)[fnum := Some p], pi_fragments_rx := pi_fragments_rx i + 1\<rparr>"
  have i: "length (pi_fragments i1) = pi_num_frags i1" "pi_frag_size i1 = fs" "pi_packet i1 = pnum"
    "0 < pi_num_frags i1" "pi_num_frags i1 < 2 ^ 16" "pi_fragments_rx i1 \<le> pi_num_frags i1"
    using ok(1) False by (auto simp: i1_def info_ok_def)
  have rx: "pi_fragments_rx i1 = length (filter (\<lambda>f. f \<noteq> None) (pi_fragments i1))"
    using ok(1) False filter_update[of fnum "pi_fragments i" "\<lambda>f. f \<noteq> None" "Some p"] by (simp add: i1_def info_ok_def)
  have ln: "fh_sz + frag_sz + fs \<le> length f" if "Some f \<in> set (pi_fragments i1)" for f
    using that ok(1) p set_update_subset_insert[of "pi_fragments i" fnum "Some p"] by (auto simp: i1_def info_ok_def)
  have st: "defrag_store en ck junk fnum pnum i t p =
      (if pi_fragments_rx i1 \<noteq> pi_num_frags i1 then Some (t(pnum \<mapsto> i1), None)
       else do { q \<leftarrow> reassemble en ck junk i1; Some ((t(pnum \<mapsto> i1))(pnum := None), Some q) })"
    using False i(3) unfolding defrag_store_def Let_def i1_def[symmetric] by auto
  show ?thesis
  proof (cases "pi_fragments_rx i1 = pi_num_frags i1")
    case True
    then have "length (filter (\<lambda>f. f \<noteq> None) (pi_fragments i1)) = length (pi_fragments i1)" using rx i(1) by (simp only:)
    then have "\<forall>f\<in>set (pi_fragments i1). f \<noteq> None" by (metis (mono_tags, lifting) filter_id_conv length_filter_less less_irrefl)
    then have "\<exists>f. pi_fragments i1 ! x = Some f \<and> fh_sz + frag_sz + fs \<le> length f" if x: "x < pi_num_frags i1" for x
    proof -
      have "pi_fragments i1 ! x \<in> set (pi_fragments i1)" using x i(1) by simp
      with \<open>\<forall>f\<in>set (pi_fragments i1). f \<noteq> None\<close> show ?thesis using ln by (cases "pi_fragments i1 ! x") auto
    qed
    from reassemble_total[OF i(2) fs i(4,5) this] obtain q where "reassemble en ck junk i1 = Some q" by blast
    then show ?thesis using True ok(2) unfolding st by (auto simp: table_ok_def)
  next
    case rx_neq: False
    then have "info_ok fs pnum i1" using i rx ln by (simp add: info_ok_def)
    then show ?thesis using rx_neq ok(2) unfolding st by (auto simp: table_ok_def)
  qed
qed

lemma defrag_total_step:
  assumes t: "table_ok (unat fs) t" and fs: "unat fs < 2 ^ 16 - 32" "rd16 en p off_frag_size = Some fs"
    and p: "fh_sz + frag_sz + unat fs \<le> length p"
  shows "\<exists>t' q. defrag_simple_action en ck junk t p = Some (t', q) \<and> table_ok (unat fs) t'"
proof (cases "ck (take (6 + unat fs) (drop 26 p)) = 0")
  case False
  then show ?thesis using p fs t by (simp add: defrag_simple_action_def frag_valid_checksum_def)
next
  case True
  obtain pnum nfp where r: "rd16 en p fh_sz = Some pnum" "rd16 en p off_num_frags_packet = Some nfp"
    using p by (auto simp: rd16_def)
  define i where "i = (case t pnum of Some i \<Rightarrow> i | None \<Rightarrow> new_packet_info (take 6 (drop 6 p)) pnum (unat fs) (unat nfp))"
  have "info_ok (unat fs) pnum (new_packet_info (take 6 (drop 6 p)) pnum (unat fs) (unat nfp))"
    using unsigned_less[of nfp, where ?'a = nat] by (auto simp: new_packet_info_def info_ok_def)
  with t have "info_ok (unat fs) pnum i" by (auto simp: i_def table_ok_def split: option.splits)
  moreover from this t have "table_ok (unat fs) (t(pnum \<mapsto> i))" by (auto simp: table_ok_def)
  ultimately show ?thesis
    using defrag_store_total[of "unat fs" pnum i "t(pnum \<mapsto> i)" p] fs(1) p True fs(2) r
    by (simp add: defrag_simple_action_def frag_valid_checksum_def i_def[symmetric] Let_def)
qed

text \<open>
  Property C34: \<open>Defragment\<close> never follows a null fragment and never reads or writes outside of a
  packet, whatever checked packets of one or more fragments of a common size it is given, in
  whatever order and with whatever repetitions: every run returns, and the table it leaves
  counts its fragments correctly and holds no complete packet.
\<close>

theorem defrag_never_faults:
  assumes "unat fs < 2 ^ 16 - 32"
    and "\<forall>p\<in>set ps. check_simple_action en ck False nout p = Some Out0 \<and> length p < 2 ^ 16 \<and>
      rd16 en p off_frag_size = Some fs \<and> rd16 en p off_num_frags \<noteq> Some 0"
  shows "\<exists>t qs. defrag_run en ck junk Map.empty ps = Some (t, qs) \<and> table_ok (unat fs) t"
proof -
  have step: "\<exists>t' q. defrag_simple_action en ck junk t p = Some (t', q) \<and> table_ok (unat fs) t'"
    if "p \<in> set ps" "table_ok (unat fs) t" for p t
  proof -
    from that(1) assms(2) have p: "check_simple_action en ck False nout p = Some Out0" "length p < 2 ^ 16"
      "rd16 en p off_frag_size = Some fs" "rd16 en p off_num_frags \<noteq> Some 0" by auto
    obtain nf where "rd16 en p off_num_frags = Some nf" "packet_size (unat nf) (unat fs) = length p"
      using check_out0[OF p(1,2)] p(3) by (metis option.inject)
    moreover from this p(4) have "0 < unat nf" by (simp add: unat_gt_0)
    ultimately have "fh_sz + frag_sz + unat fs \<le> length p"
      using get_frag_inside[of "unat nf" "unat fs" p 0] by (simp add: get_frag_def)
    then show ?thesis by (rule defrag_total_step[OF that(2) assms(1) p(3)])
  qed
  have "table_ok (unat fs) t \<Longrightarrow> \<exists>t' qs. defrag_run en ck junk t rs = Some (t', qs) \<and> table_ok (unat fs) t'"
    if "set rs \<subseteq> set ps" for rs t
    using that
  proof (induction rs arbitrary: t)
    case (Cons r rs)
    then obtain t1 q where "defrag_simple_action en ck junk t r = Some (t1, q)" "table_ok (unat fs) t1"
      using step[of r t] by auto
    with Cons show ?case by fastforce
  qed simp
  then show ?thesis by (simp add: table_ok_def)
qed

theorem defrag_never_faults_witness:
  "\<exists>t qs. defrag_run LittleEndian (\<lambda>_. 0) (\<lambda>_. 0) Map.empty
      (map (\<lambda>x. (replicate 16 0 @ [1, 0, 2, 0, 5, 0, 1, 0, 0, 0]) @ concat [[5, 0, x, 0, 0, 0, 77]]) [1, 1, 0]) = Some (t, qs) \<and>
      table_ok (unat (1 :: u16)) t"
proof (rule defrag_never_faults[where nout = 1])
  have "check_simple_action LittleEndian (\<lambda>_. 0) False 1
      ((replicate 16 0 @ [1, 0, 2, 0, 5, 0, 1, 0, 0, 0]) @ concat [[5, 0, x, 0, 0, 0, 77]]) = Some Out0" for x
    by (rule check_passes[where fs = 1])
      (simp_all add: frags_ok_def rd16_def mem_u16_def u16_of_def be_val_def packet_size_def)
  then show "\<forall>p\<in>set (map (\<lambda>x. (replicate 16 0 @ [1, 0, 2, 0, 5, 0, 1, 0, 0, 0]) @ concat [[5, 0, x, 0, 0, 0, 77]]) [1, 1, 0]).
      check_simple_action LittleEndian (\<lambda>_. 0) False 1 p = Some Out0 \<and> length p < 2 ^ 16 \<and>
      rd16 LittleEndian p off_frag_size = Some 1 \<and> rd16 LittleEndian p off_num_frags \<noteq> Some 0"
    by (simp add: rd16_def mem_u16_def u16_of_def be_val_def)
qed simp

end
