(* ===== verification/Roofnet_FragAck.thy ===== *)
theory Roofnet_FragAck
  imports Roofnet_Frag "HOL-Library.Product_Lexorder"
begin

text \<open>
  Reliability of Roofnet's fragmentation: \<open>FragmentDupeFilter\<close> drops repeated fragments,
  \<open>FragmentAck\<close> collects the identifiers of received fragments into acknowledgements, and
  \<open>FragmentResender\<close> keeps the packets whose fragments are outstanding, asks for
  acknowledgements and resends. \<^const>\<open>None\<close> is an access outside of a packet or vector, or
  through a null pointer.
\<close>

section \<open>Fragment identifiers\<close>

record fragid =
  fid_packet :: int
  fid_frag :: int

definition fid_valid :: "fragid \<Rightarrow> bool" where
  "fid_valid f \<longleftrightarrow> fid_packet f \<noteq> -1 \<and> fid_frag f \<noteq> -1"

definition fid_invalid :: fragid where
  "fid_invalid = \<lparr>fid_packet = -1, fid_frag = -1\<rparr>"

definition fid_less :: "fragid \<Rightarrow> fragid \<Rightarrow> bool" where
  "fid_less a b =
     (if fid_valid a \<noteq> fid_valid b then \<not> fid_valid a
      else if fid_packet b = fid_packet a then fid_frag b < fid_frag a
      else fid_packet b < fid_packet a)"

definition fid_greater :: "fragid \<Rightarrow> fragid \<Rightarrow> bool" where
  "fid_greater a b \<longleftrightarrow> \<not> fid_less a b"

text \<open>\<open>fragid(f->packet_num, f->frag_num)\<close> of the fragment at \<open>off\<close>.\<close>

definition frag_fragid :: "endian \<Rightarrow> byte list \<Rightarrow> nat \<Rightarrow> fragid option" where
  "frag_fragid en b off =
     do { pn \<leftarrow> rd16 en b off; fn \<leftarrow> rd8 b (off + 2); Some \<lparr>fid_packet = uint pn, fid_frag = uint fn\<rparr> }"

section \<open>FragmentAck\<close>

record window_info =
  wi_src :: ether_addr
  wi_frags_rx :: "fragid list"
  wi_first_rx :: nat
  wi_waiting :: bool

record fragment_ack =
  fa_frags :: "ether_addr \<rightharpoonup> window_info"
  fa_en :: ether_addr
  fa_et :: u16

definition window_add :: "fragid \<Rightarrow> window_info \<Rightarrow> window_info \<times> bool" where
  "window_add f w =
     (if f \<in> set (wi_frags_rx w) then (w, False)
      else (w\<lparr>wi_frags_rx := wi_frags_rx w @ [f]\<rparr>, True))"

abbreviation (input) "FRAG_ACKME \<equiv> 1 :: u16"
abbreviation (input) "FRAG_RESEND \<equiv> 2 :: u16"

text \<open>
  \<open>frag_ack\<close> starts after the Ethernet header: \<open>good_until\<close> (never set) at 14, \<open>num_acked\<close> at 16,
  then \<open>num_acked\<close> packet numbers and \<open>num_acked\<close> fragment numbers.
\<close>

definition ack_packet_size :: "nat \<Rightarrow> nat" where
  "ack_packet_size acks = 14 + 4 + acks * (2 + 1)"

definition ack_set :: "endian \<Rightarrow> nat \<Rightarrow> fragid list \<Rightarrow> nat \<Rightarrow> byte list \<Rightarrow> byte list option" where
  "ack_set en num_acked ids x b =
     do {
       b1 \<leftarrow> wr (18 + 2 * x) (mem16 en (word_of_int (fid_packet (ids ! x)))) b;
       wr (18 + 2 * num_acked + x) [word_of_int (fid_frag (ids ! x))] b1
     }"

definition ack_build ::
    "endian \<Rightarrow> (nat \<Rightarrow> byte) \<Rightarrow> ether_addr \<Rightarrow> fragment_ack \<Rightarrow> fragid list \<Rightarrow> byte list option" where
  "ack_build en junk src s ids =
     do {
       b1 \<leftarrow> wr 6 (fa_en s) (map junk [0..<ack_packet_size (length ids)]);
       b2 \<leftarrow> wr 0 src b1;
       b3 \<leftarrow> wr 12 (be16 (fa_et s)) b2;
       b4 \<leftarrow> wr 16 (mem16 en (word_of_nat (length ids))) b3;
       forM (ack_set en (unat (word_of_nat (length ids) :: u16)) ids) [0..<length ids] b4
     }"

definition send_ack ::
    "endian \<Rightarrow> (nat \<Rightarrow> byte) \<Rightarrow> ether_addr \<Rightarrow> fragment_ack \<Rightarrow> (fragment_ack \<times> byte list option) option" where
  "send_ack en junk src s =
     (case fa_frags s src of
        None \<Rightarrow> Some (s, None)
      | Some w \<Rightarrow> do {
          p \<leftarrow> ack_build en junk src s (wi_frags_rx w);
          Some (s\<lparr>fa_frags := (fa_frags s)(src \<mapsto> w\<lparr>wi_frags_rx := [], wi_waiting := False\<rparr>)\<rparr>, Some p)
        })"

definition ack_frag ::
    "endian \<Rightarrow> cksum \<Rightarrow> byte list \<Rightarrow> nat \<Rightarrow> window_info \<times> bool \<Rightarrow> (window_info \<times> bool) option" where
  "ack_frag en ck p x st =
     do {
       fs \<leftarrow> rd16 en p off_frag_size;
       ok \<leftarrow> frag_valid_checksum ck (unat fs) (get_frag (unat fs) x) p;
       if ok then do {
         f \<leftarrow> frag_fragid en p (get_frag (unat fs) x);
         let (w, new) = window_add f (fst st);
         Some (w, snd st \<or> new)
       } else Some st
     }"

text \<open>The new state and the acknowledgement pushed on output 1; the packet itself is passed on.\<close>

definition ack_simple_action ::
    "endian \<Rightarrow> cksum \<Rightarrow> (nat \<Rightarrow> byte) \<Rightarrow> nat \<Rightarrow> fragment_ack \<Rightarrow> byte list
      \<Rightarrow> (fragment_ack \<times> byte list option) option" where
  "ack_simple_action en ck junk now s p =
     do {
       src \<leftarrow> rdn p off_src 6;
       let w0 = (case fa_frags s src of
                   Some w \<Rightarrow> w
                 | None \<Rightarrow> \<lparr>wi_src = src, wi_frags_rx = [], wi_first_rx = 0, wi_waiting = False\<rparr>);
       nf \<leftarrow> rd16 en p off_num_frags;
       (w1, new_packets) \<leftarrow> forM (ack_frag en ck p) [0..<unat nf] (w0, False);
       let w2 = (if new_packets \<and> \<not> wi_waiting w1 then w1\<lparr>wi_first_rx := now\<rparr> else w1);
       let s1 = s\<lparr>fa_frags := (fa_frags s)(src \<mapsto> w2)\<rparr>;
       flags \<leftarrow> rd16 en p off_flags;
       if flags AND FRAG_ACKME \<noteq> 0 then send_ack en junk src s1 else Some (s1, None)
     }"

section \<open>FragmentDupeFilter\<close>

record dst_info =
  di_src :: ether_addr
  di_frags :: "fragid list"

type_synonym dupe_filter = "ether_addr \<rightharpoonup> dst_info"

text \<open>
  The loop over the fragments: the identifiers recorded, and whether the packet is killed. Its
  inner loop is a membership test.
\<close>

definition dupe_add :: "fragid \<Rightarrow> fragid list \<Rightarrow> fragid list \<times> bool" where
  "dupe_add f ids = (if f \<in> set ids then (ids, False) else (ids @ [f], True))"

fun dupe_loop :: "endian \<Rightarrow> byte list \<Rightarrow> nat list \<Rightarrow> fragid list \<Rightarrow> (fragid list \<times> bool) option" where
  "dupe_loop en p [] ids = Some (ids, False)"
| "dupe_loop en p (x # xs) ids =
     do {
       fs \<leftarrow> rd16 en p off_frag_size;
       f \<leftarrow> frag_fragid en p (get_frag (unat fs) x);
       let (ids1, fresh) = dupe_add f ids;
       if fresh then dupe_loop en p xs ids1 else Some (ids, True)
     }"

definition dupe_simple_action ::
    "endian \<Rightarrow> u32 \<Rightarrow> dupe_filter \<Rightarrow> byte list \<Rightarrow> (dupe_filter \<times> bool) option" where
  "dupe_simple_action en window t p =
     do {
       src \<leftarrow> rdn p off_src 6;
       let i = (case t src of Some i \<Rightarrow> i | None \<Rightarrow> \<lparr>di_src = src, di_frags = []\<rparr>);
       nf \<leftarrow> rd16 en p off_num_frags;
       (ids, killed) \<leftarrow> dupe_loop en p [0..<unat nf] (di_frags i);
       if killed then Some (t(src \<mapsto> i\<lparr>di_frags := ids\<rparr>), False)
       else Some (t(src \<mapsto> i\<lparr>di_frags := drop (length ids - unat window) ids\<rparr>), True)
     }"

section \<open>FragmentResender\<close>

record resend_info =
  ri_dst :: ether_addr
  ri_last_tx :: nat
  ri_frag_status :: "int list"
  ri_frag_sends :: "int list"
  ri_p :: "byte list option"

record resender =
  rs_packets :: "int \<rightharpoonup> resend_info"
  rs_et :: u16
  rs_wait_for_ack :: bool
  rs_send_ack :: bool
  rs_window_size :: u32
  rs_ack_timeout_ms :: u32
  rs_timer :: "u32 option"
  rs_outstanding :: "fragid list"
  rs_resend_index :: nat
  rs_resend_limit :: nat

abbreviation (input) "max_retries \<equiv> 15 :: int"

definition ri_done :: "resend_info \<Rightarrow> bool" where
  "ri_done i \<longleftrightarrow> (\<forall>s\<in>set (ri_frag_status i). s \<noteq> 0)"

text \<open>The two nested loops of \<open>fix\<close>, then the truncation at the first invalid identifier.\<close>

definition swap_step :: "nat \<Rightarrow> fragid list \<Rightarrow> fragid list" where
  "swap_step y v = (if fid_greater (v ! (y + 1)) (v ! y) then v[y := v ! (y + 1), y + 1 := v ! y] else v)"

definition bubble_pass :: "nat \<Rightarrow> fragid list \<Rightarrow> fragid list" where
  "bubble_pass x v = fold swap_step [0..<length v - 1 - x] v"

definition bubble :: "fragid list \<Rightarrow> fragid list" where
  "bubble v = fold bubble_pass [0..<length v - 1] v"

definition fix_window :: "resender \<Rightarrow> resender" where
  "fix_window s =
     (let v = takeWhile fid_valid (bubble (rs_outstanding s))
      in s\<lparr>rs_outstanding := v, rs_resend_limit := length v, rs_resend_index := 0\<rparr>)"

definition resender_run_timer :: "resender \<Rightarrow> resender" where
  "resender_run_timer s = s\<lparr>rs_timer := None, rs_send_ack := True\<rparr>"

definition ack_one :: "endian \<Rightarrow> byte list \<Rightarrow> nat \<Rightarrow> nat \<Rightarrow> resender \<Rightarrow> resender option" where
  "ack_one en p num_acked x s =
     do {
       pk \<leftarrow> rd16 en p (18 + 2 * x);
       fr \<leftarrow> rd8 p (18 + 2 * num_acked + x);
       let a = \<lparr>fid_packet = uint pk, fid_frag = uint fr\<rparr>;
       let s1 = s\<lparr>rs_outstanding := map (\<lambda>f. if a = f then fid_invalid else f) (rs_outstanding s)\<rparr>;
       (case rs_packets s (uint pk) of
          None \<Rightarrow> Some s1
        | Some i \<Rightarrow>
            if length (ri_frag_status i) < unat fr then Some s1
            else do {
              st \<leftarrow> wr (unat fr) [1] (ri_frag_status i);
              let i1 = i\<lparr>ri_frag_status := st\<rparr>;
              Some (s1\<lparr>rs_packets := (rs_packets s)(uint pk := if ri_done i1 then None else Some i1)\<rparr>)
            })
     }"

definition process_ack :: "endian \<Rightarrow> byte list \<Rightarrow> resender \<Rightarrow> resender option" where
  "process_ack en p s =
     do {
       na \<leftarrow> rd16 en p 16;
       s1 \<leftarrow> forM (ack_one en p (unat na)) [0..<unat na] (s\<lparr>rs_timer := None, rs_wait_for_ack := False\<rparr>);
       Some ((fix_window s1)\<lparr>rs_timer := None, rs_send_ack := False, rs_wait_for_ack := False\<rparr>)
     }"

text \<open>The first outstanding fragment whose packet is known.\<close>

fun ack_candidate :: "(int \<rightharpoonup> resend_info) \<Rightarrow> fragid list \<Rightarrow> resend_info option" where
  "ack_candidate m [] = None"
| "ack_candidate m (f # fs) =
     (if fid_valid f
      then (case m (fid_packet f) of Some i \<Rightarrow> Some i | None \<Rightarrow> ack_candidate m fs)
      else ack_candidate m fs)"

definition ack_request ::
    "endian \<Rightarrow> cksum \<Rightarrow> (nat \<Rightarrow> byte) \<Rightarrow> resender \<Rightarrow> (resender \<times> byte list option) option" where
  "ack_request en ck junk s =
     (let s1 = s\<lparr>rs_timer := None\<rparr>
      in if rs_outstanding s = [] then Some (s1, None)
      else case ack_candidate (rs_packets s) (rs_outstanding s) of
        None \<Rightarrow> Some ((fix_window s1)\<lparr>rs_wait_for_ack := True, rs_send_ack := False\<rparr>, Some (map junk [0..<fh_sz]))
      | Some i \<Rightarrow> do {
          q \<leftarrow> ri_p i;
          h \<leftarrow> rdn q 0 fh_sz;
          h1 \<leftarrow> wr off_flags (mem16 en FRAG_ACKME) h;
          h2 \<leftarrow> wr off_ether_type (be16 (rs_et s)) h1;
          h3 \<leftarrow> wr off_num_frags (mem16 en 0) h2;
          h4 \<leftarrow> wr off_num_frags_packet (mem16 en 0) h3;
          h5 \<leftarrow> fh_set_checksum en ck h4;
          Some (s1\<lparr>rs_timer := Some (rs_ack_timeout_ms s), rs_wait_for_ack := True, rs_send_ack := False\<rparr>, Some h5)
        })"

text \<open>
  The loop of \<open>do_resend\<close> over the outstanding fragments. Besides the element it carries the
  output buffer, the number of fragments in it, whether its header is there, and
  \<open>index_change\<close>.
\<close>

abbreviation (input) "max_len \<equiv> 1600 :: nat"

definition resend_copy ::
    "endian \<Rightarrow> byte list \<Rightarrow> nat \<Rightarrow> nat \<Rightarrow> bool \<Rightarrow> byte list \<Rightarrow> byte list option" where
  "resend_copy en q frag num_frags header_done b =
     do {
       b1 \<leftarrow> (if header_done then Some b else do { h \<leftarrow> rdn q 0 fh_sz; wr 0 h b });
       fs \<leftarrow> rd16 en q off_frag_size;
       b2 \<leftarrow> wr off_frag_size (mem16 en fs) b1;
       d \<leftarrow> rdn q (get_frag (unat fs) frag) (frag_sz + unat fs);
       wr (get_frag (unat fs) num_frags) d b2
     }"

fun resend_loop ::
    "endian \<Rightarrow> nat list \<Rightarrow> resender \<times> byte list \<times> nat \<times> bool \<times> nat
      \<Rightarrow> (resender \<times> byte list \<times> nat \<times> bool \<times> nat) option" where
  "resend_loop en [] st = Some st"
| "resend_loop en (x # xs) (s, b, num_frags, header_done, ic) =
     do {
       let f = rs_outstanding s ! ((rs_resend_index s + x) mod length (rs_outstanding s));
       bfs \<leftarrow> rd16 en b off_frag_size;
       if header_done \<and> max_len < packet_size (num_frags + 1) (unat bfs)
       then Some (s, b, num_frags, header_done, ic)
       else (case rs_packets s (fid_packet f) of
          None \<Rightarrow> resend_loop en xs (s, b, num_frags, header_done, ic + 1)
        | Some i \<Rightarrow>
            if fid_frag f < 0 \<or> int (length (ri_frag_sends i)) \<le> fid_frag f then None
            else let k = nat (fid_frag f); c = ri_frag_sends i ! k
            in if max_retries < c
            then resend_loop en xs
                   (s\<lparr>rs_outstanding := map (\<lambda>g. if fid_packet g = fid_packet f then fid_invalid else g) (rs_outstanding s),
                      rs_packets := (rs_packets s)(fid_packet f := None)\<rparr>,
                    b, num_frags, header_done, ic + 1)
            else do {
              q \<leftarrow> ri_p i;
              b1 \<leftarrow> resend_copy en q k num_frags header_done b;
              resend_loop en xs
                (s\<lparr>rs_packets := (rs_packets s)(fid_packet f \<mapsto> i\<lparr>ri_frag_sends := (ri_frag_sends i)[k := c + 1]\<rparr>)\<rparr>,
                 b1, num_frags + 1, True, ic + 1)
            })
     }"

definition do_resend ::
    "endian \<Rightarrow> cksum \<Rightarrow> (nat \<Rightarrow> byte) \<Rightarrow> resender \<Rightarrow> (resender \<times> byte list option) option" where
  "do_resend en ck junk s =
     do {
       (s1, b, num_frags, hd, ic) \<leftarrow>
         resend_loop en [0..<length (rs_outstanding s)] (s, map junk [0..<max_len], 0, False, 0);
       b1 \<leftarrow> wr off_flags (mem16 en FRAG_RESEND) b;
       b2 \<leftarrow> wr off_num_frags (mem16 en (word_of_nat num_frags)) b1;
       b3 \<leftarrow> fh_set_checksum en ck b2;
       fs \<leftarrow> rd16 en b3 off_frag_size;
       Some (s1\<lparr>rs_resend_index := rs_resend_index s1 + ic\<rparr>, Some (take (packet_size num_frags (unat fs)) b3))
     }"

text \<open>A packet taken from the input is remembered with all its fragments outstanding.\<close>

definition remember_packet :: "endian \<Rightarrow> nat \<Rightarrow> resender \<Rightarrow> byte list \<Rightarrow> resender option" where
  "remember_packet en now s p =
     do {
       dst \<leftarrow> rdn p 0 6;
       pn \<leftarrow> rd16 en p off_packet_num;
       nf \<leftarrow> rd16 en p off_num_frags;
       let i = \<lparr>ri_dst = dst, ri_last_tx = now, ri_frag_status = replicate (unat nf) 0,
                ri_frag_sends = replicate (unat nf) 1, ri_p = Some p\<rparr>;
       Some (s\<lparr>rs_packets := (rs_packets s)(uint pn \<mapsto> i),
               rs_outstanding := rs_outstanding s @ map (\<lambda>x. \<lparr>fid_packet = uint pn, fid_frag = int x\<rparr>) [0..<unat nf]\<rparr>)
     }"

text \<open>\<open>inp\<close> is what a pull from input 0 returns, if the handler pulls.\<close>

definition resender_pull ::
    "endian \<Rightarrow> cksum \<Rightarrow> (nat \<Rightarrow> byte) \<Rightarrow> nat \<Rightarrow> byte list option \<Rightarrow> nat \<Rightarrow> resender
      \<Rightarrow> (resender \<times> byte list option) option" where
  "resender_pull en ck junk now inp port s =
     (if rs_wait_for_ack s then Some (s, None)
      else if port = 0
      then if rs_send_ack s \<or> unat (rs_window_size s) < length (rs_outstanding s) then ack_request en ck junk s
           else Some (s, None)
      else if rs_resend_index s < rs_resend_limit s then do_resend en ck junk s
      else case inp of
             None \<Rightarrow> Some (if rs_outstanding s \<noteq> [] then s\<lparr>rs_send_ack := True\<rparr> else s, None)
           | Some p \<Rightarrow> do { s1 \<leftarrow> remember_packet en now s p; Some (s1, Some p) })"

section \<open>The sort of \<open>fix\<close>\<close>

definition fid_key :: "fragid \<Rightarrow> bool \<times> int \<times> int" where
  "fid_key f = (\<not> fid_valid f, fid_packet f, fid_frag f)"

lemma fid_key_inj: "fid_key a = fid_key b \<longleftrightarrow> a = b"
  by (auto simp: fid_key_def)

lemma fid_greater_key: "fid_greater a b \<longleftrightarrow> fid_key a \<le> fid_key b"
  by (auto simp: fid_greater_def fid_less_def fid_key_def)

lemma length_swap_step [simp]: "length (swap_step y v) = length v"
  by (simp add: swap_step_def)

lemma mset_swap_step: "y + 1 < length v \<Longrightarrow> mset (swap_step y v) = mset v"
  by (simp add: swap_step_def mset_swap)

lemma swap_step_nth:
  assumes "y + 1 < length v" "i < length v"
  shows "swap_step y v ! i =
    (if fid_key (v ! (y + 1)) \<le> fid_key (v ! y) \<and> i = y then v ! (y + 1)
     else if fid_key (v ! (y + 1)) \<le> fid_key (v ! y) \<and> i = y + 1 then v ! y else v ! i)"
  using assms by (simp add: swap_step_def fid_greater_key nth_list_update)

text \<open>One pass over the first \<open>m + 1\<close> positions moves their largest element to position \<open>m\<close>.\<close>

lemma pass_prefix:
  assumes "m < length v"
  defines "w \<equiv> fold swap_step [0..<m] v"
  shows "length w = length v" and "mset w = mset v"
    and "\<And>i. m < i \<Longrightarrow> i < length v \<Longrightarrow> w ! i = v ! i"
    and "\<And>i. i \<le> m \<Longrightarrow> \<exists>k\<le>m. w ! i = v ! k"
    and "\<And>i. i \<le> m \<Longrightarrow> fid_key (w ! i) \<le> fid_key (w ! m)"
  using assms(1) unfolding w_def
proof (induction m)
  case 0
  { case 1 then show ?case by simp }
  { case 2 then show ?case by simp }
  { case 3 then show ?case by simp }
  { case 4 then show ?case by simp }
  { case 5 then show ?case by simp }
next
  case (Suc m)
  define u where "u = fold swap_step [0..<m] v"
  have m: "m < length v" "Suc m < length v" if "Suc m < length v" using that by auto
  have eq: "fold swap_step [0..<Suc m] v = swap_step m u" by (simp add: u_def)
  note IH = Suc.IH[folded u_def]
  { case 1 then show ?case unfolding eq using IH(1) by simp }
  { case 2 then show ?case unfolding eq using IH(1,2) by (simp add: mset_swap_step) }
  { case (3 i) then show ?case unfolding eq using IH(1,3) by (simp add: swap_step_nth) }
  { case (4 i)
    have l: "length u = length v" and um: "u ! Suc m = v ! Suc m" using IH(1,3) 4 by auto
    have old: "\<exists>k\<le>Suc m. u ! j = v ! k" if "j \<le> Suc m" for j
      using IH(4)[of j] that um 4(2) by (cases "j = Suc m") (auto intro: le_SucI)
    show ?case unfolding eq using old[of m] old[of "Suc m"] old[OF 4(1)] l 4 by (auto simp: swap_step_nth) }
  { case (5 i)
    have l: "length u = length v" using IH(1) 5 by simp
    have "fid_key (u ! j) \<le> fid_key (u ! m)" if "j \<le> m" for j using IH(5)[OF that] 5(2) by simp
    then show ?case unfolding eq using 5 l by (auto simp: swap_step_nth split: if_splits intro: order_trans) (metis le_SucE nle_le order_trans)+ }
qed

text \<open>After \<open>x\<close> passes the last \<open>x\<close> positions are in their final order.\<close>

definition top_sorted :: "nat \<Rightarrow> fragid list \<Rightarrow> bool" where
  "top_sorted x v \<longleftrightarrow> (\<forall>i j. i < j \<and> length v \<le> j + x \<and> j < length v \<longrightarrow> fid_key (v ! i) \<le> fid_key (v ! j))"

lemma bubble_pass_step:
  assumes "top_sorted x v" "Suc x < length v"
  shows "top_sorted (Suc x) (bubble_pass x v)" and "mset (bubble_pass x v) = mset v"
    and "length (bubble_pass x v) = length v"
proof -
  define m where "m = length v - 1 - x"
  define w where "w = bubble_pass x v"
  have m: "m < length v" "length v = Suc (m + x)" using assms(2) by (auto simp: m_def)
  have w: "w = fold swap_step [0..<m] v" by (simp add: w_def bubble_pass_def m_def)
  note pass = pass_prefix[OF m(1), folded w]
  have "fid_key (w ! i) \<le> fid_key (w ! j)" if ij: "i < j" "length v \<le> j + Suc x" "j < length v" for i j
  proof (cases "j = m")
    case True
    then show ?thesis using pass(5)[of i] ij by simp
  next
    case False
    then have j: "m < j" using ij m(2) by simp
    have top: "fid_key (v ! k) \<le> fid_key (v ! j)" if "k < j" for k
      using assms(1) that j ij m(2) by (auto simp: top_sorted_def)
    obtain k where "w ! i = v ! k" "k < j"
      using pass(3)[of i] pass(4)[of i] ij j by (metis le_less_trans not_le order.strict_trans)
    with top pass(3)[OF j ij(3)] show ?thesis by simp
  qed
  with pass(1) show "top_sorted (Suc x) (bubble_pass x v)" by (auto simp: top_sorted_def w_def[symmetric])
  show "mset (bubble_pass x v) = mset v" "length (bubble_pass x v) = length v"
    using pass(1,2) by (simp_all add: w_def)
qed

lemma bubble_passes:
  assumes "x \<le> length v - 1"
  shows "top_sorted x (fold bubble_pass [0..<x] v) \<and> mset (fold bubble_pass [0..<x] v) = mset v \<and>
    length (fold bubble_pass [0..<x] v) = length v"
  using assms
proof (induction x)
  case (Suc x)
  then show ?case using bubble_pass_step[of x "fold bubble_pass [0..<x] v"] by auto
qed (auto simp: top_sorted_def)

lemma bubble_sort_key: "bubble v = sort_key fid_key v"
proof (rule sort_key_inj_key_eq[symmetric])
  have b: "top_sorted (length v - 1) (bubble v)" "mset (bubble v) = mset v" "length (bubble v) = length v"
    using bubble_passes[of "length v - 1" v] by (auto simp: bubble_def)
  then show "mset v = mset (bubble v)" by simp
  show "inj_on fid_key (set v)" by (auto simp: inj_on_def fid_key_inj)
  show "sorted (map fid_key (bubble v))"
    using b(1,3) by (auto simp: sorted_iff_nth_mono_less top_sorted_def)
qed

lemma sorted_valid:
  "sorted (map fid_key u) \<Longrightarrow> \<forall>f\<in>set u. fid_valid f \<Longrightarrow> sorted (map (\<lambda>f. (fid_packet f, fid_frag f)) u)"
  by (induction u) (auto simp: fid_key_def)

lemma valid_prefix:
  "takeWhile fid_valid (sort_key fid_key v) = sort_key (\<lambda>f. (fid_packet f, fid_frag f)) (filter fid_valid v)"
proof -
  let ?w = "sort_key fid_key v"
  have "takeWhile fid_valid ?w = filter fid_valid ?w"
  proof (rule takeWhile_eq_filter)
    fix f assume f: "f \<in> set (dropWhile fid_valid ?w)"
    then obtain g gs where d: "dropWhile fid_valid ?w = g # gs" by (cases "dropWhile fid_valid ?w") auto
    then have g: "\<not> fid_valid g" by (metis dropWhile_eq_Cons_conv)
    have "sorted (map fid_key (g # gs))"
    proof -
      have "sorted (map fid_key (takeWhile fid_valid ?w @ dropWhile fid_valid ?w))" by simp
      then show ?thesis unfolding d map_append sorted_append by simp
    qed
    then have "fid_key g \<le> fid_key f" using f d by auto
    with g show "\<not> fid_valid f" by (auto simp: fid_key_def)
  qed
  also have "\<dots> = sort_key fid_key (filter fid_valid v)" by (rule filter_sort)
  also have "\<dots> = sort_key (\<lambda>f. (fid_packet f, fid_frag f)) (filter fid_valid v)"
  proof (rule sort_key_inj_key_eq[symmetric])
    let ?u = "sort_key fid_key (filter fid_valid v)"
    show "mset (filter fid_valid v) = mset ?u" by simp
    show "inj_on (\<lambda>f. (fid_packet f, fid_frag f)) (set (filter fid_valid v))" by (auto simp: inj_on_def)
    have "sorted (map fid_key ?u)" by simp
    moreover have "\<forall>f\<in>set ?u. fid_valid f" by simp
    ultimately show "sorted (map (\<lambda>f. (fid_packet f, fid_frag f)) ?u)" by (rule sorted_valid)
  qed
  finally show ?thesis .
qed

definition fid_sort :: "fragid list \<Rightarrow> fragid list" where
  "fid_sort = sort_key (\<lambda>f. (fid_packet f, fid_frag f))"

lemma fix_window_outstanding:
  "rs_outstanding (fix_window s) = fid_sort (filter fid_valid (rs_outstanding s))"
  by (simp add: fix_window_def Let_def bubble_sort_key valid_prefix fid_sort_def)

section \<open>Windows of identifiers\<close>

text \<open>What \<open>WindowInfo::add\<close> and the loop of the duplicate filter promise.\<close>

locale id_window =
  fixes ids :: "'w \<Rightarrow> 'f list" and add :: "'f \<Rightarrow> 'w \<Rightarrow> 'w \<times> bool"
  assumes add_known: "f \<in> set (ids w) \<Longrightarrow> add f w = (w, False)"
    and add_new: "f \<notin> set (ids w) \<Longrightarrow> ids (fst (add f w)) = ids w @ [f] \<and> snd (add f w)"
begin

lemma ids_add: "ids (fst (add f w)) = (if f \<in> set (ids w) then ids w else ids w @ [f])"
  using add_known add_new by auto

lemma fold_set: "set (ids (fold (\<lambda>f w. fst (add f w)) fs w)) = set (ids w) \<union> set fs"
  by (induction fs arbitrary: w) (auto simp: ids_add)

lemma fold_distinct: "distinct (ids w) \<Longrightarrow> distinct (ids (fold (\<lambda>f w. fst (add f w)) fs w))"
  by (induction fs arbitrary: w) (auto simp: ids_add)

lemma fold_length: "length (ids (fold (\<lambda>f w. fst (add f w)) fs w)) \<le> length (ids w) + length fs"
proof (induction fs arbitrary: w)
  case (Cons f fs)
  then show ?case using Cons.IH[of "fst (add f w)"] by (auto simp: ids_add split: if_splits)
qed simp

lemma fold_fresh:
  "distinct fs \<Longrightarrow> set fs \<inter> set (ids w) = {} \<Longrightarrow> ids (fold (\<lambda>f w. fst (add f w)) fs w) = ids w @ fs"
  by (induction fs arbitrary: w) (auto simp: ids_add)

end

interpretation ackw: id_window wi_frags_rx window_add
  by unfold_locales (auto simp: window_add_def)

interpretation dupw: id_window "\<lambda>ids. ids" dupe_add
  by unfold_locales (auto simp: dupe_add_def)

section \<open>Identifiers of a packet\<close>

definition packet_ids :: "endian \<Rightarrow> byte list \<Rightarrow> fragid list option" where
  "packet_ids en p =
     do {
       nf \<leftarrow> rd16 en p off_num_frags;
       fs \<leftarrow> rd16 en p off_frag_size;
       those (map (\<lambda>x. frag_fragid en p (get_frag (unat fs) x)) [0..<unat nf])
     }"

definition fid_wf :: "fragid \<Rightarrow> bool" where
  "fid_wf f \<longleftrightarrow> 0 \<le> fid_packet f \<and> fid_packet f < 2 ^ 16 \<and> 0 \<le> fid_frag f \<and> fid_frag f < 2 ^ 8"

lemma frag_fragid_wf: "frag_fragid en b off = Some f \<Longrightarrow> fid_wf f"
  by (auto simp: frag_fragid_def fid_wf_def bind_eq_Some_conv)
    (use unsigned_less[where ?'a = int and ?'b = 16] unsigned_less[where ?'a = int and ?'b = 8] in auto)

lemma checked_ids:
  assumes "check_simple_action en ck False nout p = Some Out0" "length p < 2 ^ 16"
  obtains nf fs ids where "rd16 en p off_num_frags = Some nf" "rd16 en p off_frag_size = Some fs"
    "packet_ids en p = Some ids" "length ids = unat nf" "\<forall>f\<in>set ids. fid_wf f"
    "\<And>x. x < unat nf \<Longrightarrow> frag_valid_checksum ck (unat fs) (get_frag (unat fs) x) p = Some True"
    "\<And>x. x < unat nf \<Longrightarrow> frag_fragid en p (get_frag (unat fs) x) = Some (ids ! x)"
proof -
  obtain nf fs where c: "rd16 en p off_num_frags = Some nf" "rd16 en p off_frag_size = Some fs"
    "packet_size (unat nf) (unat fs) = length p"
    "\<And>x. x < unat nf \<Longrightarrow> frag_valid_checksum ck (unat fs) (get_frag (unat fs) x) p = Some True"
    using check_out0[OF assms] by metis
  define g where "g x = the (frag_fragid en p (get_frag (unat fs) x))" for x
  have g: "frag_fragid en p (get_frag (unat fs) x) = Some (g x)" if "x < unat nf" for x
    using get_frag_inside[OF c(3) that] by (simp add: g_def frag_fragid_def rd16_def)
  have "those (map (\<lambda>x. frag_fragid en p (get_frag (unat fs) x)) [0..<unat nf]) = Some (map g [0..<unat nf])"
    using g by (intro those_map_Some) simp
  then have "packet_ids en p = Some (map g [0..<unat nf])" by (simp add: packet_ids_def c)
  moreover have "\<forall>f\<in>set (map g [0..<unat nf]). fid_wf f" using frag_fragid_wf[OF g] by auto
  ultimately show thesis using c g by (intro that[of nf fs "map g [0..<unat nf]"]) auto
qed

section \<open>Acknowledgements\<close>

text \<open>An acknowledgement that lists \<open>ids\<close>.\<close>

definition acks :: "endian \<Rightarrow> byte list \<Rightarrow> fragid list \<Rightarrow> bool" where
  "acks en p ids \<longleftrightarrow> rd16 en p 16 = Some (word_of_nat (length ids)) \<and>
     (\<forall>x<length ids. rd16 en p (18 + 2 * x) = Some (word_of_int (fid_packet (ids ! x))) \<and>
        rd8 p (18 + 2 * length ids + x) = Some (word_of_int (fid_frag (ids ! x))))"

lemma rdn_put_at_same: "i + length src \<le> length b \<Longrightarrow> rdn (put_at i src b) i (length src) = Some src"
  by (simp add: put_at_same)

lemma rd16_put_at_same: "i + 2 \<le> length b \<Longrightarrow> rd16 en (put_at i (mem16 en w) b) i = Some w"
  using rdn_put_at_same[of i "mem16 en w" b] by (simp add: rd16_def)

lemma rd16_put_at_other:
  "k + length src \<le> length b \<Longrightarrow> i + 2 \<le> k \<or> k + length src \<le> i \<Longrightarrow> rd16 en (put_at k src b) i = rd16 en b i"
  by (simp add: rd16_def rdn_put_at_other)

lemma rd8_put_at:
  "k + length src \<le> length b \<Longrightarrow> rd8 (put_at k src b) i = (if k \<le> i \<and> i < k + length src then Some (src ! (i - k)) else rd8 b i)"
  by (auto simp: rd8_def nth_put_at)

lemma ack_build_acks:
  assumes n: "length ids < 2 ^ 16" and l: "length (fa_en s) = 6" "length src = 6"
  shows "\<exists>p. ack_build en junk src s ids = Some p \<and> acks en p ids"
proof -
  define n where "n = length ids"
  define I where "I k b \<longleftrightarrow> length b = ack_packet_size n \<and> rd16 en b 16 = Some (word_of_nat n) \<and>
     (\<forall>x<k. rd16 en b (18 + 2 * x) = Some (word_of_int (fid_packet (ids ! x))) \<and>
        rd8 b (18 + 2 * n + x) = Some (word_of_int (fid_frag (ids ! x))))" for k b
  have step: "\<exists>c. ack_set en n ids x b = Some c \<and> I (Suc x) c" if "x < n" "I x b" for x b
  proof -
    define c1 where "c1 = put_at (18 + 2 * x) (mem16 en (word_of_int (fid_packet (ids ! x)))) b"
    define c where "c = put_at (18 + 2 * n + x) [word_of_int (fid_frag (ids ! x)) :: byte] c1"
    have lb: "length b = 18 + 3 * n" using that(2) by (simp add: I_def ack_packet_size_def)
    have l1: "length c1 = length b" using lb that(1) by (simp add: c1_def)
    have e: "ack_set en n ids x b = Some c" using lb l1 that(1) by (simp add: ack_set_def c_def c1_def)
    have r16: "rd16 en c i = rd16 en c1 i" if "i + 2 \<le> 18 + 2 * n" for i
      unfolding c_def using that lb l1 \<open>x < n\<close> by (intro rd16_put_at_other) auto
    have r16': "rd16 en c1 i = (if i = 18 + 2 * x then Some (word_of_int (fid_packet (ids ! x))) else rd16 en b i)"
      if "i = 18 + 2 * x \<or> i + 2 \<le> 18 + 2 * x" for i
      unfolding c1_def using that lb \<open>x < n\<close> by (auto intro: rd16_put_at_same rd16_put_at_other)
    have r8: "rd8 c i = (if i = 18 + 2 * n + x then Some (word_of_int (fid_frag (ids ! x))) else rd8 b i)"
      if "18 + 2 * n \<le> i" for i
      unfolding c_def c1_def using that lb \<open>x < n\<close> by (simp add: rd8_put_at)
    have lc: "length c = ack_packet_size n" using lb l1 that(1) by (simp add: c_def ack_packet_size_def)
    have "rd16 en c 16 = Some (word_of_nat n)" using that by (simp add: r16 r16' I_def)
    moreover have "rd16 en c (18 + 2 * y) = Some (word_of_int (fid_packet (ids ! y)))" if y: "y < Suc x" for y
      using y \<open>x < n\<close> \<open>I x b\<close> r16[of "18 + 2 * y"] r16'[of "18 + 2 * y"] by (auto simp: less_Suc_eq I_def)
    moreover have "rd8 c (18 + 2 * n + y) = Some (word_of_int (fid_frag (ids ! y)))" if y: "y < Suc x" for y
      using y \<open>I x b\<close> r8[of "18 + 2 * n + y"] by (auto simp: less_Suc_eq I_def)
    ultimately have "I (Suc x) c" unfolding I_def using lc by blast
    with e show ?thesis by blast
  qed
  define b0 where "b0 = put_at 16 (mem16 en (word_of_nat n)) (put_at 12 (be16 (fa_et s))
      (put_at 0 src (put_at 6 (fa_en s) (map junk [0..<ack_packet_size n]))))"
  have "I 0 b0" unfolding I_def b0_def using l by (simp add: ack_packet_size_def rd16_put_at_same)
  from forM_invariant[of n I "ack_set en n ids" b0, OF step this]
  obtain p where p: "forM (ack_set en n ids) [0..<n] b0 = Some p" "I n p" by blast
  have u: "unat (word_of_nat n :: u16) = n" using n by (intro unat_of_nat_small) (simp add: n_def)
  have "ack_build en junk src s ids = Some p"
    using l p(1) by (simp add: ack_build_def n_def[symmetric] u ack_packet_size_def b0_def)
  with p(2) show ?thesis by (auto simp: acks_def I_def n_def)
qed

text \<open>The identifiers that the receiver can handle: not one past the last fragment.\<close>

definition acks_safe :: "(int \<rightharpoonup> resend_info) \<Rightarrow> fragid list \<Rightarrow> bool" where
  "acks_safe m ids \<longleftrightarrow>
     (\<forall>a\<in>set ids. \<forall>i. m (fid_packet a) = Some i \<longrightarrow> int (length (ri_frag_status i)) \<noteq> fid_frag a)"

lemma uint_word_of_int_small: "0 \<le> k \<Longrightarrow> k < 2 ^ LENGTH('a) \<Longrightarrow> uint (word_of_int k :: 'a::len word) = k"
  by (simp add: uint_word_of_int)

lemma ack_one_step:
  assumes a: "acks en p ids" and wf: "\<forall>f\<in>set ids. fid_wf f" and x: "x < length ids"
    and safe: "acks_safe (rs_packets s) ids"
  shows "\<exists>s1. ack_one en p (length ids) x s = Some s1 \<and> acks_safe (rs_packets s1) ids \<and>
    rs_outstanding s1 = map (\<lambda>f. if f = ids ! x then fid_invalid else f) (rs_outstanding s)"
proof -
  let ?a = "ids ! x"
  have r: "rd16 en p (18 + 2 * x) = Some (word_of_int (fid_packet ?a))"
    "rd8 p (18 + 2 * length ids + x) = Some (word_of_int (fid_frag ?a))"
    using a x by (auto simp: acks_def)
  have "fid_wf ?a" using wf x by simp
  then have u: "uint (word_of_int (fid_packet ?a) :: u16) = fid_packet ?a"
      "uint (word_of_int (fid_frag ?a) :: byte) = fid_frag ?a"
    by (auto simp: fid_wf_def intro: uint_word_of_int_small)
  have n: "unat (word_of_int (fid_frag ?a) :: byte) = nat (fid_frag ?a)" "0 \<le> fid_frag ?a"
    using u(2) \<open>fid_wf ?a\<close> by (simp_all add: unat_eq_nat_uint fid_wf_def)
  have eq: "\<lparr>fid_packet = fid_packet ?a, fid_frag = fid_frag ?a\<rparr> = ?a" by simp
  have out: "map (\<lambda>f. if ?a = f then fid_invalid else f) (rs_outstanding s) =
      map (\<lambda>f. if f = ?a then fid_invalid else f) (rs_outstanding s)" by (rule map_cong) auto
  show ?thesis
  proof (cases "rs_packets s (fid_packet ?a)")
    case None
    then show ?thesis using safe by (simp add: ack_one_def r u eq out)
  next
    case (Some i)
    have ne: "int (length (ri_frag_status i)) \<noteq> fid_frag ?a" using safe x Some by (auto simp: acks_safe_def)
    show ?thesis
    proof (cases "length (ri_frag_status i) < nat (fid_frag ?a)")
      case True
      then show ?thesis using Some safe by (simp add: ack_one_def r u n eq out)
    next
      case False
      then have lt: "nat (fid_frag ?a) < length (ri_frag_status i)" using ne n(2) by linarith
      define i1 where "i1 = i\<lparr>ri_frag_status := put_at (nat (fid_frag ?a)) [1] (ri_frag_status i)\<rparr>"
      define s1 where "s1 = s\<lparr>rs_outstanding := map (\<lambda>f. if f = ?a then fid_invalid else f) (rs_outstanding s),
          rs_packets := (rs_packets s)(fid_packet ?a := if ri_done i1 then None else Some i1)\<rparr>"
      have "ack_one en p (length ids) x s = Some s1"
        using Some lt by (simp add: ack_one_def r u n eq out Let_def s1_def i1_def)
      moreover have "length (ri_frag_status i1) = length (ri_frag_status i)" using lt by (simp add: i1_def)
      then have "acks_safe (rs_packets s1) ids" using safe Some by (auto simp: acks_safe_def s1_def)
      ultimately show ?thesis by (auto simp: s1_def)
    qed
  qed
qed

lemma process_ack_clears:
  assumes a: "acks en p ids" and wf: "\<forall>f\<in>set ids. fid_wf f" and n: "length ids < 2 ^ 16"
    and safe: "acks_safe (rs_packets s) ids"
  shows "\<exists>s'. process_ack en p s = Some s' \<and> \<not> rs_wait_for_ack s' \<and> \<not> rs_send_ack s' \<and> rs_timer s' = None \<and>
    rs_resend_index s' = 0 \<and> rs_resend_limit s' = length (rs_outstanding s') \<and>
    rs_outstanding s' = fid_sort (filter (\<lambda>f. fid_valid f \<and> f \<notin> set ids) (rs_outstanding s))"
proof -
  define I :: "nat \<Rightarrow> resender \<Rightarrow> bool" where "I x r \<longleftrightarrow> acks_safe (rs_packets r) ids \<and>
    rs_outstanding r = map (\<lambda>f. if f \<in> set (take x ids) then fid_invalid else f) (rs_outstanding s)" for x r
  have inv: "fid_invalid \<notin> set ids" using wf by (auto simp: fid_invalid_def fid_wf_def)
  have step: "\<exists>c. ack_one en p (length ids) x r = Some c \<and> I (Suc x) c" if x: "x < length ids" and r: "I x r" for x r
  proof -
    from r have r': "acks_safe (rs_packets r) ids"
      "rs_outstanding r = map (\<lambda>f. if f \<in> set (take x ids) then fid_invalid else f) (rs_outstanding s)" by (auto simp: I_def)
    obtain c where c: "ack_one en p (length ids) x r = Some c" "acks_safe (rs_packets c) ids"
      "rs_outstanding c = map (\<lambda>f. if f = ids ! x then fid_invalid else f) (rs_outstanding r)"
      using ack_one_step[OF a wf x r'(1)] by blast
    have "ids ! x \<noteq> fid_invalid" using inv x by (metis nth_mem)
    then have "rs_outstanding c = map (\<lambda>f. if f \<in> set (take (Suc x) ids) then fid_invalid else f) (rs_outstanding s)"
      using x by (auto simp: c(3) r'(2) take_Suc_conv_app_nth)
    with c show ?thesis by (auto simp: I_def)
  qed
  define s0 where "s0 = s\<lparr>rs_timer := None, rs_wait_for_ack := False\<rparr>"
  have "I 0 s0" using safe by (simp add: I_def s0_def)
  from forM_invariant[of "length ids" I "ack_one en p (length ids)" s0, OF step this]
  obtain s1 where s1: "forM (ack_one en p (length ids)) [0..<length ids] s0 = Some s1" "I (length ids) s1" by blast
  have u: "unat (word_of_nat (length ids) :: u16) = length ids" using n by (intro unat_of_nat_small) simp
  define s2 where "s2 = (fix_window s1)\<lparr>rs_timer := None, rs_send_ack := False, rs_wait_for_ack := False\<rparr>"
  have e: "process_ack en p s = Some s2"
    using s1(1) a u by (simp add: process_ack_def acks_def s0_def s2_def)
  have "filter fid_valid (rs_outstanding s1) = filter (\<lambda>f. fid_valid f \<and> f \<notin> set ids) (rs_outstanding s)"
  proof -
    have v: "\<not> fid_valid fid_invalid" by (simp add: fid_valid_def fid_invalid_def)
    have "filter fid_valid (map (\<lambda>f. if f \<in> set ids then fid_invalid else f) fs) = filter (\<lambda>f. fid_valid f \<and> f \<notin> set ids) fs" for fs
      using v by (induction fs) auto
    with s1(2) show ?thesis by (simp add: I_def)
  qed
  then have "rs_outstanding s2 = fid_sort (filter (\<lambda>f. fid_valid f \<and> f \<notin> set ids) (rs_outstanding s))"
    by (simp add: s2_def fix_window_outstanding)
  with e show ?thesis by (auto simp: s2_def fix_window_def Let_def)
qed

lemma ack_window:
  assumes "rd16 en p off_frag_size = Some fs"
    and "\<And>x. x < length ids \<Longrightarrow> frag_valid_checksum ck (unat fs) (get_frag (unat fs) x) p = Some True"
    and "\<And>x. x < length ids \<Longrightarrow> frag_fragid en p (get_frag (unat fs) x) = Some (ids ! x)"
  shows "\<exists>b. forM (ack_frag en ck p) [0..<length ids] (w, False) = Some (fold (\<lambda>f w. fst (window_add f w)) ids w, b)"
proof -
  define I where "I x st \<longleftrightarrow> fst st = fold (\<lambda>f w. fst (window_add f w)) (take x ids) w" for x and st :: "window_info \<times> bool"
  have "\<exists>c. ack_frag en ck p x st = Some c \<and> I (Suc x) c" if "x < length ids" "I x st" for x st
    using assms that by (simp add: ack_frag_def I_def take_Suc_conv_app_nth case_prod_unfold Let_def)
  from forM_invariant[of "length ids" I "ack_frag en ck p" "(w, False)", OF this] show ?thesis by (auto simp: I_def)
qed

section \<open>The duplicate filter\<close>

fun fresh_prefix :: "fragid list \<Rightarrow> fragid list \<Rightarrow> fragid list \<times> bool" where
  "fresh_prefix [] ids = (ids, False)"
| "fresh_prefix (f # fs) ids = (if f \<in> set ids then (ids, True) else fresh_prefix fs (ids @ [f]))"

lemma dupe_loop_fresh:
  assumes "rd16 en p off_frag_size = Some fs" "\<And>x. x \<in> set xs \<Longrightarrow> frag_fragid en p (get_frag (unat fs) x) = Some (g x)"
  shows "dupe_loop en p xs ids = Some (fresh_prefix (map g xs) ids)"
  using assms by (induction xs arbitrary: ids) (auto simp: dupe_add_def)

lemma fresh_prefix_fresh:
  "distinct fs \<Longrightarrow> set fs \<inter> set ids = {} \<Longrightarrow> fresh_prefix fs ids = (ids @ fs, False)"
  by (induction fs arbitrary: ids) auto

lemma fresh_prefix_dupe:
  assumes "\<not> (distinct fs \<and> set fs \<inter> set ids = {})"
  shows "\<exists>k<length fs. fresh_prefix fs ids = (ids @ take k fs, True) \<and> distinct (take k fs) \<and>
    set (take k fs) \<inter> set ids = {} \<and> fs ! k \<in> set ids \<union> set (take k fs)"
  using assms
proof (induction fs arbitrary: ids)
  case (Cons f fs)
  show ?case
  proof (cases "f \<in> set ids")
    case False
    then have "\<not> (distinct fs \<and> set fs \<inter> set (ids @ [f]) = {})" using Cons.prems by auto
    from Cons.IH[OF this] obtain k where k: "k < length fs" "fresh_prefix fs (ids @ [f]) = ((ids @ [f]) @ take k fs, True)"
      "distinct (take k fs)" "set (take k fs) \<inter> set (ids @ [f]) = {}" "fs ! k \<in> set (ids @ [f]) \<union> set (take k fs)" by auto
    with False show ?thesis by (intro exI[of _ "Suc k"]) auto
  qed (auto intro: exI[of _ 0])
qed simp

text \<open>The identifiers recorded for a source.\<close>

definition seen :: "dupe_filter \<Rightarrow> ether_addr \<Rightarrow> fragid list" where
  "seen t src = (case t src of None \<Rightarrow> [] | Some i \<Rightarrow> di_frags i)"

lemma dupe_action:
  assumes "check_simple_action en ck False nout p = Some Out0" "length p < 2 ^ 16" "packet_ids en p = Some ids"
  shows "\<exists>t'. dupe_simple_action en W t p = Some (t', \<not> snd (fresh_prefix ids (seen t (take 6 (drop 6 p))))) \<and>
    seen t' = (seen t)(take 6 (drop 6 p) :=
      (let r = fresh_prefix ids (seen t (take 6 (drop 6 p)))
       in if snd r then fst r else drop (length (fst r) - unat W) (fst r)))"
proof -
  obtain nf fs ids' where c: "rd16 en p off_num_frags = Some nf" "rd16 en p off_frag_size = Some fs"
    "packet_ids en p = Some ids'" "length ids' = unat nf"
    "\<And>x. x < unat nf \<Longrightarrow> frag_fragid en p (get_frag (unat fs) x) = Some (ids' ! x)"
    using checked_ids[OF assms(1,2)] by metis
  have ids: "map (\<lambda>x. ids ! x) [0..<unat nf] = ids" using assms(3) c(3,4) by (auto intro: nth_equalityI)
  have "26 \<le> length p" using assms(1) by (auto simp: check_simple_action_def Let_def split: if_splits)
  then have src: "rdn p off_src 6 = Some (take 6 (drop 6 p))" by simp
  have loop: "dupe_loop en p [0..<unat nf] old = Some (fresh_prefix ids old)" for old
    using dupe_loop_fresh[OF c(2), of "[0..<unat nf]" "\<lambda>x. ids ! x" old] c(3,5) assms(3) ids by simp
  define i where "i = (case t (take 6 (drop 6 p)) of Some i \<Rightarrow> i | None \<Rightarrow> \<lparr>di_src = take 6 (drop 6 p), di_frags = []\<rparr>)"
  have i: "di_frags i = seen t (take 6 (drop 6 p))" by (simp add: i_def seen_def split: option.splits)
  show ?thesis unfolding dupe_simple_action_def
    using c(1) loop i by (simp add: src i_def[symmetric] case_prod_unfold Let_def) (auto simp: seen_def fun_eq_iff)
qed

text \<open>A stream of packets through the filter, with those that pass.\<close>

fun dupe_run :: "endian \<Rightarrow> u32 \<Rightarrow> dupe_filter \<Rightarrow> byte list list \<Rightarrow> (dupe_filter \<times> byte list list) option" where
  "dupe_run en W t [] = Some (t, [])"
| "dupe_run en W t (p # ps) =
     do {
       (t1, pass) \<leftarrow> dupe_simple_action en W t p;
       (t2, qs) \<leftarrow> dupe_run en W t1 ps;
       Some (t2, if pass then p # qs else qs)
     }"

text \<open>The fragments a list of packets delivers: source and identifier.\<close>

definition delivered :: "endian \<Rightarrow> byte list list \<Rightarrow> (ether_addr \<times> fragid) list" where
  "delivered en ps = concat (map (\<lambda>p. map (Pair (take 6 (drop 6 p))) (the (packet_ids en p))) ps)"

lemma dupe_run_distinct:
  assumes "\<forall>p\<in>set ps. check_simple_action en ck False nout p = Some Out0 \<and> length p < 2 ^ 16"
    and "\<forall>src. length (seen t src) + length (delivered en ps) \<le> unat W"
  shows "\<exists>t' qs. dupe_run en W t ps = Some (t', qs) \<and> distinct (delivered en qs) \<and>
    (\<forall>src f. f \<in> set (seen t src) \<longrightarrow> (src, f) \<notin> set (delivered en qs))"
  using assms
proof (induction ps arbitrary: t)
  case Nil
  then show ?case by (simp add: delivered_def)
next
  case (Cons p ps)
  define src where "src = take 6 (drop 6 p)"
  from Cons.prems(1) have p: "check_simple_action en ck False nout p = Some Out0" "length p < 2 ^ 16" by auto
  obtain ids where ids: "packet_ids en p = Some ids" using checked_ids[OF p] by metis
  have del: "delivered en (p # qs) = map (Pair src) ids @ delivered en qs" for qs by (simp add: delivered_def ids src_def)
  obtain t1 where t1: "dupe_simple_action en W t p = Some (t1, \<not> snd (fresh_prefix ids (seen t src)))"
    "seen t1 = (seen t)(src := (let r = fresh_prefix ids (seen t src)
       in if snd r then fst r else drop (length (fst r) - unat W) (fst r)))"
    using dupe_action[OF p ids, of W t] unfolding src_def by blast
  have len: "length (seen t s) + length ids + length (delivered en ps) \<le> unat W" for s
    using Cons.prems(2)[rule_format, of s] by (simp add: del)
  show ?case
  proof (cases "distinct ids \<and> set ids \<inter> set (seen t src) = {}")
    case True
    then have fp: "fresh_prefix ids (seen t src) = (seen t src @ ids, False)" by (simp add: fresh_prefix_fresh)
    have s1: "seen t1 = (seen t)(src := seen t src @ ids)" using t1(2) len[of src] by (simp add: fp)
    have "length (seen t1 s) + length (delivered en ps) \<le> unat W" for s
      using len[of s] by (auto simp: s1)
    then obtain t' qs where r: "dupe_run en W t1 ps = Some (t', qs)" "distinct (delivered en qs)"
      "\<forall>s f. f \<in> set (seen t1 s) \<longrightarrow> (s, f) \<notin> set (delivered en qs)"
      using Cons.IH[of t1] Cons.prems(1) by auto
    have "dupe_run en W t (p # ps) = Some (t', p # qs)" using t1(1) r(1) by (simp add: fp)
    moreover have "distinct (delivered en (p # qs))"
      using True r(2,3) by (auto simp: del distinct_map s1 inj_on_def)
    moreover have "set (seen t s) \<subseteq> set (seen t1 s)" for s by (auto simp: s1)
    with True r(3) have "\<forall>s f. f \<in> set (seen t s) \<longrightarrow> (s, f) \<notin> set (delivered en (p # qs))"
      by (auto simp: del)
    ultimately show ?thesis by blast
  next
    case False
    then obtain k where k: "k < length ids" "fresh_prefix ids (seen t src) = (seen t src @ take k ids, True)"
      using fresh_prefix_dupe by blast
    have s1: "seen t1 = (seen t)(src := seen t src @ take k ids)" using t1(2) by (simp add: k)
    have "length (seen t1 s) + length (delivered en ps) \<le> unat W" for s
      using len[of s] k(1) by (auto simp: s1)
    then obtain t' qs where r: "dupe_run en W t1 ps = Some (t', qs)" "distinct (delivered en qs)"
      "\<forall>s f. f \<in> set (seen t1 s) \<longrightarrow> (s, f) \<notin> set (delivered en qs)"
      using Cons.IH[of t1] Cons.prems(1) by auto
    have "dupe_run en W t (p # ps) = Some (t', qs)" using t1(1) r(1) by (simp add: k)
    moreover have "set (seen t s) \<subseteq> set (seen t1 s)" for s by (auto simp: s1)
    with r(3) have "\<forall>s f. f \<in> set (seen t s) \<longrightarrow> (s, f) \<notin> set (delivered en qs)" by blast
    ultimately show ?thesis using r(2) by blast
  qed
qed

section \<open>Properties\<close>

text \<open>
  Property C35: duplicates are delivered once. Through a filter that starts empty, as long as no
  more fragments are sent than the window holds, no fragment of a source is passed on twice,
  whatever checked packets arrive in whatever order.
\<close>

theorem dupe_filter_delivers_once:
  assumes "\<forall>p\<in>set ps. check_simple_action en ck False nout p = Some Out0 \<and> length p < 2 ^ 16"
    and "length (delivered en ps) \<le> unat W"
  shows "\<exists>t qs. dupe_run en W Map.empty ps = Some (t, qs) \<and> distinct (delivered en qs)"
  using dupe_run_distinct[OF assms(1), of Map.empty W] assms(2) by (auto simp: seen_def)

text \<open>Two copies of a one-fragment packet, for the witnesses.\<close>

definition sample_packet :: "byte \<Rightarrow> byte list" where
  "sample_packet x = (replicate 14 0 @ [1, 0, 1, 0, 2, 0, 5, 0, 1, 0, 0, 0]) @ concat [[5, 0, x, 0, 0, 0, 77]]"

lemma sample_packet_simps:
  "check_simple_action LittleEndian (\<lambda>_. 0) False nout (sample_packet x) = Some Out0"
  "length (sample_packet x) = 33" "rd16 LittleEndian (sample_packet x) off_num_frags = Some 1"
  "rd16 LittleEndian (sample_packet x) off_frag_size = Some 1" "rd16 LittleEndian (sample_packet x) off_flags = Some 1"
  "packet_ids LittleEndian (sample_packet x) = Some [\<lparr>fid_packet = 5, fid_frag = uint x\<rparr>]"
  "take 6 (drop 6 (sample_packet x)) = replicate 6 0"
proof -
  show "check_simple_action LittleEndian (\<lambda>_. 0) False nout (sample_packet x) = Some Out0"
    unfolding sample_packet_def by (rule check_passes[where fs = 1])
      (simp_all add: frags_ok_def rd16_def mem_u16_def u16_of_def be_val_def packet_size_def)
  show "packet_ids LittleEndian (sample_packet x) = Some [\<lparr>fid_packet = 5, fid_frag = uint x\<rparr>]"
    by (simp add: packet_ids_def sample_packet_def rd16_def mem_u16_def u16_of_def be_val_def frag_fragid_def get_frag_def nth_append)
qed (simp_all add: sample_packet_def rd16_def mem_u16_def u16_of_def be_val_def)

theorem dupe_filter_delivers_once_witness:
  "\<exists>t qs. dupe_run LittleEndian 500 Map.empty [sample_packet 0, sample_packet 1, sample_packet 0] = Some (t, qs) \<and>
    distinct (delivered LittleEndian qs)"
  by (rule dupe_filter_delivers_once[where ck = "\<lambda>_. 0" and nout = 1]) (simp_all add: sample_packet_simps delivered_def)

text \<open>
  What the duplicate filter does with one packet. It passes exactly if all its
  fragments are new, and then the last \<open>W\<close> identifiers are remembered. Otherwise it is killed,
  but the identifiers of the new fragments in front of the first duplicate are remembered as
  if they had been delivered.
\<close>

theorem dupe_filter_step:
  assumes "check_simple_action en ck False nout p = Some Out0" "length p < 2 ^ 16" "packet_ids en p = Some ids"
    and old_def: "old = seen t (take 6 (drop 6 p))"
  shows "\<exists>t'. if distinct ids \<and> set ids \<inter> set old = {}
    then dupe_simple_action en W t p = Some (t', True) \<and>
      seen t' = (seen t)(take 6 (drop 6 p) := drop (length (old @ ids) - unat W) (old @ ids))
    else dupe_simple_action en W t p = Some (t', False) \<and>
      (\<exists>k<length ids. ids ! k \<in> set old \<union> set (take k ids) \<and> distinct (take k ids) \<and> set (take k ids) \<inter> set old = {} \<and>
        seen t' = (seen t)(take 6 (drop 6 p) := old @ take k ids))"
proof -
  obtain t' where t': "dupe_simple_action en W t p = Some (t', \<not> snd (fresh_prefix ids old))"
    "seen t' = (seen t)(take 6 (drop 6 p) := (let r = fresh_prefix ids old in if snd r then fst r else drop (length (fst r) - unat W) (fst r)))"
    using dupe_action[OF assms(1-3), of W t] unfolding old_def by blast
  show ?thesis
  proof (cases "distinct ids \<and> set ids \<inter> set old = {}")
    case True
    then show ?thesis using t' by (intro exI[of _ t']) (simp add: fresh_prefix_fresh)
  next
    case False
    from fresh_prefix_dupe[OF this] False t' show ?thesis by (intro exI[of _ t']) auto
  qed
qed

theorem dupe_filter_step_witness:
  "\<exists>t'. dupe_simple_action LittleEndian 500 Map.empty (sample_packet 3) = Some (t', True) \<and>
    seen t' (replicate 6 0) = [\<lparr>fid_packet = 5, fid_frag = 3\<rparr>]"
proof -
  from dupe_filter_step[OF sample_packet_simps(1) _ sample_packet_simps(6) refl, of 3 Map.empty 500]
  obtain t' where "dupe_simple_action LittleEndian 500 Map.empty (sample_packet 3) = Some (t', True)"
    "seen t' = (seen Map.empty)(replicate 6 0 := [\<lparr>fid_packet = 5, fid_frag = 3\<rparr>])"
    by (auto simp: sample_packet_simps seen_def)
  then show ?thesis by (intro exI[of _ t']) simp
qed

text \<open>
  Property C13: an acknowledgement clears what it acknowledges. When a checked packet that asks
  for an acknowledgement reaches \<open>FragmentAck\<close>, the packet pushed on output 1 makes the sender's
  \<open>FragmentResender\<close> forget exactly the valid fragments that are in the receiver's window or in
  the packet; the others stay, sorted by packet and fragment number, the resend position is
  reset, and the sender no longer waits. This holds as long as no acknowledged fragment number equals the number of
  fragments of its packet (\<open>acks_safe\<close>): \<open>process_ack\<close> rejects larger numbers but not that one, and writes past the
  status vector. The window and the packet have fewer than 65536 fragments, the window with packet numbers of 16 bits
  and fragment numbers of 8.
\<close>

theorem ack_clears_outstanding:
  assumes chk: "check_simple_action en ck False nout p = Some Out0" "length p < 2 ^ 16"
    and ids: "packet_ids en p = Some ids"
    and fl: "rd16 en p off_flags = Some fl" "fl AND FRAG_ACKME \<noteq> 0"
    and old: "old = (case fa_frags fa (take 6 (drop 6 p)) of None \<Rightarrow> [] | Some w \<Rightarrow> wi_frags_rx w)"
    and wf: "\<forall>f\<in>set old. fid_wf f" "length old + length ids < 2 ^ 16" "length (fa_en fa) = 6"
    and safe: "acks_safe (rs_packets s) (old @ ids)"
  shows "\<exists>fa' a s'. ack_simple_action en ck junk now fa p = Some (fa', Some a) \<and> process_ack en a s = Some s' \<and>
    rs_outstanding s' = fid_sort (filter (\<lambda>f. fid_valid f \<and> f \<notin> set old \<union> set ids) (rs_outstanding s)) \<and>
    rs_resend_index s' = 0 \<and> rs_resend_limit s' = length (rs_outstanding s') \<and> \<not> rs_wait_for_ack s' \<and> \<not> rs_send_ack s'"
proof -
  define src where "src = take 6 (drop 6 p)"
  obtain nf fs ids' where c: "rd16 en p off_num_frags = Some nf" "rd16 en p off_frag_size = Some fs"
    "packet_ids en p = Some ids'" "length ids' = unat nf" "\<forall>f\<in>set ids'. fid_wf f"
    "\<And>x. x < unat nf \<Longrightarrow> frag_valid_checksum ck (unat fs) (get_frag (unat fs) x) p = Some True"
    "\<And>x. x < unat nf \<Longrightarrow> frag_fragid en p (get_frag (unat fs) x) = Some (ids' ! x)"
    using checked_ids[OF chk] by metis
  from c(3) ids have ids': "ids' = ids" by simp
  have "26 \<le> length p" using chk(1) by (auto simp: check_simple_action_def Let_def split: if_splits)
  then have src: "rdn p off_src 6 = Some src" "length src = 6" by (simp_all add: src_def)
  define w0 where "w0 = (case fa_frags fa src of Some w \<Rightarrow> w
      | None \<Rightarrow> \<lparr>wi_src = src, wi_frags_rx = [], wi_first_rx = 0, wi_waiting = False\<rparr>)"
  define w1 where "w1 = fold (\<lambda>f w. fst (window_add f w)) ids w0"
  have w0: "wi_frags_rx w0 = old" by (simp add: w0_def old src_def split: option.splits)
  obtain b where b: "forM (ack_frag en ck p) [0..<unat nf] (w0, False) = Some (w1, b)"
    using ack_window[of en p fs ids ck w0] c(2,4,6,7) unfolding ids' w1_def by auto
  define w2 where "w2 = (if b \<and> \<not> wi_waiting w1 then w1\<lparr>wi_first_rx := now\<rparr> else w1)"
  define all where "all = wi_frags_rx w2"
  have all: "set all = set old \<union> set ids" "length all \<le> length old + length ids"
    using ackw.fold_set[of ids w0] ackw.fold_length[of ids w0] by (simp_all add: all_def w2_def w1_def w0)
  define fa1 where "fa1 = fa\<lparr>fa_frags := (fa_frags fa)(src \<mapsto> w2)\<rparr>"
  obtain a where a: "ack_build en junk src fa1 all = Some a" "acks en a all"
    using ack_build_acks[of all fa1 src en junk] all(2) wf(2,3) src(2) by (auto simp: fa1_def)
  have "ack_simple_action en ck junk now fa p = send_ack en junk src fa1"
    using b c(1) fl by (simp add: ack_simple_action_def src w0_def[symmetric] Let_def w2_def[symmetric] fa1_def)
  moreover have "send_ack en junk src fa1 =
      Some (fa1\<lparr>fa_frags := (fa_frags fa1)(src \<mapsto> w2\<lparr>wi_frags_rx := [], wi_waiting := False\<rparr>)\<rparr>, Some a)"
    using a(1) by (simp add: send_ack_def fa1_def all_def)
  moreover have "\<forall>f\<in>set all. fid_wf f" "length all < 2 ^ 16" "acks_safe (rs_packets s) all"
    using all wf(1,2) c(5) ids' safe by (auto simp: acks_safe_def)
  from process_ack_clears[OF a(2) this] obtain s' where "process_ack en a s = Some s'" "\<not> rs_wait_for_ack s'" "\<not> rs_send_ack s'"
    "rs_resend_index s' = 0" "rs_resend_limit s' = length (rs_outstanding s')"
    "rs_outstanding s' = fid_sort (filter (\<lambda>f. fid_valid f \<and> f \<notin> set all) (rs_outstanding s))" by blast
  ultimately show ?thesis unfolding all(1) by auto
qed

text \<open>A sender that waits for the acknowledgement of fragments 3 and 1 of packet 5.\<close>

definition sample_resender :: resender where
  "sample_resender = \<lparr>rs_packets = [5 \<mapsto> \<lparr>ri_dst = [], ri_last_tx = 0, ri_frag_status = [0, 0, 0, 0], ri_frag_sends = [1, 1, 1, 1], ri_p = None\<rparr>],
     rs_et = 0, rs_wait_for_ack = True, rs_send_ack = False, rs_window_size = 1, rs_ack_timeout_ms = 100, rs_timer = None,
     rs_outstanding = [\<lparr>fid_packet = 5, fid_frag = 3\<rparr>, \<lparr>fid_packet = 5, fid_frag = 1\<rparr>], rs_resend_index = 2, rs_resend_limit = 2\<rparr>"

theorem ack_clears_outstanding_witness:
  "\<exists>fa' a s'. ack_simple_action LittleEndian (\<lambda>_. 0) (\<lambda>_. 0) 0 \<lparr>fa_frags = Map.empty, fa_en = replicate 6 1, fa_et = 9\<rparr> (sample_packet 3) = Some (fa', Some a) \<and>
    process_ack LittleEndian a sample_resender = Some s' \<and> rs_outstanding s' = [\<lparr>fid_packet = 5, fid_frag = 1\<rparr>]"
proof -
  from ack_clears_outstanding[OF sample_packet_simps(1) _ sample_packet_simps(6,5) _ refl,
      of 3 "\<lparr>fa_frags = Map.empty, fa_en = replicate 6 1, fa_et = 9\<rparr>" sample_resender "\<lambda>_. 0" 0]
  obtain fa' a s' where "ack_simple_action LittleEndian (\<lambda>_. 0) (\<lambda>_. 0) 0 \<lparr>fa_frags = Map.empty, fa_en = replicate 6 1, fa_et = 9\<rparr> (sample_packet 3) = Some (fa', Some a)"
    "process_ack LittleEndian a sample_resender = Some s'"
    "rs_outstanding s' = fid_sort (filter (\<lambda>f. fid_valid f \<and> f \<notin> {\<lparr>fid_packet = 5, fid_frag = 3\<rparr>}) (rs_outstanding sample_resender))"
    by (auto simp: sample_packet_simps acks_safe_def sample_resender_def)
  then show ?thesis by (simp add: sample_resender_def fid_valid_def fid_sort_def)
qed

text \<open>
  An acknowledgement of one fragment makes \<open>FragmentResender\<close> write outside of the
  status vector exactly if the fragment number is the number of fragments of a packet it
  knows: the range check lets that number through.
\<close>

theorem ack_off_by_one:
  assumes "rd16 en p 16 = Some 1" "rd16 en p 18 = Some pk" "rd8 p 20 = Some fr"
  shows "process_ack en p s = None \<longleftrightarrow> (\<exists>i. rs_packets s (uint pk) = Some i \<and> length (ri_frag_status i) = unat fr)"
  using assms by (auto simp: process_ack_def ack_one_def wr_def bind_eq_None_conv Let_def split: option.splits)

theorem ack_off_by_one_witness:
  "process_ack LittleEndian (replicate 16 0 @ [1, 0, 5, 0, 4]) sample_resender = None"
  using ack_off_by_one[of LittleEndian "replicate 16 0 @ [1, 0, 5, 0, 4]" 5 4 sample_resender]
  by (simp add: rd16_def mem_u16_def u16_of_def be_val_def sample_resender_def nth_append)

text \<open>
  \<open>CheckFragment\<close> protects the elements behind it. A packet below 64 KB that it passes
  (without \<open>HEADER_ONLY\<close>) is handled by \<open>Fragment\<close>, \<open>FragmentDecap\<close>, \<open>FragmentDupeFilter\<close> and, if
  no acknowledgement is due, \<open>FragmentAck\<close> without any access outside of the packet.
\<close>

theorem check_guards_readers:
  assumes "check_simple_action en ck False nout p = Some Out0" "length p < 2 ^ 16"
  shows "fragment_push en ck p \<noteq> None \<and> decap_simple_action en p \<noteq> None \<and> dupe_simple_action en W t p \<noteq> None \<and>
    (rd16 en p off_flags = Some 0 \<longrightarrow> ack_simple_action en ck junk now fa p \<noteq> None)"
proof (intro conjI impI)
  show "fragment_push en ck p \<noteq> None" "decap_simple_action en p \<noteq> None"
    using fragment_push_checked[OF assms] decap_checked[OF assms] by auto
  obtain nf fs ids where c: "rd16 en p off_num_frags = Some nf" "rd16 en p off_frag_size = Some fs"
    "packet_ids en p = Some ids" "length ids = unat nf"
    "\<And>x. x < unat nf \<Longrightarrow> frag_valid_checksum ck (unat fs) (get_frag (unat fs) x) p = Some True"
    "\<And>x. x < unat nf \<Longrightarrow> frag_fragid en p (get_frag (unat fs) x) = Some (ids ! x)"
    using checked_ids[OF assms] by metis
  show "dupe_simple_action en W t p \<noteq> None" using dupe_action[OF assms c(3), of W t] by auto
  assume fl: "rd16 en p off_flags = Some 0"
  have "26 \<le> length p" using assms(1) by (auto simp: check_simple_action_def Let_def split: if_splits)
  then have "rdn p off_src 6 \<noteq> None" by simp
  moreover have "\<exists>b. forM (ack_frag en ck p) [0..<unat nf] (w, False) = Some (fold (\<lambda>f w. fst (window_add f w)) ids w, b)" for w
    using ack_window[OF c(2), of ids ck w] c(4,5,6) by simp
  ultimately show "ack_simple_action en ck junk now fa p \<noteq> None"
    using c(1) fl by (auto simp: ack_simple_action_def bind_eq_None_conv case_prod_unfold Let_def) blast
qed

theorem check_guards_readers_witness:
  "fragment_push LittleEndian (\<lambda>_. 0) (sample_packet 3) \<noteq> None \<and> decap_simple_action LittleEndian (sample_packet 3) \<noteq> None"
  using check_guards_readers[OF sample_packet_simps(1), of 3] by (simp add: sample_packet_simps)

text \<open>
  Property C32: the in-place loops of \<open>FragmentResender::fix\<close> leave exactly the valid identifiers
  of the window in the order the library's sorting function gives them, whatever the window held.
\<close>

theorem fix_equals_sort:
  "rs_outstanding (fix_window s) = sort_key (\<lambda>f. (fid_packet f, fid_frag f)) (filter fid_valid (rs_outstanding s))"
  by (simp add: fix_window_outstanding fid_sort_def)

end
