(* ===== verification/Roofnet_SR.thy ===== *)
theory Roofnet_SR
  imports Click_Checksum
begin

text \<open>
  Source routing in Roofnet (\<open>roofnet/sr\<close>): the packet format of \<open>srpacket.hh\<close> and the elements of
  the data path, \<open>SetSourceRoute\<close>, \<open>SRForwarder\<close>, \<open>SetSRChecksum\<close>, \<open>CheckSRHeader\<close>,
  \<open>DupeFilter\<close>, \<open>SetSRFlag\<close> and \<open>StripSRHeader\<close>.

  A frame is an Ethernet header, the 46 bytes of \<open>srpacket\<close> (a packed structure), for each link
  of the route the node it starts at and four \<open>uint32_t\<close> in host order, the last node, and the
  data. Offsets count from the Ethernet header. The ARP and link tables and \<open>index_of\<close> belong to
  Click: they are parameters. Pushing a header is taken to find headroom in an unshared packet. An
  access outside of the frame, or an assertion that fails, is \<^const>\<open>None\<close>.
\<close>

section \<open>Format\<close>

abbreviation (input) "PT_DATA \<equiv> 4 :: byte"
abbreviation (input) "sr_version \<equiv> 0x0b :: byte"
abbreviation (input) "o_version \<equiv> 14 :: nat"
abbreviation (input) "o_type \<equiv> 15 :: nat"
abbreviation (input) "o_nlinks \<equiv> 16 :: nat"
abbreviation (input) "o_next \<equiv> 17 :: nat"
abbreviation (input) "o_flags \<equiv> 22 :: nat"
abbreviation (input) "o_dlen \<equiv> 24 :: nat"
abbreviation (input) "o_qdst \<equiv> 26 :: nat"
abbreviation (input) "o_random_from \<equiv> 38 :: nat"
abbreviation (input) "o_random_fwd \<equiv> 42 :: nat"
abbreviation (input) "o_random_rev \<equiv> 46 :: nat"
abbreviation (input) "o_random_seq \<equiv> 50 :: nat"
abbreviation (input) "o_random_age \<equiv> 54 :: nat"
abbreviation (input) "o_random_to \<equiv> 56 :: nat"

text \<open>Offset of \<open>ndx[0]\<close> of a link; the forwarder also asks for link -1.\<close>

definition link_off :: "int \<Rightarrow> nat" where
  "link_off link = nat (60 + 20 * link)"

definition sr_node :: "byte list \<Rightarrow> int \<Rightarrow> ip_addr option" where
  "sr_node p link = map_option u32_of (rdn p (link_off link) 4)"

definition set_link ::
    "endian \<Rightarrow> int \<Rightarrow> ip_addr \<Rightarrow> ip_addr \<Rightarrow> u32 \<Rightarrow> u32 \<Rightarrow> u32 \<Rightarrow> u32 \<Rightarrow> byte list \<Rightarrow> byte list option" where
  "set_link en link a b fwd rv seq age p =
     wr (link_off link) (be32 a @ mem32 en fwd @ mem32 en rv @ mem32 en seq @ mem32 en age @ be32 b) p"

definition len_wo_data :: "nat \<Rightarrow> nat" where
  "len_wo_data nlinks = 46 + 4 + nlinks * 20"

definition sr_tlen :: "byte list \<Rightarrow> nat option" where
  "sr_tlen p =
     do {
       ty \<leftarrow> rd8 p o_type;
       nl \<leftarrow> rd8 p o_nlinks;
       if ty AND PT_DATA \<noteq> 0
       then do { d \<leftarrow> rdn p o_dlen 2; Some (len_wo_data (unat nl) + unat (u16_of d)) }
       else Some (len_wo_data (unat nl))
     }"

definition sr_path :: "byte list \<Rightarrow> ip_addr list option" where
  "sr_path p = do { nl \<leftarrow> rd8 p o_nlinks; those (map (\<lambda>x. sr_node p (int x)) [0..<unat nl + 1]) }"

definition sr_set_flag :: "u16 \<Rightarrow> byte list \<Rightarrow> byte list option" where
  "sr_set_flag f p = do { v \<leftarrow> rdn p o_flags 2; wr o_flags (be16 (u16_of v OR f)) p }"

definition sr_set_checksum :: "endian \<Rightarrow> cksum \<Rightarrow> byte list \<Rightarrow> byte list option" where
  "sr_set_checksum en ck p = do { tlen \<leftarrow> sr_tlen p; store_checksum en ck 14 6 tlen p }"

section \<open>SetSRChecksum, StripSRHeader, SetSRFlag\<close>

text \<open>The inner \<^const>\<open>None\<close> is a killed packet.\<close>

definition setck_simple_action :: "endian \<Rightarrow> cksum \<Rightarrow> byte list \<Rightarrow> byte list option option" where
  "setck_simple_action en ck p =
     do {
       tlen \<leftarrow> sr_tlen p;
       if length p < 46 then Some None
       else if length p - 14 < tlen then Some None
       else do {
         p1 \<leftarrow> wr o_version [sr_version] p;
         p2 \<leftarrow> sr_set_checksum en ck p1;
         Some (Some p2)
       }
     }"

text \<open>\<open>Packet::pull\<close> of more than the length removes everything.\<close>

definition strip_simple_action :: "byte list \<Rightarrow> byte list option" where
  "strip_simple_action p = do { nl \<leftarrow> rd8 p o_nlinks; Some (drop (len_wo_data (unat nl) + 14) p) }"

fun srflag_configure :: "string list \<Rightarrow> u16 \<Rightarrow> u16 option" where
  "srflag_configure [] flags = Some flags"
| "srflag_configure (word # conf) flags =
     (if word = ''FLAG_SCHEDULE'' then srflag_configure conf (flags OR 16)
      else if word = ''FLAG_ERROR'' then srflag_configure conf (flags OR 1)
      else if word = ''FLAG_UPDATE'' then srflag_configure conf (flags OR 2)
      else None)"

definition srflag_simple_action :: "u16 \<Rightarrow> byte list \<Rightarrow> byte list option" where
  "srflag_simple_action flags p = sr_set_flag flags p"

section \<open>CheckSRHeader\<close>

record check_sr =
  cs_drops :: int
  cs_bad_table :: "ether_addr \<rightharpoonup> byte"

datatype sr_verdict = Accept | BadOutput | BadKilled

definition drop_it :: "nat \<Rightarrow> check_sr \<Rightarrow> check_sr \<times> sr_verdict" where
  "drop_it noutputs s = (s\<lparr>cs_drops := cs_drops s + 1\<rparr>, if noutputs = 2 then BadOutput else BadKilled)"

definition checksr_simple_action ::
    "cksum \<Rightarrow> nat \<Rightarrow> check_sr \<Rightarrow> byte list \<Rightarrow> (check_sr \<times> sr_verdict) option" where
  "checksr_simple_action ck noutputs s p =
     (if length p < 46 then Some (drop_it noutputs s)
      else do {
        tlen \<leftarrow> sr_tlen p;
        v \<leftarrow> rd8 p o_version;
        if v \<noteq> sr_version
        then do {
          src \<leftarrow> rdn p 6 6;
          Some (drop_it noutputs (s\<lparr>cs_bad_table := (cs_bad_table s)(src \<mapsto> v)\<rparr>))
        }
        else if length p < tlen then Some (drop_it noutputs s)
        else do {
          c \<leftarrow> rdn p 14 tlen;
          if ck c \<noteq> 0 then Some (drop_it noutputs s)
          else do {
            nx \<leftarrow> rd8 p o_next;
            nl \<leftarrow> rd8 p o_nlinks;
            if nl < nx then do { a \<leftarrow> sr_node p 0; Some (drop_it noutputs s) }
            else Some (s, Accept)
          }
        }
      })"

section \<open>SRForwarder\<close>

text \<open>The operations of the ARP table and of the link table.\<close>

record ('a, 'l) tables =
  arp_lookup :: "'a \<Rightarrow> ip_addr \<Rightarrow> ether_addr"
  arp_insert :: "'a \<Rightarrow> ip_addr \<Rightarrow> ether_addr \<Rightarrow> 'a"
  lt_update :: "'l \<Rightarrow> ip_addr \<Rightarrow> ip_addr \<Rightarrow> u32 \<Rightarrow> u32 \<Rightarrow> u32 \<Rightarrow> 'l \<times> bool"
  lt_metric :: "'l \<Rightarrow> ip_addr \<Rightarrow> ip_addr \<Rightarrow> u32"
  lt_seq :: "'l \<Rightarrow> ip_addr \<Rightarrow> ip_addr \<Rightarrow> u32"
  lt_age :: "'l \<Rightarrow> ip_addr \<Rightarrow> ip_addr \<Rightarrow> u32"

record forwarder =
  fw_ip :: ip_addr
  fw_eth :: ether_addr
  fw_et :: u16

definition update_link ::
    "('a, 'l) tables \<Rightarrow> ip_addr \<Rightarrow> ip_addr \<Rightarrow> u32 \<Rightarrow> u32 \<Rightarrow> u32 \<Rightarrow> 'l option \<Rightarrow> 'l option \<times> bool" where
  "update_link T a b seq age metric lt =
     (case lt of
        None \<Rightarrow> (None, True)
      | Some l \<Rightarrow> let (l1, ok) = lt_update T l a b seq age metric in (Some l1, ok))"

text \<open>
  \<open>encap\<close>: the frame and the offset of the IP header annotation. The outer \<^const>\<open>None\<close> is the failed
  assertion on the length of the route, the inner one a killed packet.
\<close>

definition sr_header :: "nat \<Rightarrow> int \<Rightarrow> u16 \<Rightarrow> nat \<Rightarrow> ip_addr list \<Rightarrow> byte list" where
  "sr_header hops next flags payload_len r =
     [sr_version, PT_DATA, word_of_nat hops, word_of_int next] @ replicate 4 0 @ be16 flags @
     be16 (word_of_nat payload_len) @ replicate 34 0 @
     concat (map (\<lambda>i. be32 (r ! i) @ replicate 16 0) [0..<hops]) @ be32 (r ! (length r - 1))"

definition sr_encap ::
    "(ip_addr list \<Rightarrow> ip_addr \<Rightarrow> int) \<Rightarrow> ('a, 'l) tables \<Rightarrow> forwarder \<Rightarrow> 'a \<Rightarrow> byte list \<Rightarrow> ip_addr list \<Rightarrow> u16
      \<Rightarrow> (byte list \<times> nat) option option" where
  "sr_encap index_of T f arp p r flags =
     (if length r \<le> 1 then None
      else let hops = length r - 1;
               next = index_of r (fw_ip f) + 1
      in if next < 0 \<or> int (length r) \<le> next then Some None
      else Some (Some (arp_lookup T arp (r ! nat next) @ fw_eth f @ be16 (fw_et f) @
                         sr_header hops next flags (length p) r @ p,
                       14 + len_wo_data (unat (word_of_nat hops :: byte)))))"

text \<open>Metrics carried by the packet: the random link, then every link of the route.\<close>

definition learn ::
    "('a, 'l) tables \<Rightarrow> ip_addr \<Rightarrow> ip_addr \<Rightarrow> u32 \<Rightarrow> u32 \<Rightarrow> u32 \<Rightarrow> u32 \<Rightarrow> 'l option \<Rightarrow> 'l option" where
  "learn T a b fwd rv seq age lt =
     (let lt1 = (if fwd \<noteq> 0 then fst (update_link T a b seq age fwd lt) else lt)
      in if rv \<noteq> 0 then fst (update_link T b a seq age rv lt1) else lt1)"

definition learn_random ::
    "endian \<Rightarrow> ('a, 'l) tables \<Rightarrow> byte list \<Rightarrow> 'l option \<Rightarrow> 'l option option" where
  "learn_random en T p lt =
     do {
       r_from \<leftarrow> rdn p o_random_from 4;
       r_to \<leftarrow> rdn p o_random_to 4;
       fwd \<leftarrow> rd32 en p o_random_fwd;
       rv \<leftarrow> rd32 en p o_random_rev;
       seq \<leftarrow> rd32 en p o_random_seq;
       age \<leftarrow> rd16 en p o_random_age;
       Some (if u32_of r_from \<noteq> 0 \<and> u32_of r_to \<noteq> 0
             then learn T (u32_of r_from) (u32_of r_to) fwd rv seq (ucast age) lt else lt)
     }"

definition learn_link ::
    "endian \<Rightarrow> ('a, 'l) tables \<Rightarrow> byte list \<Rightarrow> nat \<Rightarrow> 'l option \<Rightarrow> 'l option option" where
  "learn_link en T p i lt =
     do {
       a \<leftarrow> sr_node p (int i);
       b \<leftarrow> sr_node p (int i + 1);
       fwd \<leftarrow> rd32 en p (link_off (int i) + 4);
       rv \<leftarrow> rd32 en p (link_off (int i) + 8);
       seq \<leftarrow> rd32 en p (link_off (int i) + 12);
       age \<leftarrow> rd32 en p (link_off (int i) + 16);
       Some (learn T a b fwd rv seq age lt)
     }"

datatype sr_out = Forward "byte list" nat | Deliver "byte list" nat ip_addr | Dropped

definition forward_packet ::
    "endian \<Rightarrow> ('a, 'l) tables \<Rightarrow> forwarder \<Rightarrow> 'a \<Rightarrow> 'l option \<Rightarrow> byte \<Rightarrow> byte list \<Rightarrow> ('a \<times> byte list) option" where
  "forward_packet en T f arp lt nx p =
     do {
       prev \<leftarrow> sr_node p (uint nx - 1);
       shost \<leftarrow> rdn p 6 6;
       let arp1 = arp_insert T arp prev shost;
       let get = (\<lambda>g a b. case lt of None \<Rightarrow> 0 | Some l \<Rightarrow> g l a b);
       p1 \<leftarrow> set_link en (uint nx - 1) prev (fw_ip f)
               (get (lt_metric T) prev (fw_ip f)) (get (lt_metric T) (fw_ip f) prev)
               (get (lt_seq T) (fw_ip f) prev) (get (lt_age T) (fw_ip f) prev) p;
       p2 \<leftarrow> wr o_next [nx + 1] p1;
       nxt \<leftarrow> sr_node p2 (uint (nx + 1));
       p3 \<leftarrow> wr 0 (arp_lookup T arp1 nxt) p2;
       p4 \<leftarrow> wr 6 (fw_eth f) p3;
       Some (arp1, p4)
     }"

definition sr_push ::
    "endian \<Rightarrow> ('a, 'l) tables \<Rightarrow> forwarder \<Rightarrow> nat \<Rightarrow> 'a \<times> 'l option \<Rightarrow> byte list
      \<Rightarrow> (('a \<times> 'l option) \<times> sr_out) option" where
  "sr_push en T f port st p =
     (if 1 < port then Some (st, Dropped)
      else do {
        edst \<leftarrow> rdn p 0 6;
        ty \<leftarrow> rd8 p o_type;
        if ty \<noteq> PT_DATA then Some (st, Dropped)
        else do {
          nx \<leftarrow> rd8 p o_next;
          mine \<leftarrow> (if port = 0 then do { n \<leftarrow> sr_node p (uint nx); Some (n = fw_ip f) } else Some True);
          if \<not> mine then Some (st, Dropped)
          else do {
            nl \<leftarrow> rd8 p o_nlinks;
            lt1 \<leftarrow> learn_random en T p (snd st);
            lt2 \<leftarrow> forM (learn_link en T p) [0..<unat nl] lt1;
            let ip_off = 14 + len_wo_data (unat nl);
            if nx = nl
            then do { n0 \<leftarrow> sr_node p 0; Some ((fst st, lt2), Deliver p ip_off n0) }
            else do {
              (arp1, q) \<leftarrow> forward_packet en T f (fst st) lt2 nx p;
              Some ((arp1, lt2), Forward q ip_off)
            }
          }
        }
      })"

section \<open>SetSourceRoute\<close>

type_synonym routes = "ip_addr \<rightharpoonup> ip_addr list"

datatype route_error = BadAddress nat | NotMyAddress

text \<open>The address argument of the write handler is parsed by Click. An empty path is read at index 0.\<close>

definition set_route :: "ip_addr list \<Rightarrow> routes \<Rightarrow> routes option" where
  "set_route p rt = (if p = [] then None else Some (rt(p ! (length p - 1) \<mapsto> p)))"

fun parse_path :: "(string \<Rightarrow> ip_addr option) \<Rightarrow> nat \<Rightarrow> string list \<Rightarrow> nat + ip_addr list" where
  "parse_path cp x [] = Inr []"
| "parse_path cp x (a # args) =
     (case cp a of
        None \<Rightarrow> Inl x
      | Some ip \<Rightarrow> (case parse_path cp (x + 1) args of Inl e \<Rightarrow> Inl e | Inr p \<Rightarrow> Inr (ip # p)))"

definition static_set_route ::
    "(string \<Rightarrow> ip_addr option) \<Rightarrow> ip_addr \<Rightarrow> string list \<Rightarrow> routes \<Rightarrow> (route_error + routes) option" where
  "static_set_route cp ip args rt =
     (case parse_path cp 0 args of
        Inl x \<Rightarrow> Some (Inl (BadAddress x))
      | Inr p \<Rightarrow> if p = [] then None
                else if p ! 0 \<noteq> ip then Some (Inl NotMyAddress)
                else map_option Inr (set_route p rt))"

datatype route_out = Routed "byte list" nat | NoRoute | RouteKilled

definition route_simple_action ::
    "(ip_addr list \<Rightarrow> ip_addr \<Rightarrow> int) \<Rightarrow> ('a, 'l) tables \<Rightarrow> forwarder \<Rightarrow> 'a \<Rightarrow> routes \<Rightarrow> ip_addr \<Rightarrow> byte list
      \<Rightarrow> route_out option" where
  "route_simple_action index_of T f arp rt dst p =
     (if dst = 0 then Some RouteKilled
      else case rt dst of
             None \<Rightarrow> Some NoRoute
           | Some r \<Rightarrow> map_option (\<lambda>x. case x of None \<Rightarrow> RouteKilled | Some (q, ip_off) \<Rightarrow> Routed q ip_off)
                                  (sr_encap index_of T f arp p r 0))"

section \<open>DupeFilter\<close>

record path_info =
  pt_last :: int
  pt_dupes :: int
  pt_packets :: int
  pt_sequences :: "u32 list"

definition path_clear :: "int \<Rightarrow> path_info" where
  "path_clear now = \<lparr>pt_last = now, pt_dupes = 0, pt_packets = 0, pt_sequences = []\<rparr>"

text \<open>With a negative window the loop ends up taking an element from an empty queue.\<close>

definition trim_window :: "int \<Rightarrow> u32 list \<Rightarrow> u32 list option" where
  "trim_window window seqs = (if window < 0 then None else Some (drop (length seqs - nat window) seqs))"

definition dupefilter_simple_action ::
    "int \<Rightarrow> int \<Rightarrow> (ip_addr list \<rightharpoonup> path_info) \<Rightarrow> byte list \<Rightarrow> ((ip_addr list \<rightharpoonup> path_info) \<times> bool) option" where
  "dupefilter_simple_action window now t p =
     do {
       path \<leftarrow> sr_path p;
       let nfo = (case t path of None \<Rightarrow> path_clear now | Some i \<Rightarrow> i);
       s \<leftarrow> rdn p o_qdst 4;
       let seq = u32_of s;
       let nfo1 = (if seq = 0 \<or> 30 < now - pt_last nfo then path_clear now else nfo);
       if seq \<in> set (pt_sequences nfo1)
       then Some (t(path \<mapsto> nfo1\<lparr>pt_dupes := pt_dupes nfo1 + 1\<rparr>), False)
       else do {
         seqs \<leftarrow> trim_window window (pt_sequences nfo1 @ [seq]);
         Some (t(path \<mapsto> nfo1\<lparr>pt_packets := pt_packets nfo1 + 1, pt_last := now, pt_sequences := seqs\<rparr>), True)
       }
     }"

section \<open>Frames that carry a packet along a route\<close>

lemma rd8_put_at_other:
  "k + length src \<le> length b \<Longrightarrow> i < k \<or> k + length src \<le> i \<Longrightarrow> rd8 (put_at k src b) i = rd8 b i"
  by (auto simp: rd8_def nth_put_at)

lemma rdn_put_at_in:
  assumes "k + length src \<le> length b" "k \<le> i" "i + n \<le> k + length src"
  shows "rdn (put_at k src b) i n = rdn src (i - k) n"
proof -
  have "take n (drop i (put_at k src b)) = take n (drop (i - k) src)"
    using assms by (intro nth_equalityI) (auto simp: nth_put_at)
  with assms show ?thesis by (simp add: rdn_def)
qed

lemma drop_put_at: "k + length src \<le> m \<Longrightarrow> k + length src \<le> length b \<Longrightarrow> drop m (put_at k src b) = drop m b"
  by (intro nth_equalityI) (auto simp: nth_put_at)

lemma u16_of_nat: "n < 2 ^ 16 \<Longrightarrow> unat (u16_of (be16 (word_of_nat n))) = n"
  by (simp add: unat_of_nat)

definition carries :: "nat \<Rightarrow> ip_addr list \<Rightarrow> byte list \<Rightarrow> nat \<Rightarrow> byte list \<Rightarrow> bool" where
  "carries h r d i b \<longleftrightarrow>
     0 < h \<and> h < 256 \<and> length r = Suc h \<and> length d < 65536 \<and> i \<le> h \<and> length b = 64 + 20 * h + length d \<and>
     rd8 b o_type = Some PT_DATA \<and> rd8 b o_nlinks = Some (word_of_nat h) \<and>
     rd8 b o_next = Some (word_of_nat i) \<and> rdn b o_dlen 2 = Some (be16 (word_of_nat (length d))) \<and>
     (\<forall>k\<le>h. rdn b (60 + 20 * k) 4 = Some (be32 (r ! k))) \<and> drop (64 + 20 * h) b = d"

lemma carriesD:
  assumes "carries h r d i b"
  shows "0 < h" "h < 256" "length r = Suc h" "length d < 65536" "i \<le> h" "length b = 64 + 20 * h + length d"
    "rd8 b o_type = Some PT_DATA" "rd8 b o_nlinks = Some (word_of_nat h)"
    "rd8 b o_next = Some (word_of_nat i)" "rdn b o_dlen 2 = Some (be16 (word_of_nat (length d)))"
    "drop (64 + 20 * h) b = d"
  using assms unfolding carries_def by blast+

lemma link_off_nat [simp]: "link_off (int k) = 60 + 20 * k"
  by (simp add: link_off_def nat_add_distrib nat_mult_distrib)

lemma carries_rdn: "carries h r d i b \<Longrightarrow> k \<le> h \<Longrightarrow> rdn b (60 + 20 * k) 4 = Some (be32 (r ! k))"
  by (simp add: carries_def del: rdn_Some)

lemma carries_node: "carries h r d i b \<Longrightarrow> k \<le> h \<Longrightarrow> sr_node b (int k) = Some (r ! k)"
  by (simp add: carries_def sr_node_def del: rdn_Some)

lemma unat_byte: "n < 256 \<Longrightarrow> unat (word_of_nat n :: byte) = n" "n < 256 \<Longrightarrow> uint (word_of_nat n :: byte) = int n"
  by (simp_all add: unat_of_nat uint_nat)

lemma carries_tlen:
  assumes "carries h r d i b"
  shows "sr_tlen b = Some (50 + 20 * h + length d)"
proof -
  note c = carriesD[OF assms]
  have "unat (u16_of (be16 (word_of_nat (length d)))) = length d" using c(4) by (simp add: unat_of_nat)
  then show ?thesis using c(2) unfolding sr_tlen_def c(7,8,10) by (simp add: unat_byte len_wo_data_def)
qed

lemma carries_put:
  assumes "carries h r d i b" "k + length src \<le> 15 \<or> 18 \<le> k \<and> k + length src \<le> 24"
  shows "carries h r d i (put_at k src b)"
proof -
  note c = carriesD[OF assms(1)]
  have l: "k + length src \<le> length b" using assms(2) c(6) by auto
  have "rdn (put_at k src b) (60 + 20 * j) 4 = Some (be32 (r ! j))" if "j \<le> h" for j
  proof -
    have "rdn (put_at k src b) (60 + 20 * j) 4 = rdn b (60 + 20 * j) 4" by (rule rdn_put_at_other[OF l]) (use assms(2) in auto)
    then show ?thesis using carries_rdn[OF assms(1) that] by simp
  qed
  moreover have "rd8 (put_at k src b) x = rd8 b x" if "x \<in> {15, 16, 17}" for x
    by (rule rd8_put_at_other[OF l]) (use assms(2) that in auto)
  moreover have "rdn (put_at k src b) 24 2 = rdn b 24 2" by (rule rdn_put_at_other[OF l]) (use assms(2) in auto)
  moreover have "drop (64 + 20 * h) (put_at k src b) = d"
    using drop_put_at[of k src "64 + 20 * h" b] l assms(2) c(11) by auto
  ultimately show ?thesis using c l unfolding carries_def by (simp del: rdn_Some rd8_Some)
qed

section \<open>Checksums of frames\<close>

lemma store_checksum_ok:
  assumes "cksum_law en ck" "even k" "k + 2 \<le> n" "off + n \<le> length b"
  shows "\<exists>c. length c = 2 \<and> store_checksum en ck off k n b = Some (put_at (off + k) c b) \<and>
    (\<exists>x. rdn (put_at (off + k) c b) off n = Some x \<and> ck x = 0)"
proof -
  define mid where "mid = take n (drop off b)"
  have m: "length mid = n" using assms(4) by (simp add: mid_def)
  have b: "b = take off b @ mid @ drop (off + n) b" unfolding mid_def by (metis append_take_drop_id drop_drop add.commute)
  define c where "c = mem16 en (ck (put_at k (mem16 en 0) mid))"
  have st: "stamp en ck k mid = put_at k c mid" by (simp add: stamp_def c_def)
  have off: "length (take off b) = off" using assms(4) by simp
  have p: "put_at (off + k) c b = take off b @ put_at k c mid @ drop (off + n) b"
    by (subst b, subst put_at_mid) (use off m assms(3) in \<open>auto simp: c_def\<close>)
  have "store_checksum en ck off k n b = Some (put_at (off + k) c b)"
    unfolding p st[symmetric] by (subst b) (rule store_checksum_mid[OF off m assms(3)])
  moreover have "rdn (put_at (off + k) c b) off n = Some (put_at k c mid)"
    unfolding p using off m assms(3) by (subst rdn_mid) (auto simp: c_def)
  moreover have "ck (put_at k c mid) = 0" using stamp_valid[OF assms(1,2), of mid] m assms(3) st by simp
  moreover have "length c = 2" by (simp add: c_def)
  ultimately show ?thesis by blast
qed

lemma setck_ok:
  assumes law: "cksum_law en ck" and c: "carries h r d i b"
  shows "\<exists>q. setck_simple_action en ck b = Some (Some q) \<and> carries h r d i q \<and> rdn q 0 14 = rdn b 0 14 \<and>
    checksr_simple_action ck no s q = Some (s, Accept)"
proof -
  define n where "n = 50 + 20 * h + length d"
  note cd = carriesD[OF c]
  have len: "length b = n + 14" using cd(6) by (simp add: n_def)
  define b1 where "b1 = put_at 14 [sr_version] b"
  have c1: "carries h r d i b1" unfolding b1_def by (rule carries_put[OF c]) simp
  have l1: "length b1 = n + 14" using len by (simp add: b1_def n_def)
  have t1: "sr_tlen b1 = Some n" "sr_tlen b = Some n" using carries_tlen[OF c1] carries_tlen[OF c] by (simp_all add: n_def)
  obtain k where k: "length k = 2" "store_checksum en ck 14 6 n b1 = Some (put_at 20 k b1)"
    and "\<exists>x. rdn (put_at 20 k b1) 14 n = Some x \<and> ck x = 0"
    using store_checksum_ok[OF law, of 6 n 14 b1] l1 by (auto simp: n_def)
  then obtain x where x: "rdn (put_at 20 k b1) 14 n = Some x" "ck x = 0" by blast
  define q where "q = put_at 20 k b1"
  have cq: "carries h r d i q" unfolding q_def by (rule carries_put[OF c1]) (use k in simp)
  note q = carriesD[OF cq]
  have lq: "length q = n + 14" using q(6) by (simp add: n_def)
  have "setck_simple_action en ck b = Some (Some q)"
    using t1 len k(2) by (simp add: setck_simple_action_def sr_set_checksum_def b1_def[symmetric] q_def n_def)
  moreover have "rdn q 0 14 = rdn b 0 14"
    using l1 len k(1) by (simp add: q_def b1_def rdn_put_at_other n_def del: rdn_Some)
  moreover have v: "rd8 q 14 = Some sr_version"
  proof -
    have "rd8 q 14 = rd8 b1 14" unfolding q_def by (rule rd8_put_at_other) (use l1 k(1) in \<open>simp_all add: n_def\<close>)
    then show ?thesis using len by (simp add: b1_def rd8_def nth_put_at n_def)
  qed
  have "checksr_simple_action ck no s q = Some (s, Accept)"
  proof -
    have "\<not> (word_of_nat h :: byte) < word_of_nat i" using q(2,5) by (simp add: word_less_nat_alt unat_byte)
    moreover have "sr_tlen q = Some n" using carries_tlen[OF cq] by (simp add: n_def)
    moreover have "\<not> length q < 46" "\<not> length q < n" using lq by (simp_all add: n_def)
    ultimately show ?thesis using v x q(8,9) unfolding checksr_simple_action_def q_def[symmetric]
      by (simp del: rdn_Some rd8_Some)
  qed
  ultimately show ?thesis using cq by blast
qed

section \<open>Encapsulation\<close>

definition links_img :: "ip_addr list \<Rightarrow> nat list \<Rightarrow> byte list" where
  "links_img r xs = concat (map (\<lambda>i. be32 (r ! i) @ replicate 16 0) xs)"

lemma length_links_img [simp]: "length (links_img r xs) = 20 * length xs"
  by (induction xs) (auto simp: links_img_def)

lemma links_img_append [simp]: "links_img r (xs @ ys) = links_img r xs @ links_img r ys"
  by (simp add: links_img_def)

lemma nodes_img:
  assumes "k \<le> h"
  shows "rdn (links_img r [0..<h] @ be32 (r ! h)) (20 * k) 4 = Some (be32 (r ! k))"
proof (cases "k = h")
  case True
  then show ?thesis by (simp add: rdn_def)
next
  case False
  then have "[0..<h] = [0..<k] @ [k] @ [Suc k..<h]" using assms by (metis append_Cons append_Nil le_neq_implies_less less_imp_add_positive nat_less_le upt_add_eq_append upt_conv_Cons zero_le)
  then have "links_img r [0..<h] @ be32 (r ! h) = links_img r [0..<k] @ (be32 (r ! k) @ replicate 16 0) @ (links_img r [Suc k..<h] @ be32 (r ! h))"
    by (simp add: links_img_def)
  then show ?thesis by (subst (asm) append_assoc[symmetric]) (simp add: rdn_def)
qed

lemma header_carries:
  assumes "length dst = 6" "length src = 6" "0 < h" "h < 256" "length r = Suc h" "length d < 65536" "i \<le> h"
  shows "carries h r d i (dst @ src @ be16 et @ sr_header h (int i) flags (length d) r @ d)"
proof -
  define eth where "eth = dst @ src @ be16 et"
  define hd0 where "hd0 = [sr_version, PT_DATA, word_of_nat h, word_of_nat i] @ replicate 4 (0 :: byte) @ be16 flags @ be16 (word_of_nat (length d)) @ replicate 34 0"
  define nodes where "nodes = links_img r [0..<h] @ be32 (r ! h)"
  define b where "b = eth @ hd0 @ nodes @ d"
  have eq: "dst @ src @ be16 et @ sr_header h (int i) flags (length d) r @ d = b"
    using assms(5) by (simp add: b_def eth_def hd0_def nodes_def sr_header_def links_img_def)
  have le: "length eth = 14" "length hd0 = 46" "length nodes = 20 * h + 4" using assms(1,2) by (simp_all add: eth_def hd0_def nodes_def)
  have f: "rd8 b (14 + k) = rd8 hd0 k" if "k < 46" for k using le that by (simp add: b_def rd8_def nth_append)
  have "rd8 b 15 = Some 4" "rd8 b 16 = Some (word_of_nat h)" "rd8 b 17 = Some (word_of_nat i)"
    using f[of 1] f[of 2] f[of 3] by (simp_all add: hd0_def rd8_def)
  moreover have "rdn b 24 2 = Some (be16 (word_of_nat (length d)))"
  proof -
    have "rdn b 24 2 = rdn hd0 10 2" unfolding b_def using le by (subst rdn_mid) auto
    then show ?thesis by (simp add: hd0_def rdn_def)
  qed
  moreover have "rdn b (60 + 20 * k) 4 = Some (be32 (r ! k))" if "k \<le> h" for k
  proof -
    have "rdn b (60 + 20 * k) 4 = rdn ((eth @ hd0) @ nodes @ d) (60 + 20 * k) 4" by (simp add: b_def)
    also have "\<dots> = rdn nodes (20 * k) 4" using le that by (subst rdn_mid) auto
    finally show ?thesis using nodes_img[OF that, of r] by (simp add: nodes_def)
  qed
  moreover have "length b = 64 + 20 * h + length d" "drop (64 + 20 * h) b = d" using le by (simp_all add: b_def)
  ultimately show ?thesis unfolding eq using assms by (simp add: carries_def del: rdn_Some rd8_Some)
qed

section \<open>Forwarding\<close>

lemma learn_random_total: "60 \<le> length p \<Longrightarrow> \<exists>lt'. learn_random en T p lt = Some lt'"
  by (simp add: learn_random_def rd32_def rd16_def)

lemma learn_link_total: "60 + 20 * i + 24 \<le> length p \<Longrightarrow> \<exists>lt'. learn_link en T p i lt = Some lt'"
  using link_off_nat[of "Suc i"] by (simp add: learn_link_def rd32_def sr_node_def add.commute[of 1])

lemma learn_total:
  assumes "64 + 20 * n \<le> length p"
  shows "\<exists>lt1 lt2. learn_random en T p lt = Some lt1 \<and> forM (learn_link en T p) [0..<n] lt1 = Some lt2"
proof -
  obtain lt1 where "learn_random en T p lt = Some lt1" using learn_random_total[of p en T lt] assms by auto
  moreover have "\<exists>lt2. forM (learn_link en T p) [0..<n] lt1 = Some lt2"
    using forM_invariant[of n "\<lambda>_ _. True" "learn_link en T p" lt1] learn_link_total[of _ p en T] assms by fastforce
  ultimately show ?thesis by blast
qed

lemma forward_packet_ok:
  assumes c: "carries h r d i b" and i: "0 < i" "i < h"
    and me: "fw_ip f = r ! i" "length (fw_eth f) = 6" and arp: "\<And>s a. length (arp_lookup T s a) = 6"
  shows "\<exists>q. forward_packet en T f arp lt (word_of_nat i) b = Some (arp_insert T arp (r ! (i - 1)) (take 6 (drop 6 b)), q) \<and>
    carries h r d (Suc i) q \<and> take 6 (drop 6 q) = fw_eth f \<and>
    take 6 q = arp_lookup T (arp_insert T arp (r ! (i - 1)) (take 6 (drop 6 b))) (r ! Suc i)"
proof -
  note cd = carriesD[OF c]
  define arp1 where "arp1 = arp_insert T arp (r ! (i - 1)) (take 6 (drop 6 b))"
  have u: "uint (word_of_nat i :: byte) - 1 = int (i - 1)" "uint (word_of_nat i + 1 :: byte) = int (Suc i)"
    using unat_byte(2)[of i] unat_byte(2)[of "Suc i"] i cd(2) by (simp_all add: add.commute)
  have prev: "sr_node b (int (i - 1)) = Some (r ! (i - 1))" by (rule carries_node[OF c]) (use i in simp)
  define m where "m = (\<lambda>g (a :: ip_addr) (b :: ip_addr). case lt of None \<Rightarrow> 0 :: u32 | Some l \<Rightarrow> g l a b)"
  define src where "src = be32 (r ! (i - 1)) @ mem32 en (m (lt_metric T) (r ! (i - 1)) (r ! i)) @ mem32 en (m (lt_metric T) (r ! i) (r ! (i - 1))) @
    mem32 en (m (lt_seq T) (r ! i) (r ! (i - 1))) @ mem32 en (m (lt_age T) (r ! i) (r ! (i - 1))) @ be32 (r ! i)"
  have ls: "length src = 24" by (simp add: src_def)
  define o1 where "o1 = 60 + 20 * (i - 1)"
  have lo: "o1 + 24 \<le> 64 + 20 * h" using i by (auto simp: o1_def)
  define p1 where "p1 = put_at o1 src b"
  define p2 where "p2 = put_at 17 [word_of_nat (Suc i)] p1"
  have lb: "o1 + length src \<le> length b" "18 \<le> length b" using lo cd(6) ls by auto
  have l1: "length p1 = length b" using lb by (simp add: p1_def)
  have l2: "length p2 = length b" using lb l1 by (simp add: p2_def)
  have n1: "rdn p1 (60 + 20 * k) 4 = Some (be32 (r ! k))" if "k \<le> h" for k
  proof -
    consider "k = i - 1" | "k = i" | "k < i - 1" | "i < k" by linarith
    then show ?thesis
    proof cases
      case 1
      then show ?thesis unfolding p1_def using lb ls by (subst rdn_put_at_in) (auto simp: o1_def src_def rdn_def)
    next
      case 2
      then have "60 + 20 * k - o1 = 20" "o1 \<le> 60 + 20 * k" using i by (auto simp: o1_def)
      then show ?thesis unfolding p1_def using lb ls 2 i by (subst rdn_put_at_in) (auto simp: o1_def src_def rdn_def)
    next
      case 3
      then have "rdn p1 (60 + 20 * k) 4 = rdn b (60 + 20 * k) 4" unfolding p1_def by (intro rdn_put_at_other lb) (auto simp: o1_def)
      then show ?thesis using carries_rdn[OF c that] by simp
    next
      case 4
      then have "rdn p1 (60 + 20 * k) 4 = rdn b (60 + 20 * k) 4" unfolding p1_def using i ls by (intro rdn_put_at_other lb) (auto simp: o1_def)
      then show ?thesis using carries_rdn[OF c that] by simp
    qed
  qed
  have n2: "rdn p2 (60 + 20 * k) 4 = Some (be32 (r ! k))" if "k \<le> h" for k
  proof -
    have "rdn p2 (60 + 20 * k) 4 = rdn p1 (60 + 20 * k) 4" unfolding p2_def by (rule rdn_put_at_other) (use lb l1 in auto)
    then show ?thesis using n1[OF that] by simp
  qed
  have keep1: "rd8 p2 x = rd8 b x" if "x = 15 \<or> x = 16" for x
  proof -
    have "rd8 p2 x = rd8 p1 x" unfolding p2_def by (rule rd8_put_at_other) (use lb l1 that in auto)
    also have "\<dots> = rd8 b x" unfolding p1_def by (rule rd8_put_at_other) (use lb that in \<open>auto simp: o1_def\<close>)
    finally show ?thesis .
  qed
  have "rdn p2 24 2 = rdn b 24 2"
  proof -
    have "rdn p2 24 2 = rdn p1 24 2" unfolding p2_def by (rule rdn_put_at_other) (use lb l1 in auto)
    also have "\<dots> = rdn b 24 2" unfolding p1_def by (rule rdn_put_at_other) (use lb in \<open>auto simp: o1_def\<close>)
    finally show ?thesis .
  qed
  moreover have "rd8 p2 17 = Some (word_of_nat (Suc i))" using lb l1 by (simp add: p2_def rd8_def nth_put_at)
  moreover have "drop (64 + 20 * h) p2 = d"
    using drop_put_at[of 17 "[word_of_nat (Suc i)]" "64 + 20 * h" p1] drop_put_at[of o1 src "64 + 20 * h" b] lb l1 lo ls cd(11)
    by (simp add: p2_def p1_def)
  ultimately have c2: "carries h r d (Suc i) p2"
    using cd i n2 keep1[of 15] keep1[of 16] l2 unfolding carries_def by (simp del: rdn_Some rd8_Some of_nat_Suc)
  define p4 where "p4 = put_at 6 (fw_eth f) (put_at 0 (arp_lookup T arp1 (r ! Suc i)) p2)"
  have l14: "14 \<le> length p2" using lb l2 by simp
  have "carries h r d (Suc i) p4" unfolding p4_def by (intro carries_put c2) (use me arp in simp_all)
  moreover have "take 6 (drop 6 p4) = fw_eth f" "take 6 p4 = arp_lookup T arp1 (r ! Suc i)"
    using me(2) arp[of arp1] l14 by (simp_all add: p4_def put_at_def)
  moreover have "forward_packet en T f arp lt (word_of_nat i) b = Some (arp1, p4)"
  proof -
    have "sr_node p2 (int (Suc i)) = Some (r ! Suc i)" by (rule carries_node[OF c2]) (use i in simp)
    moreover have "rdn b 6 6 = Some (take 6 (drop 6 b))" using lb by simp
    moreover have "wr o1 src b = Some p1" "wr 17 [word_of_nat (Suc i)] p1 = Some p2" using lb l1 by (simp_all add: p1_def p2_def)
    moreover have "wr 0 (arp_lookup T arp1 (r ! Suc i)) p2 = Some (put_at 0 (arp_lookup T arp1 (r ! Suc i)) p2)" using l14 arp by simp
    moreover have "wr 6 (fw_eth f) (put_at 0 (arp_lookup T arp1 (r ! Suc i)) p2) = Some p4" using l14 arp me by (simp add: p4_def)
    moreover have "(word_of_nat i + 1 :: byte) = word_of_nat (Suc i)" by (simp add: add.commute)
    ultimately show ?thesis unfolding forward_packet_def u prev me Let_def set_link_def link_off_nat
      by (simp add: arp1_def m_def src_def o1_def del: of_nat_Suc wr_Some rdn_Some)
  qed
  ultimately show ?thesis unfolding arp1_def[symmetric] by blast
qed

lemma push_prefix:
  assumes c: "carries h r d i b" and me: "fw_ip f = r ! i"
  shows "\<exists>lt2. sr_push en T f 0 st b =
    (if i = h then Some ((fst st, lt2), Deliver b (64 + 20 * h) (r ! 0))
     else do { (arp1, q) \<leftarrow> forward_packet en T f (fst st) lt2 (word_of_nat i) b; Some ((arp1, lt2), Forward q (64 + 20 * h)) })"
proof -
  note cd = carriesD[OF c]
  obtain lt1 lt2 where lt: "learn_random en T b (snd st) = Some lt1" "forM (learn_link en T b) [0..<h] lt1 = Some lt2"
    using learn_total[of h b en T "snd st"] cd(6) by auto
  have ih: "(word_of_nat i :: byte) = word_of_nat h \<longleftrightarrow> i = h"
    using unat_byte(1)[of i] unat_byte(1)[of h] cd(2,5) by (metis le_less_trans)
  have n: "sr_node b (uint (word_of_nat i :: byte)) = Some (r ! i)" "sr_node b 0 = Some (r ! 0)"
    using carries_node[OF c, of i] carries_node[OF c, of 0] cd(2,5) by (simp_all add: unat_byte)
  have e: "rdn b 0 6 = Some (take 6 b)" using cd(6) by simp
  have h: "unat (word_of_nat h :: byte) = h" "14 + len_wo_data h = 64 + 20 * h" using cd(2) by (simp_all add: unat_byte len_wo_data_def)
  show ?thesis
  proof (intro exI[of _ lt2])
    show "sr_push en T f 0 st b =
      (if i = h then Some ((fst st, lt2), Deliver b (64 + 20 * h) (r ! 0))
       else do { (arp1, q) \<leftarrow> forward_packet en T f (fst st) lt2 (word_of_nat i) b; Some ((arp1, lt2), Forward q (64 + 20 * h)) })"
      unfolding sr_push_def cd(7,8,9) e by (simp add: n me h lt ih Let_def del: rdn_Some rd8_Some)
  qed
qed

section \<open>A route through the network\<close>

abbreviation (input) "bcast \<equiv> replicate 6 (0xff :: byte)"

text \<open>
  The frame goes from node to node: it is stamped by \<open>SetSRChecksum\<close>, received by the next node
  if it is addressed to it or broadcast, checked by \<open>CheckSRHeader\<close> and pushed into the node's
  \<open>SRForwarder\<close>. The result is what the last node delivers, with its annotation, and the nodes
  that were not reached.
\<close>

fun travel ::
    "endian \<Rightarrow> cksum \<Rightarrow> ('a, 'l) tables \<Rightarrow> (forwarder \<times> 'a \<times> 'l option) list \<Rightarrow> byte list
      \<Rightarrow> (byte list \<times> ip_addr \<times> (forwarder \<times> 'a \<times> 'l option) list) option" where
  "travel en ck T [] p = None"
| "travel en ck T ((f, st) # nodes) p =
     (case setck_simple_action en ck p of
        Some (Some q) \<Rightarrow>
          if take 6 q \<noteq> fw_eth f \<and> take 6 q \<noteq> bcast then None
          else if map_option snd (checksr_simple_action ck 1 \<lparr>cs_drops = 0, cs_bad_table = Map.empty\<rparr> q) \<noteq> Some Accept then None
          else (case sr_push en T f 0 st q of
                  Some (st1, Forward q1 _) \<Rightarrow> travel en ck T nodes q1
                | Some (st1, Deliver q1 _ anno) \<Rightarrow> Some (q1, anno, nodes)
                | _ \<Rightarrow> None)
      | _ \<Rightarrow> None)"

text \<open>Documented behaviour of the ARP table: a lookup returns the address last inserted.\<close>

definition arp_law :: "('a, 'l) tables \<Rightarrow> bool" where
  "arp_law T \<longleftrightarrow> (\<forall>s a e b. length e = 6 \<longrightarrow> arp_lookup T (arp_insert T s a e) b = (if b = a then e else arp_lookup T s b)) \<and>
     (\<forall>s a. length (arp_lookup T s a) = 6)"

text \<open>An ARP table that knows the right address or answers with the broadcast address.\<close>

definition arp_truthful :: "('a, 'l) tables \<Rightarrow> (ip_addr \<Rightarrow> ether_addr) \<Rightarrow> 'a \<Rightarrow> bool" where
  "arp_truthful T eth s \<longleftrightarrow> (\<forall>a. arp_lookup T s a = eth a \<or> arp_lookup T s a = bcast)"

text \<open>\<open>index_of\<close> finds the first position of an element.\<close>

definition index_law :: "(ip_addr list \<Rightarrow> ip_addr \<Rightarrow> int) \<Rightarrow> bool" where
  "index_law index_of \<longleftrightarrow>
     (\<forall>r a. a \<in> set r \<longrightarrow> 0 \<le> index_of r a \<and> index_of r a < int (length r) \<and> r ! nat (index_of r a) = a \<and> a \<notin> set (take (nat (index_of r a)) r)) \<and>
     (\<forall>r a. a \<notin> set r \<longrightarrow> index_of r a = -1)"

lemma index_first: "index_law index_of \<Longrightarrow> r \<noteq> [] \<Longrightarrow> index_of r (r ! 0) = 0"
  unfolding index_law_def by (cases r) (metis nat_eq_iff nth_Cons_0 take_Suc_Cons list.set_intros(1) not0_implies_Suc nat_0_iff order.antisym)+

lemma travel_delivers:
  assumes law: "cksum_law en ck" and arp: "arp_law T"
    and nodes: "map (fw_ip \<circ> fst) nodes = drop i r"
    and eth: "\<And>f st. (f, st) \<in> set nodes \<Longrightarrow> fw_eth f = eth (fw_ip f) \<and> length (fw_eth f) = 6 \<and> arp_truthful T eth (fst st)"
    and c: "carries h r d i b" "0 < i" "take 6 b = eth (r ! i) \<or> take 6 b = bcast" "take 6 (drop 6 b) = eth (r ! (i - 1))"
  shows "\<exists>q. travel en ck T nodes b = Some (q, r ! 0, []) \<and> drop (64 + 20 * h) q = d \<and> rd8 q o_nlinks = Some (word_of_nat h)"
  using nodes eth c
proof (induction nodes arbitrary: i b)
  case Nil
  then show ?case using carriesD(3,5)[OF Nil.prems(3)] by simp
next
  case (Cons n nodes)
  obtain f st where n: "n = (f, st)" by (cases n)
  note cd = carriesD[OF Cons.prems(3)]
  have i: "i < length r" using cd(3,5) by simp
  have me: "fw_ip f = r ! i" "map (fw_ip \<circ> fst) nodes = drop (Suc i) r"
    using Cons.prems(1) i by (simp_all add: n Cons_nth_drop_Suc[symmetric] comp_def)
  have f: "fw_eth f = eth (r ! i)" "length (fw_eth f) = 6" "arp_truthful T eth (fst st)" using Cons.prems(2)[of f st] me by (auto simp: n)
  obtain q where q: "setck_simple_action en ck b = Some (Some q)" "carries h r d i q" "rdn q 0 14 = rdn b 0 14"
    "checksr_simple_action ck 1 \<lparr>cs_drops = 0, cs_bad_table = Map.empty\<rparr> q = Some (\<lparr>cs_drops = 0, cs_bad_table = Map.empty\<rparr>, Accept)"
    using setck_ok[OF law Cons.prems(3)] by blast
  have "take 14 q = take 14 b" using q(3) cd(6) carriesD(6)[OF q(2)] by simp
  moreover have "take 6 x = take 6 (take 14 x)" "take 6 (drop 6 x) = take 6 (drop 6 (take 14 x))" for x :: "byte list"
    by (simp_all add: drop_take)
  ultimately have eh: "take 6 q = take 6 b" "take 6 (drop 6 q) = take 6 (drop 6 b)" by metis+
  obtain lt2 where push: "sr_push en T f 0 st q =
      (if i = h then Some ((fst st, lt2), Deliver q (64 + 20 * h) (r ! 0))
       else do { (arp1, q) \<leftarrow> forward_packet en T f (fst st) lt2 (word_of_nat i) q; Some ((arp1, lt2), Forward q (64 + 20 * h)) })"
    using push_prefix[OF q(2) me(1)] by blast
  have rcv: "take 6 q = fw_eth f \<or> take 6 q = bcast" using Cons.prems(5) eh f by simp
  show ?case
  proof (cases "i = h")
    case True
    then have "nodes = []" using me(2) cd(3) by simp
    then show ?thesis using q(1,4) push rcv True carriesD(8,11)[OF q(2)] by (simp add: n)
  next
    case False
    then have ih: "i < h" using cd(5) by simp
    have six: "\<And>s a. length (arp_lookup T s a) = 6" using arp by (simp add: arp_law_def)
    define arp1 where "arp1 = arp_insert T (fst st) (r ! (i - 1)) (take 6 (drop 6 q))"
    obtain q1 where q1: "forward_packet en T f (fst st) lt2 (word_of_nat i) q = Some (arp1, q1)" "carries h r d (Suc i) q1"
      "take 6 (drop 6 q1) = fw_eth f" "take 6 q1 = arp_lookup T arp1 (r ! Suc i)"
      using forward_packet_ok[OF q(2) Cons.prems(4) ih me(1) f(2) six] unfolding arp1_def by blast
    have "length (take 6 (drop 6 q)) = 6" using carriesD(6)[OF q(2)] by simp
    then have "arp_truthful T eth arp1" using f(3) arp Cons.prems(6) eh by (simp add: arp_truthful_def arp1_def arp_law_def)
    then have d1: "take 6 q1 = eth (r ! Suc i) \<or> take 6 q1 = bcast" using q1(4) by (simp add: arp_truthful_def)
    have s1: "take 6 (drop 6 q1) = eth (r ! (Suc i - 1))" using q1(3) f by simp
    have "\<exists>q. travel en ck T nodes q1 = Some (q, r ! 0, []) \<and> drop (64 + 20 * h) q = d \<and> rd8 q o_nlinks = Some (word_of_nat h)"
      by (rule Cons.IH[OF me(2) _ q1(2) _ d1 s1]) (use Cons.prems(2) in auto)
    then show ?thesis using q(1,4) push rcv False q1(1) by (simp add: n)
  qed
qed

section \<open>What the elements promise\<close>

text \<open>
  Property C4: source routes deliver. A packet that the first node of a route encapsulates
  crosses every node of the route, each stamping, checking and forwarding it with the code
  of the elements, and the last node delivers a frame that \<open>StripSRHeader\<close> turns back into the
  packet, annotated with the first node. Every ARP table may answer a lookup with the broadcast
  address, the link tables are arbitrary, and a node may occur on the route more than once.
\<close>

theorem source_route_delivers:
  assumes law: "cksum_law en ck" "arp_law T" "index_law index_of"
    and r: "1 < length r" "length r \<le> 256" "length d < 65536"
    and me: "fw_ip me = r ! 0" "length (fw_eth me) = 6" "fw_eth me = eth (r ! 0)" "arp_truthful T eth arp"
    and nodes: "map (fw_ip \<circ> fst) nodes = tl r"
    and eth: "\<forall>(f, st)\<in>set nodes. fw_eth f = eth (fw_ip f) \<and> length (fw_eth f) = 6 \<and> arp_truthful T eth (fst st)"
  shows "\<exists>b ip_off q. sr_encap index_of T me arp d r flags = Some (Some (b, ip_off)) \<and>
    travel en ck T nodes b = Some (q, r ! 0, []) \<and> strip_simple_action q = Some d"
proof -
  define h where "h = length r - 1"
  have h: "0 < h" "h < 256" "length r = Suc h" using r by (auto simp: h_def)
  have six: "length (arp_lookup T arp (r ! 1)) = 6" using law(2) by (simp add: arp_law_def)
  have idx: "index_of r (fw_ip me) = 0" unfolding me(1) by (rule index_first[OF law(3)]) (use r in auto)
  define b where "b = arp_lookup T arp (r ! 1) @ fw_eth me @ be16 (fw_et me) @ sr_header h (int 1) flags (length d) r @ d"
  have enc: "sr_encap index_of T me arp d r flags = Some (Some (b, 14 + len_wo_data (unat (word_of_nat h :: byte))))"
    using r(1) by (simp add: sr_encap_def idx b_def h_def)
  have c: "carries h r d 1 b" unfolding b_def by (rule header_carries) (use h r six me in auto)
  have "take 6 b = eth (r ! 1) \<or> take 6 b = bcast" using me(4) six by (simp add: b_def arp_truthful_def)
  moreover have "take 6 (drop 6 b) = eth (r ! (1 - 1))" using me six by (simp add: b_def)
  moreover have "map (fw_ip \<circ> fst) nodes = drop 1 r" using nodes by (simp add: drop_Suc)
  moreover have "fw_eth f = eth (fw_ip f) \<and> length (fw_eth f) = 6 \<and> arp_truthful T eth (fst st)" if "(f, st) \<in> set nodes" for f st
    using eth that by auto
  ultimately obtain q where q: "travel en ck T nodes b = Some (q, r ! 0, [])" "drop (64 + 20 * h) q = d" "rd8 q o_nlinks = Some (word_of_nat h)"
    using travel_delivers[OF law(1,2) _ _ c, of nodes eth] by (metis less_one)
  have "strip_simple_action q = Some d" using q(2,3) h(2) by (simp add: strip_simple_action_def unat_byte len_wo_data_def add.commute mult.commute del: rd8_Some)
  with enc q(1) show ?thesis by blast
qed

text \<open>A network of three nodes whose ARP and link tables are functions.\<close>

definition sample_tables :: "(ip_addr \<Rightarrow> ether_addr, nat) tables" where
  "sample_tables = \<lparr>arp_lookup = (\<lambda>s a. take 6 (s a @ bcast)), arp_insert = (\<lambda>s a e. s(a := e)),
     lt_update = (\<lambda>l a b seq age m. (l + 1, True)), lt_metric = (\<lambda>l a b. 5), lt_seq = (\<lambda>l a b. 0), lt_age = (\<lambda>l a b. 0)\<rparr>"

definition first_index :: "ip_addr list \<Rightarrow> ip_addr \<Rightarrow> int" where
  "first_index r a = (if a \<in> set r then int (length (takeWhile (\<lambda>x. x \<noteq> a) r)) else -1)"

definition sample_eth :: "ip_addr \<Rightarrow> ether_addr" where
  "sample_eth a = replicate 6 (ucast a)"

definition sample_node :: "ip_addr \<Rightarrow> forwarder" where
  "sample_node a = \<lparr>fw_ip = a, fw_eth = sample_eth a, fw_et = 0x0643\<rparr>"

lemma sample_arp_law: "arp_law sample_tables"
  by (auto simp: arp_law_def sample_tables_def)

lemma first_index_law: "index_law first_index"
proof -
  have "length (takeWhile (\<lambda>x. x \<noteq> a) r) < length r \<and> r ! length (takeWhile (\<lambda>x. x \<noteq> a) r) = a \<and>
      a \<notin> set (take (length (takeWhile (\<lambda>x. x \<noteq> a) r)) r)" if "a \<in> set r" for a :: ip_addr and r
    using that by (induction r) auto
  then show ?thesis by (simp add: index_law_def first_index_def)
qed

theorem source_route_delivers_witness:
  "\<exists>b ip_off q. sr_encap first_index sample_tables (sample_node 1) sample_eth [9, 8, 7] [1, 2, 3] 0 = Some (Some (b, ip_off)) \<and>
    travel LittleEndian (rfc1071 LittleEndian) sample_tables [(sample_node 2, \<lambda>_. bcast, Some 0), (sample_node 3, sample_eth, None)] b =
      Some (q, 1, []) \<and> strip_simple_action q = Some [9, 8, 7]"
proof -
  have "arp_truthful sample_tables sample_eth sample_eth" "arp_truthful sample_tables sample_eth (\<lambda>_. bcast)"
    by (simp_all add: arp_truthful_def sample_tables_def sample_eth_def)
  then show ?thesis
    using source_route_delivers[OF rfc1071_law sample_arp_law first_index_law, of "[1, 2, 3]" "[9, 8, 7]" "sample_node 1" sample_eth sample_eth
        "[(sample_node 2, \<lambda>_. bcast, Some 0), (sample_node 3, sample_eth, None)]" 0]
    by (simp add: sample_node_def sample_eth_def)
qed

lemma link_off_uint [simp]: "link_off (uint (w :: byte)) = 60 + 20 * unat w" "link_off (uint w - 1) = 40 + 20 * unat w"
proof -
  have u: "uint w = int (unat w)" by (rule uint_nat)
  show "link_off (uint w) = 60 + 20 * unat w" unfolding u by (rule link_off_nat)
  have "60 + 20 * (uint w - 1) = int (40 + 20 * unat w)" unfolding u by simp
  then show "link_off (uint w - 1) = 40 + 20 * unat w" unfolding link_off_def by (metis nat_int)
qed

lemma accept_next:
  assumes "checksr_simple_action ck no s p = Some (s', Accept)"
  shows "\<exists>nx nl. rd8 p o_next = Some nx \<and> rd8 p o_nlinks = Some nl \<and> nx \<le> nl"
  using assms by (auto simp: checksr_simple_action_def drop_it_def bind_eq_Some_conv not_less split: if_splits)

lemma tlen_links: "sr_tlen p = Some tlen \<Longrightarrow> rd8 p o_nlinks = Some nl \<Longrightarrow> 50 + 20 * unat nl \<le> tlen"
  by (auto simp: sr_tlen_def bind_eq_Some_conv len_wo_data_def split: if_splits)

lemma forward_packet_total:
  assumes "64 + 20 * unat nl \<le> length p" "unat nx < unat (nl :: byte)" "length (fw_eth f) = 6" "\<forall>s a. length (arp_lookup T s a) = 6"
  shows "forward_packet en T f arp lt nx p \<noteq> None"
proof -
  have u: "unat (nx + 1) = Suc (unat nx)" using assms(2) unat_lt_256[of nl] by (simp add: unat_word_ariths)
  show ?thesis using assms u unfolding forward_packet_def set_link_def sr_node_def by (simp add: Let_def)
qed

text \<open>
  Property C31: a frame that \<open>CheckSRHeader\<close> accepts and that holds the length its header
  announces behind the Ethernet header never makes \<open>SRForwarder\<close> read or write outside of it,
  whatever the route, the metrics and the tables are.
\<close>

theorem accepted_frames_never_fault:
  assumes "checksr_simple_action ck no s p = Some (s', Accept)" "sr_tlen p = Some tlen" "14 + tlen \<le> length p"
    and "length (fw_eth f) = 6" "\<forall>s a. length (arp_lookup T s a) = 6" "port \<le> 1"
  shows "sr_push en T f port st p \<noteq> None"
proof -
  obtain nx nl where n: "rd8 p 17 = Some nx" "rd8 p 16 = Some nl" "nx \<le> nl" using accept_next[OF assms(1)] by blast
  have len: "64 + 20 * unat nl \<le> length p" using tlen_links[OF assms(2) n(2)] assms(3) by simp
  have le: "unat nx \<le> unat nl" using n(3) by (simp add: word_le_nat_alt)
  obtain ty where ty: "rd8 p 15 = Some ty" using len by simp
  obtain m where m: "sr_node p (uint nx) = Some m" using len le by (simp add: sr_node_def)
  obtain lt1 lt2 where lt: "learn_random en T p (snd st) = Some lt1" "forM (learn_link en T p) [0..<unat nl] lt1 = Some lt2"
    using learn_total[OF len] by blast
  have "rdn p 0 6 = Some (take 6 p)" using len by simp
  moreover obtain n0 where "sr_node p 0 = Some n0" using len link_off_nat[of 0] by (simp add: sr_node_def)
  moreover have "forward_packet en T f (fst st) lt2 nx p \<noteq> None" if "nx \<noteq> nl"
    proof (rule forward_packet_total[OF len _ assms(4,5)])
    show "unat nx < unat nl" using that le by (metis le_neq_implies_less word_unat_eq_iff)
  qed
  ultimately show ?thesis using n ty m lt unfolding sr_push_def
    by (auto simp: Let_def bind_eq_None_conv simp del: rdn_Some rd8_Some split: if_splits)
qed

theorem accepted_frames_never_fault_witness:
  "\<exists>b q. sr_encap first_index sample_tables (sample_node 1) sample_eth [9, 8, 7] [1, 2, 3] 0 = Some (Some (b, 104)) \<and>
    setck_simple_action LittleEndian (rfc1071 LittleEndian) b = Some (Some q) \<and>
    sr_push LittleEndian sample_tables (sample_node 2) 0 (\<lambda>_. bcast, Some 0) q \<noteq> None"
proof -
  define b where "b = sample_eth 2 @ sample_eth 1 @ be16 0x0643 @ sr_header 2 (int 1) 0 3 [1, 2, 3] @ [9, 8, 7]"
  have e: "sr_encap first_index sample_tables (sample_node 1) sample_eth [9, 8, 7] [1, 2, 3] 0 = Some (Some (b, 104))"
    by (simp add: sr_encap_def first_index_def sample_node_def sample_tables_def b_def len_wo_data_def sample_eth_def flip: numeral_2_eq_2 numeral_3_eq_3)
  have c: "carries 2 [1, 2, 3] [9, 8, 7] 1 b" using header_carries[of "sample_eth 2" "sample_eth 1" 2 "[1, 2, 3]" "[9, 8, 7]" 1 "0x0643" 0]
    by (simp add: b_def sample_eth_def flip: numeral_3_eq_3)
  obtain q where q: "setck_simple_action LittleEndian (rfc1071 LittleEndian) b = Some (Some q)" "carries 2 [1, 2, 3] [9, 8, 7] 1 q"
    "checksr_simple_action (rfc1071 LittleEndian) 1 \<lparr>cs_drops = 0, cs_bad_table = Map.empty\<rparr> q = Some (\<lparr>cs_drops = 0, cs_bad_table = Map.empty\<rparr>, Accept)"
    using setck_ok[OF rfc1071_law c] by blast
  have "sr_push LittleEndian sample_tables (sample_node 2) 0 (\<lambda>_. bcast, Some 0) q \<noteq> None"
    by (rule accepted_frames_never_fault[OF q(3) carries_tlen[OF q(2)]])
      (use carriesD(6)[OF q(2)] sample_arp_law in \<open>simp_all add: sample_node_def sample_eth_def arp_law_def\<close>)
  with e q(1) show ?thesis by blast
qed

text \<open>
  When \<open>CheckSRHeader\<close> reads outside of a frame. The length it requires does not count
  the Ethernet header, so this happens exactly for the frames of the right version that are up to 14
  bytes too short.
\<close>

theorem checksr_out_of_bounds_iff:
  "checksr_simple_action ck no s p = None \<longleftrightarrow>
     46 \<le> length p \<and> p ! o_version = sr_version \<and>
     (\<exists>tlen. sr_tlen p = Some tlen \<and> tlen \<le> length p \<and> length p < 14 + tlen)"
proof (cases "46 \<le> length p")
  case True
  then obtain tlen where t: "sr_tlen p = Some tlen" by (cases "p ! 15 AND 4 = 0") (auto simp: sr_tlen_def)
  have "64 \<le> 14 + tlen" using tlen_links[OF t] True by simp
  then show ?thesis using True t link_off_nat[of 0]
    by (auto simp: checksr_simple_action_def drop_it_def sr_node_def bind_eq_None_conv rdn_def)
qed (simp add: checksr_simple_action_def)

text \<open>
  \<open>encap\<close> on a route that does not contain the node: \<open>index_of\<close> gives -1, the test for a negative
  position is made after adding one, and the packet is sent to the first node of the route.
\<close>

lemma encap_off_route:
  assumes "index_law index_of" "fw_ip f \<notin> set r" "1 < length r"
  shows "\<exists>q ip_off. sr_encap index_of T f arp p r flags = Some (Some (arp_lookup T arp (r ! 0) @ q, ip_off))"
  using assms by (auto simp: index_law_def sr_encap_def Let_def)

text \<open>
  \<open>encap\<close> always stores sequence number 0, on which \<open>DupeFilter\<close> resets its window: every copy of
  a frame passes.
\<close>

lemma dupefilter_zero_passes:
  assumes "sr_path p = Some path" "rdn p o_qdst 4 = Some (be32 0)" "0 \<le> window"
  shows "\<exists>t'. dupefilter_simple_action window now t p = Some (t', True)"
  using assms by (simp add: dupefilter_simple_action_def path_clear_def trim_window_def Let_def del: rdn_Some)

text \<open>A path on which the filter has accepted sequence numbers rejects exactly the ones in its window.\<close>

lemma dupefilter_step:
  assumes "sr_path p = Some path" "rdn p o_qdst 4 = Some (be32 seq)" "seq \<noteq> 0" "0 \<le> window"
    "t path = Some i" "now - pt_last i \<le> 30"
  shows "\<exists>t'. dupefilter_simple_action window now t p = Some (t', seq \<notin> set (pt_sequences i)) \<and>
    map_option pt_sequences (t' path) = Some (if seq \<in> set (pt_sequences i) then pt_sequences i
      else drop (length (pt_sequences i) + 1 - nat window) (pt_sequences i @ [seq]))"
  using assms by (simp add: dupefilter_simple_action_def trim_window_def Let_def del: rdn_Some)
end
