(* ===== verification/Roofnet_Query.thy ===== *)
theory Roofnet_Query
  imports Roofnet_SR
begin

text \<open>
  Route discovery in Roofnet (\<open>roofnet/sr\<close>): \<open>SRQuerier\<close> asks for routes and uses them, \<open>SRQueryForwarder\<close> and
  \<open>MetricFlood\<close> flood queries and packets, \<open>SRQueryResponder\<close> answers and carries answers back.

  The link table with its shortest paths belongs to Click: it is a parameter, an extension of the record of
  the forwarder. Times are in microseconds; the clock is read once per handler and given as an argument, as is
  the random delay. An access outside of a packet, or an assertion that fails, is \<^const>\<open>None\<close>. Packet
  allocation is taken to succeed.
\<close>

section \<open>The link table\<close>

record ('a, 'l) route_tables = "('a, 'l) tables" +
  lt_dijkstra :: "'l \<Rightarrow> bool \<Rightarrow> 'l"
  lt_best_route :: "'l \<Rightarrow> ip_addr \<Rightarrow> bool \<Rightarrow> ip_addr list"
  lt_valid_route :: "'l \<Rightarrow> ip_addr list \<Rightarrow> bool"
  lt_route_metric :: "'l \<Rightarrow> ip_addr list \<Rightarrow> int"

abbreviation (input) "PT_QUERY \<equiv> 1 :: byte"
abbreviation (input) "PT_REPLY \<equiv> 2 :: byte"
abbreviation (input) "o_seq \<equiv> 30 :: nat"

record qnode =
  qn_ip :: ip_addr
  qn_en :: ether_addr
  qn_et :: u32

text \<open>
  The fields of the queries, floods and replies that the elements build, after the Ethernet header: \<open>links\<close> is
  the number of links of \<open>best\<close>. Without a link no node is written.
\<close>

definition link_bytes :: "endian \<Rightarrow> ('a, 'l, 'z) route_tables_scheme \<Rightarrow> 'l \<Rightarrow> ip_addr list \<Rightarrow> nat \<Rightarrow> byte list" where
  "link_bytes en T l best i =
     be32 (best ! i) @ mem32 en (lt_metric T l (best ! i) (best ! (i + 1))) @ mem32 en (lt_metric T l (best ! (i + 1)) (best ! i)) @
     mem32 en (lt_seq T l (best ! i) (best ! (i + 1))) @ mem32 en (lt_age T l (best ! i) (best ! (i + 1)))"

definition sr_control ::
    "endian \<Rightarrow> ('a, 'l, 'z) route_tables_scheme \<Rightarrow> 'l \<Rightarrow> byte \<Rightarrow> byte \<Rightarrow> u16 \<Rightarrow> ip_addr \<Rightarrow> u32 \<Rightarrow> ip_addr list \<Rightarrow> byte list" where
  "sr_control en T l ty next dlen qdst seq best =
     (let links = length best - 1 in
      [sr_version, ty, word_of_nat links, next] @ replicate 4 0 @ [0, 0] @ be16 dlen @ be32 qdst @ be32 seq @ replicate 26 0 @
      concat (map (link_bytes en T l best) [0..<links]) @ (if links = 0 then replicate 4 0 else be32 (best ! links)))"

section \<open>Metrics carried by a packet\<close>

text \<open>\<open>update_link\<close> of the forwarder and of the flood. Both directions of a link are given the forward metric.\<close>

definition q_update_link ::
    "('a, 'l, 'z) route_tables_scheme \<Rightarrow> ip_addr \<Rightarrow> ip_addr \<Rightarrow> u32 \<Rightarrow> u32 \<Rightarrow> u32 \<Rightarrow> 'l \<Rightarrow> 'l" where
  "q_update_link T from to seq age metric l =
     (if from = 0 \<or> to = 0 \<or> metric = 0 then l else fst (lt_update T l from to seq age metric))"

definition q_learn ::
    "endian \<Rightarrow> ('a, 'l, 'z) route_tables_scheme \<Rightarrow> byte list \<Rightarrow> nat \<Rightarrow> 'l \<Rightarrow> 'l option" where
  "q_learn en T p i l =
     do {
       a \<leftarrow> sr_node p (int i);
       b \<leftarrow> sr_node p (int i + 1);
       fwd_m \<leftarrow> rd32 en p (link_off (int i) + 4);
       let rev_m = fwd_m;
       seq \<leftarrow> rd32 en p (link_off (int i) + 12);
       age \<leftarrow> rd32 en p (link_off (int i) + 16);
       let l1 = (if fwd_m \<noteq> 0 then q_update_link T a b seq age fwd_m l else l);
       Some (if rev_m \<noteq> 0 then q_update_link T b a seq age rev_m l1 else l1)
     }"

section \<open>SRQueryForwarder\<close>

record seen =
  sn_src :: ip_addr
  sn_dst :: ip_addr
  sn_seq :: u32
  sn_count :: int
  sn_when :: int
  sn_to_send :: int
  sn_forwarded :: bool

abbreviation (input) sn_key :: "('z) seen_scheme \<Rightarrow> ip_addr \<times> u32" where
  "sn_key s \<equiv> (sn_src s, sn_seq s)"

record ('a, 'l) qforwarder =
  qf_seen :: "seen list"
  qf_neighbors :: "ip_addr list"
  qf_lt :: 'l
  qf_arp :: 'a

text \<open>Count another copy of the first entry with the key; \<^const>\<open>None\<close> when there is none.\<close>

fun bump_seen :: "ip_addr \<Rightarrow> u32 \<Rightarrow> ('z) seen_scheme list \<Rightarrow> ('z) seen_scheme list option" where
  "bump_seen src seq [] = None"
| "bump_seen src seq (s # ss) =
     (if src = sn_src s \<and> seq = sn_seq s then Some (s\<lparr>sn_count := sn_count s + 1\<rparr> # ss)
      else map_option ((#) s) (bump_seen src seq ss))"

definition push_seen :: "'s list \<Rightarrow> 's \<Rightarrow> 's list" where
  "push_seen ss s = (if 100 \<le> length ss then tl ss else ss) @ [s]"

definition sr_fields :: "byte list \<Rightarrow> (ip_addr \<times> ip_addr \<times> u32) option" where
  "sr_fields p =
     do {
       src \<leftarrow> sr_node p 0;
       dst \<leftarrow> rdn p o_qdst 4;
       seq \<leftarrow> rdn p o_seq 4;
       Some (src, u32_of dst, u32_of seq)
     }"

text \<open>The nodes before the last one.\<close>

definition sr_hops :: "byte list \<Rightarrow> ip_addr list option" where
  "sr_hops p = do { nl \<leftarrow> rd8 p o_nlinks; those (map (\<lambda>i. sr_node p (int i)) [0..<unat nl]) }"

definition process_query ::
    "qnode \<Rightarrow> int \<Rightarrow> int \<Rightarrow> byte list \<Rightarrow> seen list \<Rightarrow> seen list option" where
  "process_query c now delay p ss =
     do {
       (src, dst, seq) \<leftarrow> sr_fields p;
       if dst = qn_ip c then Some ss
       else do {
         hops \<leftarrow> sr_hops p;
         if qn_ip c \<in> set hops then Some ss
         else case bump_seen src seq ss of
                Some ss1 \<Rightarrow> Some ss1
              | None \<Rightarrow>
                  if delay \<le> 0 then None
                  else Some (push_seen ss \<lparr>sn_src = src, sn_dst = dst, sn_seq = seq, sn_count = 1, sn_when = now,
                                          sn_to_send = now + delay * 1000, sn_forwarded = False\<rparr>)
       }
     }"

text \<open>\<open>htons(_et)\<close> truncates the configured type.\<close>

definition qf_push ::
    "endian \<Rightarrow> ('a, 'l, 'z) route_tables_scheme \<Rightarrow> qnode \<Rightarrow> int \<Rightarrow> int \<Rightarrow> byte list \<Rightarrow> ('a, 'l) qforwarder \<Rightarrow> ('a, 'l) qforwarder option" where
  "qf_push en T c now delay p st =
     do {
       et \<leftarrow> rdn p 12 2;
       if u16_of et \<noteq> ucast (qn_et c) then Some st
       else do {
         shost \<leftarrow> rdn p 6 6;
         if shost = qn_en c then Some st
         else do {
           ty \<leftarrow> rd8 p o_type;
           if ty \<noteq> PT_QUERY then Some st
           else do {
             nl \<leftarrow> rd8 p o_nlinks;
             l1 \<leftarrow> forM (q_learn en T p) [0..<unat nl] (qf_lt st);
             neighbor \<leftarrow> sr_node p (uint nl);
             if neighbor = 0 then None
             else do {
               ss \<leftarrow> process_query c now delay p (qf_seen st);
               Some (st\<lparr>qf_lt := l1,
                        qf_neighbors := (if neighbor \<in> set (qf_neighbors st) then qf_neighbors st else qf_neighbors st @ [neighbor]),
                        qf_arp := arp_insert T (qf_arp st) neighbor shost,
                        qf_seen := ss\<rparr>)
             }
           }
         }
       }
     }"

text \<open>
  A query is sent on with the best route from its source. The link table is told to compute its paths first.
  A valid route without nodes would make the number of links negative.
\<close>

definition qf_forward_query ::
    "endian \<Rightarrow> ('a, 'l, 'z) route_tables_scheme \<Rightarrow> qnode \<Rightarrow> seen \<Rightarrow> 'l \<Rightarrow> ('l \<times> byte list list) option" where
  "qf_forward_query en T c s l =
     (let l1 = lt_dijkstra T l False; best = lt_best_route T l1 (sn_src s) False in
      if \<not> lt_valid_route T l1 best then Some (l1, [])
      else if best = [] then None
      else Some (l1, [replicate 6 0xff @ qn_en c @ be16 (ucast (qn_et c)) @
                      sr_control en T l1 PT_QUERY 0 0 (sn_dst s) (sn_seq s) best]))"

fun qf_hook_loop ::
    "endian \<Rightarrow> ('a, 'l, 'z) route_tables_scheme \<Rightarrow> qnode \<Rightarrow> int \<Rightarrow> seen list \<Rightarrow> 'l \<Rightarrow> (seen list \<times> 'l \<times> byte list list) option" where
  "qf_hook_loop en T c now [] l = Some ([], l, [])"
| "qf_hook_loop en T c now (s # ss) l =
     (if sn_to_send s < now \<and> \<not> sn_forwarded s
      then do {
        (l1, out1) \<leftarrow> qf_forward_query en T c s l;
        (ss1, l2, out2) \<leftarrow> qf_hook_loop en T c now ss l1;
        Some (s\<lparr>sn_forwarded := True\<rparr> # ss1, l2, out1 @ out2)
      }
      else do {
        (ss1, l2, out2) \<leftarrow> qf_hook_loop en T c now ss l;
        Some (s # ss1, l2, out2)
      })"

definition qf_forward_query_hook ::
    "endian \<Rightarrow> ('a, 'l, 'z) route_tables_scheme \<Rightarrow> qnode \<Rightarrow> int \<Rightarrow> ('a, 'l) qforwarder \<Rightarrow> (('a, 'l) qforwarder \<times> byte list list) option" where
  "qf_forward_query_hook en T c now st =
     do {
       (ss, l, out) \<leftarrow> qf_hook_loop en T c now (qf_seen st) (qf_lt st);
       Some (st\<lparr>qf_seen := ss, qf_lt := l\<rparr>, out)
     }"

definition qf_get_random_neighbor :: "nat \<Rightarrow> ('a, 'l) qforwarder \<Rightarrow> ip_addr" where
  "qf_get_random_neighbor ndx st = (if qf_neighbors st = [] then 0 else qf_neighbors st ! (ndx mod length (qf_neighbors st)))"

definition qf_clear :: "('a, 'l) qforwarder \<Rightarrow> ('a, 'l) qforwarder" where
  "qf_clear st = st\<lparr>qf_seen := []\<rparr>"

section \<open>SRQueryResponder\<close>

record rseen =
  rs_src :: ip_addr
  rs_dst :: ip_addr
  rs_seq :: u32
  rs_last_path_response :: "ip_addr list"

record ('a, 'l) qresponder =
  qr_seen :: "rseen list"
  qr_lt :: 'l
  qr_arp :: 'a

text \<open>\<open>send\<close>: the frame whose header starts at offset 14 goes to the node its \<open>next\<close> field points to.\<close>

definition resp_send :: "('a, 'l, 'z) route_tables_scheme \<Rightarrow> qnode \<Rightarrow> 'a \<Rightarrow> byte list \<Rightarrow> byte list option" where
  "resp_send T c arp p =
     do {
       nx \<leftarrow> rd8 p o_next;
       next_ip \<leftarrow> sr_node p (uint nx);
       if next_ip = qn_ip c then None
       else do {
         p1 \<leftarrow> wr 12 (be16 (ucast (qn_et c))) p;
         p2 \<leftarrow> wr 6 (qn_en c) p1;
         wr 0 (arp_lookup T arp next_ip) p2
       }
     }"

text \<open>Metrics of a reply: the age is taken to be zero, zero addresses are not filtered.\<close>

definition resp_learn ::
    "endian \<Rightarrow> ('a, 'l, 'z) route_tables_scheme \<Rightarrow> byte list \<Rightarrow> nat \<Rightarrow> 'l \<Rightarrow> 'l option" where
  "resp_learn en T p i l =
     do {
       a \<leftarrow> sr_node p (int i);
       b \<leftarrow> sr_node p (int i + 1);
       fwd_m \<leftarrow> rd32 en p (link_off (int i) + 4);
       let rev_m = fwd_m;
       seq \<leftarrow> rd32 en p (link_off (int i) + 12);
       let l1 = (if fwd_m \<noteq> 0 then fst (lt_update T l a b seq 0 fwd_m) else l);
       Some (if rev_m \<noteq> 0 then fst (lt_update T l1 b a seq 0 rev_m) else l1)
     }"

text \<open>The new frame is made by \<open>Packet::make\<close>; its Ethernet header, the buffer \<open>eth\<close>, is overwritten by \<open>send\<close>.\<close>

definition forward_reply ::
    "('a, 'l, 'z) route_tables_scheme \<Rightarrow> qnode \<Rightarrow> byte list \<Rightarrow> byte list \<Rightarrow> ('a, 'l) qresponder \<Rightarrow> (('a, 'l) qresponder \<times> byte list list) option" where
  "forward_reply T c eth p st =
     do {
       ty \<leftarrow> rd8 p o_type;
       if ty \<noteq> PT_REPLY then None
       else do {
         let st1 = st\<lparr>qr_lt := lt_dijkstra T (qr_lt st) True\<rparr>;
         nx \<leftarrow> rd8 p o_next;
         nl \<leftarrow> rd8 p o_nlinks;
         if nl \<le> nx then Some (st1, [])
         else do {
           _ \<leftarrow> those (map (\<lambda>i. sr_node p (int i)) [0..<unat nl]);
           hd \<leftarrow> rdn p 14 (len_wo_data (unat nl));
           q \<leftarrow> wr o_next [nx - 1] (eth @ hd);
           q1 \<leftarrow> resp_send T c (qr_arp st1) q;
           Some (st1, [q1])
         }
       }
     }"

fun find_rseen :: "ip_addr \<Rightarrow> u32 \<Rightarrow> rseen list \<Rightarrow> nat option" where
  "find_rseen src seq [] = None"
| "find_rseen src seq (s # ss) =
     (if src = rs_src s \<and> seq = rs_seq s then Some 0 else map_option Suc (find_rseen src seq ss))"

text \<open>A reply is sent when the best route differs from the one answered last.\<close>

definition start_reply ::
    "endian \<Rightarrow> ('a, 'l, 'z) route_tables_scheme \<Rightarrow> qnode \<Rightarrow> byte list \<Rightarrow> ip_addr \<Rightarrow> ip_addr \<Rightarrow> u32 \<Rightarrow> ('a, 'l) qresponder
      \<Rightarrow> (('a, 'l) qresponder \<times> byte list list) option" where
  "start_reply en T c eth src qdst seq st =
     (let l1 = lt_dijkstra T (qr_lt st) False;
          best = lt_best_route T l1 src False;
          (ss, si) = (case find_rseen src seq (qr_seen st) of
                        Some i \<Rightarrow> (qr_seen st, i)
                      | None \<Rightarrow> let ss1 = push_seen (qr_seen st) \<lparr>rs_src = src, rs_dst = qdst, rs_seq = seq, rs_last_path_response = []\<rparr>
                               in (ss1, length ss1 - 1));
          st1 = st\<lparr>qr_lt := l1, qr_seen := ss\<rparr>
      in if best = rs_last_path_response (ss ! si) then Some (st1, [])
         else let st2 = st1\<lparr>qr_seen := ss[si := \<lparr>rs_src = src, rs_dst = qdst, rs_seq = seq, rs_last_path_response = best\<rparr>]\<rparr>
         in if \<not> lt_valid_route T l1 best then Some (st2, [])
         else if best = [] then None
         else do {
           q \<leftarrow> resp_send T c (qr_arp st) (eth @ sr_control en T l1 PT_REPLY (word_of_int (int (length best) - 2)) 0 qdst seq best);
           Some (st2, [q])
         })"

definition got_reply :: "('a, 'l, 'z) route_tables_scheme \<Rightarrow> byte list \<Rightarrow> ('a, 'l) qresponder \<Rightarrow> ('a, 'l) qresponder option" where
  "got_reply T p st =
     do {
       dst \<leftarrow> rdn p o_qdst 4;
       if u32_of dst = 0 then None else Some (st\<lparr>qr_lt := lt_dijkstra T (qr_lt st) True\<rparr>)
     }"

definition resp_push ::
    "endian \<Rightarrow> ('a, 'l, 'z) route_tables_scheme \<Rightarrow> qnode \<Rightarrow> byte list \<Rightarrow> byte list \<Rightarrow> ('a, 'l) qresponder
      \<Rightarrow> (('a, 'l) qresponder \<times> byte list list) option" where
  "resp_push en T c eth p st =
     do {
       shost \<leftarrow> rdn p 6 6;
       if shost = qn_en c then Some (st, [])
       else do {
         ty \<leftarrow> rd8 p o_type;
         dst \<leftarrow> rdn p o_qdst 4;
         if ty \<noteq> PT_REPLY
         then if u32_of dst = qn_ip c
              then do {
                n0 \<leftarrow> sr_node p 0;
                seq \<leftarrow> rdn p o_seq 4;
                start_reply en T c eth n0 (u32_of dst) (u32_of seq) st
              }
              else Some (st, [])
         else do {
           et \<leftarrow> rdn p 12 2;
           if u16_of et \<noteq> ucast (qn_et c) then Some (st, [])
           else do {
             nx \<leftarrow> rd8 p o_next;
             me \<leftarrow> sr_node p (uint nx);
             if me \<noteq> qn_ip c then Some (st, [])
             else do {
               nl \<leftarrow> rd8 p o_nlinks;
               l1 \<leftarrow> forM (resp_learn en T p) [0..<unat nl] (qr_lt st);
               neighbor \<leftarrow> sr_node p (uint nl);
               if neighbor = 0 then None
               else if nx = 0 then do { st1 \<leftarrow> got_reply T p (st\<lparr>qr_lt := l1\<rparr>); Some (st1, []) }
               else forward_reply T c eth p (st\<lparr>qr_lt := l1\<rparr>)
             }
           }
         }
       }
     }"

section \<open>MetricFlood\<close>

record mseen = seen +
  sn_p :: "byte list option"

record ('a, 'l) mflood =
  mf_seen :: "mseen list"
  mf_neighbors :: "ip_addr list"
  mf_seq :: u32
  mf_lt :: 'l
  mf_arp :: "'a option"

text \<open>
  The header of the stored copy is replaced by one with the best route. The buffer is cleared from offset 14
  for the length of the header and of the Ethernet header: fourteen bytes too far.
\<close>

definition mf_forward_query ::
    "endian \<Rightarrow> ('a, 'l, 'z) route_tables_scheme \<Rightarrow> qnode \<Rightarrow> mseen \<Rightarrow> 'l \<Rightarrow> ('l \<times> byte list list) option" where
  "mf_forward_query en T c s l =
     (let l1 = lt_dijkstra T l False in
      case sn_p s of
        None \<Rightarrow> Some (l1, [])
      | Some p_in \<Rightarrow>
          (let best = lt_best_route T l1 (sn_src s) False in
           if \<not> lt_valid_route T l1 best then Some (l1, [])
           else if best = [] then None
           else do {
             nl \<leftarrow> rd8 p_in o_nlinks;
             let d = drop (len_wo_data (unat nl) + 14) p_in;
             let links = length best - 1;
             let extra = len_wo_data links + 14;
             p1 \<leftarrow> wr 14 (replicate extra 0) (replicate extra 0 @ d);
             p2 \<leftarrow> wr 14 (sr_control en T l1 PT_DATA 0 (word_of_nat (length d)) (sn_dst s) (sn_seq s) best) p1;
             p3 \<leftarrow> wr 0 (replicate 6 0xff @ qn_en c @ be16 (ucast (qn_et c))) p2;
             Some (l1, [p3])
           }))"

fun mf_hook_loop ::
    "endian \<Rightarrow> ('a, 'l, 'z) route_tables_scheme \<Rightarrow> qnode \<Rightarrow> int \<Rightarrow> mseen list \<Rightarrow> 'l \<Rightarrow> (mseen list \<times> 'l \<times> byte list list) option" where
  "mf_hook_loop en T c now [] l = Some ([], l, [])"
| "mf_hook_loop en T c now (s # ss) l =
     (if sn_to_send s < now \<and> \<not> sn_forwarded s
      then do {
        (l1, out1) \<leftarrow> mf_forward_query en T c s l;
        (ss1, l2, out2) \<leftarrow> mf_hook_loop en T c now ss l1;
        Some (s\<lparr>sn_forwarded := True, sn_p := None\<rparr> # ss1, l2, out1 @ out2)
      }
      else do {
        (ss1, l2, out2) \<leftarrow> mf_hook_loop en T c now ss l;
        Some (s # ss1, l2, out2)
      })"

definition mf_forward_query_hook ::
    "endian \<Rightarrow> ('a, 'l, 'z) route_tables_scheme \<Rightarrow> qnode \<Rightarrow> int \<Rightarrow> ('a, 'l) mflood \<Rightarrow> (('a, 'l) mflood \<times> byte list list) option" where
  "mf_forward_query_hook en T c now st =
     do {
       (ss, l, out) \<leftarrow> mf_hook_loop en T c now (mf_seen st) (mf_lt st);
       Some (st\<lparr>mf_seen := ss, mf_lt := l\<rparr>, out)
     }"

definition start_flood :: "qnode \<Rightarrow> ip_addr \<Rightarrow> byte list \<Rightarrow> ('a, 'l) mflood \<Rightarrow> ('a, 'l) mflood \<times> byte list" where
  "start_flood c qdst p st =
     (let seq = mf_seq st + 1 in
      (st\<lparr>mf_seq := seq\<rparr>,
       replicate 6 0xff @ qn_en c @ be16 (ucast (qn_et c)) @
       [sr_version, PT_DATA, 0, 0] @ replicate 4 0 @ [0, 0] @ be16 (word_of_nat (length p)) @ be32 qdst @ be32 seq @ replicate 26 0 @
       be32 (qn_ip c) @ p))"

text \<open>
  The packets of output 1. An entry for a packet to this node keeps the uninitialised \<open>_to_send\<close> and
  \<open>_forwarded\<close>, the arguments \<open>junk\<close>.
\<close>

definition process_flood ::
    "endian \<Rightarrow> ('a, 'l, 'z) route_tables_scheme \<Rightarrow> qnode \<Rightarrow> int \<times> bool \<Rightarrow> int \<Rightarrow> int \<Rightarrow> byte list \<Rightarrow> ('a, 'l) mflood
      \<Rightarrow> (('a, 'l) mflood \<times> byte list list) option" where
  "process_flood en T c junk now delay p st =
     do {
       et \<leftarrow> rdn p 12 2;
       if u16_of et \<noteq> ucast (qn_et c) then Some (st, [])
       else do {
         shost \<leftarrow> rdn p 6 6;
         if shost = qn_en c then Some (st, [])
         else do {
           nl \<leftarrow> rd8 p o_nlinks;
           l1 \<leftarrow> forM (q_learn en T p) [0..<unat nl] (mf_lt st);
           neighbor \<leftarrow> sr_node p (uint nl);
           if neighbor = 0 then None
           else do {
             let st1 = st\<lparr>mf_lt := l1,
                   mf_neighbors := (if neighbor \<in> set (mf_neighbors st) then mf_neighbors st else mf_neighbors st @ [neighbor]),
                   mf_arp := map_option (\<lambda>a. arp_insert T a neighbor shost) (mf_arp st)\<rparr>;
             (src, dst, seq) \<leftarrow> sr_fields p;
             case bump_seen src seq (mf_seen st1) of
               Some ss \<Rightarrow> Some (st1\<lparr>mf_seen := ss\<rparr>, [])
             | None \<Rightarrow>
                 let e = \<lparr>sn_src = src, sn_dst = dst, sn_seq = seq, sn_count = 1, sn_when = now, sn_to_send = fst junk,
                          sn_forwarded = snd junk, sn_p = None\<rparr>
                 in if dst = qn_ip c then Some (st1\<lparr>mf_seen := push_seen (mf_seen st1) e\<rparr>, [p])
                    else if delay \<le> 0 then None
                    else Some (st1\<lparr>mf_seen := push_seen (mf_seen st1)
                                 (e\<lparr>sn_to_send := now + delay * 1000, sn_forwarded := False, sn_p := Some p\<rparr>)\<rparr>, [p])
           }
         }
       }
     }"

definition mf_push ::
    "endian \<Rightarrow> ('a, 'l, 'z) route_tables_scheme \<Rightarrow> qnode \<Rightarrow> int \<times> bool \<Rightarrow> int \<Rightarrow> int \<Rightarrow> nat \<Rightarrow> ip_addr \<Rightarrow> byte list \<Rightarrow> ('a, 'l) mflood
      \<Rightarrow> (('a, 'l) mflood \<times> byte list list \<times> byte list list) option" where
  "mf_push en T c junk now delay port anno p st =
     (if port = 0 then do { (st1, out1) \<leftarrow> process_flood en T c junk now delay p st; Some (st1, [], out1) }
      else if port = 1 then let (st1, q) = start_flood c anno p st in Some (st1, [q], [])
      else Some (st, [], []))"

section \<open>SRQuerier\<close>

record dst_info =
  di_best_metric :: int
  di_count :: int
  di_last_query :: int
  di_p :: "ip_addr list"
  di_last_switch :: int
  di_first_selected :: int

type_synonym queries = "ip_addr \<rightharpoonup> dst_info"

definition dst_new :: dst_info where
  "dst_new = \<lparr>di_best_metric = 0, di_count = 0, di_last_query = 0, di_p = [], di_last_switch = 0, di_first_selected = 0\<rparr>"

text \<open>An empty packet with the destination as annotation goes to output 1.\<close>

definition send_query :: "int \<Rightarrow> ip_addr \<Rightarrow> queries \<Rightarrow> queries" where
  "send_query now dst Q =
     (let nfo = (case Q dst of Some i \<Rightarrow> i | None \<Rightarrow> dst_new)
      in Q(dst \<mapsto> nfo\<lparr>di_last_query := now, di_count := di_count nfo + 1\<rparr>))"

definition select_route ::
    "('a, 'l, 'z) route_tables_scheme \<Rightarrow> 'l \<Rightarrow> int \<Rightarrow> ip_addr \<Rightarrow> dst_info \<Rightarrow> dst_info \<times> bool" where
  "select_route T l now dst q =
     (let best = lt_best_route T l dst True in
      if lt_valid_route T l best
      then (q\<lparr>di_last_switch := now, di_first_selected := (if di_p q \<noteq> best then now else di_first_selected q),
              di_p := best, di_best_metric := lt_route_metric T l best\<rparr>, False)
      else (q\<lparr>di_last_switch := now, di_p := [], di_best_metric := 0\<rparr>, True))"

text \<open>What goes to output 0, and whether a query was sent.\<close>

definition querier_push ::
    "(ip_addr list \<Rightarrow> ip_addr \<Rightarrow> int) \<Rightarrow> ('a, 'l, 'z) route_tables_scheme \<Rightarrow> forwarder \<Rightarrow> 'a \<Rightarrow> 'l \<Rightarrow> int \<Rightarrow> int \<Rightarrow> ip_addr \<Rightarrow> byte list
      \<Rightarrow> queries \<Rightarrow> (queries \<times> (byte list \<times> nat) option \<times> bool) option" where
  "querier_push index_of T f arp l switch_sec now dst p Q =
     (if dst = 0 then Some (Q, None, False)
      else let (q0, fresh) = (case Q dst of Some q \<Rightarrow> (q, False) | None \<Rightarrow> (dst_new, True));
               (q1, invalid) = (if di_best_metric q0 = 0 \<or> di_p q0 = [] \<or> di_last_switch q0 + switch_sec * 1000000 < now
                                then select_route T l now dst q0 else (q0, False));
               Q1 = Q(dst \<mapsto> q1)
      in do {
        out \<leftarrow> (if di_best_metric q1 \<noteq> 0
                then sr_encap index_of (tables.truncate T) f arp p (di_p q1) 0 else Some None);
        Some (if (fresh \<or> invalid) \<and> di_last_query q1 + 5000000 < now then (send_query now dst Q1, out, True)
              else (Q1, out, False))
      })"

definition querier_reset :: queries where
  "querier_reset = Map.empty"

section \<open>Frames with a route\<close>

lemma length_link_bytes [simp]: "length (link_bytes en T l best i) = 20"
  by (simp add: link_bytes_def)

lemma length_blocks: "(\<And>x. length (f x) = n) \<Longrightarrow> length (concat (map f xs)) = n * length xs"
  by (induction xs) auto

lemma rdn_block:
  assumes "\<And>x. length (f x) = n" "k < h" "j + m \<le> n"
  shows "rdn (concat (map f [0..<h]) @ z) (n * k + j) m = rdn (f k) j m"
proof -
  have "[0..<h] = [0..<k] @ k # [Suc k..<h]"
    using assms(2) upt_add_eq_append[of 0 k "h - k"] by (simp add: upt_conv_Cons)
  then have "concat (map f [0..<h]) @ z = concat (map f [0..<k]) @ f k @ (concat (map f [Suc k..<h]) @ z)" by simp
  then show ?thesis using assms by (simp add: rdn_mid length_blocks)
qed

definition ctl_fixed :: "byte \<Rightarrow> nat \<Rightarrow> byte \<Rightarrow> u16 \<Rightarrow> ip_addr \<Rightarrow> u32 \<Rightarrow> byte list" where
  "ctl_fixed ty h nx dlen qdst seq =
     [sr_version, ty, word_of_nat h, nx] @ replicate 4 0 @ [0, 0] @ be16 dlen @ be32 qdst @ be32 seq @ replicate 26 0"

definition ctl_links :: "endian \<Rightarrow> ('a, 'l, 'z) route_tables_scheme \<Rightarrow> 'l \<Rightarrow> ip_addr list \<Rightarrow> nat \<Rightarrow> byte list" where
  "ctl_links en T l best h = concat (map (link_bytes en T l best) [0..<h]) @ be32 (best ! h)"

lemma sr_control_parts:
  "length best = Suc h \<Longrightarrow> 0 < h \<Longrightarrow>
   sr_control en T l ty nx dlen qdst seq best = ctl_fixed ty h nx dlen qdst seq @ ctl_links en T l best h"
  by (simp add: sr_control_def ctl_fixed_def ctl_links_def)

lemma length_ctl [simp]: "length (ctl_fixed ty h nx dlen qdst seq) = 46" "length (ctl_links en T l best h) = 20 * h + 4"
  by (simp_all add: ctl_fixed_def ctl_links_def length_blocks[where n = 20])

text \<open>A frame: fourteen bytes, the fixed part, the links, the data.\<close>

lemma ctl_fields:
  assumes "length eh = 14" "b = eh @ ctl_fixed ty h nx dlen qdst seq @ r"
  shows "rd8 b o_type = Some ty" "rd8 b o_nlinks = Some (word_of_nat h)" "rd8 b o_next = Some nx"
    "rdn b o_qdst 4 = Some (be32 qdst)" "rdn b o_seq 4 = Some (be32 seq)"
  using assms(1) unfolding assms(2) by (simp_all add: rd8_def rdn_mid nth_append) (simp_all add: ctl_fixed_def rdn_def)

lemma ctl_rdn:
  assumes "length eh = 14" "k + n \<le> length r"
  shows "rdn (eh @ ctl_fixed ty h nx dlen qdst seq @ r @ d) (60 + k) n = rdn r k n"
  using assms rdn_mid[of "eh @ ctl_fixed ty h nx dlen qdst seq" "60 + k" n r d] by simp

lemma ctl_node:
  assumes "length eh = 14" "k \<le> h"
  shows "sr_node (eh @ ctl_fixed ty h' nx dlen qdst seq @ ctl_links en T l best h @ d) (int k) = Some (best ! k)"
proof -
  have "rdn (ctl_links en T l best h) (20 * k) 4 = Some (be32 (best ! k))"
  proof (cases "k = h")
    case True
    then show ?thesis by (simp add: ctl_links_def rdn_def length_blocks[where n = 20])
  next
    case False
    then have "rdn (ctl_links en T l best h) (20 * k) 4 = rdn (link_bytes en T l best k) 0 4"
      using rdn_block[of "link_bytes en T l best" 20 k h 0 4] assms(2) by (simp add: ctl_links_def del: rdn_Some)
    then show ?thesis by (simp add: link_bytes_def rdn_def)
  qed
  then show ?thesis using assms ctl_rdn[of eh "20 * k" 4 "ctl_links en T l best h"]
    by (simp add: sr_node_def del: rdn_Some)
qed

lemma ctl_metric:
  assumes "length eh = 14" "k < h" "b = eh @ ctl_fixed ty h' nx dlen qdst seq @ ctl_links en T l best h @ d"
  shows "rd32 en b (60 + 20 * k + 4) = Some (lt_metric T l (best ! k) (best ! (k + 1)))"
    "rd32 en b (60 + 20 * k + 12) = Some (lt_seq T l (best ! k) (best ! (k + 1)))"
    "rd32 en b (60 + 20 * k + 16) = Some (lt_age T l (best ! k) (best ! (k + 1)))"
proof -
  have r: "rdn b (60 + (20 * k + j)) 4 = rdn (link_bytes en T l best k) j 4" if "j + 4 \<le> 20" for j
  proof -
    have "rdn b (60 + (20 * k + j)) 4 = rdn (ctl_links en T l best h) (20 * k + j) 4"
      unfolding assms(3) by (rule ctl_rdn) (use assms(1,2) that in simp_all)
    then show ?thesis using rdn_block[of "link_bytes en T l best" 20 k h j 4] assms(2) that by (simp add: ctl_links_def)
  qed
  show "rd32 en b (60 + 20 * k + 4) = Some (lt_metric T l (best ! k) (best ! (k + 1)))"
    "rd32 en b (60 + 20 * k + 12) = Some (lt_seq T l (best ! k) (best ! (k + 1)))"
    "rd32 en b (60 + 20 * k + 16) = Some (lt_age T l (best ! k) (best ! (k + 1)))"
    using r[of 4] r[of 12] r[of 16] by (simp_all add: rd32_def add.assoc link_bytes_def rdn_def del: rdn_Some)
qed

section \<open>Replies\<close>

lemma put_at_front: "k + length src \<le> length a \<Longrightarrow> put_at k src (a @ b) = put_at k src a @ b"
  by (simp add: put_at_def)

lemma ether_rewrite:
  assumes "length eh = 14" "length d = 6" "length s = 6" "length t = 2"
  shows "put_at 0 d (put_at 6 s (put_at 12 t (eh @ r))) = d @ s @ t @ r"
  using assms by (simp add: put_at_def)

lemma resp_send_ok:
  assumes "length eh = 14" "i \<le> h" "i < 256" "best ! i \<noteq> qn_ip c" "length (qn_en c) = 6" "length (arp_lookup T arp (best ! i)) = 6"
    "R = ctl_fixed ty h (word_of_nat i) dlen qdst seq @ ctl_links en T' l best h"
  shows "resp_send T c arp (eh @ R) = Some (arp_lookup T arp (best ! i) @ qn_en c @ be16 (ucast (qn_et c)) @ R)"
proof -
  have "rd8 (eh @ R) 17 = Some (word_of_nat i)" by (rule ctl_fields(3)[OF assms(1)]) (simp add: assms(7))
  moreover have "sr_node (eh @ R) (uint (word_of_nat i :: byte)) = Some (best ! i)"
    using ctl_node[OF assms(1,2), of ty h "word_of_nat i" dlen qdst seq en T' l best "[]"] assms(3,7) by (simp add: unat_byte)
  ultimately show ?thesis using assms by (simp add: resp_send_def ether_rewrite del: rd8_Some)
qed

lemma set_next: "length eh = 14 \<Longrightarrow> wr o_next [x] (eh @ ctl_fixed ty h nx dlen qdst seq @ r) = Some (eh @ ctl_fixed ty h x dlen qdst seq @ r)"
  by (simp add: put_at_mid) (simp add: put_at_def ctl_fixed_def)

definition reply_frame ::
    "endian \<Rightarrow> ('a, 'l, 'z) route_tables_scheme \<Rightarrow> 'l \<Rightarrow> ip_addr list \<Rightarrow> ip_addr \<Rightarrow> u32 \<Rightarrow> nat \<Rightarrow> nat \<Rightarrow> byte list" where
  "reply_frame en T l best qdst seq h i = ctl_fixed PT_REPLY h (word_of_nat i) 0 qdst seq @ ctl_links en T l best h"

lemma forward_reply_ok:
  assumes "length eh = 14" "length ebuf = 14" "0 < i" "i < h" "h < 256" "best ! (i - 1) \<noteq> qn_ip c" "length (qn_en c) = 6"
    "length (arp_lookup T (qr_arp st) (best ! (i - 1))) = 6"
  shows "forward_reply T c ebuf (eh @ reply_frame en T' l best qdst seq h i) st =
    Some (st\<lparr>qr_lt := lt_dijkstra T (qr_lt st) True\<rparr>,
          [arp_lookup T (qr_arp st) (best ! (i - 1)) @ qn_en c @ be16 (ucast (qn_et c)) @ reply_frame en T' l best qdst seq h (i - 1)])"
proof -
  define p where "p = eh @ reply_frame en T' l best qdst seq h i"
  have f: "rd8 p 15 = Some 2" "rd8 p 16 = Some (word_of_nat h)" "rd8 p 17 = Some (word_of_nat i)"
    by (rule ctl_fields[OF assms(1)], simp add: p_def reply_frame_def)+
  have lt: "\<not> (word_of_nat h :: byte) \<le> word_of_nat i" "unat (word_of_nat h :: byte) = h"
    using assms(3-5) by (simp_all add: word_le_nat_alt unat_byte)
  have "those (map (\<lambda>k. sr_node p (int k)) [0..<h]) = Some (map ((!) best) [0..<h])"
    by (rule those_map_Some) (use ctl_node[OF assms(1), of _ h PT_REPLY h "word_of_nat i" 0 qdst seq en T' l best "[]"] in \<open>simp add: p_def reply_frame_def\<close>)
  moreover have "rdn p 14 (len_wo_data h) = Some (reply_frame en T' l best qdst seq h i)"
    using assms(1) by (simp add: p_def rdn_def len_wo_data_def reply_frame_def)
  moreover have "wr 17 [word_of_nat i - 1] (ebuf @ reply_frame en T' l best qdst seq h i) = Some (ebuf @ reply_frame en T' l best qdst seq h (i - 1))"
    using assms(3) set_next[OF assms(2)] by (simp add: reply_frame_def of_nat_diff)
  moreover have "resp_send T c (qr_arp st) (ebuf @ reply_frame en T' l best qdst seq h (i - 1)) =
      Some (arp_lookup T (qr_arp st) (best ! (i - 1)) @ qn_en c @ be16 (ucast (qn_et c)) @ reply_frame en T' l best qdst seq h (i - 1))"
    by (rule resp_send_ok[OF assms(2) _ _ assms(6-8)]) (use assms(4,5) in \<open>auto simp: reply_frame_def\<close>)
  ultimately show ?thesis unfolding p_def[symmetric] forward_reply_def f using lt
    by (simp add: Let_def del: rd8_Some rdn_Some wr_Some)
qed

text \<open>What a node learns from a reply: the forward metric of every link, for both directions.\<close>

definition reply_step ::
    "('a, 'l, 'z) route_tables_scheme \<Rightarrow> 'l \<Rightarrow> ip_addr list \<Rightarrow> nat \<Rightarrow> 'l \<Rightarrow> 'l" where
  "reply_step T l best k a =
     (let x = best ! k; y = best ! (k + 1); m = lt_metric T l x y; s = lt_seq T l x y
      in if m = 0 then a else fst (lt_update T (fst (lt_update T a x y s 0 m)) y x s 0 m))"

definition reply_learned ::
    "('a, 'l, 'z) route_tables_scheme \<Rightarrow> 'l \<Rightarrow> ip_addr list \<Rightarrow> nat \<Rightarrow> 'l \<Rightarrow> 'l" where
  "reply_learned T l best h a = fold (reply_step T l best) [0..<h] a"

lemma resp_learn_ok:
  assumes "length eh = 14"
  shows "forM (resp_learn en T (eh @ reply_frame en T l best qdst seq h i)) [0..<h] a = Some (reply_learned T l best h a)"
proof -
  define p where "p = eh @ reply_frame en T l best qdst seq h i"
  have p: "p = eh @ ctl_fixed PT_REPLY h (word_of_nat i) 0 qdst seq @ ctl_links en T l best h @ []" by (simp add: p_def reply_frame_def)
  have "resp_learn en T p k (reply_learned T l best k a) = Some (reply_learned T l best (Suc k) a)" if "k < h" for k
  proof -
    have n: "sr_node p (int k) = Some (best ! k)" "sr_node p (int k + 1) = Some (best ! (k + 1))"
      using ctl_node[OF assms, of k h PT_REPLY h "word_of_nat i" 0 qdst seq en T l best "[]"]
        ctl_node[OF assms, of "k + 1" h PT_REPLY h "word_of_nat i" 0 qdst seq en T l best "[]"] that
      by (simp_all add: p add.commute)
    show ?thesis unfolding resp_learn_def n link_off_nat ctl_metric(1,2)[OF assms that p]
      by (simp add: Let_def reply_learned_def reply_step_def)
  qed
  then show ?thesis unfolding p_def[symmetric] using forM_range[of h "resp_learn en T p" "\<lambda>k. reply_learned T l best k a"]
    by (simp add: reply_learned_def)
qed

lemma resp_push_reply:
  assumes "length d = 6" "length s = 6" "s \<noteq> qn_en c" "ucast (qn_et c) = et" "i \<le> h" "h < 256"
    "qn_ip c = best ! i" "best ! h \<noteq> 0" "qdst \<noteq> 0"
    and p_def: "p = d @ s @ be16 et @ reply_frame en T l best qdst seq h i"
    and st1_def: "st1 = st\<lparr>qr_lt := reply_learned T l best h (qr_lt st)\<rparr>"
  shows "resp_push en T c ebuf p st =
    (if i = 0 then Some (st1\<lparr>qr_lt := lt_dijkstra T (qr_lt st1) True\<rparr>, []) else forward_reply T c ebuf p st1)"
proof -
  have eh: "length (d @ s @ be16 et) = 14" using assms(1,2) by simp
  have p: "p = (d @ s @ be16 et) @ ctl_fixed PT_REPLY h (word_of_nat i) 0 qdst seq @ ctl_links en T l best h"
    by (simp add: p_def reply_frame_def)
  note f = ctl_fields[OF eh p]
  have n: "sr_node p (uint (word_of_nat j :: byte)) = Some (best ! j)" if "j \<le> h" for j
    using ctl_node[OF eh that, of PT_REPLY h "word_of_nat i" 0 qdst seq en T l best "[]"] that assms(6) by (simp add: p unat_byte)
  have e: "rdn p 6 6 = Some s" "rdn p 12 2 = Some (be16 et)" using assms(1,2) by (simp_all add: p_def rdn_def)
  have i0: "(word_of_nat i :: byte) = 0 \<longleftrightarrow> i = 0"
  proof
    assume "(word_of_nat i :: byte) = 0"
    then have "unat (word_of_nat i :: byte) = 0" by simp
    then show "i = 0" using unat_byte(1)[of i] assms(5,6) by simp
  qed simp
  have lh: "unat (word_of_nat h :: byte) = h" using assms(6) by (simp add: unat_byte)
  have le: "forM (resp_learn en T p) [0..<h] (qr_lt st) = Some (reply_learned T l best h (qr_lt st))"
    using resp_learn_ok[OF eh, of en T l best qdst seq h i "qr_lt st"] by (simp add: p_def)
  show ?thesis unfolding resp_push_def e f(1-4)
    using assms(3,4,5,7,8,9) by (simp add: n i0 lh le got_reply_def f(4) st1_def del: rdn_Some rd8_Some)
qed

text \<open>
  The reply goes from node to node: it is received by the next one if it is addressed to it or broadcast, and
  pushed into the node's responder. The result is the responder of the node where it stops, and the nodes that
  were not reached.
\<close>

fun reply_travel ::
    "endian \<Rightarrow> ('a, 'l, 'z) route_tables_scheme \<Rightarrow> byte list \<Rightarrow> (qnode \<times> ('a, 'l) qresponder) list \<Rightarrow> byte list
      \<Rightarrow> (('a, 'l) qresponder \<times> (qnode \<times> ('a, 'l) qresponder) list) option" where
  "reply_travel en T ebuf [] p = None"
| "reply_travel en T ebuf ((c, st) # nodes) p =
     (if take 6 p \<noteq> qn_en c \<and> take 6 p \<noteq> bcast then None
      else case resp_push en T c ebuf p st of
             Some (st1, []) \<Rightarrow> Some (st1, nodes)
           | Some (st1, [q]) \<Rightarrow> reply_travel en T ebuf nodes q
           | _ \<Rightarrow> None)"

text \<open>A node on the route: its Ethernet address, its type, and what its ARP table may answer.\<close>

definition good_node ::
    "('a, 'l, 'z) route_tables_scheme \<Rightarrow> (ip_addr \<Rightarrow> ether_addr) \<Rightarrow> u16 \<Rightarrow> qnode \<Rightarrow> ('a, 'l) qresponder \<Rightarrow> bool" where
  "good_node T eth et c st \<longleftrightarrow> qn_en c = eth (qn_ip c) \<and> length (qn_en c) = 6 \<and> ucast (qn_et c) = et \<and>
     (\<forall>a. length (arp_lookup T (qr_arp st) a) = 6 \<and> (arp_lookup T (qr_arp st) a = eth a \<or> arp_lookup T (qr_arp st) a = bcast))"

lemma reply_travel_ok:
  assumes nodes: "map (qn_ip \<circ> fst) nodes = rev (take (Suc i) best)"
    and good: "\<And>c st. (c, st) \<in> set nodes \<Longrightarrow> good_node T eth et c st"
    and b: "length best = Suc h" "h < 256" "i < h" "best ! h \<noteq> 0" "distinct best" "inj_on eth (set best)" "qdst \<noteq> 0" "length ebuf = 14"
    and d: "length d = 6" "length (eth (best ! Suc i)) = 6" "d = eth (best ! i) \<or> d = bcast"
  shows "\<exists>st'. reply_travel en T ebuf nodes (d @ eth (best ! Suc i) @ be16 et @ reply_frame en T l best qdst seq h i) = Some (st', []) \<and>
    qr_lt st' = lt_dijkstra T (reply_learned T l best h (qr_lt (snd (last nodes)))) True"
  using nodes good b(3) d
proof (induction nodes arbitrary: i d)
  case Nil
  then show ?case using b(1) by simp
next
  case (Cons n nodes)
  obtain c st where n: "n = (c, st)" by (cases n)
  define p where "p = d @ eth (best ! Suc i) @ be16 et @ reply_frame en T l best qdst seq h i"
  define st1 where "st1 = st\<lparr>qr_lt := reply_learned T l best h (qr_lt st)\<rparr>"
  have me: "qn_ip c = best ! i" "map (qn_ip \<circ> fst) nodes = rev (take i best)"
    using Cons.prems(1,3) b(1) by (simp_all add: n take_Suc_conv_app_nth comp_def)
  have g: "good_node T eth et c st" using Cons.prems(2) by (simp add: n)
  then have f: "qn_en c = eth (best ! i)" "length (qn_en c) = 6" "ucast (qn_et c) = et" using me by (auto simp: good_node_def)
  have "best ! Suc i \<noteq> best ! i" using b(1,5) Cons.prems(3) by (simp add: nth_eq_iff_index_eq)
  then have "eth (best ! Suc i) \<noteq> qn_en c" using b(1,6) Cons.prems(3) f(1) by (simp add: inj_on_eq_iff)
  then have push: "resp_push en T c ebuf p st =
      (if i = 0 then Some (st1\<lparr>qr_lt := lt_dijkstra T (qr_lt st1) True\<rparr>, []) else forward_reply T c ebuf p st1)"
    by (intro resp_push_reply[OF Cons.prems(4,5) _ f(3) _ b(2) me(1) b(4,7) p_def st1_def]) (use Cons.prems(3) in auto)
  have rcv: "take 6 p = qn_en c \<or> take 6 p = bcast" using Cons.prems(4,6) f(1) by (simp add: p_def)
  show ?case
  proof (cases i)
    case 0
    then have "nodes = []" using me(2) by simp
    then show ?thesis using push rcv 0 unfolding p_def[symmetric] by (auto simp: n st1_def)
  next
    case (Suc j)
    define d1 where "d1 = arp_lookup T (qr_arp st1) (best ! j)"
    have d1: "length d1 = 6" "d1 = eth (best ! j) \<or> d1 = bcast" using g by (auto simp: good_node_def d1_def st1_def)
    have nj: "best ! j \<noteq> qn_ip c" using b(1,5) Cons.prems(3) Suc me(1) by (simp add: nth_eq_iff_index_eq)
    have eh: "length (d @ eth (best ! Suc i) @ be16 et) = 14" using Cons.prems(4,5) by simp
    have "forward_reply T c ebuf p st1 = Some (st1\<lparr>qr_lt := lt_dijkstra T (qr_lt st1) True\<rparr>,
        [d1 @ eth (best ! Suc j) @ be16 et @ reply_frame en T l best qdst seq h j])"
      using forward_reply_ok[OF eh b(8) _ Cons.prems(3) b(2), of best c T st1 en T l qdst seq] nj f d1(1) Suc
      by (simp add: p_def d1_def)
    moreover have "nodes \<noteq> []" using me(2) Suc b(1) by auto
    moreover have "\<exists>st'. reply_travel en T ebuf nodes (d1 @ eth (best ! Suc j) @ be16 et @ reply_frame en T l best qdst seq h j) = Some (st', []) \<and>
        qr_lt st' = lt_dijkstra T (reply_learned T l best h (qr_lt (snd (last nodes)))) True"
      by (rule Cons.IH) (use me(2)[unfolded comp_def] Suc Cons.prems(2,3) d1 f in \<open>auto simp: comp_def\<close>)
    ultimately show ?thesis using push rcv Suc unfolding p_def[symmetric] by (auto simp: n)
  qed
qed

lemma start_reply_ok:
  assumes "l1 = lt_dijkstra T (qr_lt st) False" "best = lt_best_route T l1 src False"
    and b: "length best = Suc h" "0 < h" "h < 256" "lt_valid_route T l1 best" "best ! (h - 1) \<noteq> qn_ip c"
    and fresh: "find_rseen src seq (qr_seen st) = None" and eb: "length ebuf = 14" "length (qn_en c) = 6" "length (arp_lookup T (qr_arp st) (best ! (h - 1))) = 6"
  shows "\<exists>st2. start_reply en T c ebuf src qdst seq st =
    Some (st2, [arp_lookup T (qr_arp st) (best ! (h - 1)) @ qn_en c @ be16 (ucast (qn_et c)) @ reply_frame en T l1 best qdst seq h (h - 1)])"
proof -
  have nx: "word_of_int (int (length best) - 2) = (word_of_nat (h - 1) :: byte)"
    using b(1,2) by (simp add: of_nat_diff)
  have ne: "best \<noteq> []" using b(1) by auto
  have ctl: "sr_control en T l1 PT_REPLY (word_of_nat (h - 1)) 0 qdst seq best = reply_frame en T l1 best qdst seq h (h - 1)"
    using sr_control_parts[OF b(1,2)] by (simp add: reply_frame_def)
  have send: "resp_send T c (qr_arp st) (ebuf @ reply_frame en T l1 best qdst seq h (h - 1)) =
      Some (arp_lookup T (qr_arp st) (best ! (h - 1)) @ qn_en c @ be16 (ucast (qn_et c)) @ reply_frame en T l1 best qdst seq h (h - 1))"
    by (rule resp_send_ok[OF eb(1) _ _ b(5) eb(2,3)]) (use b(3) in \<open>auto simp: reply_frame_def\<close>)
  show ?thesis unfolding start_reply_def Let_def fresh assms(1)[symmetric] assms(2)[symmetric] nx ctl send
    using ne b(4) by (simp add: push_seen_def nth_append)
qed

text \<open>
  Property C5: a query is answered all the way. The node a query asks for, not having answered it, sends a reply
  along the best route it knows from the querying node. When the route, of 2 to 256 distinct nodes, is valid,
  every node on it has the configured Ethernet type and an ARP table that knows the Ethernet address of a node or
  answers with the broadcast address, the reply passes every node of the route and stops at the querying node, and
  no node touches memory outside of a packet or fails an assertion. The link table of the querying node is then
  updated with every link of the route, with the metric the answering node gave it (for both directions), and its
  routes are computed anew.
\<close>

theorem query_answered:
  assumes "sr_fields p = Some (src, qn_ip c, seq)" "rd8 p o_type = Some PT_QUERY" "rdn p 6 6 = Some s" "s \<noteq> qn_en c"
    and "find_rseen src seq (qr_seen st) = None"
    and "ld = lt_dijkstra T (qr_lt st) False" "best = lt_best_route T ld src False" "lt_valid_route T ld best"
    and "length best = Suc h" "0 < h" "h < 256" "distinct best" "inj_on eth (set best)" "last best = qn_ip c" "qn_ip c \<noteq> 0"
    and "map (qn_ip \<circ> fst) nodes = rev (butlast best)" "good_node T eth et c st"
    and "\<And>c st. (c, st) \<in> set nodes \<Longrightarrow> good_node T eth et c st" "length ebuf = 14"
  shows "\<exists>st1 q st2. resp_push en T c ebuf p st = Some (st1, [q]) \<and> reply_travel en T ebuf nodes q = Some (st2, []) \<and>
    qr_lt st2 = lt_dijkstra T (reply_learned T ld best h (qr_lt (snd (last nodes)))) True"
proof -
  have me: "qn_ip c = best ! h" using assms(9,14) by (simp add: last_conv_nth flip: length_greater_0_conv)
  have g: "qn_en c = eth (best ! h)" "length (qn_en c) = 6" "ucast (qn_et c) = et" "length (eth (best ! h)) = 6"
    using assms(17) me by (auto simp: good_node_def)
  define d where "d = arp_lookup T (qr_arp st) (best ! (h - 1))"
  have d: "length d = 6" "d = eth (best ! (h - 1)) \<or> d = bcast" using assms(17) by (auto simp: good_node_def d_def)
  have "best ! (h - 1) \<noteq> qn_ip c" using assms(9,10,12) me by (simp add: nth_eq_iff_index_eq)
  then obtain st1 where r: "start_reply en T c ebuf src (qn_ip c) seq st =
      Some (st1, [d @ eth (best ! h) @ be16 et @ reply_frame en T ld best (qn_ip c) seq h (h - 1)])"
    using start_reply_ok[OF assms(6,7,9-11,8) _ assms(5,19), of c en "qn_ip c"] g d(1) unfolding d_def by fastforce
  have f: "sr_node p 0 = Some src" "\<exists>x. rdn p 26 4 = Some x \<and> u32_of x = qn_ip c" "\<exists>x. rdn p 30 4 = Some x \<and> u32_of x = seq"
    using assms(1) by (auto simp: sr_fields_def bind_eq_Some_conv simp del: rdn_Some)
  then have push: "resp_push en T c ebuf p st = start_reply en T c ebuf src (qn_ip c) seq st"
    using assms(2-4) by (auto simp: resp_push_def simp del: rdn_Some rd8_Some)
  have bl: "rev (butlast best) = rev (take (Suc (h - 1)) best)" using assms(9,10) by (simp add: butlast_conv_take)
  have hm: "Suc (h - 1) = h" using assms(10) by simp
  have "\<exists>st'. reply_travel en T ebuf nodes (d @ eth (best ! Suc (h - 1)) @ be16 et @ reply_frame en T ld best (qn_ip c) seq h (h - 1)) = Some (st', []) \<and>
    qr_lt st' = lt_dijkstra T (reply_learned T ld best h (qr_lt (snd (last nodes)))) True"
    by (rule reply_travel_ok[OF assms(16)[unfolded bl] assms(18) assms(9,11)])
      (use assms(10,12,13,15,19) me g(4) d hm in auto)
  then show ?thesis using push r hm by auto
qed

text \<open>
  A concrete network: the link table is a list of links with their metrics, the best route is the one the
  configuration names.
\<close>

definition demo_tables :: "(unit, (ip_addr \<times> ip_addr \<times> u32) list) route_tables" where
  "demo_tables =
     \<lparr>arp_lookup = \<lambda>_ a. replicate 6 (ucast a), arp_insert = \<lambda>a _ _. a,
      lt_update = \<lambda>l a b _ _ m. ((a, b, m) # l, True),
      lt_metric = \<lambda>l a b. (case find (\<lambda>(x, y, _). x = a \<and> y = b) l of Some (_, _, m) \<Rightarrow> m | None \<Rightarrow> 0),
      lt_seq = \<lambda>_ _ _. 1, lt_age = \<lambda>_ _ _. 0,
      lt_dijkstra = \<lambda>l _. l, lt_best_route = \<lambda>l src _. (if src = 3 then [3] else [src, 2, 3]),
      lt_valid_route = \<lambda>l r. r \<noteq> [], lt_route_metric = \<lambda>l r. if 2 \<le> length r then 1 else 0\<rparr>"

definition demo_qnode :: "ip_addr \<Rightarrow> qnode" where
  "demo_qnode a = \<lparr>qn_ip = a, qn_en = replicate 6 (ucast a), qn_et = 0x0643\<rparr>"

definition demo_responder :: "(ip_addr \<times> ip_addr \<times> u32) list \<Rightarrow> (unit, (ip_addr \<times> ip_addr \<times> u32) list) qresponder" where
  "demo_responder l = \<lparr>qr_seen = [], qr_lt = l, qr_arp = ()\<rparr>"

definition demo_query :: "ip_addr \<Rightarrow> ip_addr \<Rightarrow> u32 \<Rightarrow> byte list" where
  "demo_query src dst seq =
     replicate 6 0xff @ replicate 6 2 @ [6, 0x43] @ ctl_fixed PT_QUERY 1 0 0 dst seq @ be32 src @ replicate 16 0 @ be32 2"

lemma demo_query_fields: "sr_fields (demo_query src dst seq) = Some (src, dst, seq)" "rd8 (demo_query src dst seq) o_type = Some PT_QUERY"
  "rdn (demo_query src dst seq) 6 6 = Some (replicate 6 2)"
  by (simp_all add: sr_fields_def sr_node_def demo_query_def ctl_fixed_def rdn_def rd8_def link_off_def nth_append)

theorem query_answered_witness:
  "\<exists>st1 q st2. resp_push LittleEndian demo_tables (demo_qnode 3) (replicate 14 0) (demo_query 1 3 7) (demo_responder [(1, 2, 100), (2, 3, 50)]) = Some (st1, [q]) \<and>
    reply_travel LittleEndian demo_tables (replicate 14 0) [(demo_qnode 2, demo_responder []), (demo_qnode 1, demo_responder [])] q = Some (st2, []) \<and>
    qr_lt st2 = [(3, 2, 50), (2, 3, 50), (2, 1, 100), (1, 2, 100)]"
proof -
  define T where "T = demo_tables"
  have g: "good_node demo_tables (\<lambda>a. replicate 6 (ucast a)) 0x0643 (demo_qnode a) (demo_responder l)" for a l
    by (simp add: good_node_def demo_qnode_def demo_tables_def)
  have i: "inj_on (\<lambda>a :: ip_addr. replicate 6 (ucast a :: byte)) (set [1, 2, 3])"
    by (simp add: inj_on_def)
  have d: "lt_dijkstra demo_tables l b = l" "lt_best_route demo_tables l 1 False = [1, 2, 3]" "lt_valid_route demo_tables l [1, 2, 3]" for l b
    by (simp_all add: demo_tables_def)
  have r: "reply_learned demo_tables [(1, 2, 100), (2, 3, 50)] [1, 2, 3] 2 [] = [(3, 2, 50), (2, 3, 50), (2, 1, 100), (1, 2, 100)]"
    by (simp add: reply_learned_def reply_step_def demo_tables_def upt_rec)
  let ?nodes = "[(demo_qnode 2, demo_responder []), (demo_qnode 1, demo_responder [])]"
  have "\<exists>st1 q st2. resp_push LittleEndian demo_tables (demo_qnode 3) (replicate 14 0) (demo_query 1 3 7) (demo_responder [(1, 2, 100), (2, 3, 50)]) = Some (st1, [q]) \<and>
      reply_travel LittleEndian demo_tables (replicate 14 0) ?nodes q = Some (st2, []) \<and>
      qr_lt st2 = lt_dijkstra demo_tables (reply_learned demo_tables [(1, 2, 100), (2, 3, 50)] [1, 2, 3] 2 (qr_lt (snd (last ?nodes)))) True"
    by (rule query_answered[where src = 1 and seq = 7 and s = "replicate 6 2" and eth = "\<lambda>a. replicate 6 (ucast a)" and et = "0x0643"])
      (use g i d in \<open>auto simp: demo_query_fields, auto simp: demo_qnode_def demo_responder_def\<close>)
  then show ?thesis using d r by (simp add: demo_responder_def del: reply_travel.simps)
qed

section \<open>Queries are flooded once\<close>

datatype qf_event = QPacket int int "byte list" | QTimer int

fun qf_run ::
    "endian \<Rightarrow> ('a, 'l, 'z) route_tables_scheme \<Rightarrow> qnode \<Rightarrow> qf_event list \<Rightarrow> ('a, 'l) qforwarder \<Rightarrow> (('a, 'l) qforwarder \<times> byte list list) option" where
  "qf_run en T c [] st = Some (st, [])"
| "qf_run en T c (QPacket now delay p # evs) st = do { st1 \<leftarrow> qf_push en T c now delay p st; qf_run en T c evs st1 }"
| "qf_run en T c (QTimer now # evs) st =
     do { (st1, out) \<leftarrow> qf_forward_query_hook en T c now st; (st2, out2) \<leftarrow> qf_run en T c evs st1; Some (st2, out @ out2) }"

fun qf_packets :: "qf_event list \<Rightarrow> byte list list" where
  "qf_packets [] = []"
| "qf_packets (QPacket now delay p # evs) = p # qf_packets evs"
| "qf_packets (QTimer now # evs) = qf_packets evs"

text \<open>Source and sequence number, by which a query is known.\<close>

definition query_key :: "byte list \<Rightarrow> (ip_addr \<times> u32) option" where
  "query_key p = map_option (\<lambda>(src, dst, seq). (src, seq)) (sr_fields p)"

text \<open>A frame that holds its links, comes from a node with an address, and was not sent first by the node \<open>ip\<close>.\<close>

definition good_query :: "ip_addr \<Rightarrow> byte list \<Rightarrow> bool" where
  "good_query ip p \<longleftrightarrow> 17 \<le> length p \<and> 64 + 20 * unat (p ! o_nlinks) \<le> length p \<and>
     sr_node p (uint (p ! o_nlinks)) \<noteq> Some 0 \<and> sr_node p 0 \<noteq> Some ip"

fun good_event :: "ip_addr \<Rightarrow> qf_event \<Rightarrow> bool" where
  "good_event ip (QPacket now delay p) \<longleftrightarrow> 0 < delay \<and> good_query ip p"
| "good_event ip (QTimer now) \<longleftrightarrow> True"

text \<open>Documented behaviour of the link table: a valid best route from another node starts there and has a link.\<close>

definition route_law :: "('a, 'l, 'z) route_tables_scheme \<Rightarrow> ip_addr \<Rightarrow> bool" where
  "route_law T ip \<longleftrightarrow> (\<forall>l src. src \<noteq> ip \<longrightarrow> lt_valid_route T l (lt_best_route T l src False) \<longrightarrow>
     2 \<le> length (lt_best_route T l src False) \<and> lt_best_route T l src False ! 0 = src)"

lemma q_learn_total:
  assumes "64 + 20 * n \<le> length p"
  shows "\<exists>l'. forM (q_learn en T p) [0..<n] l = Some l'"
proof -
  have "\<exists>c. q_learn en T p x b = Some c" if "x < n" for x b
    using that assms link_off_nat[of "Suc x"] by (simp add: q_learn_def rd32_def sr_node_def Let_def add.commute[of 1])
  then show ?thesis using forM_invariant[of n "\<lambda>_ _. True" "q_learn en T p" l] by blast
qed

lemma sr_node_total: "64 + 20 * k \<le> length p \<Longrightarrow> \<exists>a. sr_node p (int k) = Some a"
  by (simp add: sr_node_def)

lemma good_query_fields:
  assumes "good_query ip p"
  obtains src dst seq where "sr_fields p = Some (src, dst, seq)" "src \<noteq> ip"
proof -
  have "sr_node p 0 = Some (u32_of (take 4 (drop 60 p)))" "64 \<le> length p"
    using assms by (auto simp: good_query_def sr_node_def link_off_def)
  then show ?thesis using assms that by (auto simp: good_query_def sr_fields_def)
qed

lemma sr_hops_total: "good_query ip p \<Longrightarrow> \<exists>hs. sr_hops p = Some hs"
proof -
  assume g: "good_query ip p"
  define f where "f k = u32_of (take 4 (drop (60 + 20 * k) p))" for k
  have "those (map (\<lambda>i. sr_node p (int i)) [0..<unat (p ! o_nlinks)]) = Some (map f [0..<unat (p ! o_nlinks)])"
    by (rule those_map_Some) (use g in \<open>simp add: good_query_def sr_node_def f_def\<close>)
  then show ?thesis using g by (simp add: sr_hops_def good_query_def)
qed

lemma bump_seen_None: "bump_seen src seq ss = None \<Longrightarrow> (src, seq) \<notin> sn_key ` set ss"
  by (induction ss) (auto split: if_splits)

lemma bump_seen_Some:
  "bump_seen src seq ss = Some ss1 \<Longrightarrow>
   map (\<lambda>s. (sn_key s, sn_forwarded s)) ss1 = map (\<lambda>s. (sn_key s, sn_forwarded s)) ss"
  by (induction ss arbitrary: ss1) (auto split: if_splits)

text \<open>Queries in the list, those already broadcast and those not.\<close>

definition keys_of :: "bool \<Rightarrow> seen list \<Rightarrow> (ip_addr \<times> u32) set" where
  "keys_of b ss = sn_key ` {s \<in> set ss. sn_forwarded s = b}"

lemma keys_of_simps [simp]: "keys_of b [] = {}"
  "keys_of b (s # ss) = (if sn_forwarded s = b then insert (sn_key s) (keys_of b ss) else keys_of b ss)"
  by (auto simp: keys_of_def)

lemma keys_of_cong:
  assumes "map (\<lambda>s. (sn_key s, sn_forwarded s)) ss1 = map (\<lambda>s. (sn_key s, sn_forwarded s)) ss"
  shows "keys_of b ss1 = keys_of b ss" "map sn_key ss1 = map sn_key ss"
proof -
  define P where "P = (\<lambda>s :: seen. (sn_key s, sn_forwarded s))"
  have e: "map P ss1 = map P ss" using assms by (simp add: P_def)
  have k: "keys_of b xs = fst ` {x \<in> set (map P xs). snd x = b}" "map sn_key xs = map fst (map P xs)" for xs
    by (force simp: keys_of_def P_def)+
  show "keys_of b ss1 = keys_of b ss" "map sn_key ss1 = map sn_key ss" unfolding k e by (rule refl)+
qed

lemma qf_forward_query_ok:
  assumes "route_law T (qn_ip c)" "sn_src s \<noteq> qn_ip c" "length (qn_en c) = 6"
  shows "\<exists>l' out. qf_forward_query en T c s l = Some (l', out) \<and> (out = [] \<or> (\<exists>q. out = [q] \<and> query_key q = Some (sn_key s)))"
proof -
  define l1 where "l1 = lt_dijkstra T l False"
  define best where "best = lt_best_route T l1 (sn_src s) False"
  show ?thesis
  proof (cases "lt_valid_route T l1 best")
    case True
    then have b: "2 \<le> length best" "best ! 0 = sn_src s" using assms by (auto simp: route_law_def best_def)
    then obtain h where h: "length best = Suc h" "0 < h" by (metis Suc_le_D Suc_le_mono numeral_2_eq_2 less_eq_Suc_le)
    define eh where "eh = replicate 6 0xff @ qn_en c @ be16 (ucast (qn_et c))"
    define q where "q = eh @ ctl_fixed PT_QUERY h 0 0 (sn_dst s) (sn_seq s) @ ctl_links en T l1 best h @ []"
    have e: "length eh = 14" using assms(3) by (simp add: eh_def)
    have "sr_fields q = Some (sn_src s, sn_dst s, sn_seq s)"
      using ctl_fields(4,5)[OF e q_def] ctl_node[OF e, of 0 h PT_QUERY h 0 0 "sn_dst s" "sn_seq s" en T l1 best "[]"] b(2)
      by (simp add: sr_fields_def q_def del: rdn_Some)
    moreover have "qf_forward_query en T c s l = Some (l1, [q])"
      unfolding qf_forward_query_def Let_def l1_def[symmetric] best_def[symmetric]
      using True h sr_control_parts[OF h] by (auto simp: q_def eh_def)
    ultimately show ?thesis by (simp add: query_key_def)
  next
    case False
    then show ?thesis by (simp add: qf_forward_query_def Let_def l1_def best_def)
  qed
qed

lemma qf_hook_loop_ok:
  assumes law: "route_law T (qn_ip c)" "length (qn_en c) = 6"
  shows "distinct (map sn_key ss) \<Longrightarrow> qn_ip c \<notin> sn_src ` set ss \<Longrightarrow>
    \<exists>ss' l' out. qf_hook_loop en T c now ss l = Some (ss', l', out) \<and> map sn_key ss' = map sn_key ss \<and>
      distinct (map query_key out) \<and> query_key ` set out \<subseteq> Some ` keys_of False ss \<and>
      query_key ` set out \<subseteq> Some ` keys_of True ss' \<and> keys_of True ss \<subseteq> keys_of True ss'"
proof (induction ss arbitrary: l)
  case (Cons s ss)
  have sub: "keys_of False ss \<subseteq> sn_key ` set ss" by (auto simp: keys_of_def)
  show ?case
  proof (cases "sn_to_send s < now \<and> \<not> sn_forwarded s")
    case True
    have "sn_src s \<noteq> qn_ip c" using Cons.prems(2) by auto
    then obtain l1 out1 where f: "qf_forward_query en T c s l = Some (l1, out1)"
      "out1 = [] \<or> (\<exists>q. out1 = [q] \<and> query_key q = Some (sn_key s))"
      using qf_forward_query_ok[OF law(1) _ law(2)] by blast
    obtain ss' l' out where r: "qf_hook_loop en T c now ss l1 = Some (ss', l', out)" "map sn_key ss' = map sn_key ss"
      "distinct (map query_key out)" "query_key ` set out \<subseteq> Some ` keys_of False ss"
      "query_key ` set out \<subseteq> Some ` keys_of True ss'" "keys_of True ss \<subseteq> keys_of True ss'"
      using Cons.IH[of l1] Cons.prems by auto
    have "Some (sn_key s) \<notin> query_key ` set out" using r(4) sub Cons.prems(1) by auto
    then have "distinct (map query_key (out1 @ out))" using f(2) r(3) by auto
    then show ?thesis using True f r by (auto 0 3)
  next
    case False
    obtain ss' l' out where r: "qf_hook_loop en T c now ss l = Some (ss', l', out)" "map sn_key ss' = map sn_key ss"
      "distinct (map query_key out)" "query_key ` set out \<subseteq> Some ` keys_of False ss"
      "query_key ` set out \<subseteq> Some ` keys_of True ss'" "keys_of True ss \<subseteq> keys_of True ss'"
      using Cons.IH[of l] Cons.prems by auto
    have "qf_hook_loop en T c now (s # ss) l = Some (s # ss', l', out)" using False r(1) by auto
    then show ?thesis using r(2-6) by (auto 0 3)
  qed
qed simp

definition qf_inv :: "ip_addr \<Rightarrow> (ip_addr \<times> u32) set \<Rightarrow> ('a, 'l) qforwarder \<Rightarrow> bool" where
  "qf_inv ip K st \<longleftrightarrow> distinct (map sn_key (qf_seen st)) \<and> sn_key ` set (qf_seen st) \<subseteq> K \<and> ip \<notin> sn_src ` set (qf_seen st)"

lemma process_query_ok:
  assumes "good_query (qn_ip c) p" "0 < delay" "query_key p = Some k" "k \<in> K" "finite K" "card K \<le> 100"
    and inv: "distinct (map sn_key ss)" "sn_key ` set ss \<subseteq> K" "qn_ip c \<notin> sn_src ` set ss"
  shows "\<exists>ss'. process_query c now delay p ss = Some ss' \<and> distinct (map sn_key ss') \<and> sn_key ` set ss' \<subseteq> K \<and>
    qn_ip c \<notin> sn_src ` set ss' \<and> keys_of True ss' = keys_of True ss"
proof -
  obtain src dst seq where f: "sr_fields p = Some (src, dst, seq)" "src \<noteq> qn_ip c" using good_query_fields[OF assms(1)] by blast
  obtain hs where h: "sr_hops p = Some hs" using sr_hops_total[OF assms(1)] by blast
  have k: "k = (src, seq)" using assms(3) f by (simp add: query_key_def)
  show ?thesis
  proof (cases "dst = qn_ip c \<or> qn_ip c \<in> set hs")
    case True
    then show ?thesis using inv f h by (auto simp: process_query_def)
  next
    case False
    show ?thesis
    proof (cases "bump_seen src seq ss")
      case None
      have new: "(src, seq) \<notin> sn_key ` set ss" by (rule bump_seen_None[OF None])
      have "card (insert (src, seq) (sn_key ` set ss)) \<le> card K" by (rule card_mono) (use assms(4,5) inv k in auto)
      moreover have "card (sn_key ` set ss) = length ss" using distinct_card[OF inv(1)] by simp
      ultimately have "length ss < 100" using new assms(6) by (simp add: card_insert_if)
      then show ?thesis using False f h None new inv assms(2,4) k
        by (auto simp: process_query_def push_seen_def keys_of_def image_iff)
    next
      case (Some ss1)
      note c = keys_of_cong[OF bump_seen_Some[OF Some]]
      have "set (map fst (map sn_key ss1)) = set (map fst (map sn_key ss))" "set (map sn_key ss1) = set (map sn_key ss)" by (simp_all only: c)
      then have "sn_src ` set ss1 = sn_src ` set ss" "sn_key ` set ss1 = sn_key ` set ss" by (simp_all add: image_image)
      then show ?thesis using False f h Some c inv by (simp add: process_query_def)
    qed
  qed
qed

lemma qf_push_ok:
  assumes "good_query (qn_ip c) p" "0 < delay" "query_key p = Some k" "k \<in> K" "finite K" "card K \<le> 100" "qf_inv (qn_ip c) K st"
  shows "\<exists>st'. qf_push en T c now delay p st = Some st' \<and> qf_inv (qn_ip c) K st' \<and> keys_of True (qf_seen st') = keys_of True (qf_seen st)"
proof -
  let ?nl = "p ! o_nlinks"
  have len: "64 + 20 * unat ?nl \<le> length p" using assms(1) by (simp add: good_query_def)
  obtain l1 where l: "forM (q_learn en T p) [0..<unat ?nl] (qf_lt st) = Some l1" using q_learn_total[OF len, of en T "qf_lt st"] by blast
  obtain nb where nb: "sr_node p (uint ?nl) = Some nb" "nb \<noteq> 0"
    using assms(1) sr_node_total[OF len] by (auto simp: good_query_def)
  obtain ss where ss: "process_query c now delay p (qf_seen st) = Some ss" "qf_inv (qn_ip c) K (st\<lparr>qf_seen := ss\<rparr>)"
    "keys_of True ss = keys_of True (qf_seen st)"
    using process_query_ok[OF assms(1-6), of "qf_seen st" now] assms(7) by (auto simp: qf_inv_def)
  have rd: "rdn p 12 2 = Some (take 2 (drop 12 p))" "rdn p 6 6 = Some (take 6 (drop 6 p))" "rd8 p 15 = Some (p ! 15)" "rd8 p 16 = Some ?nl"
    using len by simp_all
  show ?thesis unfolding qf_push_def rd using l nb ss assms(7) by (auto simp: qf_inv_def)
qed

lemma qf_run_once:
  assumes law: "route_law T (qn_ip c)" "length (qn_en c) = 6" and K: "finite K" "card K \<le> 100"
  shows "\<forall>e\<in>set evs. good_event (qn_ip c) e \<Longrightarrow> query_key ` set (qf_packets evs) \<subseteq> Some ` K \<Longrightarrow> qf_inv (qn_ip c) K st \<Longrightarrow>
    \<exists>st' out. qf_run en T c evs st = Some (st', out) \<and> distinct (map query_key out) \<and>
      query_key ` set out \<inter> Some ` keys_of True (qf_seen st) = {}"
proof (induction evs arbitrary: st)
  case (Cons e evs)
  show ?case
  proof (cases e)
    case (QPacket now delay p)
    obtain k where k: "query_key p = Some k" "k \<in> K" using Cons.prems(2) QPacket by auto
    obtain st1 where s1: "qf_push en T c now delay p st = Some st1" "qf_inv (qn_ip c) K st1" "keys_of True (qf_seen st1) = keys_of True (qf_seen st)"
      using qf_push_ok[OF _ _ k K Cons.prems(3), of delay en T now] Cons.prems(1) QPacket by auto
    then show ?thesis using Cons.IH[OF _ _ s1(2)] Cons.prems(1,2) QPacket by auto
  next
    case (QTimer now)
    note inv = Cons.prems(3)[unfolded qf_inv_def]
    obtain ss l out1 where h: "qf_hook_loop en T c now (qf_seen st) (qf_lt st) = Some (ss, l, out1)" "map sn_key ss = map sn_key (qf_seen st)"
      "distinct (map query_key out1)" "query_key ` set out1 \<subseteq> Some ` keys_of False (qf_seen st)"
      "query_key ` set out1 \<subseteq> Some ` keys_of True ss" "keys_of True (qf_seen st) \<subseteq> keys_of True ss"
      using qf_hook_loop_ok[OF law, of "qf_seen st" en now "qf_lt st"] inv by auto
    define st1 where "st1 = st\<lparr>qf_seen := ss, qf_lt := l\<rparr>"
    have "set (map fst (map sn_key ss)) = set (map fst (map sn_key (qf_seen st)))" "set (map sn_key ss) = set (map sn_key (qf_seen st))"
      by (simp_all only: h(2))
    then have "sn_src ` set ss = sn_src ` set (qf_seen st)" "sn_key ` set ss = sn_key ` set (qf_seen st)" by (simp_all add: image_image)
    then have "qf_inv (qn_ip c) K st1" using inv h(2) by (simp add: qf_inv_def st1_def)
    from Cons.IH[OF _ _ this] obtain st2 out2 where r: "qf_run en T c evs st1 = Some (st2, out2)" "distinct (map query_key out2)"
      "query_key ` set out2 \<inter> Some ` keys_of True ss = {}" using Cons.prems(1,2) QTimer by (auto simp: st1_def)
    have "keys_of True (qf_seen st) \<inter> keys_of False (qf_seen st) = {}"
      using inv by (auto simp: keys_of_def distinct_map inj_on_def)
    moreover have "X \<inter> Some ` A = {}" if "X \<subseteq> Some ` B" "A \<inter> B = {}" for X and A B :: "(ip_addr \<times> u32) set" using that by blast
    ultimately have "query_key ` set out1 \<inter> Some ` keys_of True (qf_seen st) = {}" using h(4) by blast
    moreover have "query_key ` set out2 \<inter> Some ` keys_of True (qf_seen st) = {}" using h(6) r(3) by blast
    ultimately have "query_key ` set (out1 @ out2) \<inter> Some ` keys_of True (qf_seen st) = {}" by (simp add: image_Un Int_Un_distrib2)
    moreover have "distinct (map query_key (out1 @ out2))" using h(3,5) r(2,3) by auto
    moreover have "qf_run en T c (e # evs) st = Some (st2, out1 @ out2)"
      using h(1) r(1) QTimer by (simp add: qf_forward_query_hook_def st1_def)
    ultimately show ?thesis by blast
  qed
qed simp

text \<open>
  Property C15: a node floods a query at most once. Whatever frames arrive and whenever the timers fire, a
  forwarder that starts without entries, and that sees at most 100 different queries (source and sequence number),
  broadcasts no query twice, and handles every event without touching memory outside of a packet and without a
  failed assertion. The frames hold the links they announce and were sent by a node with an address, not first by
  this one; the link table's valid best routes start at the node asked for.
\<close>

theorem query_broadcast_once:
  assumes "route_law T (qn_ip c)" "length (qn_en c) = 6" "\<forall>e\<in>set evs. good_event (qn_ip c) e"
    and "card (query_key ` set (qf_packets evs)) \<le> 100" "qf_seen st = []"
  shows "\<exists>st' out. qf_run en T c evs st = Some (st', out) \<and> distinct (map query_key out)"
proof -
  define K where "K = {k. Some k \<in> query_key ` set (qf_packets evs)}"
  have sub: "Some ` K \<subseteq> query_key ` set (qf_packets evs)" by (auto simp: K_def)
  then have fin: "finite (Some ` K)" by (rule finite_subset) simp
  then have "finite K" by (rule finite_imageD) simp
  moreover have "card K \<le> 100" using card_mono[OF _ sub] assms(4) by (simp add: card_image)
  moreover have "good_query (qn_ip c) p" if "p \<in> set (qf_packets evs)" for p
    using that assms(3) by (induction evs rule: qf_packets.induct) auto
  then have "query_key p \<noteq> None" if "p \<in> set (qf_packets evs)" for p
    using that good_query_fields[of "qn_ip c" p] by (metis query_key_def option.distinct(1) option.map(2))
  then have "query_key ` set (qf_packets evs) \<subseteq> Some ` K"
  proof (intro subsetI)
    fix k
    assume k: "k \<in> query_key ` set (qf_packets evs)"
    then obtain x where "k = Some x" using \<open>\<And>p. p \<in> set (qf_packets evs) \<Longrightarrow> query_key p \<noteq> None\<close> by fastforce
    then show "k \<in> Some ` K" using k by (simp add: K_def)
  qed
  moreover have "qf_inv (qn_ip c) K st" using assms(5) by (simp add: qf_inv_def)
  ultimately have "\<exists>st' out. qf_run en T c evs st = Some (st', out) \<and> distinct (map query_key out) \<and>
      query_key ` set out \<inter> Some ` keys_of True (qf_seen st) = {}"
    by (intro qf_run_once[OF assms(1,2) _ _ assms(3), where K = K])
  then show ?thesis by (elim exE conjE) (intro exI conjI)
qed

definition demo_forwarder :: "(unit, (ip_addr \<times> ip_addr \<times> u32) list) qforwarder" where
  "demo_forwarder = \<lparr>qf_seen = [], qf_neighbors = [], qf_lt = [], qf_arp = ()\<rparr>"

definition demo_events :: "qf_event list" where
  "demo_events = [QPacket 0 5 (demo_query 1 9 7), QTimer 6000, QPacket 7000 5 (demo_query 1 9 7), QTimer 20000]"

lemma demo_route_law: "route_law demo_tables 3"
  by (simp add: route_law_def demo_tables_def)

lemma demo_query_good: "good_query 3 (demo_query 1 9 7)"
  by (simp add: good_query_def demo_query_def ctl_fixed_def nth_append sr_node_def link_off_def)

theorem query_broadcast_once_witness:
  "\<exists>st' out. qf_run LittleEndian demo_tables (demo_qnode 3) demo_events demo_forwarder = Some (st', out) \<and> distinct (map query_key out)"
proof (rule query_broadcast_once)
  show "route_law demo_tables (qn_ip (demo_qnode 3))" using demo_route_law by (simp add: demo_qnode_def)
  show "length (qn_en (demo_qnode 3)) = 6" by (simp add: demo_qnode_def)
  show "\<forall>e\<in>set demo_events. good_event (qn_ip (demo_qnode 3)) e" using demo_query_good by (simp add: demo_events_def demo_qnode_def)
  show "card (query_key ` set (qf_packets demo_events)) \<le> 100" by (simp add: demo_events_def)
  show "qf_seen demo_forwarder = []" by (simp add: demo_forwarder_def)
qed

section \<open>The payload of a flooded packet\<close>

text \<open>
  Property C38: a packet that is flooded does not arrive as it was sent. When a node passes on a stored flood with
  a valid best route of at least one link, the buffer is cleared fourteen bytes past the new header: the first
  fourteen bytes of the payload are zeros in the frame that is sent, and with a shorter payload the write leaves
  the packet.
\<close>

theorem flood_zeroes_payload:
  assumes "sn_p s = Some p" "rd8 p o_nlinks = Some nl" "d = drop (len_wo_data (unat nl) + 14) p"
    and "ld = lt_dijkstra T l False" "best = lt_best_route T ld (sn_src s) False" "lt_valid_route T ld best"
    and "length best = Suc h" "0 < h" "length (qn_en c) = 6"
  shows "mf_forward_query en T c s l =
    (if length d < 14 then None
     else Some (ld, [replicate 6 0xff @ qn_en c @ be16 (ucast (qn_et c)) @
                     sr_control en T ld PT_DATA 0 (word_of_nat (length d)) (sn_dst s) (sn_seq s) best @ replicate 14 0 @ drop 14 d]))"
proof -
  define ctl where "ctl = sr_control en T ld PT_DATA 0 (word_of_nat (length d)) (sn_dst s) (sn_seq s) best"
  define n where "n = len_wo_data h"
  have l: "length ctl = n" using sr_control_parts[OF assms(7,8), of en T ld] by (simp add: ctl_def n_def len_wo_data_def)
  have ne: "best \<noteq> []" using assms(7) by auto
  have w1: "wr 14 (replicate (n + 14) 0) (replicate (n + 14) (0 :: byte) @ d) =
      (if length d < 14 then None else Some (replicate 14 0 @ replicate n 0 @ replicate 14 0 @ drop 14 d))"
    by (auto simp: wr_def put_at_def add.commute simp flip: replicate_add)
  have w2: "wr 14 ctl (replicate 14 0 @ replicate n 0 @ r) = Some (replicate 14 0 @ ctl @ r)" for r
    using l by (simp add: wr_def put_at_def)
  have w3: "wr 0 (replicate 6 0xff @ qn_en c @ be16 (ucast (qn_et c))) (replicate 14 (0 :: byte) @ r) =
      Some (replicate 6 0xff @ qn_en c @ be16 (ucast (qn_et c)) @ r)" for r
    using assms(9) by (simp add: wr_def put_at_def)
  show ?thesis
    unfolding mf_forward_query_def Let_def assms(1) option.case assms(4)[symmetric] assms(5)[symmetric] assms(2) assms(3)[symmetric]
      assms(7) diff_Suc_1 n_def[symmetric] ctl_def[symmetric] bind.simps w1
    using assms(6) ne w2 w3 by simp
qed

definition demo_flood_entry :: "byte list \<Rightarrow> mseen" where
  "demo_flood_entry p = \<lparr>sn_src = 1, sn_dst = 9, sn_seq = 4, sn_count = 1, sn_when = 0, sn_to_send = 5000, sn_forwarded = False, sn_p = Some p\<rparr>"

definition demo_flood_packet :: "byte list" where
  "demo_flood_packet = replicate 14 0 @ [sr_version, PT_DATA, 0, 0] @ replicate 46 0 @ replicate 20 7"

theorem flood_zeroes_payload_witness:
  "mf_forward_query LittleEndian demo_tables (demo_qnode 3) (demo_flood_entry demo_flood_packet) [] =
    Some ([], [replicate 6 0xff @ replicate 6 3 @ be16 0x0643 @
      sr_control LittleEndian demo_tables [] PT_DATA 0 20 9 4 [1, 2, 3] @ replicate 14 0 @ replicate 6 7])"
proof -
  have "drop (len_wo_data (unat (0 :: byte)) + 14) demo_flood_packet = replicate 20 7" "rd8 demo_flood_packet o_nlinks = Some 0"
    by (simp_all add: demo_flood_packet_def len_wo_data_def nth_append)
  moreover have "sn_p (demo_flood_entry p) = Some p" "sn_src (demo_flood_entry p) = 1" "sn_dst (demo_flood_entry p) = 9" "sn_seq (demo_flood_entry p) = 4" for p
    by (simp_all add: demo_flood_entry_def)
  moreover have "lt_dijkstra demo_tables [] False = []" "lt_best_route demo_tables [] 1 False = [1, 2, 3]" "lt_valid_route demo_tables [] [1, 2, 3]"
    by (simp_all add: demo_tables_def)
  moreover have "qn_en (demo_qnode 3) = replicate 6 3" "ucast (qn_et (demo_qnode 3)) = (0x0643 :: u16)" by (simp_all add: demo_qnode_def)
  ultimately show ?thesis
    using flood_zeroes_payload[of "demo_flood_entry demo_flood_packet" demo_flood_packet 0 "replicate 20 7" "[]" demo_tables "[]" "[1, 2, 3]" 2
      "demo_qnode 3" LittleEndian] by simp
qed

section \<open>Queries are sent at a limited rate\<close>

text \<open>The data packets a querier is given: the time, the tables at that time, the destination, the packet.\<close>

record ('a, 'l) querier_event =
  qe_now :: int
  qe_arp :: 'a
  qe_lt :: 'l
  qe_dst :: ip_addr
  qe_pkt :: "byte list"

fun querier_run ::
    "(ip_addr list \<Rightarrow> ip_addr \<Rightarrow> int) \<Rightarrow> ('a, 'l, 'z) route_tables_scheme \<Rightarrow> forwarder \<Rightarrow> int \<Rightarrow> ('a, 'l) querier_event list
      \<Rightarrow> queries \<Rightarrow> (queries \<times> (int \<times> ip_addr) list) option" where
  "querier_run index_of T f switch_sec [] Q = Some (Q, [])"
| "querier_run index_of T f switch_sec (e # es) Q =
     do {
       (Q1, out, sent) \<leftarrow> querier_push index_of T f (qe_arp e) (qe_lt e) switch_sec (qe_now e) (qe_dst e) (qe_pkt e) Q;
       (Q2, qs) \<leftarrow> querier_run index_of T f switch_sec es Q1;
       Some (Q2, if sent then (qe_now e, qe_dst e) # qs else qs)
     }"

text \<open>Documented behaviour of the link table: a route with a metric has a link.\<close>

definition metric_law :: "('a, 'l, 'z) route_tables_scheme \<Rightarrow> bool" where
  "metric_law T \<longleftrightarrow> (\<forall>l r. lt_route_metric T l r \<noteq> 0 \<longrightarrow> 2 \<le> length r)"

definition queries_ok :: "queries \<Rightarrow> bool" where
  "queries_ok Q \<longleftrightarrow> (\<forall>d i. Q d = Some i \<longrightarrow> di_best_metric i \<noteq> 0 \<longrightarrow> 2 \<le> length (di_p i))"

lemma sr_encap_total: "2 \<le> length r \<Longrightarrow> \<exists>x. sr_encap index_of T f arp p r fl = Some x"
  by (simp add: sr_encap_def Let_def)

lemma select_route_keeps:
  assumes "metric_law T" "select_route T l now dst q = (q1, b)"
  shows "di_last_query q1 = di_last_query q" "di_best_metric q1 \<noteq> 0 \<Longrightarrow> 2 \<le> length (di_p q1)"
  using assms by (auto simp: select_route_def Let_def metric_law_def split: if_splits)

text \<open>The time of the last query for a destination, if there is an entry.\<close>

definition last_query :: "queries \<Rightarrow> ip_addr \<Rightarrow> int" where
  "last_query Q d = (case Q d of Some i \<Rightarrow> di_last_query i | None \<Rightarrow> 0)"

lemma querier_push_ok:
  assumes "metric_law T" "queries_ok Q"
  shows "\<exists>Q1 out sent. querier_push index_of T f arp l sw now dst p Q = Some (Q1, out, sent) \<and> queries_ok Q1 \<and>
    last_query Q1 = (if sent then (last_query Q)(dst := now) else last_query Q) \<and> (sent \<longrightarrow> last_query Q dst + 5000000 < now)"
proof (cases "dst = 0")
  case True
  then show ?thesis using assms(2) by (auto simp: querier_push_def)
next
  case False
  obtain q0 fresh where q0: "(case Q dst of Some q \<Rightarrow> (q, False) | None \<Rightarrow> (dst_new, True)) = (q0, fresh)" by fastforce
  obtain q1 inv where q1: "(if di_best_metric q0 = 0 \<or> di_p q0 = [] \<or> di_last_switch q0 + sw * 1000000 < now
      then select_route T l now dst q0 else (q0, False)) = (q1, inv)" by fastforce
  have l0: "di_last_query q0 = last_query Q dst" "di_best_metric q0 \<noteq> 0 \<longrightarrow> 2 \<le> length (di_p q0)"
    using q0 assms(2) by (auto simp: last_query_def dst_new_def queries_ok_def split: option.splits)
  have l1: "di_last_query q1 = last_query Q dst" "di_best_metric q1 \<noteq> 0 \<longrightarrow> 2 \<le> length (di_p q1)"
    using q1 l0 select_route_keeps[OF assms(1)] by (auto split: if_splits)
  define Q1 where "Q1 = Q(dst \<mapsto> q1)"
  have ok: "queries_ok Q1" "last_query Q1 = last_query Q" using l1 assms(2) by (auto simp: queries_ok_def Q1_def last_query_def fun_eq_iff)
  have ok2: "queries_ok (send_query now dst Q1)" "last_query (send_query now dst Q1) = (last_query Q)(dst := now)"
    using assms(2) l1 by (auto simp: queries_ok_def Q1_def send_query_def Let_def last_query_def fun_eq_iff)
  obtain out where out: "(if di_best_metric q1 \<noteq> 0 then sr_encap index_of (tables.truncate T) f arp p (di_p q1) 0 else Some None) = Some out"
    using l1(2) sr_encap_total[of "di_p q1" index_of "tables.truncate T" f arp p 0] by (cases "di_best_metric q1 = 0") auto
  have "querier_push index_of T f arp l sw now dst p Q =
      Some (if (fresh \<or> inv) \<and> last_query Q dst + 5000000 < now then (send_query now dst Q1, out, True) else (Q1, out, False))"
    unfolding querier_push_def q0 Let_def case_prod_conv q1 out Q1_def[symmetric] l1(1) using False by simp
  then show ?thesis using ok ok2 by (cases "(fresh \<or> inv) \<and> last_query Q dst + 5000000 < now") auto
qed

lemma querier_run_spaced:
  assumes "metric_law T"
  shows "queries_ok Q \<Longrightarrow> sorted (map qe_now es) \<Longrightarrow>
    \<exists>Q' qs. querier_run index_of T f sw es Q = Some (Q', qs) \<and> set (map fst qs) \<subseteq> set (map qe_now es) \<and>
      (\<forall>(t, d)\<in>set qs. last_query Q d + 5000000 < t) \<and>
      sorted_wrt (\<lambda>(t1, d1) (t2, d2). d1 = d2 \<longrightarrow> t1 + 5000000 < t2) qs"
proof (induction es arbitrary: Q)
  case (Cons e es)
  obtain Q1 out sent where p: "querier_push index_of T f (qe_arp e) (qe_lt e) sw (qe_now e) (qe_dst e) (qe_pkt e) Q = Some (Q1, out, sent)"
    "queries_ok Q1" "last_query Q1 = (if sent then (last_query Q)(qe_dst e := qe_now e) else last_query Q)"
    "sent \<longrightarrow> last_query Q (qe_dst e) + 5000000 < qe_now e"
    using querier_push_ok[OF assms Cons.prems(1), of index_of f "qe_arp e" "qe_lt e" sw "qe_now e" "qe_dst e" "qe_pkt e"] by blast
  obtain Q2 qs where r: "querier_run index_of T f sw es Q1 = Some (Q2, qs)" "set (map fst qs) \<subseteq> set (map qe_now es)"
    "\<forall>(t, d)\<in>set qs. last_query Q1 d + 5000000 < t" "sorted_wrt (\<lambda>(t1, d1) (t2, d2). d1 = d2 \<longrightarrow> t1 + 5000000 < t2) qs"
    using Cons.IH[OF p(2)] Cons.prems(2) by auto
  show ?case
  proof (cases sent)
    case False
    then show ?thesis using p r by auto
  next
    case True
    have "\<forall>(t, d)\<in>set qs. last_query Q d + 5000000 < t" using r(3) p(3,4) True by (fastforce split: if_splits)
    moreover have "\<forall>(t, d)\<in>set qs. qe_dst e = d \<longrightarrow> qe_now e + 5000000 < t" using r(3) p(3) True by fastforce
    ultimately show ?thesis using p r True by auto
  qed
qed simp

text \<open>
  Property C28: the queries a node sends for one destination are more than five seconds apart. For any packets given
  to a querier that starts without entries, at times that do not go back, and any state of the link and ARP tables
  at those times, every packet is handled (the assertion of \<open>encap\<close> on the length of the route does not fail), and
  of two queries for the same destination the later is sent more than 5 seconds after the earlier.
\<close>

theorem query_rate_limited:
  assumes "metric_law T" "sorted (map qe_now es)"
  shows "\<exists>Q qs. querier_run index_of T f switch_sec es querier_reset = Some (Q, qs) \<and>
    (\<forall>i j. i < j \<and> j < length qs \<and> snd (qs ! i) = snd (qs ! j) \<longrightarrow> fst (qs ! i) + 5000000 < fst (qs ! j))"
proof -
  have "queries_ok querier_reset" by (simp add: queries_ok_def querier_reset_def)
  from querier_run_spaced[OF assms(1) this assms(2)] obtain Q qs where
    r: "querier_run index_of T f switch_sec es querier_reset = Some (Q, qs)" "sorted_wrt (\<lambda>(t1, d1) (t2, d2). d1 = d2 \<longrightarrow> t1 + 5000000 < t2) qs"
    by blast
  then show ?thesis unfolding sorted_wrt_iff_nth_less by (fastforce simp: case_prod_unfold)
qed

theorem query_rate_limited_witness:
  "let e = (\<lambda>t. \<lparr>qe_now = t, qe_arp = (), qe_lt = [], qe_dst = 3, qe_pkt = [1, 2]\<rparr>) in
   \<exists>Q qs. querier_run (\<lambda>_ _. 0) demo_tables \<lparr>fw_ip = 1, fw_eth = replicate 6 1, fw_et = 0x0643\<rparr> 30 [e 6000000, e 7000000] querier_reset = Some (Q, qs) \<and>
    (\<forall>i j. i < j \<and> j < length qs \<and> snd (qs ! i) = snd (qs ! j) \<longrightarrow> fst (qs ! i) + 5000000 < fst (qs ! j))"
  unfolding Let_def
proof (rule query_rate_limited)
  show "metric_law demo_tables" by (simp add: metric_law_def demo_tables_def)
qed simp

end
