(* ===== verification/BP_Queues.thy ===== *)
theory BP_Queues
  imports Roofnet_Query
begin

text \<open>
  Backpressure routing (\<open>bp\<close>): what a node knows of its neighbours (\<open>bpdata.cc\<close>), the probes that carry it
  (\<open>bpstat.cc\<close>), and the queues of the flows, one of which may send in each period (\<open>dataqueue.hh\<close>,
  \<open>dataqueues.cc\<close>).

  A flow is its destination. A neighbour is known by the string of its IP or Ethernet address. The link table, the
  ARP table, the rate shaper and the routines of \<open>srpacket\<close> of Click are parameters. A hash table is a map; the
  order of an iteration over it is an argument. A packet is a pointer with its bytes and its destination
  annotation. A failed assertion, a null pointer or an access outside of a packet is \<^const>\<open>None\<close>.
\<close>

section \<open>Neighbours\<close>

record host_info =
  hi_backlog :: u32
  hi_distance :: u32
  hi_static :: bool

datatype neig_key = IpKey ip_addr | EthKey ether_addr

text \<open>\<open>IPAddress\<close> of the string: the string of an Ethernet address is not an IP address.\<close>

fun key_ip :: "neig_key \<Rightarrow> ip_addr" where
  "key_ip (IpKey a) = a"
| "key_ip (EthKey e) = 0"

record bpdata =
  bd_nfb :: "neig_key \<rightharpoonup> (ip_addr \<rightharpoonup> host_info)"
  bd_nm :: "neig_key \<rightharpoonup> u64"

definition bp_get_table :: "neig_key \<Rightarrow> bpdata \<Rightarrow> bpdata \<times> (ip_addr \<rightharpoonup> host_info)" where
  "bp_get_table k d =
     (case bd_nfb d k of
        Some t \<Rightarrow> (d, t)
      | None \<Rightarrow> (d\<lparr>bd_nfb := (bd_nfb d)(k \<mapsto> Map.empty)\<rparr>, Map.empty))"

definition bp_get_info :: "neig_key \<Rightarrow> ip_addr \<Rightarrow> bpdata \<Rightarrow> host_info option" where
  "bp_get_info k f d = (case bd_nfb d k of None \<Rightarrow> None | Some t \<Rightarrow> t f)"

text \<open>The write handler, after its arguments are parsed. An unknown neighbour or flow is a null pointer.\<close>

definition bp_write_info :: "neig_key \<Rightarrow> ip_addr \<Rightarrow> u32 \<Rightarrow> u32 \<Rightarrow> bpdata \<Rightarrow> bpdata option" where
  "bp_write_info k f backlog distance d =
     (case bd_nfb d k of
        None \<Rightarrow> None
      | Some t \<Rightarrow> (case t f of
                   None \<Rightarrow> None
                 | Some i \<Rightarrow> Some (d\<lparr>bd_nfb := (bd_nfb d)(k \<mapsto> t(f \<mapsto> \<lparr>hi_backlog = backlog, hi_distance = distance, hi_static = True\<rparr>))\<rparr>)))"

section \<open>Probes\<close>

definition mem64 :: "endian \<Rightarrow> u64 \<Rightarrow> byte list" where
  "mem64 e w = (case e of BigEndian \<Rightarrow> be_bytes 8 (unat w) | LittleEndian \<Rightarrow> rev (be_bytes 8 (unat w)))"

definition mem_u64 :: "endian \<Rightarrow> byte list \<Rightarrow> u64" where
  "mem_u64 e bs = (case e of BigEndian \<Rightarrow> word_of_nat (be_val bs) | LittleEndian \<Rightarrow> word_of_nat (be_val (rev bs)))"

definition rd64 :: "endian \<Rightarrow> byte list \<Rightarrow> nat \<Rightarrow> u64 option" where
  "rd64 e b i = map_option (mem_u64 e) (rdn b i 8)"

record flow_batch =
  fb_f :: ip_addr
  fb_backlog :: u32
  fb_distance :: u32

record bpstat =
  st_et :: u16
  st_ip :: ip_addr
  st_eth :: ether_addr
  st_ip_layer :: bool
  st_enhanced :: bool

text \<open>A host that cannot be reached is infinitely far away. The batches are put in front of each other.\<close>

fun bp_batches ::
    "bool \<Rightarrow> (ip_addr \<Rightarrow> u32) \<Rightarrow> (ip_addr \<Rightarrow> u32) \<Rightarrow> ip_addr list \<Rightarrow> flow_batch list \<Rightarrow> flow_batch list" where
  "bp_batches enhanced backlog host_metric [] acc = acc"
| "bp_batches enhanced backlog host_metric (f # fs) acc =
     (let d0 = (if enhanced then host_metric f else 0);
          d = (if enhanced \<and> d0 = 0 then - 1 else d0)
      in bp_batches enhanced backlog host_metric fs (\<lparr>fb_f = f, fb_backlog = backlog f, fb_distance = d\<rparr> # acc))"

definition batch_bytes :: "endian \<Rightarrow> bool \<Rightarrow> flow_batch \<Rightarrow> byte list" where
  "batch_bytes en enhanced b =
     be32 (fb_f b) @ mem32 en (fb_backlog b) @ (if enhanced then mem32 en (fb_distance b) else [])"

definition send_probe ::
    "endian \<Rightarrow> bpstat \<Rightarrow> u64 \<Rightarrow> (ip_addr \<Rightarrow> u32) \<Rightarrow> (ip_addr \<Rightarrow> u32) \<Rightarrow> ip_addr list \<Rightarrow> byte list" where
  "send_probe en c metric backlog host_metric flows =
     (let bs = bp_batches (st_enhanced c) backlog host_metric flows []
      in replicate 6 0xff @ st_eth c @ be16 (st_et c) @ (if st_ip_layer c then be32 (st_ip c) else []) @ mem64 en metric @
         mem16 en (word_of_nat (length bs)) @ concat (map (batch_bytes en (st_enhanced c)) bs))"

fun probe_loop ::
    "endian \<Rightarrow> bool \<Rightarrow> byte list \<Rightarrow> nat \<Rightarrow> nat \<Rightarrow> (ip_addr \<rightharpoonup> host_info) \<Rightarrow> (ip_addr \<rightharpoonup> host_info) option" where
  "probe_loop en enhanced p 0 off t = Some t"
| "probe_loop en enhanced p (Suc n) off t =
     (if length p \<le> off then Some t
      else do {
        d \<leftarrow> rdn p off 4;
        backlog \<leftarrow> rd32 en p (off + 4);
        distance \<leftarrow> (if enhanced then rd32 en p (off + 8) else Some 0);
        let dst = u32_of d;
        let dist = (case t dst of Some i \<Rightarrow> if hi_static i then hi_distance i else distance | None \<Rightarrow> distance);
        probe_loop en enhanced p n (if enhanced then off + 12 else off + 8) (t(dst \<mapsto> \<lparr>hi_backlog = backlog, hi_distance = dist, hi_static = False\<rparr>))
      })"

definition receive_probe :: "endian \<Rightarrow> bpstat \<Rightarrow> byte list \<Rightarrow> bpdata \<Rightarrow> bpdata option" where
  "receive_probe en c p d =
     do {
       et \<leftarrow> rdn p 12 2;
       if u16_of et \<noteq> st_et c then Some d
       else do {
         k \<leftarrow> (if st_ip_layer c then map_option (\<lambda>b. IpKey (u32_of b)) (rdn p 14 4) else map_option EthKey (rdn p 6 6));
         let o1 = (if st_ip_layer c then 18 else 14);
         let (d1, t) = bp_get_table k d;
         m \<leftarrow> rd64 en p o1;
         n \<leftarrow> rd16 en p (o1 + 8);
         t1 \<leftarrow> probe_loop en (st_enhanced c) p (unat n) (o1 + 10) t;
         Some (d1\<lparr>bd_nm := (bd_nm d1)(k \<mapsto> m), bd_nfb := (bd_nfb d1)(k \<mapsto> t1)\<rparr>)
       }
     }"

section \<open>The queue of a flow\<close>

record qpacket =
  pk_ptr :: nat
  pk_data :: "byte list"
  pk_dst :: ip_addr

datatype mac_layer = LayWifiQoS | LayWifi | LayEther

record dataqueue =
  dq_q :: "qpacket list"
  dq_qi :: "qpacket list"
  dq_qp :: "qpacket list"
  dq_drops :: u32
  dq_highwater :: u32

definition dq_new :: dataqueue where
  "dq_new = \<lparr>dq_q = [], dq_qi = [], dq_qp = [], dq_drops = 0, dq_highwater = 0\<rparr>"

definition dq_size :: "bool \<Rightarrow> dataqueue \<Rightarrow> u32" where
  "dq_size video q = (if video then word_of_nat (length (dq_qi q)) + word_of_nat (length (dq_qp q)) + word_of_nat (length (dq_q q))
                      else word_of_nat (length (dq_q q)))"

text \<open>The front of an empty queue is a failed assertion.\<close>

definition dq_pop_front :: "bool \<Rightarrow> dataqueue \<Rightarrow> (qpacket \<times> dataqueue) option" where
  "dq_pop_front video q =
     (if video \<and> dq_qi q \<noteq> [] then Some (hd (dq_qi q), q\<lparr>dq_qi := tl (dq_qi q)\<rparr>)
      else if video \<and> dq_qp q \<noteq> [] then Some (hd (dq_qp q), q\<lparr>dq_qp := tl (dq_qp q)\<rparr>)
      else if dq_q q = [] then None
      else Some (hd (dq_q q), q\<lparr>dq_q := tl (dq_q q)\<rparr>))"

definition dq_front :: "bool \<Rightarrow> dataqueue \<Rightarrow> qpacket option" where
  "dq_front video q = map_option fst (dq_pop_front video q)"

text \<open>The other end of the priorities: data first, then frames that others depend on.\<close>

definition dq_drop_front :: "bool \<Rightarrow> dataqueue \<Rightarrow> dataqueue option" where
  "dq_drop_front video q =
     (let q1 = q\<lparr>dq_drops := dq_drops q + 1\<rparr>
      in if dq_q q \<noteq> [] then Some (q1\<lparr>dq_q := tl (dq_q q)\<rparr>)
         else if \<not> video then None
         else if dq_qp q \<noteq> [] then Some (q1\<lparr>dq_qp := tl (dq_qp q)\<rparr>)
         else if dq_qi q \<noteq> [] then Some (q1\<lparr>dq_qi := tl (dq_qi q)\<rparr>)
         else None)"

definition dq_back :: "dataqueue \<Rightarrow> qpacket option" where
  "dq_back q = (if dq_q q = [] then None else Some (last (dq_q q)))"

text \<open>
  With video, the type of the H.264 unit chooses the queue. The offset of the Ethernet type is added to a pointer
  to two-byte words. \<open>sr_data\<close> is the offset of the data behind the source routing header at the given offset.
\<close>

definition nal_type :: "endian \<Rightarrow> (byte list \<Rightarrow> nat \<Rightarrow> nat option) \<Rightarrow> mac_layer \<Rightarrow> byte list \<Rightarrow> byte option" where
  "nal_type en sr_data lay p =
     (let ethoff = (case lay of LayWifiQoS \<Rightarrow> 32 | LayWifi \<Rightarrow> 30 | LayEther \<Rightarrow> 12);
          maclen = (case lay of LayWifiQoS \<Rightarrow> 34 | LayWifi \<Rightarrow> 32 | LayEther \<Rightarrow> 14)
      in do {
        et \<leftarrow> rd16 en p (2 * ethoff);
        data \<leftarrow> (if et = 0x604 then sr_data p maclen else Some maclen);
        b \<leftarrow> rd8 p (data + 20 + 8 + 12);
        Some (b AND 0x1f)
      })"

definition dq_push_back ::
    "endian \<Rightarrow> (byte list \<Rightarrow> nat \<Rightarrow> nat option) \<Rightarrow> mac_layer \<Rightarrow> bool \<Rightarrow> qpacket \<Rightarrow> dataqueue \<Rightarrow> dataqueue option" where
  "dq_push_back en sr_data lay video p q =
     (if video
      then do {
        nal \<leftarrow> nal_type en sr_data lay (pk_data p);
        Some (if nal \<in> {5, 6, 7, 8} then q\<lparr>dq_qi := dq_qi q @ [p]\<rparr>
              else if nal = 1 then q\<lparr>dq_qp := dq_qp q @ [p]\<rparr>
              else q\<lparr>dq_q := dq_q q @ [p]\<rparr>)
      }
      else Some (q\<lparr>dq_q := dq_q q @ [p]\<rparr>))"

definition dq_remove_drops :: "u32 \<Rightarrow> dataqueue \<Rightarrow> dataqueue" where
  "dq_remove_drops n q = q\<lparr>dq_drops := (if n < dq_drops q then dq_drops q - n else 0)\<rparr>"

section \<open>The queues of a node\<close>

record bp_config =
  bc_ip :: ip_addr
  bc_capacity :: u32
  bc_video :: bool
  bc_layer :: mac_layer
  bc_enhanced :: bool
  bc_dmax :: u32
  bc_V :: u32
  bc_threshold :: u32
  bc_default_rate :: u32
  bc_rate_active :: bool

text \<open>Click's \<open>GapRate\<close>, and what \<open>srpacket\<close> does to a packet that is pulled.\<close>

record 'g bp_env =
  gr_need_update :: "'g \<Rightarrow> int \<Rightarrow> bool \<times> 'g"
  gr_update_with :: "'g \<Rightarrow> nat \<Rightarrow> 'g"
  gr_set_rate :: "'g \<Rightarrow> u32 \<Rightarrow> 'g"
  be_sr_data :: "byte list \<Rightarrow> nat \<Rightarrow> nat option"
  be_set_next :: "ip_addr \<Rightarrow> byte list \<Rightarrow> byte list option"

record 'g dataqueues =
  ds_fq :: "ip_addr \<rightharpoonup> dataqueue"
  ds_pull_q :: "ip_addr option"
  ds_pull_neig :: ip_addr
  ds_guard :: "nat option"
  ds_lock :: bool
  ds_metric :: u64
  ds_rates :: "ip_addr \<rightharpoonup> u32"
  ds_gap :: 'g

definition get_backlog :: "bp_config \<Rightarrow> 'g dataqueues \<Rightarrow> ip_addr \<Rightarrow> u32" where
  "get_backlog c s f = (case ds_fq s f of Some q \<Rightarrow> dq_size (bc_video c) q | None \<Rightarrow> 0)"

text \<open>\<^const>\<open>None\<close> is a division by zero: the sum of the capacity and one wraps.\<close>

definition bp_factors :: "bp_config \<Rightarrow> (u32 \<times> u32) option" where
  "bp_factors c =
     (let mb = bc_capacity c + 1; md = 999999
      in if \<not> bc_enhanced c then Some (1, 0)
         else if mb < md then if mb = 0 then None else Some (md div mb, 1)
         else if md < mb then Some (1, mb div md)
         else Some (1, 1))"

text \<open>
  The products and the sum are taken with 32 bits before they are stored in the 64 bits of \<open>temp\<close>, which is then
  tested for more than 32 bits.
\<close>

definition cut_temp :: "u64 \<Rightarrow> u32" where
  "cut_temp temp = (if drop_bit 32 temp \<noteq> 0 then - 1 else ucast temp)"

definition bp_metric_of :: "bp_config \<Rightarrow> u32 \<times> u32 \<Rightarrow> u32 \<Rightarrow> u32 \<Rightarrow> host_info \<Rightarrow> u32 \<Rightarrow> u32" where
  "bp_metric_of c fac my_backlog my_distance i ett =
     (if hi_backlog i + bc_threshold c < my_backlog \<and> hi_distance i < my_distance
      then let diff_backlog = cut_temp (ucast ((my_backlog - hi_backlog i) * fst fac));
               diff_distance = cut_temp (ucast ((my_distance - hi_distance i) * snd fac))
        in cut_temp (ucast ((diff_backlog + diff_distance) * (999999 div ett)))
      else 0)"

fun best_neighbor_loop ::
    "bp_config \<Rightarrow> u32 \<times> u32 \<Rightarrow> (ip_addr \<Rightarrow> u32) \<Rightarrow> (neig_key \<Rightarrow> host_info option) \<Rightarrow> u32 \<Rightarrow> u32 \<Rightarrow> ip_addr \<Rightarrow> ip_addr list \<Rightarrow> neig_key list
      \<Rightarrow> ip_addr \<times> u32 \<Rightarrow> (ip_addr \<times> u32) option" where
  "best_neighbor_loop c fac ett info my_backlog my_distance dst shortest [] best = Some best"
| "best_neighbor_loop c fac ett info my_backlog my_distance dst shortest (k # ks) best =
     (let neig = key_ip k in
      if ett neig = 0 then best_neighbor_loop c fac ett info my_backlog my_distance dst shortest ks best
      else do {
        m \<leftarrow> (case info k of
                Some i \<Rightarrow> Some (bp_metric_of c fac my_backlog my_distance i (ett neig))
              | None \<Rightarrow> if length shortest < 2 then None
                        else Some (if neig = shortest ! 1 then if neig = dst then - 1 else 1 else 0));
        best_neighbor_loop c fac ett info my_backlog my_distance dst shortest ks (if snd best < m then (neig, m) else best)
      })"

definition get_best_neighbor ::
    "bp_config \<Rightarrow> ('a, 'l, 'z) route_tables_scheme \<Rightarrow> 'l \<Rightarrow> bpdata \<Rightarrow> neig_key list \<Rightarrow> 'g dataqueues \<Rightarrow> ip_addr \<Rightarrow> (ip_addr \<times> u32) option" where
  "get_best_neighbor c T l d order s f =
     (let my_backlog = get_backlog c s f;
          shortest = lt_best_route T l f True;
          my_distance = word_of_int (lt_route_metric T l shortest)
      in if my_backlog = 0 \<or> my_distance = 0 \<or> \<not> lt_valid_route T l shortest then Some (0, 0)
         else do {
           fac \<leftarrow> bp_factors c;
           best_neighbor_loop c fac (lt_metric T l (bc_ip c)) (\<lambda>k. bp_get_info k f d) my_backlog my_distance f shortest order (0, 0)
         })"

text \<open>A tie is broken by \<open>rand\<close>, the argument \<open>coin\<close>.\<close>

fun next_pull_loop ::
    "bp_config \<Rightarrow> ('a, 'l, 'z) route_tables_scheme \<Rightarrow> 'l \<Rightarrow> bpdata \<Rightarrow> neig_key list \<Rightarrow> 'g dataqueues \<Rightarrow> (ip_addr \<Rightarrow> bool) \<Rightarrow> ip_addr list
      \<Rightarrow> ip_addr option \<times> ip_addr \<times> u32 \<Rightarrow> (ip_addr option \<times> ip_addr \<times> u32) option" where
  "next_pull_loop c T l d order s coin [] best = Some best"
| "next_pull_loop c T l d order s coin (f # fs) (q, n, m) =
     do {
       (neig, metric) \<leftarrow> get_best_neighbor c T l d order s f;
       next_pull_loop c T l d order s coin fs
         (if m < metric \<or> (metric \<noteq> 0 \<and> metric = m \<and> coin f) then (Some f, neig, metric) else (q, n, m))
     }"

text \<open>\<open>n\<close> packets are taken from the front of a queue. The iteration is over the flows of the table.\<close>

fun drop_loop :: "bool \<Rightarrow> nat \<Rightarrow> dataqueue \<Rightarrow> (dataqueue \<times> qpacket list) option" where
  "drop_loop video 0 q = Some (q, [])"
| "drop_loop video (Suc n) q = do { (p, q1) \<leftarrow> dq_pop_front video q; (q2, ps) \<leftarrow> drop_loop video n q1; Some (q2, p # ps) }"

definition period_drops :: "bp_config \<Rightarrow> dataqueue \<Rightarrow> (dataqueue \<times> qpacket list) option" where
  "period_drops c q =
     (let size = dq_size (bc_video c) q; drops = dq_drops q;
          added = (if drops < size then if size < bc_dmax c then size else bc_dmax c else 0)
      in do {
        (q1, ps) \<leftarrow> drop_loop (bc_video c) (unat added) (q\<lparr>dq_drops := drops + added\<rparr>);
        let removed = (if bc_V c < drops then if drops < bc_dmax c then drops else bc_dmax c else 0);
        Some (dq_remove_drops removed q1, ps)
      })"

fun period_loop :: "bp_config \<Rightarrow> ip_addr list \<Rightarrow> (ip_addr \<rightharpoonup> dataqueue) \<Rightarrow> ((ip_addr \<rightharpoonup> dataqueue) \<times> (ip_addr \<times> qpacket) list) option" where
  "period_loop c [] fq = Some (fq, [])"
| "period_loop c (f # fs) fq =
     (case fq f of
        None \<Rightarrow> period_loop c fs fq
      | Some q \<Rightarrow> do {
          (q1, ps) \<leftarrow> period_drops c q;
          (fq1, rest) \<leftarrow> period_loop c fs (fq(f \<mapsto> q1));
          Some (fq1, map (Pair f) ps @ rest)
        })"

text \<open>The state after the period, and the packets that were dropped with their flows.\<close>

definition do_periodically ::
    "bp_config \<Rightarrow> ('a, 'l, 'z) route_tables_scheme \<Rightarrow> 'l \<Rightarrow> bpdata \<Rightarrow> neig_key list \<Rightarrow> ip_addr list \<Rightarrow> (ip_addr \<Rightarrow> bool) \<Rightarrow> 'g dataqueues
      \<Rightarrow> ('g dataqueues \<times> (ip_addr \<times> qpacket) list) option" where
  "do_periodically c T l d order flows coin s =
     do {
       (q, neig, m) \<leftarrow> next_pull_loop c T l d order s coin flows (None, 0, 0);
       (fq, dropped) \<leftarrow> period_loop c flows (ds_fq s);
       guard \<leftarrow> (case q of
                   None \<Rightarrow> Some None
                 | Some f \<Rightarrow> do { dq \<leftarrow> fq f;
                               if dq_size (bc_video c) dq = 0 then Some None
                               else do { p \<leftarrow> dq_back dq; Some (Some (pk_ptr p)) } });
       Some (s\<lparr>ds_fq := fq, ds_metric := ucast m, ds_guard := guard, ds_lock := (guard = None), ds_pull_q := q, ds_pull_neig := neig\<rparr>, dropped)
     }"

definition bp_run_timer ::
    "'g bp_env \<Rightarrow> bp_config \<Rightarrow> ('a, 'l, 'z) route_tables_scheme \<Rightarrow> 'l \<Rightarrow> bpdata \<Rightarrow> neig_key list \<Rightarrow> ip_addr list \<Rightarrow> (ip_addr \<Rightarrow> bool) \<Rightarrow> 'g dataqueues
      \<Rightarrow> ('g dataqueues \<times> (ip_addr \<times> qpacket) list) option" where
  "bp_run_timer E c T l d order flows coin s =
     do {
       (s1, dropped) \<leftarrow> do_periodically c T l d order flows coin s;
       Some (case ds_pull_q s1 of
               Some f \<Rightarrow> if bc_rate_active c
                         then s1\<lparr>ds_gap := gr_set_rate E (ds_gap s1) (case ds_rates s1 f of Some r \<Rightarrow> r | None \<Rightarrow> bc_default_rate c)\<rparr>
                         else s1
             | None \<Rightarrow> s1, dropped)
     }"

datatype bp_pushed = Queued | QueueFull | PassedOn nat

definition bp_push ::
    "endian \<Rightarrow> 'g bp_env \<Rightarrow> bp_config \<Rightarrow> nat \<Rightarrow> qpacket \<Rightarrow> 'g dataqueues \<Rightarrow> ('g dataqueues \<times> bp_pushed) option" where
  "bp_push en E c port p s =
     (if port = 0
      then if pk_dst p = 0 then None
           else let q = (case ds_fq s (pk_dst p) of Some q \<Rightarrow> q | None \<Rightarrow> dq_new); size = dq_size (bc_video c) q
           in if size \<noteq> bc_capacity c
              then do {
                q1 \<leftarrow> dq_push_back en (be_sr_data E) (bc_layer c) (bc_video c) p q;
                let q2 = (if dq_highwater q1 < size + 1 then q1\<lparr>dq_highwater := size + 1\<rparr> else q1);
                Some (s\<lparr>ds_fq := (ds_fq s)(pk_dst p \<mapsto> q2)\<rparr>, Queued)
              }
              else Some (s\<lparr>ds_fq := (ds_fq s)(pk_dst p \<mapsto> q\<lparr>dq_drops := dq_drops q + 1\<rparr>)\<rparr>, QueueFull)
      else Some (s, PassedOn port))"

text \<open>The packet that leaves, with the bytes it leaves with.\<close>

definition bp_pull ::
    "'g bp_env \<Rightarrow> bp_config \<Rightarrow> ('a, 'l, 'z) route_tables_scheme \<Rightarrow> 'a \<Rightarrow> int \<Rightarrow> 'g dataqueues \<Rightarrow> ('g dataqueues \<times> (qpacket \<times> byte list) option) option" where
  "bp_pull E c T arp now s =
     (case ds_pull_q s of
        None \<Rightarrow> Some (s, None)
      | Some f \<Rightarrow> do {
          q \<leftarrow> ds_fq s f;
          if dq_size (bc_video c) q = 0 \<or> ds_pull_neig s = 0 \<or> ds_lock s then Some (s, None)
          else let (ok, g) = (if bc_rate_active c then gr_need_update E (ds_gap s) now else (True, ds_gap s)); s1 = s\<lparr>ds_gap := g\<rparr>
          in if \<not> ok then Some (s1, None)
             else do {
               (p, q1) \<leftarrow> dq_pop_front (bc_video c) q;
               let s2 = s1\<lparr>ds_fq := (ds_fq s1)(f \<mapsto> q1),
                           ds_gap := (if bc_rate_active c then gr_update_with E g (length (pk_data p)) else g),
                           ds_lock := (ds_lock s1 \<or> ds_guard s1 = Some (pk_ptr p))\<rparr>;
               b1 \<leftarrow> be_set_next E (ds_pull_neig s) (pk_data p);
               b2 \<leftarrow> wr 0 (arp_lookup T arp (ds_pull_neig s)) b1;
               Some (s2, Some (p, b2))
             }
        })"

definition bp_add_queue :: "ip_addr \<Rightarrow> 'g dataqueues \<Rightarrow> 'g dataqueues" where
  "bp_add_queue f s = (if ds_fq s f = None then s\<lparr>ds_fq := (ds_fq s)(f \<mapsto> dq_new)\<rparr> else s)"

section \<open>A probe and its reception\<close>

lemma bp_batches_rev:
  "bp_batches e bl hm fs acc =
     rev (map (\<lambda>f. \<lparr>fb_f = f, fb_backlog = bl f, fb_distance = (if e then if hm f = 0 then - 1 else hm f else 0)\<rparr>) fs) @ acc"
  by (induction fs arbitrary: acc) (auto simp: Let_def)

lemma mem_u64_mem64 [simp]: "mem_u64 en (mem64 en w) = w"
proof -
  have "unat w < 256 ^ 8" using unsigned_less[of w, where ?'a = nat] by simp
  then show ?thesis by (simp add: mem_u64_def mem64_def be_val_be_bytes split: endian.splits)
qed

lemma length_mem64 [simp]: "length (mem64 en w) = 8"
  by (simp add: mem64_def split: endian.splits)

definition batch_update :: "(ip_addr \<rightharpoonup> host_info) \<Rightarrow> flow_batch \<Rightarrow> (ip_addr \<rightharpoonup> host_info)" where
  "batch_update t b = t(fb_f b \<mapsto> \<lparr>hi_backlog = fb_backlog b,
     hi_distance = (case t (fb_f b) of Some i \<Rightarrow> if hi_static i then hi_distance i else fb_distance b | None \<Rightarrow> fb_distance b), hi_static = False\<rparr>)"

lemma probe_loop_ok:
  assumes "\<forall>b\<in>set bs. enhanced \<or> fb_distance b = 0" "drop off p = concat (map (batch_bytes en enhanced) bs)" "off \<le> length p"
  shows "probe_loop en enhanced p (length bs) off t = Some (foldl batch_update t bs)"
  using assms
proof (induction bs arbitrary: off t)
  case (Cons b bs)
  define w where "w = (if enhanced then 12 else 8 :: nat)"
  have lb: "length (batch_bytes en enhanced b) = w" by (simp add: batch_bytes_def w_def)
  have d: "drop off p = batch_bytes en enhanced b @ concat (map (batch_bytes en enhanced) bs)" using Cons.prems(2) by simp
  have len: "length p = off + w + length (concat (map (batch_bytes en enhanced) bs))"
    using arg_cong[OF d, of length] lb Cons.prems(3) by simp
  have p: "p = take off p @ batch_bytes en enhanced b @ concat (map (batch_bytes en enhanced) bs)" using d by (metis append_take_drop_id)
  have lo: "length (take off p) = off" using Cons.prems(3) by simp
  have r: "rdn p (off + k) m = rdn (batch_bytes en enhanced b) k m" if "k + m \<le> w" for k m
    using rdn_mid[of "take off p" "off + k" m "batch_bytes en enhanced b"] lo lb that p by (metis add_diff_cancel_left' add_le_mono1 le_add1 nat_add_left_cancel_le add.assoc)
  have r0: "rdn p off 4 = Some (be32 (fb_f b))" "rd32 en p (off + 4) = Some (fb_backlog b)"
    using r[of 0 4] r[of 4 4] by (simp_all add: w_def batch_bytes_def rdn_def rd32_def)
  have r8: "rd32 en p (off + 8) = Some (fb_distance b)" if enhanced
    using r[of 8 4] that by (simp add: w_def batch_bytes_def rdn_def rd32_def)
  have dist: "(if enhanced then rd32 en p (off + 8) else Some 0) = Some (fb_distance b)"
    using r8 Cons.prems(1) by auto
  have nx: "(if enhanced then off + 12 else off + 8) = off + w" by (simp add: w_def)
  have "drop (off + w) p = concat (map (batch_bytes en enhanced) bs)" using arg_cong[OF d, of "drop w"] lb by (simp add: add.commute)
  then have ih: "probe_loop en enhanced p (length bs) (off + w) (batch_update t b) = Some (foldl batch_update (batch_update t b) bs)"
    using Cons.IH[of "off + w" "batch_update t b"] Cons.prems(1) len by simp
  have "\<not> length p \<le> off" using len by (simp add: w_def split: if_splits)
  then have "probe_loop en enhanced p (Suc (length bs)) off t = probe_loop en enhanced p (length bs) (off + w) (batch_update t b)"
    unfolding probe_loop.simps r0 dist nx Let_def bind.simps u32_of_be32 batch_update_def by simp
  then show ?case using ih by simp
qed simp

lemma foldl_batch_update:
  "distinct (map fb_f bs) \<Longrightarrow> foldl batch_update t bs f =
    (case find (\<lambda>b. fb_f b = f) bs of None \<Rightarrow> t f | Some b \<Rightarrow> batch_update t b f)"
proof (induction bs arbitrary: t)
  case (Cons b bs)
  show ?case
  proof (cases "fb_f b = f")
    case True
    have "fb_f x \<noteq> f" if "x \<in> set bs" for x using Cons.prems True imageI[OF that, of fb_f] by force
    then have "find (\<lambda>b. fb_f b = f) bs = None" by (simp add: find_None_iff)
    then show ?thesis using Cons True by simp
  next
    case False
    then have "batch_update t b f = t f" by (simp add: batch_update_def)
    moreover have "batch_update (batch_update t b) b' f = batch_update t b' f" if "fb_f b' = f" for b'
      using that False by (simp add: batch_update_def)
    ultimately show ?thesis using Cons False by (auto split: option.splits dest!: find_Some_iff[THEN iffD1])
  qed
qed simp

definition probe_key :: "bpstat \<Rightarrow> neig_key" where
  "probe_key c = (if st_ip_layer c then IpKey (st_ip c) else EthKey (st_eth c))"

definition sent_distance :: "bpstat \<Rightarrow> (ip_addr \<Rightarrow> u32) \<Rightarrow> ip_addr \<Rightarrow> u32" where
  "sent_distance c hm f = (if st_enhanced c then if hm f = 0 then - 1 else hm f else 0)"

text \<open>
  Property C23: neighbours learn the state of a node. When a node sends a probe with its fewer than 65536 flows and a
  neighbour with the same configuration receives it, the neighbour holds, for every flow of the node, exactly the
  backlog and the distance that were sent, the largest distance standing for a flow without route; flows that
  were not in the probe and other neighbours keep what they had. An entry whose distance was set by hand keeps that
  distance, but loses the mark, so that the next probe replaces it.
\<close>

theorem probe_updates_neighbor:
  assumes "st_et b = st_et a" "st_ip_layer b = st_ip_layer a" "st_enhanced b = st_enhanced a"
    and "length (st_eth a) = 6" "distinct flows" "length flows < 65536"
  shows "\<exists>d'. receive_probe en b (send_probe en a m backlog hm flows) d = Some d' \<and> bd_nm d' = (bd_nm d)(probe_key a \<mapsto> m) \<and>
    (\<forall>k f. bp_get_info k f d' =
       (if k = probe_key a \<and> f \<in> set flows
        then Some \<lparr>hi_backlog = backlog f,
               hi_distance = (case bp_get_info k f d of
                 Some i \<Rightarrow> if hi_static i then hi_distance i else sent_distance a hm f
               | None \<Rightarrow> sent_distance a hm f), hi_static = False\<rparr>
        else bp_get_info k f d))"
proof -
  define dist where "dist f = sent_distance a hm f" for f
  define bs where "bs = bp_batches (st_enhanced a) backlog hm flows []"
  define o1 where "o1 = (if st_ip_layer a then 18 else 14 :: nat)"
  define p where "p = send_probe en a m backlog hm flows"
  have bs: "bs = rev (map (\<lambda>f. \<lparr>fb_f = f, fb_backlog = backlog f, fb_distance = dist f\<rparr>) flows)" by (simp add: bs_def bp_batches_rev dist_def sent_distance_def)
  then have lb: "length bs = length flows" by simp
  define pre where "pre = replicate 6 0xff @ st_eth a @ be16 (st_et a) @ (if st_ip_layer a then be32 (st_ip a) else [])"
  define rest where "rest = concat (map (batch_bytes en (st_enhanced a)) bs)"
  have p: "p = pre @ mem64 en m @ mem16 en (word_of_nat (length bs)) @ rest"
    by (simp add: p_def send_probe_def pre_def rest_def Let_def flip: bs_def)
  have lp: "length pre = o1" using assms(4) by (simp add: pre_def o1_def)
  have et: "rdn p 12 2 = Some (be16 (st_et a))" using assms(4) by (simp add: p pre_def rdn_def)
  have key: "(if st_ip_layer b then map_option (\<lambda>b. IpKey (u32_of b)) (rdn p 14 4) else map_option EthKey (rdn p 6 6)) = Some (probe_key a)"
    using assms(2,4) by (simp add: p pre_def rdn_def probe_key_def)
  have o1b: "(if st_ip_layer b then 18 else 14) = o1" using assms(2) by (simp add: o1_def)
  have m: "rd64 en p o1 = Some m" using lp rdn_mid[of pre o1 8 "mem64 en m" "mem16 en (word_of_nat (length bs)) @ rest"]
    by (simp add: p rd64_def rdn_def)
  have n: "rd16 en p (o1 + 8) = Some (word_of_nat (length bs))"
    using lp rdn_mid[of "pre @ mem64 en m" "o1 + 8" 2 "mem16 en (word_of_nat (length bs))" rest] by (simp add: p rd16_def rdn_def)
  have un: "unat (word_of_nat (length bs) :: u16) = length bs" using lb assms(6) by (simp add: unat_of_nat)
  have dp: "drop (o1 + 10) p = concat (map (batch_bytes en (st_enhanced b)) bs)" "o1 + 10 \<le> length p"
    using lp assms(3) by (simp_all add: p rest_def)
  obtain d1 t where t: "bp_get_table (probe_key a) d = (d1, t)" by fastforce
  have te: "bd_nm d1 = bd_nm d" "\<And>k f. bp_get_info k f d1 = bp_get_info k f d" "\<And>f. t f = bp_get_info (probe_key a) f d"
    using t by (auto simp: bp_get_table_def bp_get_info_def split: option.splits if_splits)
  define t1 where "t1 = foldl batch_update t bs"
  define d' where "d' = d1\<lparr>bd_nm := (bd_nm d1)(probe_key a \<mapsto> m), bd_nfb := (bd_nfb d1)(probe_key a \<mapsto> t1)\<rparr>"
  have "\<forall>x\<in>set bs. st_enhanced b \<or> fb_distance x = 0" using assms(3) by (auto simp: bs dist_def sent_distance_def)
  from probe_loop_ok[OF this dp] have "receive_probe en b p d = Some d'"
    unfolding receive_probe_def et key by (simp add: assms(1) o1b t m n un t1_def d'_def)
  moreover have "bd_nm d' = (bd_nm d)(probe_key a \<mapsto> m)" by (simp add: d'_def te)
  moreover have "t1 f = (if f \<in> set flows then Some \<lparr>hi_backlog = backlog f,
      hi_distance = (case t f of Some i \<Rightarrow> if hi_static i then hi_distance i else dist f | None \<Rightarrow> dist f), hi_static = False\<rparr> else t f)" for f
  proof -
    have dd: "distinct (map fb_f bs)" using assms(5) by (simp add: bs rev_map comp_def)
    show ?thesis
    proof (cases "f \<in> set flows")
      case True
      then have "find (\<lambda>b. fb_f b = f) bs \<noteq> None" by (auto simp: find_None_iff bs)
      then obtain x where x: "find (\<lambda>b. fb_f b = f) bs = Some x" by blast
      then have "x \<in> set bs" "fb_f x = f" by (auto simp: find_Some_iff in_set_conv_nth)
      then have "x = \<lparr>fb_f = f, fb_backlog = backlog f, fb_distance = dist f\<rparr>" by (auto simp: bs)
      then show ?thesis using foldl_batch_update[OF dd, of t f] x True by (simp add: t1_def batch_update_def split: option.splits)
    next
      case False
      then have "find (\<lambda>b. fb_f b = f) bs = None" by (auto simp: find_None_iff bs)
      then show ?thesis using foldl_batch_update[OF dd, of t f] False by (simp add: t1_def)
    qed
  qed
  then have "bp_get_info k f d' = (if k = probe_key a \<and> f \<in> set flows then Some \<lparr>hi_backlog = backlog f,
      hi_distance = (case bp_get_info k f d of Some i \<Rightarrow> if hi_static i then hi_distance i else dist f | None \<Rightarrow> dist f), hi_static = False\<rparr>
    else bp_get_info k f d)" for k f
    using te(2)[of k f] te(3)[of f] by (simp add: d'_def bp_get_info_def)
  ultimately show ?thesis unfolding p_def dist_def by auto
qed

definition demo_stat :: "ip_addr \<Rightarrow> bpstat" where
  "demo_stat a = \<lparr>st_et = 0x0641, st_ip = a, st_eth = replicate 6 (ucast a), st_ip_layer = True, st_enhanced = True\<rparr>"

theorem probe_updates_neighbor_witness:
  "\<exists>d'. receive_probe LittleEndian (demo_stat 2) (send_probe LittleEndian (demo_stat 1) 5 (\<lambda>f. 7) (\<lambda>f. 0) [9]) \<lparr>bd_nfb = Map.empty, bd_nm = Map.empty\<rparr> = Some d' \<and>
    bp_get_info (IpKey 1) 9 d' = Some \<lparr>hi_backlog = 7, hi_distance = - 1, hi_static = False\<rparr> \<and> bp_get_info (IpKey 1) 8 d' = None"
  using probe_updates_neighbor[of "demo_stat 2" "demo_stat 1" "[9]" LittleEndian 5 "\<lambda>f. 7" "\<lambda>f. 0" "\<lparr>bd_nfb = Map.empty, bd_nm = Map.empty\<rparr>"]
  by (auto simp: demo_stat_def probe_key_def bp_get_info_def sent_distance_def)

section \<open>The best neighbour\<close>

text \<open>What the loop takes a neighbour to be worth.\<close>

definition neig_metric ::
    "bp_config \<Rightarrow> u32 \<times> u32 \<Rightarrow> (ip_addr \<Rightarrow> u32) \<Rightarrow> (neig_key \<Rightarrow> host_info option) \<Rightarrow> u32 \<Rightarrow> u32 \<Rightarrow> ip_addr \<Rightarrow> ip_addr list \<Rightarrow> neig_key \<Rightarrow> u32" where
  "neig_metric c fac ett info my_backlog my_distance dst shortest k =
     (if ett (key_ip k) = 0 then 0
      else case info k of
             Some i \<Rightarrow> bp_metric_of c fac my_backlog my_distance i (ett (key_ip k))
           | None \<Rightarrow> if key_ip k = shortest ! 1 then if key_ip k = dst then - 1 else 1 else 0)"

lemma best_neighbor_loop_ok:
  assumes "2 \<le> length shortest" and M_def: "M = neig_metric c fac ett info bl ds dst shortest"
  shows "\<exists>n m. best_neighbor_loop c fac ett info bl ds dst shortest ks best = Some (n, m) \<and> snd best \<le> m \<and> (\<forall>k\<in>set ks. M k \<le> m) \<and>
    ((n, m) = best \<or> (\<exists>k\<in>set ks. key_ip k = n \<and> M k = m \<and> m \<noteq> 0))"
proof (induction ks arbitrary: best)
  case Nil
  then show ?case by (cases best) simp
next
  case (Cons k ks)
  define best1 where "best1 = (if snd best < M k then (key_ip k, M k) else best)"
  have step: "best_neighbor_loop c fac ett info bl ds dst shortest (k # ks) best = best_neighbor_loop c fac ett info bl ds dst shortest ks best1"
    using assms(1) by (auto simp: best1_def M_def neig_metric_def Let_def split: option.splits)
  obtain n m where i: "best_neighbor_loop c fac ett info bl ds dst shortest ks best1 = Some (n, m)" "snd best1 \<le> m" "\<forall>k\<in>set ks. M k \<le> m"
    "(n, m) = best1 \<or> (\<exists>k\<in>set ks. key_ip k = n \<and> M k = m \<and> m \<noteq> 0)" using Cons.IH[of best1] by blast
  have b: "snd best \<le> snd best1" "M k \<le> snd best1" by (auto simp: best1_def)
  have "best1 = best \<or> best1 = (key_ip k, M k) \<and> M k \<noteq> 0" by (auto simp: best1_def)
  then have "(n, m) = best \<or> (\<exists>k\<in>set (k # ks). key_ip k = n \<and> M k = m \<and> m \<noteq> 0)" using i(4) by auto
  moreover have "snd best \<le> m" "\<forall>k\<in>set (k # ks). M k \<le> m" using b i(2,3) by auto
  ultimately show ?case using step i(1) by (intro exI[of _ n] exI[of _ m] conjI) simp_all
qed

text \<open>
  Property C17: packets move downhill, to the best neighbour. When the capacity is not the largest number and the
  shortest route, if valid, has at least two nodes, \<open>get_best_neighbor\<close> returns. A flow without packets, or without a valid
  route of positive length, gets no neighbour and the metric 0. Otherwise no neighbour is worth more than the metric, with the
  weights that \<open>bp_factors\<close> derives from the configuration, and the metric is either 0, with no neighbour, or the worth of the
  returned one. That neighbour can be reached, and its backlog is smaller by more than the threshold and its distance smaller
  than the node's own, or nothing is known of it and it is next on the shortest route. The sum with the threshold wraps at 32
  bits.
\<close>

theorem best_neighbor_downhill:
  assumes "bc_capacity c + 1 \<noteq> 0" "shortest = lt_best_route T l f True" "lt_valid_route T l shortest \<Longrightarrow> 2 \<le> length shortest"
    and "W = (\<lambda>fac. neig_metric c fac (lt_metric T l (bc_ip c)) (\<lambda>k. bp_get_info k f d) (get_backlog c s f)
               (word_of_int (lt_route_metric T l shortest)) f shortest)"
  shows "\<exists>n m fac. get_best_neighbor c T l d order s f = Some (n, m) \<and> bp_factors c = Some fac \<and>
    (if get_backlog c s f = 0 \<or> word_of_int (lt_route_metric T l shortest) = (0 :: u32) \<or> \<not> lt_valid_route T l shortest then n = 0 \<and> m = 0
     else (\<forall>k\<in>set order. W fac k \<le> m) \<and>
       (n = 0 \<and> m = 0 \<or>
        (\<exists>k\<in>set order. key_ip k = n \<and> W fac k = m \<and> m \<noteq> 0 \<and> lt_metric T l (bc_ip c) n \<noteq> 0 \<and>
           (case bp_get_info k f d of
              Some i \<Rightarrow> hi_backlog i + bc_threshold c < get_backlog c s f \<and> hi_distance i < word_of_int (lt_route_metric T l shortest)
            | None \<Rightarrow> n = shortest ! 1))))"
proof -
  have "bp_factors c \<noteq> None" using assms(1) unfolding bp_factors_def Let_def by (simp split: if_split)
  then obtain fac where fac: "bp_factors c = Some fac" by blast
  show ?thesis
  proof (cases "get_backlog c s f = 0 \<or> word_of_int (lt_route_metric T l shortest) = (0 :: u32) \<or> \<not> lt_valid_route T l shortest")
    case True
    then show ?thesis using assms(2) fac by (auto simp: get_best_neighbor_def Let_def)
  next
    case False
    obtain n m where r: "best_neighbor_loop c fac (lt_metric T l (bc_ip c)) (\<lambda>k. bp_get_info k f d) (get_backlog c s f)
        (word_of_int (lt_route_metric T l shortest)) f shortest order (0, 0) = Some (n, m)"
      "\<forall>k\<in>set order. W fac k \<le> m" "(n, m) = (0, 0) \<or> (\<exists>k\<in>set order. key_ip k = n \<and> W fac k = m \<and> m \<noteq> 0)"
      using best_neighbor_loop_ok[OF assms(3), of "W fac" c fac] False assms(4) by blast
    have g: "get_best_neighbor c T l d order s f = Some (n, m)" using False fac r(1) assms(2) by (simp add: get_best_neighbor_def Let_def)
    have "lt_metric T l (bc_ip c) (key_ip k) \<noteq> 0 \<and>
         (case bp_get_info k f d of
            Some i \<Rightarrow> hi_backlog i + bc_threshold c < get_backlog c s f \<and> hi_distance i < word_of_int (lt_route_metric T l shortest)
          | None \<Rightarrow> key_ip k = shortest ! 1)" if "W fac k \<noteq> 0" for k
      using that by (auto simp: assms(4) neig_metric_def bp_metric_of_def split: if_splits option.splits)
    then have "n = 0 \<and> m = 0 \<or> (\<exists>k\<in>set order. key_ip k = n \<and> W fac k = m \<and> m \<noteq> 0 \<and> lt_metric T l (bc_ip c) n \<noteq> 0 \<and>
           (case bp_get_info k f d of
              Some i \<Rightarrow> hi_backlog i + bc_threshold c < get_backlog c s f \<and> hi_distance i < word_of_int (lt_route_metric T l shortest)
            | None \<Rightarrow> n = shortest ! 1))" using r(3) by blast
    then show ?thesis using g fac r(2) False by (intro exI[of _ n] exI[of _ m] exI[of _ fac]) simp
  qed
qed

definition demo_bp :: "bool \<Rightarrow> bp_config" where
  "demo_bp rate = \<lparr>bc_ip = 1, bc_capacity = 3, bc_video = False, bc_layer = LayEther, bc_enhanced = True, bc_dmax = 1, bc_V = 3,
     bc_threshold = 0, bc_default_rate = 100, bc_rate_active = rate\<rparr>"

definition demo_packet :: "nat \<Rightarrow> qpacket" where
  "demo_packet n = \<lparr>pk_ptr = n, pk_data = replicate 20 (of_nat n), pk_dst = 9\<rparr>"

definition demo_queues   :: "qpacket list \<Rightarrow> unit dataqueues" where
  "demo_queues ps = \<lparr>ds_fq = [9 \<mapsto> dq_new\<lparr>dq_q := ps\<rparr>], ds_pull_q = None, ds_pull_neig = 0, ds_guard = None,
     ds_lock = False, ds_metric = - 1, ds_rates = Map.empty, ds_gap = ()\<rparr>"

definition bp_tables :: "(unit, unit) route_tables" where
  "bp_tables = \<lparr>arp_lookup = (\<lambda>_ a. replicate 6 (ucast a)), arp_insert = (\<lambda>_ _ _. ()), lt_update = (\<lambda>_ _ _ _ _ _. ((), True)),
     lt_metric = (\<lambda>_ _ b. if b = 2 then 100 else 0), lt_seq = (\<lambda>_ _ _. 1), lt_age = (\<lambda>_ _ _. 0), lt_dijkstra = (\<lambda>_ _. ()),
     lt_best_route = (\<lambda>_ f _. [1, 2, f]), lt_valid_route = (\<lambda>_ _. True), lt_route_metric = (\<lambda>_ _. 200)\<rparr>"

theorem best_neighbor_downhill_witness:
  "\<exists>m. get_best_neighbor (demo_bp False) bp_tables () \<lparr>bd_nfb = [IpKey 2 \<mapsto> [9 \<mapsto> \<lparr>hi_backlog = 0, hi_distance = 100, hi_static = False\<rparr>]], bd_nm = Map.empty\<rparr>
      [IpKey 2] (demo_queues [demo_packet 0, demo_packet 1]) 9 = Some (2, m) \<and> 0 < m"
proof -
  let ?d = "\<lparr>bd_nfb = [IpKey 2 \<mapsto> [9 \<mapsto> \<lparr>hi_backlog = 0, hi_distance = 100, hi_static = False\<rparr>]], bd_nm = Map.empty\<rparr>"
  have f: "bp_factors (demo_bp False) = Some (249999, 1)" by (simp add: bp_factors_def demo_bp_def)
  have g: "get_backlog (demo_bp False) (demo_queues [demo_packet 0, demo_packet 1]) 9 = 2"
    by (simp add: get_backlog_def demo_bp_def demo_queues_def dq_new_def dq_size_def)
  have w: "neig_metric (demo_bp False) (249999, 1) (lt_metric bp_tables () 1) (\<lambda>k. bp_get_info k 9 ?d) 2 200 9 [1, 2, 9] (IpKey 2) \<noteq> 0"
    by (simp add: neig_metric_def bp_tables_def bp_get_info_def bp_metric_of_def demo_bp_def cut_temp_def)
  show ?thesis
    using best_neighbor_downhill[of "demo_bp False" "[1, 2, 9]" bp_tables "()" 9 _ ?d "demo_queues [demo_packet 0, demo_packet 1]" "[IpKey 2]"] f g w
    by (auto simp: demo_bp_def bp_tables_def word_gt_0)
qed

lemma cut_temp_ucast [simp]: "cut_temp (ucast (w :: u32)) = w"
proof -
  have "drop_bit 32 (ucast w :: u64) = 0"
    by (rule bit_word_eqI) (auto simp: bit_simps dest: bit_imp_le_length)
  moreover have "ucast (ucast w :: u64) = w" by (rule bit_word_eqI) (auto simp: bit_simps)
  ultimately show ?thesis by (simp add: cut_temp_def)
qed

text \<open>
  Property C40: the metric wraps. For a neighbour that is downhill, the metric is the sum of the weighted
  differences of backlog and distance times the quality of the link, taken modulo \<open>2 ^ 32\<close>: the tests for an overflow are made on values already
  cut to 32 bits and never limit it, so a large metric becomes a small one.
\<close>

theorem bp_metric_wraps:
  assumes "unat (hi_backlog i) + unat (bc_threshold c) < unat bl" "hi_distance i < ds"
  shows "unat (bp_metric_of c fac bl ds i ett) =
    ((unat bl - unat (hi_backlog i)) * unat (fst fac) + (unat ds - unat (hi_distance i)) * unat (snd fac)) * (999999 div unat ett) mod 2 ^ 32"
proof -
  define exact where "exact = ((unat bl - unat (hi_backlog i)) * unat (fst fac) + (unat ds - unat (hi_distance i)) * unat (snd fac)) * (999999 div unat ett)"
  have wle: "unat (hi_backlog i) \<le> unat bl" "unat (hi_distance i) \<le> unat ds" using assms(1,2) by (simp_all add: word_less_nat_alt)
  have "unat (hi_backlog i) + unat (bc_threshold c) < 2 ^ 32" using assms(1) unsigned_less[of bl, where ?'a = nat] by simp
  then have down: "hi_backlog i + bc_threshold c < bl" using assms(1) by (simp add: word_less_nat_alt unat_word_ariths)
  have "999999 div ett = word_of_nat (999999 div unat ett)"
    by (rule word_unat_eq_iff[THEN iffD2]) (simp add: unat_div unat_of_nat le_less_trans[OF div_le_dividend])
  then have "bp_metric_of c fac bl ds i ett = word_of_nat exact"
    using wle down assms(2) by (simp add: bp_metric_of_def exact_def of_nat_diff)
  then have "unat (bp_metric_of c fac bl ds i ett) = exact mod 2 ^ 32" by (simp add: unat_of_nat)
  then show ?thesis by (simp only: exact_def)
qed

text \<open>A perfect link to a neighbour with an empty queue: the product does not fit.\<close>

theorem bp_metric_wraps_witness:
  "unat (bp_metric_of (demo_bp False) (1000, 1) 50 10000 \<lparr>hi_backlog = 0, hi_distance = 5000, hi_static = False\<rparr> 1) =
     ((50 * 1000 + 5000) * 999999) mod 2 ^ 32 \<and>
   ((50 * 1000 + 5000) * 999999) mod 2 ^ 32 < (50 * 1000 + 5000) * (999999 :: nat)"
  using bp_metric_wraps[of "\<lparr>hi_backlog = 0, hi_distance = 5000, hi_static = False\<rparr>" "demo_bp False" 50 10000 "(1000, 1)" 1]
  by (simp add: demo_bp_def)

section \<open>Packets in order, and within the capacity\<close>

text \<open>
  The events of the element, with what they are given, and the packets that enter and leave the queue of each flow.
  A packet that is dropped leaves like one that is pulled.
\<close>

datatype ('a, 'l) bp_event =
    BPush nat qpacket
  | BPull 'a int
  | BPeriod 'l bpdata "neig_key list" "ip_addr list" "ip_addr \<Rightarrow> bool"
  | BAddFlow ip_addr

fun bp_step ::
    "endian \<Rightarrow> 'g bp_env \<Rightarrow> bp_config \<Rightarrow> ('a, 'l, 'z) route_tables_scheme \<Rightarrow> ('a, 'l) bp_event \<Rightarrow> 'g dataqueues
      \<Rightarrow> ('g dataqueues \<times> (ip_addr \<times> qpacket) list \<times> (ip_addr \<times> qpacket) list) option" where
  "bp_step en E c T (BPush port p) s =
     map_option (\<lambda>(s', r). (s', if r = Queued then [(pk_dst p, p)] else [], [])) (bp_push en E c port p s)"
| "bp_step en E c T (BPull arp now) s =
     map_option (\<lambda>(s', r). (s', [], case r of None \<Rightarrow> [] | Some (p, _) \<Rightarrow> [(the (ds_pull_q s), p)])) (bp_pull E c T arp now s)"
| "bp_step en E c T (BPeriod l d order flows coin) s =
     map_option (\<lambda>(s', dropped). (s', [], dropped)) (bp_run_timer E c T l d order flows coin s)"
| "bp_step en E c T (BAddFlow f) s = Some (bp_add_queue f s, [], [])"

fun bp_run ::
    "endian \<Rightarrow> 'g bp_env \<Rightarrow> bp_config \<Rightarrow> ('a, 'l, 'z) route_tables_scheme \<Rightarrow> ('a, 'l) bp_event list \<Rightarrow> 'g dataqueues
      \<Rightarrow> ('g dataqueues \<times> (ip_addr \<times> qpacket) list \<times> (ip_addr \<times> qpacket) list) option" where
  "bp_run en E c T [] s = Some (s, [], [])"
| "bp_run en E c T (e # es) s =
     do {
       (s1, acc1, gone1) \<leftarrow> bp_step en E c T e s;
       (s2, acc2, gone2) \<leftarrow> bp_run en E c T es s1;
       Some (s2, acc1 @ acc2, gone1 @ gone2)
     }"

definition flow_of :: "ip_addr \<Rightarrow> (ip_addr \<times> qpacket) list \<Rightarrow> qpacket list" where
  "flow_of f xs = map snd (filter (\<lambda>x. fst x = f) xs)"

definition fq_list :: "(ip_addr \<rightharpoonup> dataqueue) \<Rightarrow> ip_addr \<Rightarrow> qpacket list" where
  "fq_list fq f = (case fq f of Some q \<Rightarrow> dq_q q | None \<Rightarrow> [])"

lemma flow_of_simps [simp]: "flow_of f [] = []" "flow_of f (xs @ ys) = flow_of f xs @ flow_of f ys"
  "flow_of f [(g, p)] = (if g = f then [p] else [])"
  by (simp_all add: flow_of_def)

lemma flow_of_Pair [simp]: "flow_of f (map (Pair g) ps) = (if g = f then ps else [])"
  by (induction ps) (auto simp: flow_of_def)

lemma fq_list_upd [simp]: "fq_list (fq(g \<mapsto> q)) f = (if f = g then dq_q q else fq_list fq f)"
  by (simp add: fq_list_def)

lemma fq_list_Some: "fq f = Some q \<Longrightarrow> fq_list fq f = dq_q q"
  by (simp add: fq_list_def)

lemma drop_loop_ok:
  "n \<le> length (dq_q q) \<Longrightarrow> drop_loop False n q = Some (q\<lparr>dq_q := drop n (dq_q q)\<rparr>, take n (dq_q q))"
proof (induction n arbitrary: q)
  case (Suc n)
  then obtain p ps where q: "dq_q q = p # ps" by (cases "dq_q q") auto
  then have "dq_pop_front False q = Some (p, q\<lparr>dq_q := ps\<rparr>)" by (simp add: dq_pop_front_def)
  then show ?case using Suc.IH[of "q\<lparr>dq_q := ps\<rparr>"] Suc.prems q by simp
qed simp

lemma period_drops_ok:
  assumes "\<not> bc_video c" "length (dq_q q) < 2 ^ 32"
  shows "\<exists>q' ps. period_drops c q = Some (q', ps) \<and> dq_q q = ps @ dq_q q'"
proof -
  define size where "size = dq_size (bc_video c) q"
  have us: "unat size = length (dq_q q)" using assms by (simp add: size_def dq_size_def unat_of_nat)
  define added where "added = (if dq_drops q < size then if size < bc_dmax c then size else bc_dmax c else 0)"
  have "unat added \<le> length (dq_q q)" unfolding us[symmetric] by (auto simp: added_def word_le_nat_alt[symmetric])
  from drop_loop_ok[of "unat added" "q\<lparr>dq_drops := dq_drops q + added\<rparr>"] this
  show ?thesis using assms(1) unfolding period_drops_def Let_def size_def[symmetric] added_def[symmetric]
    by (simp add: dq_remove_drops_def)
qed

lemma period_loop_ok:
  assumes "\<not> bc_video c" "\<forall>f. length (fq_list fq f) < 2 ^ 32"
  shows "\<exists>fq' out. period_loop c fs fq = Some (fq', out) \<and> dom fq' = dom fq \<and> (\<forall>f. fq_list fq f = flow_of f out @ fq_list fq' f)"
  using assms(2)
proof (induction fs arbitrary: fq)
  case (Cons f fs)
  show ?case
  proof (cases "fq f")
    case None
    then show ?thesis using Cons by simp
  next
    case (Some q)
    obtain q' ps where q': "period_drops c q = Some (q', ps)" "dq_q q = ps @ dq_q q'"
      using period_drops_ok[of c q] assms(1) Cons.prems Some by (metis fq_list_Some)
    have "\<forall>g. length (fq_list (fq(f \<mapsto> q')) g) < 2 ^ 32"
      using Cons.prems q'(2) fq_list_Some[of fq f q] Some by (metis fq_list_upd length_append le_add2 le_less_trans)
    from Cons.IH[OF this] obtain fq1 out where r: "period_loop c fs (fq(f \<mapsto> q')) = Some (fq1, out)"
      "dom fq1 = dom (fq(f \<mapsto> q'))" "\<forall>g. fq_list (fq(f \<mapsto> q')) g = flow_of g out @ fq_list fq1 g" by blast
    have "period_loop c (f # fs) fq = Some (fq1, map (Pair f) ps @ out)" using Some q'(1) r(1) by simp
    moreover have "fq_list fq g = flow_of g (map (Pair f) ps @ out) @ fq_list fq1 g" for g
      using r(3)[rule_format, of g] q'(2) fq_list_Some[of fq f q] Some by (cases "g = f") auto
    moreover have "dom fq1 = dom fq" using r(2) Some by auto
    ultimately show ?thesis by blast
  qed
qed simp

text \<open>A good packet is written to by \<open>srpacket\<close> without a fault and has an Ethernet header.\<close>

definition good_packet :: "'g bp_env \<Rightarrow> qpacket \<Rightarrow> bool" where
  "good_packet E p = (\<forall>n. \<exists>b. be_set_next E n (pk_data p) = Some b \<and> 6 \<le> length b)"

definition bp_inv :: "'g bp_env \<Rightarrow> bp_config \<Rightarrow> 'g dataqueues \<Rightarrow> bool" where
  "bp_inv E c s =
     ((\<forall>f. length (fq_list (ds_fq s) f) \<le> unat (bc_capacity c) \<and> (\<forall>p\<in>set (fq_list (ds_fq s) f). good_packet E p)) \<and>
      (case ds_pull_q s of None \<Rightarrow> True | Some f \<Rightarrow> f \<in> dom (ds_fq s)))"

fun good_bp_event :: "'g bp_env \<Rightarrow> ('a, 'l, 'z) route_tables_scheme \<Rightarrow> ('a, 'l) bp_event \<Rightarrow> bool" where
  "good_bp_event E T (BPush port p) = (good_packet E p \<and> pk_dst p \<noteq> 0)"
| "good_bp_event E T (BPull arp now) = (\<forall>n. length (arp_lookup T arp n) = 6)"
| "good_bp_event E T (BPeriod l d order flows coin) = (\<forall>f. lt_valid_route T l (lt_best_route T l f True) \<longrightarrow> 2 \<le> length (lt_best_route T l f True))"
| "good_bp_event E T (BAddFlow f) = True"

lemma bp_inv_next:
  assumes "bp_inv E c s" and "\<forall>f. fq_list (ds_fq s) f @ flow_of f acc = flow_of f gone @ fq_list (ds_fq s') f"
    and "\<forall>x\<in>set acc. good_packet E (snd x)" "\<forall>f. flow_of f acc \<noteq> [] \<longrightarrow> length (fq_list (ds_fq s') f) \<le> unat (bc_capacity c)"
    and "case ds_pull_q s' of None \<Rightarrow> True | Some f \<Rightarrow> f \<in> dom (ds_fq s')"
  shows "bp_inv E c s'"
proof -
  have "length (fq_list (ds_fq s') f) \<le> unat (bc_capacity c)" for f
  proof (cases "flow_of f acc = []")
    case True
    have "length (fq_list (ds_fq s') f) \<le> length (fq_list (ds_fq s) f)"
      using assms(2)[rule_format, of f] True by simp
    then show ?thesis using assms(1) unfolding bp_inv_def by (metis le_trans)
  qed (use assms(4) in blast)
  moreover have "good_packet E p" if "p \<in> set (fq_list (ds_fq s') f)" for p f
  proof -
    have "p \<in> set (fq_list (ds_fq s) f @ flow_of f acc)" using that assms(2)[rule_format, of f] by simp
    then show ?thesis using assms(1,3) unfolding bp_inv_def by (auto simp: flow_of_def)
  qed
  ultimately show ?thesis using assms(5) unfolding bp_inv_def by blast
qed

text \<open>What one event does, in the terms of the queues.\<close>

definition bp_fifo :: "'g bp_env \<Rightarrow> bp_config \<Rightarrow> 'g dataqueues \<Rightarrow> ('g dataqueues \<times> (ip_addr \<times> qpacket) list \<times> (ip_addr \<times> qpacket) list) option \<Rightarrow> bool" where
  "bp_fifo E c s r = (case r of
       None \<Rightarrow> False
     | Some (s', acc, gone) \<Rightarrow> bp_inv E c s' \<and> (\<forall>f. fq_list (ds_fq s) f @ flow_of f acc = flow_of f gone @ fq_list (ds_fq s') f))"

lemma bp_push_fifo:
  assumes "\<not> bc_video c" "bp_inv E c s" "good_packet E p" "pk_dst p \<noteq> 0"
  shows "bp_fifo E c s (bp_step en E c T (BPush port p) s)"
proof (cases "port = 0")
  case False
  then show ?thesis using assms by (simp add: bp_fifo_def bp_push_def)
next
  case True
  define q where "q = (case ds_fq s (pk_dst p) of Some q \<Rightarrow> q | None \<Rightarrow> dq_new)"
  have qq: "dq_q q = fq_list (ds_fq s) (pk_dst p)" by (simp add: q_def fq_list_def dq_new_def split: option.split)
  have lq: "length (dq_q q) \<le> unat (bc_capacity c)" using assms(2) unfolding qq bp_inv_def by blast
  have ll: "length (dq_q q) < 2 ^ 32" using lq unsigned_less[of "bc_capacity c", where ?'a = nat] by simp
  have us: "unat (dq_size False q) = length (dq_q q)" using ll by (simp add: dq_size_def unat_of_nat)
  have dp: "case ds_pull_q s of None \<Rightarrow> True | Some f \<Rightarrow> f \<in> dom (ds_fq s)" using assms(2) by (simp add: bp_inv_def)
  show ?thesis
  proof (cases "dq_size False q = bc_capacity c")
    case full: True
    define s' where "s' = s\<lparr>ds_fq := (ds_fq s)(pk_dst p \<mapsto> q\<lparr>dq_drops := dq_drops q + 1\<rparr>)\<rparr>"
    have st: "bp_step en E c T (BPush port p) s = Some (s', [], [])"
      using True full assms(1,4) by (simp add: bp_push_def q_def[symmetric] s'_def Let_def)
    have c: "\<forall>f. fq_list (ds_fq s) f @ flow_of f [] = flow_of f [] @ fq_list (ds_fq s') f" by (simp add: s'_def qq)
    have "bp_inv E c s'" using dp by (intro bp_inv_next[OF assms(2) c]) (auto simp: s'_def split: option.splits)
    then show ?thesis using c unfolding st bp_fifo_def by simp
  next
    case room: False
    define q2 where "q2 = (let q1 = q\<lparr>dq_q := dq_q q @ [p]\<rparr>; size = dq_size False q in if dq_highwater q1 < size + 1 then q1\<lparr>dq_highwater := size + 1\<rparr> else q1)"
    define s' where "s' = s\<lparr>ds_fq := (ds_fq s)(pk_dst p \<mapsto> q2)\<rparr>"
    have q2: "dq_q q2 = dq_q q @ [p]" by (simp add: q2_def Let_def)
    have st: "bp_step en E c T (BPush port p) s = Some (s', [(pk_dst p, p)], [])"
      using True room assms(1,4) by (simp add: bp_push_def q_def[symmetric] s'_def Let_def dq_push_back_def q2_def)
    have c: "\<forall>f. fq_list (ds_fq s) f @ flow_of f [(pk_dst p, p)] = flow_of f [] @ fq_list (ds_fq s') f" by (simp add: s'_def q2 qq)
    have "length (dq_q q) \<noteq> unat (bc_capacity c)" using room us by (auto simp: word_unat_eq_iff)
    then have "bp_inv E c s'" using dp lq assms(3)
      by (intro bp_inv_next[OF assms(2) c]) (auto simp: s'_def q2 split: option.splits)
    then show ?thesis using c unfolding st bp_fifo_def by simp
  qed
qed

lemma bp_pull_fifo:
  assumes "\<not> bc_video c" "bp_inv E c s" "\<forall>n. length (arp_lookup T arp n) = 6"
  shows "bp_fifo E c s (bp_step en E c T (BPull arp now) s)"
proof -
  have idle: "bp_fifo E c s (Some (s', [], []))" if "ds_fq s' = ds_fq s" "ds_pull_q s' = ds_pull_q s" for s'
    using that assms(2) by (simp add: bp_fifo_def bp_inv_def split: option.splits)
  show ?thesis
  proof (cases "ds_pull_q s")
    case None
    then show ?thesis using idle[of s] by (simp add: bp_pull_def)
  next
    case (Some f)
    then obtain q where q: "ds_fq s f = Some q" using assms(2) by (auto simp: bp_inv_def)
    obtain ok g where g: "(if bc_rate_active c then gr_need_update E (ds_gap s) now else (True, ds_gap s)) = (ok, g)" by fastforce
    show ?thesis
    proof (cases "dq_size False q = 0 \<or> ds_pull_neig s = 0 \<or> ds_lock s \<or> \<not> ok")
      case True
      have "bp_step en E c T (BPull arp now) s = Some (s, [], []) \<or> bp_step en E c T (BPull arp now) s = Some (s\<lparr>ds_gap := g\<rparr>, [], [])"
        using True Some q g assms(1) unfolding bp_step.simps bp_pull_def by (auto simp: Let_def)
      then show ?thesis using idle[of s] idle[of "s\<lparr>ds_gap := g\<rparr>"] by auto
    next
      case False
      then obtain p ps where pp: "dq_q q = p # ps" by (cases "dq_q q") (auto simp: dq_size_def)
      have "good_packet E p" using assms(2) q pp by (auto simp: bp_inv_def fq_list_def dest!: spec[of _ f])
      then obtain b1 where b1: "be_set_next E (ds_pull_neig s) (pk_data p) = Some b1" "6 \<le> length b1" unfolding good_packet_def by blast
      have pop: "dq_pop_front False q = Some (p, q\<lparr>dq_q := ps\<rparr>)" using pp by (simp add: dq_pop_front_def)
      define s' where "s' = s\<lparr>ds_gap := (if bc_rate_active c then gr_update_with E g (length (pk_data p)) else g),
          ds_fq := (ds_fq s)(f \<mapsto> q\<lparr>dq_q := ps\<rparr>), ds_lock := (ds_lock s \<or> ds_guard s = Some (pk_ptr p))\<rparr>"
      have st: "bp_step en E c T (BPull arp now) s = Some (s', [], [(f, p)])"
        using False Some q g assms(1,3) b1 pop unfolding bp_step.simps bp_pull_def by (simp add: Let_def s'_def)
      have c: "\<forall>g. fq_list (ds_fq s) g @ flow_of g [] = flow_of g [(f, p)] @ fq_list (ds_fq s') g"
        using pp q by (auto simp: s'_def fq_list_def)
      have "bp_inv E c s'" using Some by (intro bp_inv_next[OF assms(2) c]) (auto simp: s'_def)
      then show ?thesis using c unfolding st bp_fifo_def by simp
    qed
  qed
qed

text \<open>A metric other than 0 needs a backlog.\<close>

lemma get_best_neighbor_total:
  assumes "bc_capacity c + 1 \<noteq> 0" "lt_valid_route T l (lt_best_route T l f True) \<longrightarrow> 2 \<le> length (lt_best_route T l f True)"
  shows "\<exists>n m. get_best_neighbor c T l d order s f = Some (n, m) \<and> (m \<noteq> 0 \<longrightarrow> f \<in> dom (ds_fq s))"
proof (cases "get_backlog c s f = 0 \<or> word_of_int (lt_route_metric T l (lt_best_route T l f True)) = (0 :: u32) \<or> \<not> lt_valid_route T l (lt_best_route T l f True)")
  case True
  then show ?thesis by (auto simp: get_best_neighbor_def Let_def)
next
  case False
  then have "f \<in> dom (ds_fq s)" by (auto simp: get_backlog_def split: option.splits)
  moreover have "bp_factors c \<noteq> None" using assms(1) unfolding bp_factors_def Let_def by (simp split: if_split)
  then obtain fac where fac: "bp_factors c = Some fac" by blast
  obtain n m where "best_neighbor_loop c fac (lt_metric T l (bc_ip c)) (\<lambda>k. bp_get_info k f d) (get_backlog c s f)
        (word_of_int (lt_route_metric T l (lt_best_route T l f True))) f (lt_best_route T l f True) order (0, 0) = Some (n, m)"
    using best_neighbor_loop_ok[OF assms(2)[rule_format] refl] False by blast
  then have "get_best_neighbor c T l d order s f = Some (n, m)" using False fac by (simp add: get_best_neighbor_def Let_def)
  ultimately show ?thesis by blast
qed

lemma next_pull_loop_total:
  assumes "bc_capacity c + 1 \<noteq> 0" "\<forall>f. lt_valid_route T l (lt_best_route T l f True) \<longrightarrow> 2 \<le> length (lt_best_route T l f True)"
    and "case q of None \<Rightarrow> True | Some f \<Rightarrow> f \<in> dom (ds_fq s)"
  shows "\<exists>q' n' m'. next_pull_loop c T l d order s coin fs (q, n, m) = Some (q', n', m') \<and>
    (case q' of None \<Rightarrow> True | Some f \<Rightarrow> f \<in> dom (ds_fq s))"
  using assms(3)
proof (induction fs arbitrary: q n m)
  case (Cons f fs)
  obtain n1 m1 where b: "get_best_neighbor c T l d order s f = Some (n1, m1)" "m1 \<noteq> 0 \<longrightarrow> f \<in> dom (ds_fq s)"
    using get_best_neighbor_total[OF assms(1) assms(2)[rule_format, of f, THEN impI]] by blast
  show ?case
  proof (cases "m < m1 \<or> (m1 \<noteq> 0 \<and> m1 = m \<and> coin f)")
    case True
    then have "f \<in> dom (ds_fq s)" using b(2) by auto
    then show ?thesis using Cons.IH[of "Some f" n1 m1] True b(1) by auto
  next
    case False
    then have "next_pull_loop c T l d order s coin (f # fs) (q, n, m) = next_pull_loop c T l d order s coin fs (q, n, m)" using b(1) by auto
    then show ?thesis using Cons.IH[OF Cons.prems, of n m] by simp
  qed
qed simp

lemma bp_period_fifo:
  assumes "\<not> bc_video c" "bp_inv E c s" "bc_capacity c + 1 \<noteq> 0"
    and "\<forall>f. lt_valid_route T l (lt_best_route T l f True) \<longrightarrow> 2 \<le> length (lt_best_route T l f True)"
  shows "bp_fifo E c s (bp_step en E c T (BPeriod l d order flows coin) s)"
proof -
  obtain q n m where q: "next_pull_loop c T l d order s coin flows (None, 0, 0) = Some (q, n, m)"
    "case q of None \<Rightarrow> True | Some f \<Rightarrow> f \<in> dom (ds_fq s)"
    using next_pull_loop_total[OF assms(3,4), where q = None and s = s and fs = flows and n = 0 and m = 0 and d = d and order = order and coin = coin] unfolding option.case(1) by blast
  have "\<forall>f. length (fq_list (ds_fq s) f) < 2 ^ 32"
    using assms(2) le_less_trans[OF _ unsigned_less[of "bc_capacity c", where ?'a = nat]] by (simp add: bp_inv_def)
  from period_loop_ok[OF assms(1) this, of flows] obtain fq out where p: "period_loop c flows (ds_fq s) = Some (fq, out)"
    "dom fq = dom (ds_fq s)" "\<forall>f. fq_list (ds_fq s) f = flow_of f out @ fq_list fq f" by blast
  have size: "dq_q x \<noteq> []" if "dq_size False x \<noteq> 0" for x using that by (auto simp: dq_size_def)
  have "\<exists>guard. (case q of None \<Rightarrow> Some None
      | Some f \<Rightarrow> do { dq \<leftarrow> fq f; if dq_size (bc_video c) dq = 0 then Some None else do { p \<leftarrow> dq_back dq; Some (Some (pk_ptr p)) } }) = Some guard"
  proof (cases q)
    case (Some f)
    then obtain dq where "fq f = Some dq" using q(2) p(2) by auto
    then show ?thesis using Some assms(1) size[of dq] by (simp add: dq_back_def)
  qed simp
  then obtain guard where guard: "(case q of None \<Rightarrow> Some None
      | Some f \<Rightarrow> do { dq \<leftarrow> fq f; if dq_size (bc_video c) dq = 0 then Some None else do { p \<leftarrow> dq_back dq; Some (Some (pk_ptr p)) } }) = Some guard"
    by blast
  define s1 where "s1 = s\<lparr>ds_fq := fq, ds_metric := ucast m, ds_guard := guard, ds_lock := (guard = None), ds_pull_q := q, ds_pull_neig := n\<rparr>"
  have dp: "do_periodically c T l d order flows coin s = Some (s1, out)"
    unfolding do_periodically_def q(1) p(1) bind.simps prod.case guard s1_def by simp
  have "\<exists>g. bp_run_timer E c T l d order flows coin s = Some (s1\<lparr>ds_gap := g\<rparr>, out)"
  proof (cases "bc_rate_active c \<and> q \<noteq> None")
    case True
    then show ?thesis unfolding bp_run_timer_def dp by (auto simp: s1_def)
  next
    case False
    then have "bp_run_timer E c T l d order flows coin s = Some (s1\<lparr>ds_gap := ds_gap s1\<rparr>, out)"
      unfolding bp_run_timer_def dp by (auto simp: s1_def split: option.splits)
    then show ?thesis by blast
  qed
  then obtain g where g: "bp_run_timer E c T l d order flows coin s = Some (s1\<lparr>ds_gap := g\<rparr>, out)" by blast
  define s' where "s' = s1\<lparr>ds_gap := g\<rparr>"
  have st: "bp_step en E c T (BPeriod l d order flows coin) s = Some (s', [], out)" by (simp add: g s'_def)
  have f: "ds_fq s' = fq" "ds_pull_q s' = q" by (simp_all add: s'_def s1_def)
  have c: "\<forall>f. fq_list (ds_fq s) f @ flow_of f [] = flow_of f out @ fq_list (ds_fq s') f" using p(3) f by simp
  have "bp_inv E c s'" using q(2) p(2) f by (intro bp_inv_next[OF assms(2) c]) (auto split: option.splits)
  then show ?thesis using c unfolding st bp_fifo_def by simp
qed

lemma bp_add_fifo:
  assumes "bp_inv E c s"
  shows "bp_fifo E c s (bp_step en E c T (BAddFlow f) s)"
proof -
  have c: "\<forall>g. fq_list (ds_fq s) g @ flow_of g [] = flow_of g [] @ fq_list (ds_fq (bp_add_queue f s)) g"
    by (auto simp: bp_add_queue_def fq_list_def dq_new_def)
  have "bp_inv E c (bp_add_queue f s)" using assms
    by (intro bp_inv_next[OF assms c]) (auto simp: bp_add_queue_def bp_inv_def split: option.splits)
  then show ?thesis using c by (simp add: bp_fifo_def)
qed

lemma bp_step_fifo:
  assumes "\<not> bc_video c" "bc_capacity c + 1 \<noteq> 0" "bp_inv E c s" "good_bp_event E T e"
  shows "bp_fifo E c s (bp_step en E c T e s)"
proof (cases e)
  case (BPush port p)
  then show ?thesis using bp_push_fifo assms by (metis good_bp_event.simps(1))
next
  case (BPull arp now)
  then show ?thesis using bp_pull_fifo assms by (metis good_bp_event.simps(2))
next
  case (BPeriod l d order flows coin)
  then show ?thesis using bp_period_fifo[OF assms(1,3,2)] assms(4) by simp
qed (use bp_add_fifo assms(3) in blast)

text \<open>
  Property C11: the flows keep their order and lose nothing silently. Without video, over any sequence of pushes, pulls,
  periods and new flows, with whatever neighbours report: no assertion fails, no queue ever holds more than the
  capacity, and for each flow the packets that were in its queue, followed by those accepted since, are exactly the packets
  that left it, sent or dropped by the period, followed by those still in the queue, all in this order. Packets are assumed to
  have their headers, the shortest route of a valid table at least two nodes, and the capacity not to be the largest number.
\<close>

theorem flows_fifo:
  assumes "\<not> bc_video c" "bc_capacity c + 1 \<noteq> 0" "bp_inv E c s" "\<forall>e\<in>set es. good_bp_event E T e"
  shows "\<exists>s' acc gone. bp_run en E c T es s = Some (s', acc, gone) \<and>
    (\<forall>f. fq_list (ds_fq s) f @ flow_of f acc = flow_of f gone @ fq_list (ds_fq s') f \<and> length (fq_list (ds_fq s') f) \<le> unat (bc_capacity c))"
proof -
  have "\<exists>s' acc gone. bp_run en E c T es s = Some (s', acc, gone) \<and> bp_inv E c s' \<and>
    (\<forall>f. fq_list (ds_fq s) f @ flow_of f acc = flow_of f gone @ fq_list (ds_fq s') f)"
    using assms(3,4)
  proof (induction es arbitrary: s)
    case (Cons e es)
    obtain s1 acc1 gone1 where s1: "bp_step en E c T e s = Some (s1, acc1, gone1)" "bp_inv E c s1"
      "\<And>f. fq_list (ds_fq s) f @ flow_of f acc1 = flow_of f gone1 @ fq_list (ds_fq s1) f"
      using bp_step_fifo[OF assms(1,2) Cons.prems(1), of T e en] Cons.prems(2) by (auto simp: bp_fifo_def split: option.splits)
    obtain s2 acc2 gone2 where s2: "bp_run en E c T es s1 = Some (s2, acc2, gone2)" "bp_inv E c s2"
      "\<And>f. fq_list (ds_fq s1) f @ flow_of f acc2 = flow_of f gone2 @ fq_list (ds_fq s2) f" using Cons.IH[OF s1(2)] Cons.prems(2) by auto
    have "fq_list (ds_fq s) f @ flow_of f (acc1 @ acc2) = flow_of f (gone1 @ gone2) @ fq_list (ds_fq s2) f" for f
      using s1(3)[of f] s2(3)[of f] by (metis append.assoc flow_of_simps(2))
    then show ?case using s1(1) s2(1,2) by (auto simp del: bp_step.simps)
  qed simp
  then show ?thesis unfolding bp_inv_def by blast
qed

definition demo_bp_env :: "unit bp_env" where
  "demo_bp_env = \<lparr>gr_need_update = (\<lambda>g now. (True, g)), gr_update_with = (\<lambda>g n. g), gr_set_rate = (\<lambda>g r. g),
     be_sr_data = (\<lambda>b i. None), be_set_next = (\<lambda>n b. wr 14 (be32 n) b)\<rparr>"

definition demo_bp_events :: "(unit, unit) bp_event list" where
  "demo_bp_events =
     [BPush 0 (demo_packet 0), BPush 0 (demo_packet 1),
      BPeriod () \<lparr>bd_nfb = [IpKey 2 \<mapsto> [9 \<mapsto> \<lparr>hi_backlog = 0, hi_distance = 100, hi_static = False\<rparr>]], bd_nm = Map.empty\<rparr> [IpKey 2] [9] (\<lambda>_. False),
      BPull () 5, BPush 0 (demo_packet 2)]"

theorem flows_fifo_witness:
  "\<exists>s' acc gone. bp_run LittleEndian demo_bp_env (demo_bp False) bp_tables demo_bp_events (demo_queues []) = Some (s', acc, gone) \<and>
     flow_of 9 acc = flow_of 9 gone @ fq_list (ds_fq s') 9 \<and> length (fq_list (ds_fq s') 9) \<le> 3"
proof -
  have "good_packet demo_bp_env (demo_packet n)" "pk_dst (demo_packet n) \<noteq> 0" for n
    by (simp_all add: good_packet_def demo_bp_env_def demo_packet_def)
  then have "\<forall>e\<in>set demo_bp_events. good_bp_event demo_bp_env bp_tables e"
    by (simp add: demo_bp_events_def bp_tables_def)
  moreover have "bp_inv demo_bp_env (demo_bp False) (demo_queues [])" by (simp add: bp_inv_def demo_queues_def fq_list_def dq_new_def)
  moreover have "fq_list (ds_fq (demo_queues [])) 9 = []" "bc_capacity (demo_bp False) = 3" "\<not> bc_video (demo_bp False)"
    by (simp_all add: demo_queues_def fq_list_def dq_new_def demo_bp_def)
  ultimately show ?thesis
    using flows_fifo[of "demo_bp False" demo_bp_env "demo_queues []" demo_bp_events bp_tables LittleEndian]
    by (auto dest!: spec[of _ 9])
qed

text \<open>
  With video, the last packet of the queue for other data is the one that is asked for, also when all packets of the flow are
  frames of the picture. Then the period does not end: here after a single packet with an I frame.
\<close>

lemma video_period_faults:
  "bp_run LittleEndian demo_bp_env ((demo_bp False)\<lparr>bc_video := True, bc_dmax := 0\<rparr>) bp_tables
     [BPush 0 \<lparr>pk_ptr = 1, pk_data = replicate 60 5, pk_dst = 9\<rparr>,
      BPeriod () \<lparr>bd_nfb = [IpKey 2 \<mapsto> Map.empty], bd_nm = Map.empty\<rparr> [IpKey 2] [9] (\<lambda>_. False)] (demo_queues []) = None"
proof -
  define c where "c = (demo_bp False)\<lparr>bc_video := True, bc_dmax := 0\<rparr>"
  define p where "p = \<lparr>pk_ptr = 1, pk_data = replicate 60 5, pk_dst = 9\<rparr>"
  define q where "q = \<lparr>dq_q = [], dq_qi = [p], dq_qp = [], dq_drops = 0, dq_highwater = 1\<rparr>"
  define s where "s = (demo_queues [])\<lparr>ds_fq := [9 \<mapsto> q]\<rparr>"
  have c: "bc_video c" "bc_layer c = LayEther" "bc_capacity c = 3" "bc_dmax c = 0" "bc_V c = 3" "bc_ip c = 1" "bp_factors c = Some (249999, 1)"
    by (simp_all add: c_def demo_bp_def bp_factors_def)
  have "rdn (replicate 60 (5 :: byte)) 24 2 = Some [5, 5]" "rd8 (replicate 60 5) 54 = Some 5"
    by (simp_all add: rdn_def rd8_def numeral_2_eq_2)
  moreover have "mem_u16 LittleEndian [5, 5] = 0x505" by (simp add: mem_u16_def u16_of_def be_val_def)
  ultimately have "nal_type LittleEndian (be_sr_data demo_bp_env) LayEther (replicate 60 5) = Some 5"
    by (simp add: nal_type_def rd16_def)
  then have "bp_push LittleEndian demo_bp_env c 0 p (demo_queues []) = Some (s, Queued)"
    using c by (simp add: bp_push_def p_def demo_queues_def dq_size_def dq_new_def dq_push_back_def s_def q_def)
  moreover have "get_best_neighbor c bp_tables () \<lparr>bd_nfb = [IpKey 2 \<mapsto> Map.empty], bd_nm = Map.empty\<rparr> [IpKey 2] s 9 = Some (2, 1)"
    using c by (simp add: get_best_neighbor_def get_backlog_def s_def q_def dq_size_def bp_tables_def bp_get_info_def)
  moreover have "period_loop c [9] (ds_fq s) = Some (ds_fq s, [])"
    using c by (simp add: s_def q_def period_drops_def dq_size_def dq_remove_drops_def)
  ultimately show ?thesis unfolding c_def[symmetric] p_def[symmetric]
    using c by (simp add: bp_run_timer_def do_periodically_def s_def q_def dq_size_def dq_back_def)
qed

end
