(* ===== verification/Security_TRW.thy ===== *)
theory Security_TRW
  imports Click_Prelude
begin

text \<open>
  The scan detector \<open>MapTRW\<close> (\<open>security/map_trw.cc\<close>) with the cipher that indexes its tables
  (\<open>security/rc5.cc\<close>) and its packet predicates (\<open>security/trw_packet_utils.cc\<close>).

  The tables are lists and the pointers the code keeps into them are indices, so that two pointers
  to the same record are modelled as they are. A \<open>count\<close> is an \<open>int8_t\<close>: arithmetic on it is
  done in \<open>int\<close> and wrapped when it is stored. An access outside of a table or of a packet, and a
  division by zero, is \<^const>\<open>None\<close>.
\<close>

section \<open>RC5/32/3/32\<close>

abbreviation (input) "RC5_ROUNDS \<equiv> 3 :: nat"

text \<open>The macros shift the promoted 32-bit operand and keep the low 16 bits.\<close>

definition ROTR16 :: "u32 \<Rightarrow> u32 \<Rightarrow> u16" where
  "ROTR16 x c = ucast (drop_bit (unat (c AND 15)) x OR push_bit (16 - unat (c AND 15)) x)"

definition ROTL16 :: "u32 \<Rightarrow> u32 \<Rightarrow> u16" where
  "ROTL16 x c = ucast (push_bit (unat (c AND 15)) x OR drop_bit (16 - unat (c AND 15)) x)"

text \<open>One round of the key mixing loop.\<close>

definition mix_key ::
    "nat \<Rightarrow> u16 list \<times> u16 list \<times> nat \<times> nat \<times> u16 \<times> u16 \<Rightarrow> u16 list \<times> u16 list \<times> nat \<times> nat \<times> u16 \<times> u16" where
  "mix_key k st =
     (case st of (key, l, i, j, A, B) \<Rightarrow>
        let A1 = ROTL16 (ucast (key ! i) + ucast A + ucast B) 3;
            B1 = ROTL16 (ucast (l ! j) + ucast A1 + ucast B) (ucast A1 + ucast B)
        in (key[i := A1], l[j := B1], (i + 1) mod (2 * (RC5_ROUNDS + 1)), (j + 1) mod 4, A1, B1))"

definition rc5_keygen :: "u64 \<Rightarrow> u16 list" where
  "rc5_keygen key =
     (let l = [ucast key, ucast (drop_bit 16 key), ucast (drop_bit 32 key), ucast (drop_bit 48 key)];
          k0 = map (\<lambda>i. 0xb7e5 + of_nat i * 0x9e37) [0..<2 * (RC5_ROUNDS + 1)]
      in fst (fold mix_key [0..<6 * (RC5_ROUNDS + 1)] (k0, l, 0, 0, 0, 0)))"

definition enc_round :: "u16 list \<Rightarrow> nat \<Rightarrow> u16 \<times> u16 \<Rightarrow> u16 \<times> u16" where
  "enc_round key i ab =
     (let (a, b) = ab;
          a1 = ROTL16 (ucast (a XOR b)) (ucast b) + key ! (2 * i);
          b1 = ROTL16 (ucast (b XOR a1)) (ucast a1) + key ! (2 * i + 1)
      in (a1, b1))"

definition rc5_encrypt :: "u32 \<Rightarrow> u16 list \<Rightarrow> u32" where
  "rc5_encrypt d key =
     (let a = ucast (d AND 0xffff) + key ! 0;
          b = ucast (drop_bit 16 d AND 0xffff) + key ! 1;
          (a1, b1) = fold (enc_round key) [1..<RC5_ROUNDS + 1] (a, b)
      in push_bit 16 (ucast b1) OR ucast a1)"

definition dec_round :: "u16 list \<Rightarrow> nat \<Rightarrow> u16 \<times> u16 \<Rightarrow> u16 \<times> u16" where
  "dec_round key i ab =
     (let (a, b) = ab;
          b1 = ROTR16 (ucast (b - key ! (2 * i + 1))) (ucast a) XOR a;
          a1 = ROTR16 (ucast (a - key ! (2 * i))) (ucast b1) XOR b1
      in (a1, b1))"

definition rc5_decrypt :: "u32 \<Rightarrow> u16 list \<Rightarrow> u32" where
  "rc5_decrypt d key =
     (let a = ucast (d AND 0xffff);
          b = ucast (drop_bit 16 d AND 0xffff);
          (a1, b1) = fold (dec_round key) (rev [1..<RC5_ROUNDS + 1]) (a, b)
      in push_bit 16 (ucast (b1 - key ! 1)) OR ucast (a1 - key ! 0))"

section \<open>Packets\<close>

text \<open>
  The data, the offsets of the network and transport headers (\<^const>\<open>None\<close>: no IP header is
  annotated) and the seconds of the timestamp.
\<close>

record trw_packet =
  tp_data :: "byte list"
  tp_ip :: "nat option"
  tp_transport :: nat
  tp_sec :: u32

definition block_policy :: "trw_packet \<Rightarrow> nat \<Rightarrow> bool option" where
  "block_policy p iph =
     do {
       proto \<leftarrow> rd8 (tp_data p) (iph + 9);
       if proto = 6
       then do { fl \<leftarrow> rd8 (tp_data p) (tp_transport p + 13); Some (fl AND 2 \<noteq> 0 \<and> fl AND 16 = 0) }
       else Some (proto = 17)
     }"

definition valid_ack :: "trw_packet \<Rightarrow> nat \<Rightarrow> bool option" where
  "valid_ack p iph =
     do {
       proto \<leftarrow> rd8 (tp_data p) (iph + 9);
       if proto = 6
       then do { fl \<leftarrow> rd8 (tp_data p) (tp_transport p + 13); Some (\<not> (fl AND 1 \<noteq> 0 \<or> fl AND 4 \<noteq> 0)) }
       else if proto = 17 then Some True
       else if proto = 1 then do { ty \<leftarrow> rd8 (tp_data p) (tp_transport p); Some (ty = 0) }
       else Some True
     }"

section \<open>State\<close>

record map_record =
  mr_ip :: ip_addr
  mr_eth :: ether_addr
  mr_last_valid :: u32
  mr_port :: int
  mr_passive_update :: bool
  mr_arp_whitelist :: bool

record ip_record =
  ir_tag :: u16
  ir_count :: int
  ir_timestamp :: byte

record con_record =
  cr_status :: byte
  cr_timestamp :: byte

record trw_config =
  tc_ip :: ip_addr
  tc_mask :: ip_addr
  tc_ip_size :: u32
  tc_assoc :: u32
  tc_decr_age :: u32
  tc_incr_age :: u32
  tc_block :: int
  tc_max :: int
  tc_min :: int
  tc_con_size :: u32
  tc_con_maxage :: u32

record trw =
  tw_cfg :: trw_config
  tw_key :: "u16 list"
  tw_index_mask :: u32
  tw_tag_shift :: u32
  tw_last_time :: u32
  tw_last_map :: u32
  tw_ip_table :: "ip_record list"
  tw_con_table :: "con_record list"
  tw_arp_map :: "map_record list"

abbreviation (input) "int8 x \<equiv> (x + 128) mod 256 - (128 :: int)"

definition last8 :: "trw \<Rightarrow> byte" where
  "last8 s = ucast (tw_last_time s)"

definition put_ip :: "nat \<Rightarrow> ip_record \<Rightarrow> trw \<Rightarrow> trw" where
  "put_ip i r s = s\<lparr>tw_ip_table := (tw_ip_table s)[i := r]\<rparr>"

definition put_con :: "nat \<Rightarrow> con_record \<Rightarrow> trw \<Rightarrow> trw" where
  "put_con i r s = s\<lparr>tw_con_table := (tw_con_table s)[i := r]\<rparr>"

section \<open>Address records\<close>

text \<open>The first loops of \<open>find_ip\<close>: the first slot of the set whose record satisfies \<open>P\<close>.\<close>

fun find_slot :: "('r \<Rightarrow> bool) \<Rightarrow> 'r list \<Rightarrow> nat list \<Rightarrow> nat option option" where
  "find_slot P t [] = Some None"
| "find_slot P t (a # as) =
     (if length t \<le> a then None else if P (t ! a) then Some (Some a) else find_slot P t as)"

fun min_slot :: "ip_record list \<Rightarrow> int \<Rightarrow> nat \<Rightarrow> nat list \<Rightarrow> nat option" where
  "min_slot t m best [] = Some best"
| "min_slot t m best (a # as) =
     (if length t \<le> a then None
      else if ir_count (t ! a) < m then min_slot t (ir_count (t ! a)) a as else min_slot t m best as)"

definition ip_slots :: "trw \<Rightarrow> u32 \<Rightarrow> nat list" where
  "ip_slots s enc =
     map (\<lambda>i. unat ((enc AND tw_index_mask s) * tc_assoc (tw_cfg s)) + i) [0..<unat (tc_assoc (tw_cfg s))]"

definition ip_tag :: "trw \<Rightarrow> u32 \<Rightarrow> u16" where
  "ip_tag s enc = ucast (drop_bit (unat (tw_tag_shift s)) enc)"

text \<open>
  One activation of \<open>find_ip\<close>: either it returns the index of the record, or it has aged the
  record by one step and calls itself.
\<close>

definition find_ip_step :: "trw \<Rightarrow> u32 \<Rightarrow> (trw + trw \<times> nat) option" where
  "find_ip_step s enc =
     do {
       m \<leftarrow> find_slot (\<lambda>r. ir_tag r = ip_tag s enc) (tw_ip_table s) (ip_slots s enc);
       (case m of
          Some a \<Rightarrow>
            let r0 = tw_ip_table s ! a;
                r = (if ir_count r0 = -128 then r0\<lparr>ir_count := 0, ir_timestamp := last8 s\<rparr> else r0);
                diff = uint (last8 s) - uint (ir_timestamp r);
                incr = ucast (tc_incr_age (tw_cfg s)) :: byte;
                decr = ucast (tc_decr_age (tw_cfg s)) :: byte
            in if ir_count r < 0 \<and> uint incr < diff
               then Some (Inl (put_ip a (r\<lparr>ir_timestamp := ir_timestamp r + incr, ir_count := int8 (ir_count r + 1)\<rparr>) s))
               else if ir_count r > 0 \<and> uint decr < diff
               then Some (Inl (put_ip a (r\<lparr>ir_timestamp := ir_timestamp r + incr, ir_count := int8 (ir_count r - 1)\<rparr>) s))
               else Some (Inr (put_ip a r s, a))
        | None \<Rightarrow> do {
            e \<leftarrow> find_slot (\<lambda>r. ir_count r = -128) (tw_ip_table s) (ip_slots s enc);
            a \<leftarrow> (case e of
                    Some a \<Rightarrow> Some a
                  | None \<Rightarrow> min_slot (tw_ip_table s) 127 (unat ((enc AND tw_index_mask s) * tc_assoc (tw_cfg s))) (ip_slots s enc));
            if length (tw_ip_table s) \<le> a then None
            else Some (Inr (put_ip a ((tw_ip_table s ! a)\<lparr>ir_count := 0, ir_tag := ip_tag s enc, ir_timestamp := last8 s\<rparr>) s, a))
          })
     }"

partial_function (option) find_ip :: "trw \<Rightarrow> u32 \<Rightarrow> (trw \<times> nat) option" where
  "find_ip s enc =
     (case find_ip_step s enc of
        None \<Rightarrow> None
      | Some (Inl s1) \<Rightarrow> find_ip s1 enc
      | Some (Inr x) \<Rightarrow> Some x)"

section \<open>Connection records\<close>

datatype direction = FIND_SRC | FIND_DST

text \<open>The protocol hash; for ARP there is no IP packet.\<close>

definition proto_hash :: "trw \<Rightarrow> (trw_packet \<times> nat) option \<Rightarrow> direction \<Rightarrow> u32 option" where
  "proto_hash s p dir =
     (case p of
        None \<Rightarrow> Some (rc5_encrypt 3 (tw_key s))
      | Some (p, iph) \<Rightarrow> do {
          proto \<leftarrow> rd8 (tp_data p) (iph + 9);
          if proto = 6
          then do {
            sp \<leftarrow> rdn (tp_data p) (tp_transport p) 2;
            dp \<leftarrow> rdn (tp_data p) (tp_transport p + 2) 2;
            Some (rc5_encrypt (ucast (u16_of (case dir of FIND_SRC \<Rightarrow> dp | FIND_DST \<Rightarrow> sp))) (tw_key s))
          }
          else if proto = 17 then Some (rc5_encrypt 1 (tw_key s))
          else Some (rc5_encrypt 2 (tw_key s))
        })"

definition con_index :: "direction \<Rightarrow> u32 \<Rightarrow> u32 \<Rightarrow> u32 \<Rightarrow> u32 \<Rightarrow> nat" where
  "con_index dir src dst proto sz =
     (case dir of
        FIND_SRC \<Rightarrow> unat ((push_bit 2 src XOR drop_bit 30 src XOR dst XOR proto) mod sz)
      | FIND_DST \<Rightarrow> unat ((src XOR push_bit 2 dst XOR drop_bit 30 dst XOR proto) mod sz))"

definition find_con ::
    "trw \<Rightarrow> (trw_packet \<times> nat) option \<Rightarrow> u32 \<Rightarrow> u32 \<Rightarrow> direction \<Rightarrow> (trw \<times> nat) option" where
  "find_con s p src dst dir =
     do {
       h \<leftarrow> proto_hash s p dir;
       let sz = tc_con_size (tw_cfg s);
       if sz = 0 then None
       else let i = con_index dir src dst h sz in
         if length (tw_con_table s) \<le> i then None
         else let r = tw_con_table s ! i;
                  old = uint (ucast (tc_con_maxage (tw_cfg s)) :: byte) \<le> uint (last8 s) - uint (cr_timestamp r)
              in Some (put_con i \<lparr>cr_status = (if old then 0 else cr_status r), cr_timestamp = last8 s\<rparr> s, i)
     }"

section \<open>The map of the local network\<close>

definition in_lan :: "trw \<Rightarrow> ip_addr \<Rightarrow> bool" where
  "in_lan s a \<longleftrightarrow> unat (a XOR tc_ip (tw_cfg s)) < length (tw_arp_map s)"

definition lan_index :: "trw \<Rightarrow> ip_addr \<Rightarrow> nat" where
  "lan_index s a = unat (a AND NOT (tc_mask (tw_cfg s)))"

text \<open>\<open>passive_update_map_ip\<close> and \<open>passive_update_map_arp\<close> differ in where the source address is.\<close>

definition passive_update_map :: "trw \<Rightarrow> int \<Rightarrow> ip_addr \<Rightarrow> ether_addr \<Rightarrow> u32 \<Rightarrow> trw option" where
  "passive_update_map s port src shost sec =
     (if in_lan s src
      then let i = lan_index s src in
        if length (tw_arp_map s) \<le> i then None
        else let m = tw_arp_map s ! i;
                 m1 = (if mr_port m \<noteq> port \<or> mr_eth m \<noteq> shost
                       then m\<lparr>mr_port := port, mr_ip := src, mr_eth := shost\<rparr> else m)
             in Some (s\<lparr>tw_arp_map := (tw_arp_map s)[i := m1\<lparr>mr_last_valid := sec\<rparr>]\<rparr>)
      else Some s)"

definition supress_broadcast :: "trw \<Rightarrow> int \<Rightarrow> ip_addr \<Rightarrow> bool option" where
  "supress_broadcast s port dst =
     (let i = (if in_lan s dst then lan_index s dst else 1) in
      if in_lan s dst \<and> i = length (tw_arp_map s) - 1 then Some False
      else if length (tw_arp_map s) \<le> i then None
      else Some (mr_last_valid (tw_arp_map s ! i) \<noteq> 0 \<and> port = mr_port (tw_arp_map s ! i)))"

section \<open>The decision\<close>

datatype trw_out = OutPort nat | DropPort nat | TrwKilled

definition drop_packet :: "nat \<Rightarrow> nat \<Rightarrow> trw_out" where
  "drop_packet noutputs port = (if noutputs = 4 then DropPort (port + 2) else TrwKilled)"

definition is_arp :: "byte list \<Rightarrow> bool" where
  "is_arp d \<longleftrightarrow> 42 \<le> length d \<and> u16_of (take 2 (drop 12 d)) = 0x0806 \<and> u16_of (take 2 (drop 14 d)) = 1 \<and>
     u16_of (take 2 (drop 16 d)) = 0x0800"

definition set_status :: "nat \<Rightarrow> byte \<Rightarrow> trw \<Rightarrow> trw" where
  "set_status i st s = put_con i ((tw_con_table s ! i)\<lparr>cr_status := st\<rparr>) s"

definition set_count :: "nat \<Rightarrow> int \<Rightarrow> trw \<Rightarrow> trw" where
  "set_count i c s = put_ip i ((tw_ip_table s ! i)\<lparr>ir_count := int8 c\<rparr>) s"

definition touch :: "nat \<Rightarrow> trw \<Rightarrow> trw" where
  "touch i s = put_ip i ((tw_ip_table s ! i)\<lparr>ir_timestamp := last8 s\<rparr>) s"

abbreviation (input) "status s i \<equiv> cr_status (tw_con_table s ! i)"
abbreviation (input) "count s i \<equiv> ir_count (tw_ip_table s ! i)"

text \<open>Clamping of a count after it was changed.\<close>

definition clamp_max :: "nat \<Rightarrow> trw \<Rightarrow> trw" where
  "clamp_max i s = (if count s i > tc_max (tw_cfg s) then set_count i (tc_max (tw_cfg s)) s else s)"

definition clamp_min :: "nat \<Rightarrow> trw \<Rightarrow> trw" where
  "clamp_min i s = (if count s i < tc_min (tw_cfg s) then set_count i (tc_min (tw_cfg s)) s else s)"

text \<open>
  The second half of \<open>push\<close> on the records that were looked up: the new state and whether the
  packet is dropped. \<open>si\<close> and \<open>di\<close> are the address records, \<open>sc\<close> and \<open>dc\<close> the connection records;
  they may coincide.
\<close>

definition trw_decide ::
    "trw_packet \<Rightarrow> nat \<Rightarrow> nat \<Rightarrow> nat \<Rightarrow> nat \<Rightarrow> nat \<Rightarrow> trw \<Rightarrow> (trw \<times> bool) option" where
  "trw_decide p iph si di sc dc s =
     (if status s sc AND 1 \<noteq> 0
      then do {
        over \<leftarrow> (if tc_block (tw_cfg s) \<le> count s si then block_policy p iph else Some False);
        Some (if over then (s, True)
              else (if status s dc AND 2 = 0 then set_status dc (status s dc AND 2) s else s, False))
      }
      else if status s dc AND 1 \<noteq> 0
      then do {
        ack \<leftarrow> valid_ack p iph;
        if ack
        then let s1 = (if status s dc AND 2 = 0
                       then touch di (clamp_min di (set_count di (count s di - 2) s)) else s);
                 s2 = set_status sc (status s1 sc OR 1) s1
             in Some (set_status dc (status s2 dc OR 2) s2, False)
        else Some (s, False)
      }
      else if status s dc AND 4 \<noteq> 0 then Some (s, False)
      else if tc_block (tw_cfg s) \<le> count s si
      then Some (if status s sc AND 4 = 0
                 then let s1 = touch si (clamp_max si (set_count si (count s si + 1) s))
                      in set_status sc (status s1 sc OR 4) s1
                 else s, True)
      else let s1 = touch si (clamp_max si (set_count si (count s si + 1) s));
               s2 = set_status sc (status s1 sc OR 1) s1
           in Some (set_status dc (status s2 dc OR 2) s2, False))"

definition trw_core ::
    "trw_packet \<Rightarrow> nat \<Rightarrow> u32 \<Rightarrow> u32 \<Rightarrow> trw \<Rightarrow> (trw \<times> bool) option" where
  "trw_core p iph src dst s =
     (let src_hash = rc5_encrypt src (tw_key s); dst_hash = rc5_encrypt dst (tw_key s) in
      do {
        (s1, si) \<leftarrow> find_ip s src_hash;
        (s2, di) \<leftarrow> find_ip s1 dst_hash;
        (s3, sc) \<leftarrow> find_con s2 (Some (p, iph)) src_hash dst_hash FIND_SRC;
        (s4, dc) \<leftarrow> find_con s3 (Some (p, iph)) src_hash dst_hash FIND_DST;
        trw_decide p iph si di sc dc s4
      })"

definition handle_arp :: "endian \<Rightarrow> nat \<Rightarrow> nat \<Rightarrow> trw_packet \<Rightarrow> trw \<Rightarrow> (trw \<times> trw_out) option" where
  "handle_arp en noutputs port p s =
     do {
       tpa \<leftarrow> rdn (tp_data p) 38 4;
       spa \<leftarrow> rdn (tp_data p) 28 4;
       shost \<leftarrow> rdn (tp_data p) 6 6;
       let dst = u32_of tpa;
       let src = u32_of spa;
       s0 \<leftarrow> passive_update_map s (int port) src shost (tp_sec p);
       op \<leftarrow> rdn (tp_data p) 20 2;
       if in_lan s0 src \<and> lan_index s0 src = 1 then Some (s0, OutPort port)
       else if in_lan s0 dst \<and> lan_index s0 dst = 1 then Some (s0, OutPort port)
       else if is_arp (tp_data p) \<and> u16_of op = 1
       then do {
         sup \<leftarrow> supress_broadcast s0 (int port) dst;
         if sup then Some (s0, OutPort port)
         else let src_hash = rc5_encrypt (mem_u32 en spa) (tw_key s0); dst_hash = rc5_encrypt (mem_u32 en tpa) (tw_key s0) in
           do {
             (s1, si) \<leftarrow> find_ip s0 src_hash;
             (s2, sc) \<leftarrow> find_con s1 None src_hash dst_hash FIND_SRC;
             Some (if status s2 sc AND 1 \<noteq> 0 then (s2, OutPort port)
                   else if tc_block (tw_cfg s2) \<le> count s2 si
                   then (if status s2 sc AND 4 \<noteq> 0 then s2
                         else set_count si (count s2 si + 1) (set_status sc (status s2 sc OR 4) s2), drop_packet noutputs port)
                   else (set_count si (count s2 si + 1) (set_status sc (status s2 sc OR 1) s2), OutPort port))
           }
       }
       else if is_arp (tp_data p) \<and> u16_of op = 2
       then let src_hash = rc5_encrypt (mem_u32 en spa) (tw_key s0); dst_hash = rc5_encrypt (mem_u32 en tpa) (tw_key s0) in
         do {
           (s1, di) \<leftarrow> find_ip s0 dst_hash;
           (s2, dc) \<leftarrow> find_con s1 None src_hash dst_hash FIND_DST;
           Some (if status s2 dc AND 2 \<noteq> 0 then s2
                 else set_count di (count s2 di - 1) (set_status dc (status s2 dc OR 2) s2), OutPort port)
         }
       else Some (s0, OutPort port)
     }"

definition trw_push :: "endian \<Rightarrow> nat \<Rightarrow> nat \<Rightarrow> trw_packet \<Rightarrow> trw \<Rightarrow> (trw \<times> trw_out) option" where
  "trw_push en noutputs port p s0 =
     (let s1 = (if tw_last_time s0 = 0 \<or> tw_last_time s0 < tp_sec p div 60
                then s0\<lparr>tw_last_time := tp_sec p div 60\<rparr> else s0);
          s = (if tw_last_map s1 = 0 \<or> tw_last_map s1 + 60 < tp_sec p then s1\<lparr>tw_last_map := tp_sec p\<rparr> else s1)
      in if is_arp (tp_data p) then handle_arp en noutputs port p s
      else case tp_ip p of
        None \<Rightarrow> Some (s, drop_packet noutputs port)
      | Some iph \<Rightarrow> do {
          spa \<leftarrow> rdn (tp_data p) (iph + 12) 4;
          shost \<leftarrow> rdn (tp_data p) 6 6;
          s2 \<leftarrow> passive_update_map s (int port) (u32_of spa) shost (tp_sec p);
          tpa \<leftarrow> rdn (tp_data p) (iph + 16) 4;
          sup \<leftarrow> supress_broadcast s2 (int port) (u32_of tpa);
          if sup then Some (s2, OutPort port)
          else do {
            (s3, drp) \<leftarrow> trw_core p iph (mem_u32 en spa) (mem_u32 en tpa) s2;
            Some (s3, if drp then drop_packet noutputs port else OutPort port)
          }
        })"

section \<open>Configuration\<close>

datatype trw_error = BadCounts | BadOutputs | BadInputs | NotPowerOfTwo | TooFewSets

partial_function (option) tag_shift_loop :: "u32 \<Rightarrow> u32 \<Rightarrow> u32 \<Rightarrow> u32 option" where
  "tag_shift_loop sets i shift = (if i < sets then tag_shift_loop sets (i * 2) (shift - 1) else Some shift)"

partial_function (option) power_loop :: "u32 \<Rightarrow> u32 \<Rightarrow> bool option" where
  "power_loop n i =
     (if i \<le> n then (if i = 0 then None else if n mod i \<noteq> 0 \<or> n < 1 then Some False else power_loop n (i * 2))
      else Some True)"

definition bad_counts :: "trw_config \<Rightarrow> bool" where
  "bad_counts c \<longleftrightarrow>
     tc_max c \<le> 0 \<or> 120 < tc_max c \<or> 0 \<le> tc_min c \<or> tc_min c < -120 \<or> tc_max c < tc_block c \<or> tc_block c \<le> 0 \<or>
     tc_incr_age c \<le> 0 \<or> 120 < tc_incr_age c \<or> tc_decr_age c \<le> 0 \<or> 120 < tc_decr_age c \<or>
     tc_con_maxage c \<le> 0 \<or> 120 < tc_con_maxage c"

text \<open>
  \<open>configure\<close> after the arguments are parsed. \<open>plen\<close> is the prefix length of the mask; \<open>junk\<close> are the
  records before they are initialised.
\<close>

definition trw_configure ::
    "nat \<Rightarrow> nat \<Rightarrow> nat \<Rightarrow> (nat \<Rightarrow> ip_record) \<Rightarrow> (nat \<Rightarrow> con_record) \<Rightarrow> ether_addr \<Rightarrow> trw_config \<Rightarrow> (trw_error + trw) option" where
  "trw_configure plen ninputs noutputs junk_ip junk_con no_eth c =
     (if plen = 0 \<or> 32 < plen then None
      else if bad_counts c then Some (Inl BadCounts)
      else if noutputs \<noteq> 2 \<and> noutputs \<noteq> 4 then Some (Inl BadOutputs)
      else if ninputs \<noteq> 2 then Some (Inl BadInputs)
      else if tc_assoc c = 0 then None
      else let sets = tc_ip_size c div tc_assoc c in
        do {
          shift \<leftarrow> tag_shift_loop sets 1 32;
          pa \<leftarrow> power_loop (tc_assoc c) 1;
          if \<not> pa then Some (Inl NotPowerOfTwo)
          else do {
            ps \<leftarrow> power_loop (tc_ip_size c) 1;
            if \<not> ps then Some (Inl NotPowerOfTwo)
            else if sets < 65536 \<or> shift < 16 then Some (Inl TooFewSets)
            else Some (Inr \<lparr>tw_cfg = c, tw_key = rc5_keygen 0xCAFEBABE, tw_index_mask = sets - 1, tw_tag_shift = shift,
                   tw_last_time = 0, tw_last_map = 0,
                   tw_ip_table = map (\<lambda>i. (junk_ip i)\<lparr>ir_count := -128\<rparr>) [0..<unat (tc_ip_size c)],
                   tw_con_table = map (\<lambda>i. (junk_con i)\<lparr>cr_status := 0\<rparr>) [0..<unat (tc_con_size c)],
                   tw_arp_map = map (\<lambda>i. \<lparr>mr_ip = (tc_ip c AND tc_mask c) + of_nat i, mr_eth = no_eth, mr_last_valid = 0, mr_port = 0,
                                          mr_passive_update = False, mr_arp_whitelist = i = 1\<rparr>) [0..<2 ^ (32 - plen)]\<rparr>)
          }
        })"

section \<open>The cipher is a permutation\<close>

lemma rot_amount: "unat (c AND 15 :: u32) < 16"
proof -
  have "c AND 15 \<le> (15 :: u32)" by (rule word_and_le1)
  then show ?thesis unfolding word_le_nat_alt by simp
qed

lemma bit_ROTL16:
  fixes x :: u16
  assumes "n < 16"
  shows "bit (ROTL16 (ucast x) c) n = bit x ((n + 16 - unat (c AND 15)) mod 16)"
proof -
  define k where "k = unat (c AND 15)"
  have k: "k < 16" unfolding k_def by (rule rot_amount)
  have x: "bit x m \<Longrightarrow> m < 16" for m using bit_imp_le_length[of x m] by simp
  have "bit (ROTL16 (ucast x) c) n \<longleftrightarrow> (k \<le> n \<and> bit x (n - k)) \<or> bit x (16 - k + n)"
    using assms k unfolding ROTL16_def k_def[symmetric]
    by (auto simp: bit_simps)
  also have "\<dots> = bit x ((n + 16 - k) mod 16)"
  proof (cases "k \<le> n")
    case True
    then have "(n + 16 - k) mod 16 = n - k" using assms by (simp add: mod_if)
    moreover have "\<not> bit x (16 - k + n)" using True x[of "16 - k + n"] k by auto
    ultimately show ?thesis using True by simp
  next
    case False
    then have "n + 16 - k < 16" "n + 16 - k = 16 - k + n" using k by auto
    then have "(n + 16 - k) mod 16 = 16 - k + n" by simp
    then show ?thesis using False by simp
  qed
  finally show ?thesis by (simp add: k_def)
qed

lemma bit_ROTR16:
  fixes x :: u16
  assumes "n < 16"
  shows "bit (ROTR16 (ucast x) c) n = bit x ((n + unat (c AND 15)) mod 16)"
proof -
  define k where "k = unat (c AND 15)"
  have k: "k < 16" unfolding k_def by (rule rot_amount)
  have x: "bit x m \<Longrightarrow> m < 16" for m using bit_imp_le_length[of x m] by simp
  have "bit (ROTR16 (ucast x) c) n \<longleftrightarrow> bit x (k + n) \<or> (16 - k \<le> n \<and> bit x (n - (16 - k)))"
    using assms k unfolding ROTR16_def k_def[symmetric]
    by (auto simp: bit_simps)
  also have "\<dots> = bit x ((n + k) mod 16)"
  proof (cases "n + k < 16")
    case True
    then show ?thesis by (auto simp: add.commute)
  next
    case False
    then have "(n + k) mod 16 = n - (16 - k)" "\<not> bit x (k + n)" using assms k x[of "k + n"] by (auto simp: mod_if)
    then show ?thesis using False by auto
  qed
  finally show ?thesis by (simp add: k_def)
qed

lemma ROTR16_ROTL16 [simp]: "ROTR16 (ucast (ROTL16 (ucast x) c)) c = (x :: u16)"
proof (rule bit_word_eqI)
  fix n
  assume "n < LENGTH(16)"
  then have n: "n < 16" by simp
  define k where "k = unat (c AND 15)"
  have k: "k < 16" unfolding k_def by (rule rot_amount)
  have m: "(n + k) mod 16 < 16" by simp
  have "((n + k) mod 16 + 16 - k) mod 16 = n" using n k by (cases "n + k < 16") (auto simp: mod_if)
  then show "bit (ROTR16 (ucast (ROTL16 (ucast x) c)) c) n = bit x n"
    using bit_ROTR16[OF n, of "ROTL16 (ucast x) c" c] bit_ROTL16[OF m, of x c] by (simp add: k_def)
qed

lemma dec_enc_round [simp]: "dec_round key i (enc_round key i ab) = ab"
  by (cases ab) (simp add: dec_round_def enc_round_def Let_def xor.assoc)

lemma halves: "ucast ((push_bit 16 (ucast b) OR ucast a :: u32) AND 0xffff) = (a :: u16)"
    "ucast (drop_bit 16 (push_bit 16 (ucast b) OR ucast a :: u32) AND 0xffff) = (b :: u16)"
proof -
  have ff: "(0xffff :: u32) = mask 16" by (simp add: mask_eq_exp_minus_1)
  show "ucast ((push_bit 16 (ucast b) OR ucast a :: u32) AND 0xffff) = a"
    unfolding ff by (rule bit_word_eqI) (auto simp: bit_simps)
  show "ucast (drop_bit 16 (push_bit 16 (ucast b) OR ucast a :: u32) AND 0xffff) = b"
    unfolding ff by (rule bit_word_eqI) (auto simp: bit_simps dest: bit_imp_le_length)
qed

lemma join_halves: "push_bit 16 (ucast (ucast (drop_bit 16 d AND 0xffff) :: u16)) OR ucast (ucast (d AND 0xffff) :: u16) = (d :: u32)"
proof -
  have ff: "(0xffff :: u32) = mask 16" by (simp add: mask_eq_exp_minus_1)
  show ?thesis unfolding ff by (rule bit_word_eqI) (auto simp: bit_simps)
qed

lemma rc5_inverse: "rc5_decrypt (rc5_encrypt d key) key = d"
proof -
  have r: "[1..<RC5_ROUNDS + 1] = [1, 2, 3]" by (simp add: upt_rec)
  define a where "a = ucast (d AND 0xffff) + key ! 0"
  define b where "b = ucast (drop_bit 16 d AND 0xffff) + key ! 1"
  obtain a1 b1 where e: "fold (enc_round key) [1..<RC5_ROUNDS + 1] (a, b) = (a1, b1)" by fastforce
  have "fold (dec_round key) (rev [1..<RC5_ROUNDS + 1]) (fold (enc_round key) [1..<RC5_ROUNDS + 1] (a, b)) = (a, b)" unfolding r by simp
  then have dec: "fold (dec_round key) (rev [1..<RC5_ROUNDS + 1]) (a1, b1) = (a, b)" unfolding e .
  have enc: "rc5_encrypt d key = push_bit 16 (ucast b1) OR ucast a1" using e by (simp add: rc5_encrypt_def a_def b_def)
  have "a - key ! 0 = ucast (d AND 0xffff)" "b - key ! 1 = ucast (drop_bit 16 d AND 0xffff)" by (simp_all add: a_def b_def)
  then show ?thesis unfolding enc rc5_decrypt_def Let_def halves dec prod.case by (simp only: join_halves)
qed

section \<open>Accepted configurations\<close>

lemma tag_shift_loop_bound:
  assumes "tag_shift_loop sets i shift = Some y"
  shows "(i = 0 \<longrightarrow> sets = 0) \<and> (\<forall>k\<le>31. i = 2 ^ k \<and> shift = of_nat (32 - k) \<longrightarrow> unat y \<le> 32 - k)"
proof (rule tag_shift_loop.raw_induct[where P = "\<lambda>sets i shift y. (i = 0 \<longrightarrow> sets = 0) \<and>
    (\<forall>k\<le>31. i = 2 ^ k \<and> shift = of_nat (32 - k) \<longrightarrow> unat y \<le> 32 - k)", OF _ assms])
  fix f :: "u32 \<Rightarrow> u32 \<Rightarrow> u32 \<Rightarrow> u32 option" and sets i shift y
  assume all: "\<And>sets i shift y. f sets i shift = Some y \<Longrightarrow> (i = 0 \<longrightarrow> sets = 0) \<and>
      (\<forall>k\<le>31. i = 2 ^ k \<and> shift = of_nat (32 - k) \<longrightarrow> unat y \<le> 32 - k)"
    and now: "(if i < sets then f sets (i * 2) (shift - 1) else Some shift) = Some y"
  show "(i = 0 \<longrightarrow> sets = 0) \<and> (\<forall>k\<le>31. i = 2 ^ k \<and> shift = of_nat (32 - k) \<longrightarrow> unat y \<le> 32 - k)"
  proof (cases "i < sets")
    case True
    then have "f sets (i * 2) (shift - 1) = Some y" using now by simp
    from all[OF this] have IH: "i * 2 = 0 \<longrightarrow> sets = 0" "\<And>k. k \<le> 31 \<Longrightarrow> i * 2 = 2 ^ k \<Longrightarrow> shift - 1 = of_nat (32 - k) \<Longrightarrow> unat y \<le> 32 - k"
      by blast+
    have "i \<noteq> 0" using IH(1) True by auto
    moreover have "unat y \<le> 32 - k" if k: "k \<le> 31" "i = 2 ^ k" "shift = of_nat (32 - k)" for k
    proof (cases "k = 31")
      case True
      then have "i * 2 = 0" using k by simp
      then show ?thesis using IH(1) \<open>i < sets\<close> by simp
    next
      case False
      then have "Suc k \<le> 31" "i * 2 = 2 ^ Suc k" using k by simp_all
      moreover have "shift - 1 = of_nat (32 - Suc k)" using k by (simp add: of_nat_diff)
      ultimately have "unat y \<le> 32 - Suc k" by (rule IH(2))
      then show ?thesis by simp
    qed
    ultimately show ?thesis by blast
  next
    case False
    then have "y = shift" "sets \<le> i" using now by auto
    moreover have "unat (of_nat (32 - k) :: u32) \<le> 32 - k" for k by (simp add: unat_of_nat)
    ultimately show ?thesis by (metis order.antisym word_zero_le)
  qed
qed

lemma tag_shift_steps: "i < sets \<Longrightarrow> tag_shift_loop sets i shift = tag_shift_loop sets (i * 2) (shift - 1)"
  by (simp add: tag_shift_loop.simps)

lemma tag_shift_16:
  assumes "65535 < sets"
  shows "tag_shift_loop sets 1 32 = tag_shift_loop sets 65536 16"
proof -
  have l: "x < sets" if "x \<le> 65535" for x using assms that by (rule order.strict_trans1[rotated])
  show ?thesis by (simp add: tag_shift_steps l)
qed

lemma tag_shift_accepts:
  assumes "tag_shift_loop sets 1 32 = Some shift" "\<not> sets < 65536" "\<not> shift < 16"
  shows "sets = 65536 \<and> shift = 16"
proof -
  have "(65535 :: u32) < 65536" by simp
  then have s: "65535 < sets" using assms(2) by (meson not_less order.strict_trans2)
  show ?thesis
  proof (cases "65536 < sets")
    case True
    have "tag_shift_loop sets 131072 15 = Some shift" using assms(1) tag_shift_16[OF s] tag_shift_steps[OF True, of 16] by simp
    from tag_shift_loop_bound[OF this] have "unat shift \<le> 32 - 17" by (auto dest!: spec[of _ 17])
    then show ?thesis using assms(3) by (simp add: word_less_nat_alt)
  next
    case False
    then have e: "sets = 65536" using assms(2) by simp
    then have "tag_shift_loop sets 65536 16 = Some 16" by (simp add: tag_shift_loop.simps)
    then show ?thesis using assms(1) tag_shift_16[OF s] e by simp
  qed
qed

text \<open>The shape of a configured detector.\<close>

definition trw_wf :: "trw \<Rightarrow> bool" where
  "trw_wf s \<longleftrightarrow> tw_index_mask s = 0xffff \<and> tw_tag_shift s = 16 \<and> 0 < tc_assoc (tw_cfg s) \<and>
     unat (tc_assoc (tw_cfg s)) * 65536 \<le> unat (tc_ip_size (tw_cfg s)) \<and>
     length (tw_ip_table s) = unat (tc_ip_size (tw_cfg s)) \<and> length (tw_con_table s) = unat (tc_con_size (tw_cfg s)) \<and>
     \<not> bad_counts (tw_cfg s)"

lemma configure_wf:
  assumes "trw_configure plen ni no ji jc e c = Some (Inr s)"
  shows "trw_wf s \<and> tc_ip_size c div tc_assoc c = 65536 \<and> tw_cfg s = c \<and> tw_key s = rc5_keygen 0xCAFEBABE"
proof -
  define sets where "sets = tc_ip_size c div tc_assoc c"
  obtain shift where s: "tag_shift_loop sets 1 32 = Some shift" "\<not> sets < 65536" "\<not> shift < 16"
    and s2: "tw_index_mask s = sets - 1" "tw_tag_shift s = shift" "tw_cfg s = c" "tc_assoc c \<noteq> 0" "\<not> bad_counts c"
    "length (tw_ip_table s) = unat (tc_ip_size c)" "length (tw_con_table s) = unat (tc_con_size c)" "tw_key s = rc5_keygen 0xCAFEBABE"
    using assms by (auto simp: trw_configure_def Let_def bind_eq_Some_conv sets_def split: if_splits)
  have e: "sets = 65536" "shift = 16" using tag_shift_accepts[OF s] by auto
  then have "unat (tc_ip_size c) div unat (tc_assoc c) = 65536" unfolding sets_def using unat_div_distrib[of "tc_ip_size c" "tc_assoc c"] by simp
  then have "unat (tc_assoc c) * 65536 \<le> unat (tc_ip_size c)" by (metis mult.commute div_times_less_eq_dividend)
  then show ?thesis using s2 e by (simp add: trw_wf_def sets_def word_neq_0_conv)
qed

section \<open>The records of an address\<close>

lemma wf_base:
  assumes "trw_wf s"
  shows "unat ((enc AND tw_index_mask s) * tc_assoc (tw_cfg s)) = unat (enc AND 0xffff) * unat (tc_assoc (tw_cfg s))"
    and "unat (enc AND 0xffff) * unat (tc_assoc (tw_cfg s)) + unat (tc_assoc (tw_cfg s)) \<le> length (tw_ip_table s)"
proof -
  note w = assms[unfolded trw_wf_def]
  define n where "n = unat (tc_assoc (tw_cfg s))"
  define i where "i = unat (enc AND 0xffff)"
  have "enc AND 0xffff \<le> 0xffff" by (rule word_and_le1)
  then have i: "i \<le> 65535" unfolding i_def word_le_nat_alt by simp
  have l: "n * 65536 \<le> length (tw_ip_table s)" "length (tw_ip_table s) < 2 ^ 32"
    using w unsigned_less[of "tc_ip_size (tw_cfg s)", where ?'a = nat] by (auto simp: n_def)
  have "i * n + n = Suc i * n" by simp
  also have "\<dots> \<le> 65536 * n" by (rule mult_le_mono1) (use i in simp)
  finally have b: "i * n + n \<le> length (tw_ip_table s)" using l(1) by (simp only: mult.commute[of n] order.trans)
  then have "i * n < 2 ^ 32" using l(2) by linarith
  then show "unat ((enc AND tw_index_mask s) * tc_assoc (tw_cfg s)) = unat (enc AND 0xffff) * unat (tc_assoc (tw_cfg s))"
    using w by (simp add: unat_word_ariths i_def n_def)
  show "unat (enc AND 0xffff) * unat (tc_assoc (tw_cfg s)) + unat (tc_assoc (tw_cfg s)) \<le> length (tw_ip_table s)"
    using b by (simp add: i_def n_def)
qed

lemma wf_slots:
  assumes "trw_wf s"
  shows "set (ip_slots s enc) = {unat (enc AND 0xffff) * unat (tc_assoc (tw_cfg s))..<unat (enc AND 0xffff) * unat (tc_assoc (tw_cfg s)) + unat (tc_assoc (tw_cfg s))}"
    and "a \<in> set (ip_slots s enc) \<Longrightarrow> a < length (tw_ip_table s)" and "a \<in> set (ip_slots s enc) \<Longrightarrow> a div unat (tc_assoc (tw_cfg s)) = unat (enc AND 0xffff)"
proof -
  show s: "set (ip_slots s enc) = {unat (enc AND 0xffff) * unat (tc_assoc (tw_cfg s))..<unat (enc AND 0xffff) * unat (tc_assoc (tw_cfg s)) + unat (tc_assoc (tw_cfg s))}"
    unfolding ip_slots_def wf_base(1)[OF assms] by (auto simp: image_iff)
  show "a \<in> set (ip_slots s enc) \<Longrightarrow> a < length (tw_ip_table s)" using wf_base(2)[OF assms, of enc] unfolding s by simp
  show "a div unat (tc_assoc (tw_cfg s)) = unat (enc AND 0xffff)" if mem: "a \<in> set (ip_slots s enc)"
  proof -
    have "a \<in> (\<lambda>i. unat (enc AND 0xffff) * unat (tc_assoc (tw_cfg s)) + i) ` {0..<unat (tc_assoc (tw_cfg s))}"
      using mem unfolding ip_slots_def wf_base(1)[OF assms] by (simp only: set_map set_upt)
    then show ?thesis by (elim imageE) simp
  qed
qed

lemma record_identifies:
  assumes w: "trw_wf s" and a: "a \<in> set (ip_slots s (rc5_encrypt x (tw_key s)))" "a \<in> set (ip_slots s (rc5_encrypt y (tw_key s)))"
    and tag: "ip_tag s (rc5_encrypt x (tw_key s)) = ip_tag s (rc5_encrypt y (tw_key s))"
  shows "x = y"
proof -
  define e f where "e = rc5_encrypt x (tw_key s)" and "f = rc5_encrypt y (tw_key s)"
  have "unat (e AND 0xffff) = unat (f AND 0xffff)" using wf_slots(3)[OF w a(1)] wf_slots(3)[OF w a(2)] by (simp add: e_def f_def)
  then have "e AND 0xffff = f AND 0xffff" by (simp only: word_unat_eq_iff)
  then have lo: "e AND mask 16 = f AND mask 16" by (simp add: mask_eq_exp_minus_1)
  have hi: "(ucast (drop_bit 16 e) :: u16) = ucast (drop_bit 16 f)" using tag w by (simp add: ip_tag_def trw_wf_def e_def f_def)
  have "e = f"
  proof (rule bit_word_eqI)
    fix n
    assume n: "n < LENGTH(32)"
    show "bit e n = bit f n"
    proof (cases "n < 16")
      case True
      have "bit (e AND mask 16) n = bit (f AND mask 16) n" by (simp only: lo)
      then show ?thesis using True by (simp add: bit_simps)
    next
      case False
      have "bit (ucast (drop_bit 16 e) :: u16) (n - 16) = bit (ucast (drop_bit 16 f) :: u16) (n - 16)" by (simp only: hi)
      moreover have "n - 16 < 16" using n by simp
      ultimately show ?thesis using False n by (simp add: bit_simps)
    qed
  qed
  then show ?thesis unfolding e_def f_def by (metis rc5_inverse)
qed

lemma find_slot_total: "\<forall>a\<in>set as. a < length t \<Longrightarrow> \<exists>m. find_slot P t as = Some m"
  by (induction as) auto

lemma find_slot_Some: "find_slot P t as = Some (Some a) \<Longrightarrow> a \<in> set as \<and> P (t ! a) \<and> a < length t"
  by (induction as) (auto split: if_splits)

lemma find_slot_None: "find_slot P t as = Some None \<Longrightarrow> \<forall>a\<in>set as. \<not> P (t ! a)"
  by (induction as) (auto split: if_splits)

lemma find_slot_update:
  assumes "find_slot P t as = Some (Some a)" "P r"
  shows "find_slot P (t[a := r]) as = Some (Some a)"
  using assms by (induction as) (auto split: if_splits, metis nth_list_update_neq)

lemma find_slot_other: "a \<notin> set as \<Longrightarrow> find_slot P (t[a := r]) as = find_slot P t as"
  by (induction as) auto

lemma min_slot_total: "\<forall>a\<in>set as. a < length t \<Longrightarrow> \<exists>b. min_slot t m best as = Some b \<and> b \<in> insert best (set as)"
  by (induction as arbitrary: m best) fastforce+

text \<open>Aging moves a count towards zero.\<close>

definition towards_zero :: "int \<Rightarrow> int \<Rightarrow> bool" where
  "towards_zero c c' \<longleftrightarrow> (if c = -128 then c' = 0 else (0 \<le> c \<longrightarrow> 0 \<le> c' \<and> c' \<le> c) \<and> (c \<le> 0 \<longrightarrow> c \<le> c' \<and> c' \<le> 0))"

definition found :: "trw \<Rightarrow> u32 \<Rightarrow> trw \<Rightarrow> nat \<Rightarrow> bool" where
  "found s enc s' a \<longleftrightarrow> a \<in> set (ip_slots s enc) \<and> a < length (tw_ip_table s) \<and> (\<exists>r. s' = put_ip a r s \<and> ir_tag r = ip_tag s enc \<and>
     (case find_slot (\<lambda>r. ir_tag r = ip_tag s enc) (tw_ip_table s) (ip_slots s enc) of
        Some (Some b) \<Rightarrow> b = a \<and> towards_zero (ir_count (tw_ip_table s ! a)) (ir_count r)
      | _ \<Rightarrow> ir_count r = 0))"

lemma put_ip_simps [simp]:
  "tw_cfg (put_ip a r s) = tw_cfg s" "tw_key (put_ip a r s) = tw_key s" "tw_index_mask (put_ip a r s) = tw_index_mask s"
  "tw_tag_shift (put_ip a r s) = tw_tag_shift s" "tw_last_time (put_ip a r s) = tw_last_time s" "tw_con_table (put_ip a r s) = tw_con_table s"
  "tw_arp_map (put_ip a r s) = tw_arp_map s" "last8 (put_ip a r s) = last8 s" "ip_slots (put_ip a r s) enc = ip_slots s enc"
  "ip_tag (put_ip a r s) enc = ip_tag s enc" "tw_ip_table (put_ip a r s) = (tw_ip_table s)[a := r]"
  "put_ip a q (put_ip a r s) = put_ip a q s" "trw_wf (put_ip a r s) = trw_wf s"
  by (simp_all add: put_ip_def last8_def ip_slots_def ip_tag_def trw_wf_def)

lemma int8_id: "-128 \<le> x \<Longrightarrow> x \<le> 127 \<Longrightarrow> int8 x = x"
  by simp

definition counts_ok :: "trw \<Rightarrow> bool" where
  "counts_ok s \<longleftrightarrow> (\<forall>r\<in>set (tw_ip_table s). -128 \<le> ir_count r \<and> ir_count r \<le> 127)"

lemma find_ip_step_cases:
  assumes w: "trw_wf s" and c: "counts_ok s"
  shows "\<exists>a r. a \<in> set (ip_slots s enc) \<and> a < length (tw_ip_table s) \<and> ir_tag r = ip_tag s enc \<and>
    (find_ip_step s enc = Some (Inr (put_ip a r s, a)) \<and> found s enc (put_ip a r s) a \<or>
     find_ip_step s enc = Some (Inl (put_ip a r s)) \<and>
       find_slot (\<lambda>r. ir_tag r = ip_tag s enc) (tw_ip_table s) (ip_slots s enc) = Some (Some a) \<and>
       towards_zero (ir_count (tw_ip_table s ! a)) (ir_count r) \<and> ir_count r \<noteq> -128 \<and> \<bar>ir_count r\<bar> < \<bar>ir_count (tw_ip_table s ! a)\<bar>)"
proof -
  have in_range: "\<forall>a\<in>set (ip_slots s enc). a < length (tw_ip_table s)" using wf_slots(2)[OF w] by blast
  obtain m where m: "find_slot (\<lambda>r. ir_tag r = ip_tag s enc) (tw_ip_table s) (ip_slots s enc) = Some m"
    using find_slot_total[OF in_range] by blast
  show ?thesis
  proof (cases m)
    case None
    define base where "base = unat ((enc AND tw_index_mask s) * tc_assoc (tw_cfg s))"
    have base: "base \<in> set (ip_slots s enc)" using w wf_slots(1)[OF w, of enc] wf_base(1)[OF w, of enc] by (simp add: base_def trw_wf_def word_neq_0_conv[symmetric] unat_gt_0)
    obtain e where e: "find_slot (\<lambda>r. ir_count r = -128) (tw_ip_table s) (ip_slots s enc) = Some e" using find_slot_total[OF in_range] by blast
    obtain b where b: "min_slot (tw_ip_table s) 127 base (ip_slots s enc) = Some b" "b \<in> set (ip_slots s enc)"
      using min_slot_total[OF in_range, of 127 base] base by auto
    define a where "a = (case e of Some a \<Rightarrow> a | None \<Rightarrow> b)"
    have a: "a \<in> set (ip_slots s enc)" using b(2) e by (auto simp: a_def split: option.splits dest: find_slot_Some)
    then have "a < length (tw_ip_table s)" using in_range by blast
    then have "find_ip_step s enc = Some (Inr (put_ip a ((tw_ip_table s ! a)\<lparr>ir_count := 0, ir_tag := ip_tag s enc, ir_timestamp := last8 s\<rparr>) s, a))"
      using m None e b(1) unfolding find_ip_step_def base_def[symmetric] by (auto simp: a_def split: option.splits)
    then show ?thesis using a in_range m None
      by (intro exI[of _ a] exI[of _ "(tw_ip_table s ! a)\<lparr>ir_count := 0, ir_tag := ip_tag s enc, ir_timestamp := last8 s\<rparr>"]) (auto simp: found_def)
  next
    case (Some a)
    have a: "a \<in> set (ip_slots s enc)" "ir_tag (tw_ip_table s ! a) = ip_tag s enc" "a < length (tw_ip_table s)"
      using find_slot_Some m Some by fastforce+
    have bound: "-128 \<le> ir_count (tw_ip_table s ! a)" "ir_count (tw_ip_table s ! a) \<le> 127" using c a(3) by (auto simp: counts_ok_def)
    define r0 where "r0 = tw_ip_table s ! a"
    define r where "r = (if ir_count r0 = -128 then r0\<lparr>ir_count := 0, ir_timestamp := last8 s\<rparr> else r0)"
    have rt: "ir_tag r = ip_tag s enc" "towards_zero (ir_count r0) (ir_count r)" "ir_count r \<noteq> -128" using a(2) by (auto simp: r_def r0_def towards_zero_def)
    have m': "find_slot (\<lambda>r. ir_tag r = ip_tag s enc) (tw_ip_table s) (ip_slots s enc) = Some (Some a)" using m Some by simp
    define diff where "diff = uint (last8 s) - uint (ir_timestamp r)"
    define q where "q = (\<lambda>d. r\<lparr>ir_timestamp := ir_timestamp r + ucast (tc_incr_age (tw_cfg s)), ir_count := int8 (ir_count r + d)\<rparr>)"
    have step: "find_ip_step s enc = (if ir_count r < 0 \<and> uint (ucast (tc_incr_age (tw_cfg s)) :: byte) < diff then Some (Inl (put_ip a (q 1) s))
       else if ir_count r > 0 \<and> uint (ucast (tc_decr_age (tw_cfg s)) :: byte) < diff then Some (Inl (put_ip a (q (-1)) s))
       else Some (Inr (put_ip a r s, a)))"
      unfolding find_ip_step_def m' by (cases "ir_count r0 = -128") (simp_all add: Let_def r_def r0_def diff_def q_def)
    have "found s enc (put_ip a r s) a" unfolding found_def m' using a rt by (auto simp: r0_def)
    moreover have "ir_tag (q d) = ip_tag s enc" for d using rt by (simp add: q_def)
    moreover have "towards_zero (ir_count r0) (ir_count (q 1)) \<and> ir_count (q 1) \<noteq> -128 \<and> \<bar>ir_count (q 1)\<bar> < \<bar>ir_count r0\<bar>" if "ir_count r < 0"
      using that bound by (simp add: q_def r_def r0_def towards_zero_def int8_id split: if_splits)
    moreover have "towards_zero (ir_count r0) (ir_count (q (-1))) \<and> ir_count (q (-1)) \<noteq> -128 \<and> \<bar>ir_count (q (-1))\<bar> < \<bar>ir_count r0\<bar>" if "ir_count r > 0"
      using that bound by (simp add: q_def r_def r0_def towards_zero_def int8_id split: if_splits)
    ultimately show ?thesis unfolding step using a rt m' by (auto simp: r0_def)
  qed
qed

lemma counts_ok_put: "counts_ok s \<Longrightarrow> -128 \<le> ir_count r \<Longrightarrow> ir_count r \<le> 127 \<Longrightarrow> counts_ok (put_ip a r s)"
  by (auto simp: counts_ok_def dest: subsetD[OF set_update_subset_insert])

lemma towards_zero_trans: "towards_zero a b \<Longrightarrow> b \<noteq> -128 \<Longrightarrow> towards_zero b c \<Longrightarrow> towards_zero a c"
  by (auto simp: towards_zero_def split: if_splits)

lemma towards_zero_bound: "towards_zero c c' \<Longrightarrow> -128 \<le> c \<Longrightarrow> c \<le> 127 \<Longrightarrow> -128 \<le> c' \<and> c' \<le> 127"
  by (auto simp: towards_zero_def split: if_splits)

text \<open>\<open>find_ip\<close> always returns.\<close>

lemma find_ip_returns:
  assumes "trw_wf s" "counts_ok s"
  shows "\<exists>s' a. find_ip s enc = Some (s', a) \<and> found s enc s' a"
  using assms
proof (induction "nat (case find_slot (\<lambda>r. ir_tag r = ip_tag s enc) (tw_ip_table s) (ip_slots s enc) of
    Some (Some a) \<Rightarrow> \<bar>ir_count (tw_ip_table s ! a)\<bar> | _ \<Rightarrow> 0)" arbitrary: s rule: less_induct)
  case less
  obtain a r where ar: "a \<in> set (ip_slots s enc)" "a < length (tw_ip_table s)" "ir_tag r = ip_tag s enc"
    "find_ip_step s enc = Some (Inr (put_ip a r s, a)) \<and> found s enc (put_ip a r s) a \<or>
     find_ip_step s enc = Some (Inl (put_ip a r s)) \<and>
       find_slot (\<lambda>r. ir_tag r = ip_tag s enc) (tw_ip_table s) (ip_slots s enc) = Some (Some a) \<and>
       towards_zero (ir_count (tw_ip_table s ! a)) (ir_count r) \<and> ir_count r \<noteq> -128 \<and> \<bar>ir_count r\<bar> < \<bar>ir_count (tw_ip_table s ! a)\<bar>"
    using find_ip_step_cases[OF less.prems] by blast
  from ar(4) show ?case
  proof
    assume "find_ip_step s enc = Some (Inr (put_ip a r s, a)) \<and> found s enc (put_ip a r s) a"
    then show ?thesis using find_ip.simps[of s enc] by auto
  next
    assume i: "find_ip_step s enc = Some (Inl (put_ip a r s)) \<and>
       find_slot (\<lambda>r. ir_tag r = ip_tag s enc) (tw_ip_table s) (ip_slots s enc) = Some (Some a) \<and>
       towards_zero (ir_count (tw_ip_table s ! a)) (ir_count r) \<and> ir_count r \<noteq> -128 \<and> \<bar>ir_count r\<bar> < \<bar>ir_count (tw_ip_table s ! a)\<bar>"
    define s1 where "s1 = put_ip a r s"
    have f1: "find_slot (\<lambda>r. ir_tag r = ip_tag s1 enc) (tw_ip_table s1) (ip_slots s1 enc) = Some (Some a)"
      using find_slot_update[of "\<lambda>r. ir_tag r = ip_tag s enc" "tw_ip_table s" "ip_slots s enc" a r] i ar(3) by (simp add: s1_def)
    have b: "-128 \<le> ir_count (tw_ip_table s ! a)" "ir_count (tw_ip_table s ! a) \<le> 127" using less.prems(2) ar(2) by (auto simp: counts_ok_def)
    then have "counts_ok s1" using counts_ok_put[OF less.prems(2)] towards_zero_bound[of _ "ir_count r"] i unfolding s1_def by blast
    moreover have "ir_count (tw_ip_table s ! a) \<noteq> 0" using i by auto
    moreover have "trw_wf s1" using less.prems(1) by (simp add: s1_def)
    ultimately obtain s' a' where n: "find_ip s1 enc = Some (s', a')" "found s1 enc s' a'"
      using less.hyps[of s1] i f1 ar(2) by (auto simp: s1_def)
    obtain q where q: "s' = put_ip a' q s1" "ir_tag q = ip_tag s1 enc" "a' = a" "towards_zero (ir_count r) (ir_count q)"
      using n(2) f1 ar(2) unfolding found_def by (auto simp: s1_def)
    have "s' = put_ip a q s" using q by (simp add: s1_def)
    moreover have "towards_zero (ir_count (tw_ip_table s ! a)) (ir_count q)" using towards_zero_trans[OF _ _ q(4)] i by blast
    ultimately have "found s enc s' a" using i ar q(2) unfolding found_def by (auto simp: s1_def)
    then show ?thesis using n(1) q(3) i find_ip.simps[of s enc] by (auto simp: s1_def)
  qed
qed

section \<open>Bounds of the counts\<close>

lemma put_con_simps [simp]:
  "tw_cfg (put_con i r s) = tw_cfg s" "tw_key (put_con i r s) = tw_key s" "tw_index_mask (put_con i r s) = tw_index_mask s"
  "tw_tag_shift (put_con i r s) = tw_tag_shift s" "tw_last_time (put_con i r s) = tw_last_time s" "tw_ip_table (put_con i r s) = tw_ip_table s"
  "tw_arp_map (put_con i r s) = tw_arp_map s" "last8 (put_con i r s) = last8 s" "ip_slots (put_con i r s) enc = ip_slots s enc"
  "ip_tag (put_con i r s) enc = ip_tag s enc" "tw_con_table (put_con i r s) = (tw_con_table s)[i := r]"
  "trw_wf (put_con i r s) = trw_wf s" "counts_ok (put_con i r s) = counts_ok s"
  by (simp_all add: put_con_def last8_def ip_slots_def ip_tag_def trw_wf_def counts_ok_def)

lemma set_status_simps [simp]:
  "tw_cfg (set_status i st s) = tw_cfg s" "tw_key (set_status i st s) = tw_key s" "tw_ip_table (set_status i st s) = tw_ip_table s"
  "last8 (set_status i st s) = last8 s" "trw_wf (set_status i st s) = trw_wf s" "counts_ok (set_status i st s) = counts_ok s"
  "tw_con_table (set_status i st s) = (tw_con_table s)[i := (tw_con_table s ! i)\<lparr>cr_status := st\<rparr>]"
  "ip_slots (set_status i st s) enc = ip_slots s enc" "ip_tag (set_status i st s) enc = ip_tag s enc"
  by (simp_all add: set_status_def)

lemma set_count_simps [simp]:
  "tw_cfg (set_count i c s) = tw_cfg s" "tw_key (set_count i c s) = tw_key s" "tw_con_table (set_count i c s) = tw_con_table s"
  "last8 (set_count i c s) = last8 s" "trw_wf (set_count i c s) = trw_wf s"
  "tw_ip_table (set_count i c s) = (tw_ip_table s)[i := (tw_ip_table s ! i)\<lparr>ir_count := int8 c\<rparr>]"
  "ip_slots (set_count i c s) enc = ip_slots s enc" "ip_tag (set_count i c s) enc = ip_tag s enc"
  by (simp_all add: set_count_def)

lemma touch_simps [simp]:
  "tw_cfg (touch i s) = tw_cfg s" "tw_key (touch i s) = tw_key s" "tw_con_table (touch i s) = tw_con_table s"
  "last8 (touch i s) = last8 s" "trw_wf (touch i s) = trw_wf s"
  "tw_ip_table (touch i s) = (tw_ip_table s)[i := (tw_ip_table s ! i)\<lparr>ir_timestamp := last8 s\<rparr>]"
  "ip_slots (touch i s) enc = ip_slots s enc" "ip_tag (touch i s) enc = ip_tag s enc"
  by (simp_all add: touch_def)

lemma clamp_simps [simp]:
  "tw_cfg (clamp_max i s) = tw_cfg s" "tw_key (clamp_max i s) = tw_key s" "tw_con_table (clamp_max i s) = tw_con_table s" "last8 (clamp_max i s) = last8 s"
  "trw_wf (clamp_max i s) = trw_wf s" "ip_slots (clamp_max i s) enc = ip_slots s enc" "ip_tag (clamp_max i s) enc = ip_tag s enc"
  "tw_cfg (clamp_min i s) = tw_cfg s" "tw_key (clamp_min i s) = tw_key s" "tw_con_table (clamp_min i s) = tw_con_table s" "last8 (clamp_min i s) = last8 s"
  "trw_wf (clamp_min i s) = trw_wf s"
  by (simp_all add: clamp_max_def clamp_min_def)

text \<open>One more failure and one more success of an address.\<close>

definition count_up :: "nat \<Rightarrow> trw \<Rightarrow> trw" where
  "count_up i s = touch i (clamp_max i (set_count i (count s i + 1) s))"

definition count_down :: "nat \<Rightarrow> trw \<Rightarrow> trw" where
  "count_down i s = touch i (clamp_min i (set_count i (count s i - 2) s))"

lemma count_up_table:
  assumes "i < length (tw_ip_table s)" "-128 \<le> count s i" "count s i \<le> tc_max (tw_cfg s)" "tc_max (tw_cfg s) \<le> 120"
  shows "tw_ip_table (count_up i s) = (tw_ip_table s)[i := (tw_ip_table s ! i)\<lparr>ir_count := min (count s i + 1) (tc_max (tw_cfg s)), ir_timestamp := last8 s\<rparr>]"
  using assms by (auto simp: count_up_def clamp_max_def min_def add.commute)

lemma count_down_table:
  assumes "i < length (tw_ip_table s)" "tc_min (tw_cfg s) \<le> count s i" "count s i \<le> 127" "-120 \<le> tc_min (tw_cfg s)"
  shows "tw_ip_table (count_down i s) = (tw_ip_table s)[i := (tw_ip_table s ! i)\<lparr>ir_count := max (count s i - 2) (tc_min (tw_cfg s)), ir_timestamp := last8 s\<rparr>]"
  using assms by (auto simp: count_down_def clamp_min_def max_def)

lemma count_up_simps [simp]: "tw_cfg (count_up i s) = tw_cfg s" "tw_key (count_up i s) = tw_key s" "tw_con_table (count_up i s) = tw_con_table s"
  "last8 (count_up i s) = last8 s" "trw_wf (count_up i s) = trw_wf s" "ip_slots (count_up i s) enc = ip_slots s enc" "ip_tag (count_up i s) enc = ip_tag s enc"
  by (simp_all add: count_up_def)

lemma count_down_simps [simp]: "tw_cfg (count_down i s) = tw_cfg s" "tw_con_table (count_down i s) = tw_con_table s" "trw_wf (count_down i s) = trw_wf s"
  by (simp_all add: count_down_def)

definition in_bounds :: "trw_config \<Rightarrow> int \<Rightarrow> bool" where
  "in_bounds c n \<longleftrightarrow> tc_min c \<le> n \<and> n \<le> tc_max c"

definition bounded :: "trw \<Rightarrow> bool" where
  "bounded s \<longleftrightarrow> (\<forall>r\<in>set (tw_ip_table s). ir_count r = -128 \<or> in_bounds (tw_cfg s) (ir_count r))"

lemma wf_config:
  assumes "trw_wf s"
  shows "0 < tc_max (tw_cfg s)" "tc_max (tw_cfg s) \<le> 120" "tc_min (tw_cfg s) < 0" "-120 \<le> tc_min (tw_cfg s)" "tc_block (tw_cfg s) \<le> tc_max (tw_cfg s)" "0 < tc_block (tw_cfg s)"
  using assms by (auto simp: trw_wf_def bad_counts_def)

lemma bounded_counts_ok: "trw_wf s \<Longrightarrow> bounded s \<Longrightarrow> counts_ok s"
  using wf_config[of s] unfolding bounded_def counts_ok_def in_bounds_def by force

lemma bounded_update:
  assumes "bounded s" "tw_cfg s' = tw_cfg s" "tw_ip_table s' = (tw_ip_table s)[i := r]" "in_bounds (tw_cfg s) (ir_count r)"
  shows "bounded s'"
  using assms unfolding bounded_def by (auto dest!: subsetD[OF set_update_subset_insert])

lemma bounded_up:
  assumes "trw_wf s" "bounded s" "i < length (tw_ip_table s)" "in_bounds (tw_cfg s) (count s i)"
  shows "bounded (count_up i s)"
proof -
  note c = wf_config[OF assms(1)]
  have "tw_ip_table (count_up i s) = (tw_ip_table s)[i := (tw_ip_table s ! i)\<lparr>ir_count := min (count s i + 1) (tc_max (tw_cfg s)), ir_timestamp := last8 s\<rparr>]"
    by (rule count_up_table) (use assms c in \<open>auto simp: in_bounds_def\<close>)
  then show ?thesis by (rule bounded_update[OF assms(2), rotated]) (use assms(4) c in \<open>auto simp: in_bounds_def\<close>)
qed

lemma bounded_down:
  assumes "trw_wf s" "bounded s" "i < length (tw_ip_table s)" "in_bounds (tw_cfg s) (count s i)"
  shows "bounded (count_down i s)"
proof -
  note c = wf_config[OF assms(1)]
  have "tw_ip_table (count_down i s) = (tw_ip_table s)[i := (tw_ip_table s ! i)\<lparr>ir_count := max (count s i - 2) (tc_min (tw_cfg s)), ir_timestamp := last8 s\<rparr>]"
    by (rule count_down_table) (use assms c in \<open>auto simp: in_bounds_def\<close>)
  then show ?thesis by (rule bounded_update[OF assms(2), rotated]) (use assms(4) c in \<open>auto simp: in_bounds_def\<close>)
qed

lemma bounded_status [simp]: "bounded (set_status i st s) = bounded s" "bounded (put_con i r s) = bounded s"
  by (simp_all add: bounded_def)

lemma found_bounded:
  assumes "found s enc s' a" "trw_wf s" "bounded s"
  shows "bounded s'" "trw_wf s'" "a < length (tw_ip_table s')" "in_bounds (tw_cfg s') (count s' a)" "tw_cfg s' = tw_cfg s"
    "in_bounds (tw_cfg s) (count s b) \<Longrightarrow> in_bounds (tw_cfg s') (count s' b)" "length (tw_ip_table s') = length (tw_ip_table s)" "tw_con_table s' = tw_con_table s"
proof -
  note c = wf_config[OF assms(2)]
  obtain r where r: "s' = put_ip a r s" "a < length (tw_ip_table s)"
    "towards_zero (ir_count (tw_ip_table s ! a)) (ir_count r) \<or> ir_count r = 0"
    using assms(1) unfolding found_def by (auto split: option.splits)
  have old: "count s a = -128 \<or> in_bounds (tw_cfg s) (count s a)" using assms(3) r(2) by (simp add: bounded_def)
  have new: "in_bounds (tw_cfg s) (ir_count r)" using r(3) old c by (auto simp: towards_zero_def in_bounds_def split: if_splits)
  show "bounded s'" by (rule bounded_update[OF assms(3) _ _ new]) (simp_all add: r(1))
  show "trw_wf s'" "a < length (tw_ip_table s')" "tw_cfg s' = tw_cfg s" "length (tw_ip_table s') = length (tw_ip_table s)" "tw_con_table s' = tw_con_table s"
    using r assms(2) by simp_all
  show "in_bounds (tw_cfg s') (count s' a)" using new r by simp
  show "in_bounds (tw_cfg s) (count s b) \<Longrightarrow> in_bounds (tw_cfg s') (count s' b)" using new r by (cases "a = b") simp_all
qed

lemma find_ip_found: "find_ip s enc = Some (s', a) \<Longrightarrow> trw_wf s \<Longrightarrow> counts_ok s \<Longrightarrow> found s enc s' a"
  using find_ip_returns[of s enc] by auto

lemma find_con_bounded:
  assumes "find_con s p x y d = Some (s', i)"
  shows "bounded s' = bounded s" "trw_wf s' = trw_wf s" "tw_ip_table s' = tw_ip_table s" "tw_cfg s' = tw_cfg s"
  using assms by (auto simp: find_con_def Let_def bind_eq_Some_conv split: if_splits)

lemma decide_bounded:
  assumes d: "trw_decide p iph si di sc dc s = Some (s', o1)" and w: "trw_wf s" "bounded s"
    and i: "si < length (tw_ip_table s)" "di < length (tw_ip_table s)" "in_bounds (tw_cfg s) (count s si)" "in_bounds (tw_cfg s) (count s di)"
  shows "bounded s' \<and> trw_wf s'"
proof -
  have "bounded (count_up si s)" "trw_wf (count_up si s)" "bounded (count_down di s)" "trw_wf (count_down di s)"
    using bounded_up bounded_down w i by auto
  then show ?thesis using d w unfolding trw_decide_def count_up_def[symmetric] count_down_def[symmetric]
    by (auto simp: Let_def bind_eq_Some_conv split: if_splits)
qed

lemma core_bounded:
  assumes "trw_core p iph src dst s = Some (s', d)" and w: "trw_wf s" "bounded s"
  shows "bounded s' \<and> trw_wf s'"
proof -
  obtain s1 si s2 di s3 sc s4 dc where
    f: "find_ip s (rc5_encrypt src (tw_key s)) = Some (s1, si)" "find_ip s1 (rc5_encrypt dst (tw_key s)) = Some (s2, di)"
    and c: "find_con s2 (Some (p, iph)) (rc5_encrypt src (tw_key s)) (rc5_encrypt dst (tw_key s)) FIND_SRC = Some (s3, sc)"
      "find_con s3 (Some (p, iph)) (rc5_encrypt src (tw_key s)) (rc5_encrypt dst (tw_key s)) FIND_DST = Some (s4, dc)"
    and d: "trw_decide p iph si di sc dc s4 = Some (s', d)"
    using assms(1) by (auto simp: trw_core_def Let_def bind_eq_Some_conv)
  have "found s (rc5_encrypt src (tw_key s)) s1 si" by (rule find_ip_found[OF f(1) w(1) bounded_counts_ok[OF w]])
  note f1 = found_bounded[OF this w]
  have "found s1 (rc5_encrypt dst (tw_key s)) s2 di" by (rule find_ip_found[OF f(2) f1(2) bounded_counts_ok[OF f1(2,1)]])
  note f2 = found_bounded[OF this f1(2,1)]
  note c1 = find_con_bounded[OF c(1)] note c2 = find_con_bounded[OF c(2)]
  show ?thesis
    by (rule decide_bounded[OF d]) (use f1(3,4,7) f2(1-4,7) f2(6)[of si] c1 c2 in simp_all)
qed

section \<open>A scan\<close>

text \<open>Probes of one source: packets with the offset of their IP header and their destination.\<close>

type_synonym probe = "trw_packet \<times> nat \<times> u32"

fun trw_scan :: "u32 \<Rightarrow> trw \<Rightarrow> probe list \<Rightarrow> (trw \<times> bool list) option" where
  "trw_scan src s [] = Some (s, [])"
| "trw_scan src s ((p, iph, dst) # ps) =
     do { (s1, d) \<leftarrow> trw_core p iph src dst s; (s2, ds) \<leftarrow> trw_scan src s1 ps; Some (s2, d # ds) }"

text \<open>The connection records a probe uses.\<close>

definition probe_con :: "trw \<Rightarrow> u32 \<Rightarrow> probe \<Rightarrow> direction \<Rightarrow> nat option" where
  "probe_con s src x dir =
     (case x of (p, iph, dst) \<Rightarrow>
        map_option (\<lambda>h. con_index dir (rc5_encrypt src (tw_key s)) (rc5_encrypt dst (tw_key s)) h (tc_con_size (tw_cfg s)))
                   (proto_hash s (Some (p, iph)) dir))"

fun probe_cons :: "trw \<Rightarrow> u32 \<Rightarrow> probe list \<Rightarrow> nat option list" where
  "probe_cons s src [] = []"
| "probe_cons s src (x # xs) = probe_con s src x FIND_SRC # probe_con s src x FIND_DST # probe_cons s src xs"

text \<open>
  The probes go to destinations in other sets of the address table than the source, and use
  different connection records none of which is in use.
\<close>

definition scan_ok :: "trw \<Rightarrow> u32 \<Rightarrow> probe list \<Rightarrow> bool" where
  "scan_ok s src ps \<longleftrightarrow> distinct (probe_cons s src ps) \<and> None \<notin> set (probe_cons s src ps) \<and>
     (\<forall>i. Some i \<in> set (probe_cons s src ps) \<longrightarrow> status s i = 0) \<and>
     (\<forall>(p, iph, dst)\<in>set ps. rc5_encrypt dst (tw_key s) AND 0xffff \<noteq> rc5_encrypt src (tw_key s) AND 0xffff)"

text \<open>The record of the source after \<open>k\<close> probes.\<close>

definition scanned :: "trw \<Rightarrow> u32 \<Rightarrow> nat \<Rightarrow> bool" where
  "scanned s src k \<longleftrightarrow> (\<exists>a. find_slot (\<lambda>r. ir_tag r = ip_tag s (rc5_encrypt src (tw_key s))) (tw_ip_table s) (ip_slots s (rc5_encrypt src (tw_key s))) = Some (Some a) \<and>
     ir_timestamp (tw_ip_table s ! a) = last8 s \<and> count s a = min (int k) (tc_max (tw_cfg s)))"

lemma find_ip_fresh:
  assumes "find_slot (\<lambda>r. ir_tag r = ip_tag s enc) (tw_ip_table s) (ip_slots s enc) = Some (Some a)"
    "ir_timestamp (tw_ip_table s ! a) = last8 s" "0 \<le> count s a"
  shows "find_ip s enc = Some (s, a)"
proof -
  have "find_ip_step s enc = Some (Inr (put_ip a (tw_ip_table s ! a) s, a))"
    using assms by (auto simp: find_ip_step_def Let_def)
  then show ?thesis by (simp add: find_ip.simps put_ip_def)
qed

lemma find_ip_new:
  assumes w: "trw_wf s" "counts_ok s" and n: "find_slot (\<lambda>r. ir_tag r = ip_tag s enc) (tw_ip_table s) (ip_slots s enc) = Some None"
  shows "\<exists>a r. find_ip s enc = Some (put_ip a r s, a) \<and> a \<in> set (ip_slots s enc) \<and> a < length (tw_ip_table s) \<and>
    ir_tag r = ip_tag s enc \<and> ir_count r = 0 \<and> ir_timestamp r = last8 s"
proof -
  obtain s' a where f: "find_ip s enc = Some (s', a)" "found s enc s' a" using find_ip_returns[OF w] by blast
  obtain x where x: "find_ip_step s enc = Some (Inr x)" using find_ip_step_cases[OF w, of enc] n by auto
  then have "x = (s', a)" using f(1) by (simp add: find_ip.simps)
  with x n obtain b where "s' = put_ip b ((tw_ip_table s ! b)\<lparr>ir_count := 0, ir_tag := ip_tag s enc, ir_timestamp := last8 s\<rparr>) s" "b = a"
    by (auto simp: find_ip_step_def bind_eq_Some_conv split: option.splits if_splits)
  then show ?thesis using f unfolding found_def by auto
qed

lemma find_con_index:
  assumes "trw_wf s" "probe_con s src (p, iph, dst) dir = Some i" "status s i = 0" "0 < tc_con_size (tw_cfg s)"
  shows "i < length (tw_con_table s) \<and> find_con s (Some (p, iph)) (rc5_encrypt src (tw_key s)) (rc5_encrypt dst (tw_key s)) dir =
    Some (put_con i \<lparr>cr_status = 0, cr_timestamp = last8 s\<rparr> s, i)"
proof -
  have lt: "unat (x mod tc_con_size (tw_cfg s)) < unat (tc_con_size (tw_cfg s))" for x
    using assms(4) by (simp add: unat_mod_distrib unat_gt_0 word_neq_0_conv[symmetric])
  obtain h where h: "proto_hash s (Some (p, iph)) dir = Some h"
    "i = con_index dir (rc5_encrypt src (tw_key s)) (rc5_encrypt dst (tw_key s)) h (tc_con_size (tw_cfg s))"
    using assms(2) by (auto simp: probe_con_def)
  have "i < length (tw_con_table s)" using assms(1) lt h(2) by (simp add: trw_wf_def con_index_def split: direction.splits)
  then show ?thesis using h assms(3,4) by (auto simp: find_con_def Let_def)
qed

lemma probe_con_cong:
  assumes "tw_key s' = tw_key s" "tw_cfg s' = tw_cfg s"
  shows "probe_con s' src x dir = probe_con s src x dir"
  unfolding probe_con_def proto_hash_def assms by (rule refl)

lemma probe_cons_cong:
  assumes "tw_key s' = tw_key s" "tw_cfg s' = tw_cfg s"
  shows "probe_cons s' src ps = probe_cons s src ps"
  by (induction ps) (simp_all add: probe_con_cong[OF assms])

text \<open>The source has no record yet, or one that was touched in this minute.\<close>

definition scan_ready :: "trw \<Rightarrow> u32 \<Rightarrow> nat \<Rightarrow> bool" where
  "scan_ready s src k \<longleftrightarrow> scanned s src k \<or> (k = 0 \<and>
     find_slot (\<lambda>r. ir_tag r = ip_tag s (rc5_encrypt src (tw_key s))) (tw_ip_table s) (ip_slots s (rc5_encrypt src (tw_key s))) = Some None)"

lemma ready_find_ip:
  assumes w: "trw_wf s" "bounded s" and r: "scan_ready s src k"
  obtains a t where "find_ip s (rc5_encrypt src (tw_key s)) = Some (s\<lparr>tw_ip_table := t\<rparr>, a)"
    "find_slot (\<lambda>r. ir_tag r = ip_tag s (rc5_encrypt src (tw_key s))) t (ip_slots s (rc5_encrypt src (tw_key s))) = Some (Some a)"
    "ir_timestamp (t ! a) = last8 s" "ir_count (t ! a) = min (int k) (tc_max (tw_cfg s))"
proof (cases "scanned s src k")
  case True
  then obtain a where a: "find_slot (\<lambda>r. ir_tag r = ip_tag s (rc5_encrypt src (tw_key s))) (tw_ip_table s) (ip_slots s (rc5_encrypt src (tw_key s))) = Some (Some a)"
     "ir_timestamp (tw_ip_table s ! a) = last8 s" "count s a = min (int k) (tc_max (tw_cfg s))" by (auto simp: scanned_def)
  have "find_ip s (rc5_encrypt src (tw_key s)) = Some (s, a)"
    by (rule find_ip_fresh[OF a(1,2)]) (use a(3) wf_config(1)[OF w(1)] in simp)
  then show ?thesis using a by (intro that[of "tw_ip_table s" a]) simp_all
next
  case False
  then have k: "k = 0" and n: "find_slot (\<lambda>r. ir_tag r = ip_tag s (rc5_encrypt src (tw_key s))) (tw_ip_table s) (ip_slots s (rc5_encrypt src (tw_key s))) = Some None"
    using r by (auto simp: scan_ready_def)
  obtain a r where a: "find_ip s (rc5_encrypt src (tw_key s)) = Some (put_ip a r s, a)" "a \<in> set (ip_slots s (rc5_encrypt src (tw_key s)))" "a < length (tw_ip_table s)"
    "ir_tag r = ip_tag s (rc5_encrypt src (tw_key s))" "ir_count r = 0" "ir_timestamp r = last8 s"
    using find_ip_new[OF w(1) bounded_counts_ok[OF w] n] by blast
  have new: "find_slot P (t[a := r]) as = Some (Some a)" if "find_slot P t as = Some None" "a \<in> set as" "a < length t" "P r" for P t as
    using that by (induction as) (auto split: if_splits simp: nth_list_update)
  show ?thesis
    by (rule that[of "(tw_ip_table s)[a := r]" a]) (use a k new[OF n] wf_config(1)[OF w(1)] in \<open>simp_all add: put_ip_def\<close>)
qed

lemma scan_step:
  assumes w: "trw_wf s" "bounded s" "0 < tc_con_size (tw_cfg s)" and r: "scan_ready s src k" and ok: "scan_ok s src ((p, iph, dst) # ps)"
  shows "\<exists>s'. trw_core p iph src dst s = Some (s', tc_block (tw_cfg s) \<le> int k) \<and> tw_key s' = tw_key s \<and> tw_cfg s' = tw_cfg s \<and>
    scan_ready s' src (Suc k) \<and> scan_ok s' src ps"
proof -
  define es ed where "es = rc5_encrypt src (tw_key s)" and "ed = rc5_encrypt dst (tw_key s)"
  define P where "P = (\<lambda>r :: ip_record. ir_tag r = ip_tag s es)"
  note cf = wf_config[OF w(1)]
  obtain a t where a: "find_ip s es = Some (s\<lparr>tw_ip_table := t\<rparr>, a)" "find_slot P t (ip_slots s es) = Some (Some a)"
    "ir_timestamp (t ! a) = last8 s" "ir_count (t ! a) = min (int k) (tc_max (tw_cfg s))"
    using ready_find_ip[OF w(1,2) r] unfolding es_def[symmetric] P_def[symmetric] by blast
  define s1 where "s1 = s\<lparr>tw_ip_table := t\<rparr>"
  have "found s es s1 a" unfolding s1_def by (rule find_ip_found[OF a(1) w(1) bounded_counts_ok[OF w(1,2)]])
  note f1 = found_bounded[OF this w(1,2)]
  have s1: "tw_key s1 = tw_key s" "tw_cfg s1 = tw_cfg s" "last8 s1 = last8 s" "ip_slots s1 e = ip_slots s e" "ip_tag s1 e = ip_tag s e"
    "tw_con_table s1 = tw_con_table s" "tw_ip_table s1 = t" for e by (simp_all add: s1_def last8_def ip_slots_def ip_tag_def)
  obtain s2 b where b: "find_ip s1 ed = Some (s2, b)" "found s1 ed s2 b" using find_ip_returns[OF f1(2) bounded_counts_ok[OF f1(2,1)]] by blast
  note f2 = found_bounded[OF b(2) f1(2,1)]
  obtain q where q: "s2 = put_ip b q s1" "b \<in> set (ip_slots s ed)" using b(2) s1 by (auto simp: found_def)
  have "es AND 0xffff \<noteq> ed AND 0xffff" using ok by (auto simp: scan_ok_def es_def ed_def)
  then have bs: "b \<notin> set (ip_slots s es)" using wf_slots(3)[OF w(1) q(2)] wf_slots(3)[OF w(1), of b es] by (metis word_unat_eq_iff)
  have "a \<in> set (ip_slots s es)" using find_slot_Some[OF a(2)] by simp
  then have ab: "a \<noteq> b" using bs by auto
  have t2: "tw_ip_table s2 = t[b := q]" "tw_key s2 = tw_key s" "tw_cfg s2 = tw_cfg s" "last8 s2 = last8 s" "tw_con_table s2 = tw_con_table s" "trw_wf s2"
    using q(1) s1 f2(2) by simp_all
  obtain sc dc where sc: "probe_con s src (p, iph, dst) FIND_SRC = Some sc" "probe_con s src (p, iph, dst) FIND_DST = Some dc"
    "status s sc = 0" "status s dc = 0" "sc \<noteq> dc" "Some sc \<notin> set (probe_cons s src ps)" "Some dc \<notin> set (probe_cons s src ps)"
  proof (cases "probe_con s src (p, iph, dst) FIND_SRC"; cases "probe_con s src (p, iph, dst) FIND_DST")
    fix sc dc
    assume "probe_con s src (p, iph, dst) FIND_SRC = Some sc" "probe_con s src (p, iph, dst) FIND_DST = Some dc"
    then show ?thesis using ok by (intro that[of sc dc]) (auto simp: scan_ok_def)
  qed (use ok in \<open>auto simp: scan_ok_def\<close>)
  define s3 where "s3 = put_con sc \<lparr>cr_status = 0, cr_timestamp = last8 s\<rparr> s2"
  define s4 where "s4 = put_con dc \<lparr>cr_status = 0, cr_timestamp = last8 s\<rparr> s3"
  have c1: "sc < length (tw_con_table s)" "find_con s2 (Some (p, iph)) es ed FIND_SRC = Some (s3, sc)"
    using find_con_index[of s2 src p iph dst FIND_SRC sc] t2 sc w(3) probe_con_cong[of s2 s] by (simp_all add: s3_def es_def ed_def)
  have c2: "dc < length (tw_con_table s)" "find_con s3 (Some (p, iph)) es ed FIND_DST = Some (s4, dc)"
    using find_con_index[of s3 src p iph dst FIND_DST dc] t2 sc w(3) probe_con_cong[of s3 s] by (simp_all add: s4_def s3_def es_def ed_def)
  have z: "status s4 sc = 0" "status s4 dc = 0" using c1(1) c2(1) t2 sc(5) by (simp_all add: s4_def s3_def)
  have al: "a < length t" using find_slot_Some[OF a(2)] by simp
  have cnt: "count s4 a = min (int k) (tc_max (tw_cfg s))" "a < length (tw_ip_table s4)" "tw_cfg s4 = tw_cfg s" "tw_key s4 = tw_key s" "last8 s4 = last8 s"
    using a(4) ab al t2 by (simp_all add: s4_def s3_def)
  define s' where "s' = (if tc_block (tw_cfg s) \<le> int k then set_status sc 4 (count_up a s4) else set_status dc 2 (set_status sc 1 (count_up a s4)))"
  have up: "tw_con_table (count_up a s4) = tw_con_table s4" by simp
  have core: "trw_core p iph src dst s = Some (s', tc_block (tw_cfg s) \<le> int k)"
  proof -
    have "tc_block (tw_cfg s) \<le> count s4 a \<longleftrightarrow> tc_block (tw_cfg s) \<le> int k" using cnt(1) cf by auto
    then have "trw_decide p iph a b sc dc s4 = Some (s', tc_block (tw_cfg s) \<le> int k)"
      using z cnt sc(5) c2(1) unfolding trw_decide_def s'_def count_up_def[symmetric] by (simp add: Let_def)
    then show ?thesis using a(1) b(1) c1(2) c2(2) s1(1) by (simp add: trw_core_def es_def[symmetric] ed_def[symmetric] s1_def[symmetric])
  qed
  have tab: "tw_ip_table s' = (t[b := q])[a := (t ! a)\<lparr>ir_count := min (int (Suc k)) (tc_max (tw_cfg s)), ir_timestamp := last8 s\<rparr>]"
  proof -
    have "tw_ip_table s' = tw_ip_table (count_up a s4)" by (simp add: s'_def)
    also have "\<dots> = (tw_ip_table s4)[a := (tw_ip_table s4 ! a)\<lparr>ir_count := min (count s4 a + 1) (tc_max (tw_cfg s4)), ir_timestamp := last8 s4\<rparr>]"
      by (rule count_up_table) (use cnt cf in auto)
    also have "\<dots> = (t[b := q])[a := (t ! a)\<lparr>ir_count := min (int (Suc k)) (tc_max (tw_cfg s)), ir_timestamp := last8 s\<rparr>]"
      using cnt ab t2(1) by (auto simp: s4_def s3_def min_def add.commute)
    finally show ?thesis .
  qed
  have s': "tw_key s' = tw_key s" "tw_cfg s' = tw_cfg s" "last8 s' = last8 s" "ip_slots s' e = ip_slots s e" "ip_tag s' e = ip_tag s e" for e
    using cnt q(1) s1 by (simp_all add: s'_def s4_def s3_def)
  have "find_slot P (tw_ip_table s') (ip_slots s es) = Some (Some a)"
    unfolding tab by (rule find_slot_update) (use find_slot_other[OF bs, of P t q] a(2) find_slot_Some[OF a(2)] in \<open>simp_all add: P_def\<close>)
  then have rd: "scan_ready s' src (Suc k)"
    using s' al by (auto simp: scan_ready_def scanned_def es_def[symmetric] P_def tab intro!: exI[of _ a])
  have "status s' i = 0" if "Some i \<in> set (probe_cons s src ps)" for i
  proof -
    have "i \<noteq> sc" "i \<noteq> dc" using that sc(6,7) by auto
    then have "status s' i = status s i" using t2(5) by (simp add: s'_def s4_def s3_def)
    then show ?thesis using ok that by (simp add: scan_ok_def)
  qed
  then have "scan_ok s' src ps" using ok unfolding scan_ok_def probe_cons_cong[OF s'(1,2)] s'(1) by simp
  with core s' rd show ?thesis by blast
qed

lemma scan_run:
  assumes "trw_wf s" "bounded s" "0 < tc_con_size (tw_cfg s)" "scan_ready s src k" "scan_ok s src ps"
  shows "\<exists>s'. trw_scan src s ps = Some (s', map (\<lambda>j. tc_block (tw_cfg s) \<le> int (k + j)) [0..<length ps])"
  using assms
proof (induction ps arbitrary: s k)
  case (Cons x ps)
  obtain p iph dst where x: "x = (p, iph, dst)" by (cases x)
  obtain s1 where s1: "trw_core p iph src dst s = Some (s1, tc_block (tw_cfg s) \<le> int k)" "tw_cfg s1 = tw_cfg s" "scan_ready s1 src (Suc k)" "scan_ok s1 src ps"
    using scan_step[OF Cons.prems(1-4), of p iph dst ps] Cons.prems(5) x by blast
  have "bounded s1" "trw_wf s1" using core_bounded[OF s1(1) Cons.prems(1,2)] by auto
  then obtain s2 where "trw_scan src s1 ps = Some (s2, map (\<lambda>j. tc_block (tw_cfg s) \<le> int (Suc k + j)) [0..<length ps])"
    using Cons.IH[of s1 "Suc k"] s1 Cons.prems(3) by auto
  moreover have "map (\<lambda>j. tc_block (tw_cfg s) \<le> int (k + j)) [0..<length (x # ps)] =
      (tc_block (tw_cfg s) \<le> int k) # map (\<lambda>j. tc_block (tw_cfg s) \<le> int (Suc k + j)) [0..<length ps]"
    unfolding length_Cons upt_conv_Cons[OF zero_less_Suc] by (simp add: map_Suc_upt[symmetric] comp_def add_ac del: upt_Suc)
  ultimately show ?case using s1(1) by (simp add: x del: upt_Suc)
qed simp

section \<open>What the detector promises\<close>

text \<open>
  \<open>rc5_decrypt\<close> undoes \<open>rc5_encrypt\<close> under every key, so that the encryption of
  addresses is a permutation.
\<close>

theorem rc5_roundtrip: "rc5_decrypt (rc5_encrypt d key) key = d"
  by (rule rc5_inverse)

text \<open>
  Property C27: in every configuration that \<open>configure\<close> accepts, a record of the address table
  belongs to one address: two addresses whose sets share a slot and whose tags agree are the
  same address.
\<close>

theorem address_record_unique:
  assumes "trw_configure plen ni no ji jc e c = Some (Inr s)"
    and "a \<in> set (ip_slots s (rc5_encrypt x (tw_key s)))" "a \<in> set (ip_slots s (rc5_encrypt y (tw_key s)))"
    and "ip_tag s (rc5_encrypt x (tw_key s)) = ip_tag s (rc5_encrypt y (tw_key s))"
  shows "x = y"
  using record_identifies configure_wf[OF assms(1)] assms(2-4) by blast

text \<open>
  Property C7: a scanner is blocked. A source without a record that sends any number of packets to
  destinations that never answer, within one minute and without collisions in the tables, has
  exactly its first \<open>ip_table_block_count\<close> packets forwarded; all later ones are dropped.
\<close>

theorem scanner_blocked:
  assumes "trw_wf s" "bounded s" "0 < tc_con_size (tw_cfg s)"
    and "find_slot (\<lambda>r. ir_tag r = ip_tag s (rc5_encrypt src (tw_key s))) (tw_ip_table s) (ip_slots s (rc5_encrypt src (tw_key s))) = Some None"
    and "scan_ok s src ps"
  shows "\<exists>s'. trw_scan src s ps = Some (s', map (\<lambda>k. tc_block (tw_cfg s) \<le> int k) [0..<length ps])"
  using scan_run[OF assms(1-3) _ assms(5), of 0] assms(4) by (simp add: scan_ready_def)

text \<open>
  Property C29: the counts of addresses stay within the configured bounds, and the tables keep
  their shape, whatever IP packets arrive.
\<close>

theorem ip_packets_keep_bounds:
  assumes "trw_wf s" "bounded s" "trw_core p iph src dst s = Some (s', d)"
  shows "trw_wf s' \<and> bounded s'"
  using core_bounded[OF assms(3,1,2)] by blast

text \<open>
  \<open>find_ip\<close> returns although it calls itself after every aging step: it ends with a
  record of the set of the address that carries its tag, and aging only moves a count towards zero.
\<close>

theorem find_ip_ends:
  assumes "trw_wf s" "counts_ok s"
  shows "\<exists>s' a. find_ip s enc = Some (s', a) \<and> a \<in> set (ip_slots s enc) \<and> ir_tag (tw_ip_table s' ! a) = ip_tag s enc \<and>
    (\<forall>b. b \<noteq> a \<longrightarrow> tw_ip_table s' ! b = tw_ip_table s ! b) \<and>
    (ir_count (tw_ip_table s' ! a) = 0 \<or> towards_zero (ir_count (tw_ip_table s ! a)) (ir_count (tw_ip_table s' ! a)))"
proof -
  obtain s' a where f: "find_ip s enc = Some (s', a)" "found s enc s' a" using find_ip_returns[OF assms] by blast
  then obtain r where "s' = put_ip a r s" "a \<in> set (ip_slots s enc)" "a < length (tw_ip_table s)" "ir_tag r = ip_tag s enc"
    "ir_count r = 0 \<or> towards_zero (ir_count (tw_ip_table s ! a)) (ir_count r)"
    unfolding found_def by (auto split: option.splits)
  with f(1) show ?thesis by (intro exI[of _ s'] exI[of _ a]) auto
qed

text \<open>A detector with associativity 1 and small bounds.\<close>

definition sample_config :: trw_config where
  "sample_config = \<lparr>tc_ip = 0x0a000000, tc_mask = 0xffffff00, tc_ip_size = 65536, tc_assoc = 1, tc_decr_age = 2, tc_incr_age = 10,
     tc_block = 1, tc_max = 2, tc_min = -2, tc_con_size = 16, tc_con_maxage = 10\<rparr>"

definition sample_trw :: trw where
  "sample_trw = \<lparr>tw_cfg = sample_config, tw_key = replicate 8 0, tw_index_mask = 0xffff, tw_tag_shift = 16, tw_last_time = 7, tw_last_map = 0,
     tw_ip_table = replicate 65536 \<lparr>ir_tag = 1, ir_count = -128, ir_timestamp = 0\<rparr>,
     tw_con_table = replicate 16 \<lparr>cr_status = 0, cr_timestamp = 0\<rparr>, tw_arp_map = []\<rparr>"

lemma sample_wf: "trw_wf sample_trw" "bounded sample_trw" "counts_ok sample_trw"
  by (simp_all add: trw_wf_def sample_trw_def sample_config_def bad_counts_def bounded_def counts_ok_def)

theorem find_ip_ends_witness:
  "\<exists>s' a. find_ip sample_trw 5 = Some (s', a) \<and> a \<in> set (ip_slots sample_trw 5) \<and> ir_tag (tw_ip_table s' ! a) = ip_tag sample_trw 5"
  using find_ip_ends[OF sample_wf(1,3), of 5] by blast

lemma sample_rc5: "rc5_encrypt 0 (replicate 8 0) = 0" "rc5_encrypt 1 (replicate 8 0) = 0xc000e00c" "rc5_encrypt 4 (replicate 8 0) = 0x04400004"
  by code_simp+

lemma sample_configure: "\<exists>s. trw_configure 24 2 4 (\<lambda>_. \<lparr>ir_tag = 1, ir_count = 3, ir_timestamp = 4\<rparr>) (\<lambda>_. \<lparr>cr_status = 9, cr_timestamp = 9\<rparr>) [] sample_config = Some (Inr s)"
proof -
  have "tag_shift_loop 65536 1 32 = Some 16" using tag_shift_16[of 65536] by (simp add: tag_shift_loop.simps)
  moreover have "power_loop 1 1 = Some True" by (simp add: power_loop.simps word_le_nat_alt)
  moreover have "power_loop 65536 1 = Some True" by (simp add: power_loop.simps word_le_nat_alt)
  ultimately show ?thesis by (simp add: trw_configure_def sample_config_def bad_counts_def)
qed

definition sample_probe :: "u32 \<Rightarrow> probe" where
  "sample_probe dst = (\<lparr>tp_data = replicate 9 0 @ [17] @ replicate 18 0, tp_ip = Some 0, tp_transport = 20, tp_sec = 420\<rparr>, 0, dst)"

theorem address_record_unique_witness:
  "\<exists>s a. trw_configure 24 2 4 (\<lambda>_. \<lparr>ir_tag = 1, ir_count = 3, ir_timestamp = 4\<rparr>) (\<lambda>_. \<lparr>cr_status = 9, cr_timestamp = 9\<rparr>) [] sample_config = Some (Inr s) \<and>
    a \<in> set (ip_slots s (rc5_encrypt 5 (tw_key s))) \<and>
    (\<forall>y\<in>{y. a \<in> set (ip_slots s (rc5_encrypt y (tw_key s))) \<and> ip_tag s (rc5_encrypt 5 (tw_key s)) = ip_tag s (rc5_encrypt y (tw_key s))}. 5 = y)"
proof -
  obtain s where s: "trw_configure 24 2 4 (\<lambda>_. \<lparr>ir_tag = 1, ir_count = 3, ir_timestamp = 4\<rparr>) (\<lambda>_. \<lparr>cr_status = 9, cr_timestamp = 9\<rparr>) [] sample_config = Some (Inr s)"
    using sample_configure by blast
  have "tc_assoc (tw_cfg s) = 1" using configure_wf[OF s] by (simp add: sample_config_def)
  then have "ip_slots s (rc5_encrypt 5 (tw_key s)) \<noteq> []" by (simp add: ip_slots_def)
  then obtain a where "a \<in> set (ip_slots s (rc5_encrypt 5 (tw_key s)))" by (meson list.set_sel(1))
  with s address_record_unique[OF s, of a 5] show ?thesis by blast
qed

lemma sample_scan_ok:
  "scan_ok sample_trw 0 [sample_probe 1, sample_probe 4]"
  "find_slot (\<lambda>r. ir_tag r = ip_tag sample_trw (rc5_encrypt 0 (tw_key sample_trw))) (tw_ip_table sample_trw) (ip_slots sample_trw (rc5_encrypt 0 (tw_key sample_trw))) = Some None"
proof -
  have c: "probe_cons sample_trw 0 [sample_probe 1, sample_probe 4] = [Some 0, Some 15, Some 8, Some 12]"
    by (simp add: probe_con_def sample_probe_def proto_hash_def sample_trw_def sample_config_def sample_rc5 con_index_def rd8_def nth_append)
  show "scan_ok sample_trw 0 [sample_probe 1, sample_probe 4]"
    unfolding scan_ok_def c by (auto simp: sample_trw_def sample_rc5 sample_probe_def)
  show "find_slot (\<lambda>r. ir_tag r = ip_tag sample_trw (rc5_encrypt 0 (tw_key sample_trw))) (tw_ip_table sample_trw) (ip_slots sample_trw (rc5_encrypt 0 (tw_key sample_trw))) = Some None"
    by (simp add: sample_trw_def sample_config_def sample_rc5 ip_slots_def ip_tag_def)
qed

theorem scanner_blocked_witness:
  "\<exists>s'. trw_scan 0 sample_trw [sample_probe 1, sample_probe 4] = Some (s', [False, True])"
  using scanner_blocked[OF sample_wf(1,2) _ sample_scan_ok(2,1)] by (simp add: sample_trw_def sample_config_def)

theorem ip_packets_keep_bounds_witness:
  "\<exists>s' d. trw_core (fst (sample_probe 1)) 0 0 1 sample_trw = Some (s', d) \<and> trw_wf s' \<and> bounded s'"
proof -
  have "0 < tc_con_size (tw_cfg sample_trw)" by (simp add: sample_trw_def sample_config_def)
  moreover have "scan_ready sample_trw 0 0" using sample_scan_ok(2) by (simp add: scan_ready_def)
  moreover have "sample_probe 1 = (fst (sample_probe 1), 0, 1)" by (simp add: sample_probe_def)
  ultimately obtain s' d where "trw_core (fst (sample_probe 1)) 0 0 1 sample_trw = Some (s', d)"
    using scan_step[OF sample_wf(1,2), of 0 0 "fst (sample_probe 1)" 0 1 "[sample_probe 4]"] sample_scan_ok(1) by fastforce
  with ip_packets_keep_bounds[OF sample_wf(1,2) this] show ?thesis by blast
qed

section \<open>Deviations\<close>

text \<open>The ARP path does not clamp the count: from 127 it wraps to the marker of a free record.\<close>

lemma arp_count_wraps: "i < length (tw_ip_table s) \<Longrightarrow> count s i = 127 \<Longrightarrow> count (set_count i (count s i + 1) s) i = -128"
  by simp

text \<open>A positive count that is old enough is lowered, but its timestamp advances by the other age.\<close>

lemma positive_count_aging:
  assumes "find_slot (\<lambda>r. ir_tag r = ip_tag s enc) (tw_ip_table s) (ip_slots s enc) = Some (Some a)" "0 < count s a"
    "uint (ucast (tc_decr_age (tw_cfg s)) :: byte) < uint (last8 s) - uint (ir_timestamp (tw_ip_table s ! a))"
  shows "find_ip_step s enc = Some (Inl (put_ip a ((tw_ip_table s ! a)\<lparr>ir_timestamp := ir_timestamp (tw_ip_table s ! a) + ucast (tc_incr_age (tw_cfg s)),
    ir_count := int8 (count s a - 1)\<rparr>) s))"
  using assms by (simp add: find_ip_step_def Let_def)

text \<open>Another packet of an established connection erases the record of the other direction.\<close>

lemma established_erases_peer:
  assumes "status s sc AND 1 \<noteq> 0" "count s si < tc_block (tw_cfg s)" "status s dc AND 2 = 0"
  shows "trw_decide p iph si di sc dc s = Some (set_status dc 0 s, False)"
  using assms by (simp add: trw_decide_def)

text \<open>Only tables with exactly 65536 sets are accepted.\<close>

lemma configure_exact_sets: "trw_configure plen ni no ji jc e c = Some (Inr s) \<Longrightarrow> tc_ip_size c div tc_assoc c = 65536"
  using configure_wf by blast

end
