(* ===== verification/Unibo_QoS.thy ===== *)
theory Unibo_QoS
  imports Click_Prelude
begin

text \<open>
  The QoS elements of \<open>unibo_qos/package\<close>: \<open>SplitFirst\<close> and \<open>CheckAverageLength\<close> single out
  real-time flows by their packet lengths, \<open>GetSSRC\<close> and \<open>RTPClassifier\<close> by the repetition of
  the RTP source identifier. A handler returns the output port of the packet; \<^const>\<open>None\<close> is
  an access outside of the packet or a division by zero.
\<close>

section \<open>SplitFirst\<close>

record split_first =
  sf_threshold :: u32
  sf_current :: u32

definition split_first_push :: "split_first \<Rightarrow> split_first \<times> nat" where
  "split_first_push s =
     (let n = sf_current s + 1
      in (s\<lparr>sf_current := n\<rparr>, if sf_threshold s < n then 0 else 1))"

section \<open>CheckAverageLength\<close>

abbreviation (input) "ELM \<equiv> 15 :: nat"

record average_length =
  al_a :: "u32 list"
  al_min :: u32
  al_av_length :: u32
  al_cont :: u32

definition al_media :: "average_length \<Rightarrow> average_length" where
  "al_media s = s\<lparr>al_a := replicate ELM 0, al_cont := 0\<rparr>"

text \<open>The loop runs from \<open>ELM-1\<close> down to 1.\<close>

definition al_ins :: "u32 \<Rightarrow> average_length \<Rightarrow> average_length" where
  "al_ins dato s = s\<lparr>al_a := (fold (\<lambda>x a. a[x := a ! (x - 1)]) (rev [1..<ELM]) (al_a s))[0 := dato]\<rparr>"

definition al_average :: "average_length \<Rightarrow> (average_length \<times> u32) option" where
  "al_average s =
     (let s1 = s\<lparr>al_cont := al_cont s + 1\<rparr>;
          total = fold (\<lambda>i acc. acc + al_a s ! i) [0..<ELM] 0
      in if al_cont s1 < 15
         then (if al_cont s1 = 0 then None else Some (s1, total div al_cont s1))
         else Some (s1, total div 15))"

definition average_length_push :: "average_length \<Rightarrow> u32 \<Rightarrow> (average_length \<times> nat) option" where
  "average_length_push s len =
     do {
       (s1, av) \<leftarrow> al_average (al_ins len s);
       let s2 = s1\<lparr>al_av_length := av\<rparr>;
       Some (s2, if av < al_min s2 then 1 else 0)
     }"

section \<open>GetSSRC\<close>

text \<open>
  The annotation macros access one byte. The loop shifts four bytes of the packet into a
  32-bit word.
\<close>

definition ssrc_of :: "byte list \<Rightarrow> nat \<Rightarrow> u32 option" where
  "ssrc_of p off = forM (\<lambda>i ssrc. do { b \<leftarrow> rd8 p (off + i); Some (push_bit 8 ssrc OR ucast b) }) [0..<4] 0"

text \<open>The port, and the annotation if it is set.\<close>

definition get_ssrc_push :: "u32 \<Rightarrow> byte list \<Rightarrow> (nat \<times> byte option) option" where
  "get_ssrc_push offset p =
     (if word_of_nat (length p) < offset + 4 then Some (1, None)
      else do { ssrc \<leftarrow> ssrc_of p (unat offset); Some (0, Some (ucast ssrc)) })"

section \<open>RTPClassifier\<close>

text \<open>The columns of a row: identifier, time, flag, class and number of packets.\<close>

record row =
  r_ssrc :: u32
  r_time :: u32
  r_flag :: u32
  r_rtp :: u32
  r_count :: u32

record rtp_classifier =
  rc_table :: "row list"
  rc_tabrtp :: "row list"

abbreviation (input) "MAX_ROWS \<equiv> 20 :: nat"
abbreviation (input) "NRTP \<equiv> 3 :: nat"
abbreviation (input) "FLOW_ERROR \<equiv> 1000 :: nat"
abbreviation (input) "NORTP \<equiv> 20000 :: nat"

definition zero_row :: row where
  "zero_row = \<lparr>r_ssrc = 0, r_time = 0, r_flag = 0, r_rtp = 0, r_count = 0\<rparr>"

definition flow_table :: rtp_classifier where
  "flow_table = \<lparr>rc_table = replicate MAX_ROWS zero_row, rc_tabrtp = replicate NRTP zero_row\<rparr>"

definition del_old_rows :: "u32 \<Rightarrow> u32 \<Rightarrow> row list \<Rightarrow> row list" where
  "del_old_rows now limit =
     map (\<lambda>r. if r_flag r \<noteq> 0 \<and> limit < now - r_time r then r\<lparr>r_flag := 0\<rparr> else r)"

definition del_old_flow :: "u32 \<Rightarrow> rtp_classifier \<Rightarrow> rtp_classifier" where
  "del_old_flow now s =
     s\<lparr>rc_table := del_old_rows now 2 (rc_table s), rc_tabrtp := del_old_rows now 30 (rc_tabrtp s)\<rparr>"

definition is_rtp :: "rtp_classifier \<Rightarrow> nat \<Rightarrow> bool" where
  "is_rtp s x \<longleftrightarrow> r_flag (rc_tabrtp s ! x) = 1 \<and> r_rtp (rc_tabrtp s ! x) = 1"

text \<open>The first row that satisfies a condition.\<close>

fun first_row :: "(row \<Rightarrow> bool) \<Rightarrow> nat \<Rightarrow> row list \<Rightarrow> nat option" where
  "first_row P x [] = None"
| "first_row P x (r # rs) = (if P r then Some x else first_row P (x + 1) rs)"

definition ins_flow_rtp :: "u32 \<Rightarrow> u32 \<Rightarrow> rtp_classifier \<Rightarrow> rtp_classifier \<times> nat" where
  "ins_flow_rtp ssrc time s =
     (case first_row (\<lambda>r. r_flag r = 0) 0 (rc_tabrtp s) of
        Some x \<Rightarrow> (s\<lparr>rc_tabrtp := (rc_tabrtp s)[x := \<lparr>r_ssrc = ssrc, r_time = time, r_flag = 1, r_rtp = 1, r_count = 7\<rparr>]\<rparr>, x)
      | None \<Rightarrow> (s, FLOW_ERROR))"

definition ins_flow :: "u32 \<Rightarrow> u32 \<Rightarrow> rtp_classifier \<Rightarrow> rtp_classifier \<times> nat" where
  "ins_flow ssrc time s =
     (case first_row (\<lambda>r. r_flag r \<noteq> 0 \<and> r_ssrc r = ssrc) 0 (rc_tabrtp s) of
        Some x \<Rightarrow> (s\<lparr>rc_tabrtp := (rc_tabrtp s)[x := (rc_tabrtp s ! x)\<lparr>r_time := time\<rparr>]\<rparr>, x)
      | None \<Rightarrow>
          (case first_row (\<lambda>r. r_flag r \<noteq> 0 \<and> r_ssrc r = ssrc) 0 (rc_table s) of
             Some x \<Rightarrow>
               let r = rc_table s ! x;
                   r1 = (if r_count r \<le> 6 then r\<lparr>r_count := r_count r + 1\<rparr> else r)\<lparr>r_time := time\<rparr>;
                   s1 = s\<lparr>rc_table := (rc_table s)[x := r1]\<rparr>
               in if 6 < r_count r1 then ins_flow_rtp ssrc time s1 else (s1, NORTP)
           | None \<Rightarrow>
               (case first_row (\<lambda>r. r_flag r = 0) 0 (rc_table s) of
                  Some x \<Rightarrow> (s\<lparr>rc_table := (rc_table s)[x := \<lparr>r_ssrc = ssrc, r_time = time, r_flag = 1, r_rtp = 0, r_count = 1\<rparr>]\<rparr>, NORTP)
                | None \<Rightarrow> (s, FLOW_ERROR))))"

text \<open>The port and the aggregate annotation; \<open>ssrc\<close> is the one-byte annotation of \<open>GetSSRC\<close>.\<close>

definition rtp_push :: "u32 \<Rightarrow> byte \<Rightarrow> rtp_classifier \<Rightarrow> rtp_classifier \<times> nat \<times> nat option" where
  "rtp_push sec ssrc s =
     (let (s1, nf0) = ins_flow (ucast ssrc) sec (del_old_flow sec s);
          nf = (if nf0 = NORTP then FLOW_ERROR else nf0)
      in if nf = FLOW_ERROR then (s1, 1, None)
         else if is_rtp s1 nf then (s1, 0, Some nf)
         else (s1, 1, None))"

section \<open>Averages\<close>

lemma al_shift:
  fixes a :: "u32 list"
  assumes "length a = ELM"
  shows "(fold (\<lambda>x a. a[x := a ! (x - 1)]) (rev [1..<ELM]) a)[0 := d] = d # butlast a"
proof -
  have step: "fold (\<lambda>x a. a[x := a ! (x - 1)]) (rev [m..<n]) b =
      map (\<lambda>i. if m \<le> i \<and> i < n then b ! (i - 1) else b ! i) [0..<length b]"
    if "0 < m" "n \<le> length b" for m n and b :: "u32 list"
    using that
  proof (induction n arbitrary: b)
    case 0
    then show ?case by (simp add: map_nth)
  next
    case (Suc n)
    show ?case
    proof (cases "m \<le> n")
      case True
      define c where "c = b[n := b ! (n - 1)]"
      have c: "length c = length b" "i < length b \<Longrightarrow> c ! i = (if i = n then b ! (n - 1) else b ! i)" for i
        using Suc.prems by (auto simp: c_def nth_list_update)
      have "fold (\<lambda>x a. a[x := a ! (x - 1)]) (rev [m..<Suc n]) b = fold (\<lambda>x a. a[x := a ! (x - 1)]) (rev [m..<n]) c"
        using True by (simp add: c_def)
      also have "\<dots> = map (\<lambda>i. if m \<le> i \<and> i < n then c ! (i - 1) else c ! i) [0..<length c]"
        using Suc.IH[of c] Suc.prems c(1) by simp
      also have "\<dots> = map (\<lambda>i. if m \<le> i \<and> i < Suc n then b ! (i - 1) else b ! i) [0..<length b]"
        using True Suc.prems by (intro map_cong) (auto simp: c)
      finally show ?thesis .
    next
      case False
      then have "map (\<lambda>i. if m \<le> i \<and> i < Suc n then b ! (i - 1) else b ! i) [0..<length b] = map (\<lambda>i. b ! i) [0..<length b]"
        by (intro map_cong) auto
      with False show ?thesis by (simp add: map_nth)
    qed
  qed
  show ?thesis
    using assms step[of 1 ELM a] by (intro nth_equalityI) (auto simp: nth_Cons nth_butlast split: nat.splits)
qed

lemma al_ins_shift: "length (al_a s) = ELM \<Longrightarrow> al_ins d s = s\<lparr>al_a := d # butlast (al_a s)\<rparr>"
  by (simp only: al_ins_def al_shift)

lemma fold_total:
  assumes "length a = n"
  shows "fold (\<lambda>i acc. acc + a ! i) [0..<n] (0 :: u32) = sum_list a"
proof -
  have "fold (\<lambda>i acc. acc + a ! i) xs z = z + sum_list (map (\<lambda>i. a ! i) xs)" for xs and z :: u32
    by (induction xs arbitrary: z) (auto simp: add.assoc)
  then show ?thesis using assms map_nth[of a] by simp
qed

lemma sum_list_words:
  "sum_list (map unat ws) < 2 ^ 32 \<Longrightarrow> unat (sum_list ws :: u32) = sum_list (map unat ws)"
proof (induction ws)
  case (Cons w ws)
  then show ?case by (simp add: unat_word_ariths)
qed simp

text \<open>The state after the lengths \<open>rev ls\<close> (the latest first).\<close>

definition al_after :: "u32 list \<Rightarrow> average_length \<Rightarrow> bool" where
  "al_after ls s \<longleftrightarrow> al_a s = take ELM (ls @ replicate ELM 0) \<and> al_cont s = word_of_nat (length ls)"

lemma al_after_step:
  assumes "al_after ls s" "length ls + 1 < 2 ^ 32"
  shows "\<exists>s'. average_length_push s l = Some (s', if al_av_length s' < al_min s then 1 else 0) \<and> al_after (l # ls) s' \<and>
    al_min s' = al_min s \<and> al_av_length s' = sum_list (take ELM (l # ls)) div word_of_nat (min (length ls + 1) ELM)"
proof -
  define a where "a = take ELM ((l # ls) @ replicate ELM 0)"
  have len: "length (al_a s) = ELM" "length a = ELM" using assms(1) by (auto simp: al_after_def a_def)
  have ins: "al_ins l s = s\<lparr>al_a := a\<rparr>"
  proof -
    have "al_a s = take ELM (ls @ replicate ELM 0)" using assms(1) by (simp add: al_after_def)
    then have "l # butlast (al_a s) = a" using len(1) by (simp add: a_def butlast_conv_take min_def take_Cons')
    then show ?thesis using al_ins_shift[OF len(1), of l] by simp
  qed
  have tot: "sum_list a = sum_list (take ELM (l # ls))"
    by (simp add: a_def sum_list_replicate)
  define n where "n = length ls + 1"
  have n: "unat (word_of_nat n :: u32) = n" using assms(2) unfolding n_def[symmetric] by (subst unat_of_nat) simp
  have cont: "al_cont s + 1 = word_of_nat n" using assms(1) by (simp add: al_after_def n_def)
  have c: "(word_of_nat n :: u32) < 15 \<longleftrightarrow> n < 15" "(word_of_nat n :: u32) \<noteq> 0"
    using n by (auto simp: word_less_nat_alt n_def)
  have "al_average (al_ins l s) = Some (s\<lparr>al_a := a, al_cont := word_of_nat n\<rparr>,
      sum_list (take ELM (l # ls)) div word_of_nat (min n ELM))"
    unfolding ins al_average_def Let_def using c fold_total[OF len(2)] tot cont
    by (simp add: min_def)
  then have "average_length_push s l = Some (s\<lparr>al_a := a, al_cont := word_of_nat n,
      al_av_length := sum_list (take ELM (l # ls)) div word_of_nat (min n ELM)\<rparr>,
      if sum_list (take ELM (l # ls)) div word_of_nat (min n ELM) < al_min s then 1 else 0)"
    by (simp add: average_length_push_def Let_def)
  then show ?thesis by (simp add: al_after_def a_def n_def)
qed

fun average_run :: "average_length \<Rightarrow> u32 list \<Rightarrow> (average_length \<times> nat list) option" where
  "average_run s [] = Some (s, [])"
| "average_run s (l # ls) =
     do {
       (s1, port) \<leftarrow> average_length_push s l;
       (s2, ports) \<leftarrow> average_run s1 ls;
       Some (s2, port # ports)
     }"

lemma sum_list_bound: "\<forall>w\<in>set ws. f w \<le> (b :: nat) \<Longrightarrow> sum_list (map f ws) \<le> length ws * b"
  by (induction ws) auto

lemma average_run_after:
  assumes "al_after old s" "length old + length ls < 2 ^ 32" "\<forall>w\<in>set (old @ ls). unat w < 2 ^ 16"
  shows "\<exists>s'. average_run s ls = Some (s', map (\<lambda>i. if sum_list (map unat (take ELM (rev (take (Suc i) ls) @ old)))
      div min (length old + Suc i) ELM < unat (al_min s) then 1 else 0) [0..<length ls])"
  using assms
proof (induction ls arbitrary: old s)
  case (Cons l ls)
  obtain s1 where s1: "average_length_push s l = Some (s1, if al_av_length s1 < al_min s then 1 else 0)"
    "al_after (l # old) s1" "al_min s1 = al_min s"
    "al_av_length s1 = sum_list (take ELM (l # old)) div word_of_nat (min (length old + 1) ELM)"
    using al_after_step[OF Cons.prems(1), of l] Cons.prems(2) by auto
  have "sum_list (map unat (take ELM (l # old))) \<le> length (take ELM (l # old)) * 2 ^ 16"
  proof -
    have "\<forall>w\<in>set (take ELM (l # old)). unat w \<le> 2 ^ 16"
      using Cons.prems(3) by (auto dest!: in_set_takeD intro: less_imp_le)
    then show ?thesis by (rule sum_list_bound)
  qed
  also have "\<dots> \<le> ELM * 2 ^ 16" by (intro mult_le_mono1) simp
  finally have "unat (sum_list (take ELM (l # old))) = sum_list (map unat (take ELM (l # old)))"
    by (intro sum_list_words) simp
  moreover have "unat (word_of_nat (min (length old + 1) ELM) :: u32) = min (length old + 1) ELM"
    by (subst unat_of_nat) simp
  ultimately have av: "unat (al_av_length s1) = sum_list (map unat (take ELM (l # old))) div min (length old + 1) ELM"
    unfolding s1(4) unat_div by simp
  obtain s2 where s2: "average_run s1 ls = Some (s2, map (\<lambda>i. if sum_list (map unat (take ELM (rev (take (Suc i) ls) @ l # old)))
      div min (length (l # old) + Suc i) ELM < unat (al_min s1) then 1 else 0) [0..<length ls])"
    using Cons.IH[OF s1(2)] Cons.prems(2,3) by auto
  have "[0..<length (l # ls)] = 0 # map Suc [0..<length ls]" by (simp add: map_Suc_upt upt_conv_Cons del: upt_Suc)
  then show ?case using s1(1,3) s2 av by (simp add: word_less_nat_alt comp_def)
qed simp

lemma average_division_by_zero: "average_length_push s l = None \<longleftrightarrow> al_cont s = - 1"
proof -
  have "al_cont s + 1 = 0 \<longleftrightarrow> al_cont s = - 1" by (simp add: eq_neg_iff_add_eq_0)
  moreover have "al_cont s + 1 < 15" if "al_cont s + 1 = 0" using that by simp
  ultimately show ?thesis
    by (auto simp: average_length_push_def al_average_def al_ins_def Let_def split: bind_splits if_splits)
qed

section \<open>The flow tables\<close>

lemma first_row_Some:
  "first_row P x rs = Some y \<Longrightarrow> \<exists>k<length rs. y = x + k \<and> P (rs ! k) \<and> (\<forall>j<k. \<not> P (rs ! j))"
proof (induction rs arbitrary: x)
  case (Cons r rs)
  show ?case
  proof (cases "P r")
    case False
    with Cons.IH[of "x + 1"] Cons.prems
    obtain k where k: "k < length rs" "y = x + 1 + k" "P (rs ! k)" "\<forall>j<k. \<not> P (rs ! j)" by auto
    with False have "\<forall>j<Suc k. \<not> P ((r # rs) ! j)" by (auto simp: less_Suc_eq_0_disj)
    with k show ?thesis by (intro exI[of _ "Suc k"]) auto
  qed (use Cons in auto)
qed simp

lemma first_row_None: "first_row P x rs = None \<longleftrightarrow> (\<forall>r\<in>set rs. \<not> P r)"
  by (induction rs arbitrary: x) auto

lemma first_row_cases:
  obtains (found) x where "first_row P 0 rs = Some x" "x < length rs" "P (rs ! x)"
  | (none) "first_row P 0 rs = None" "\<forall>r\<in>set rs. \<not> P r"
proof (cases "first_row P 0 rs")
  case (Some x)
  then show ?thesis using first_row_Some[of P 0 rs x] found by auto
qed (use none first_row_None[of P 0 rs] in auto)

text \<open>Flags are 0 or 1, an identifier has at most one active row, and the second table only holds RTP flows.\<close>

definition active :: "u32 \<Rightarrow> row \<Rightarrow> bool" where
  "active ssrc r \<longleftrightarrow> r_flag r \<noteq> 0 \<and> r_ssrc r = ssrc"

definition rows_ok :: "row list \<Rightarrow> bool" where
  "rows_ok rs \<longleftrightarrow> (\<forall>r\<in>set rs. r_flag r = 0 \<or> r_flag r = 1) \<and>
     (\<forall>i<length rs. \<forall>j<length rs. r_flag (rs ! i) \<noteq> 0 \<and> r_flag (rs ! j) \<noteq> 0 \<and> r_ssrc (rs ! i) = r_ssrc (rs ! j) \<longrightarrow> i = j)"

definition rtp_inv :: "rtp_classifier \<Rightarrow> bool" where
  "rtp_inv s \<longleftrightarrow> length (rc_table s) = MAX_ROWS \<and> length (rc_tabrtp s) = NRTP \<and>
     rows_ok (rc_table s) \<and> rows_ok (rc_tabrtp s) \<and> (\<forall>r\<in>set (rc_tabrtp s). r_flag r \<noteq> 0 \<longrightarrow> r_rtp r = 1)"

lemma rtp_inv_init: "rtp_inv flow_table"
  by (simp add: rtp_inv_def flow_table_def rows_ok_def zero_row_def nth_append)

lemma del_old_rows_nth:
  "i < length rs \<Longrightarrow> del_old_rows now l rs ! i = (if r_flag (rs ! i) \<noteq> 0 \<and> l < now - r_time (rs ! i) then (rs ! i)\<lparr>r_flag := 0\<rparr> else rs ! i)"
  by (simp add: del_old_rows_def)

lemma length_del_old_rows [simp]: "length (del_old_rows now l rs) = length rs"
  by (simp add: del_old_rows_def)

lemma rows_ok_del: "rows_ok rs \<Longrightarrow> rows_ok (del_old_rows now l rs)"
  unfolding rows_ok_def by (auto simp: del_old_rows_nth) (auto simp: del_old_rows_def split: if_splits)

lemma rtp_inv_del: "rtp_inv s \<Longrightarrow> rtp_inv (del_old_flow now s)"
  by (auto simp: rtp_inv_def del_old_flow_def rows_ok_del) (auto simp: del_old_rows_def split: if_splits)

lemma rows_ok_update:
  assumes "rows_ok rs" "x < length rs" "r_flag r = 0 \<or> r_flag r = 1"
    and "\<And>j. j < length rs \<Longrightarrow> j \<noteq> x \<Longrightarrow> r_flag r \<noteq> 0 \<Longrightarrow> \<not> active (r_ssrc r) (rs ! j)"
  shows "rows_ok (rs[x := r])"
proof -
  have "\<forall>q\<in>set (rs[x := r]). r_flag q = 0 \<or> r_flag q = 1"
    using assms(1,3) set_update_subset_insert[of rs x r] by (auto simp: rows_ok_def)
  moreover have "i = j" if "i < length rs" "j < length rs" "r_flag (rs[x := r] ! i) \<noteq> 0" "r_flag (rs[x := r] ! j) \<noteq> 0"
      "r_ssrc (rs[x := r] ! i) = r_ssrc (rs[x := r] ! j)" for i j
    using that assms unfolding rows_ok_def active_def by (auto simp: nth_list_update split: if_splits)
  ultimately show ?thesis by (simp add: rows_ok_def)
qed

lemma rows_ok_touch:
  assumes "rows_ok rs" "x < length rs" "r_flag r = r_flag (rs ! x)" "r_ssrc r = r_ssrc (rs ! x)"
  shows "rows_ok (rs[x := r])"
  using assms by (intro rows_ok_update) (auto simp: rows_ok_def active_def)

lemma set_update_ball:
  "x < length rs \<Longrightarrow> (\<forall>r\<in>set rs. P r) \<Longrightarrow> P q \<Longrightarrow> (\<forall>r\<in>set (rs[x := q]). P r)"
  using set_update_subset_insert[of rs x q] by auto

lemma ins_flow_rtp_step:
  assumes "rtp_inv s" "\<forall>r\<in>set (rc_tabrtp s). \<not> active ssrc r"
  shows "rtp_inv (fst (ins_flow_rtp ssrc t s))"
    and "snd (ins_flow_rtp ssrc t s) \<noteq> FLOW_ERROR \<longleftrightarrow> (\<exists>r\<in>set (rc_tabrtp s). r_flag r = 0)"
    and "snd (ins_flow_rtp ssrc t s) \<noteq> FLOW_ERROR \<Longrightarrow> snd (ins_flow_rtp ssrc t s) < NRTP \<and> is_rtp (fst (ins_flow_rtp ssrc t s)) (snd (ins_flow_rtp ssrc t s))"
proof -
  define r where "r = \<lparr>r_ssrc = ssrc, r_time = t, r_flag = 1 :: u32, r_rtp = 1 :: u32, r_count = 7 :: u32\<rparr>"
  have len: "length (rc_tabrtp s) = NRTP" using assms(1) by (simp add: rtp_inv_def)
  have "rtp_inv (fst (ins_flow_rtp ssrc t s)) \<and>
    (snd (ins_flow_rtp ssrc t s) \<noteq> FLOW_ERROR \<longleftrightarrow> (\<exists>r\<in>set (rc_tabrtp s). r_flag r = 0)) \<and>
    (snd (ins_flow_rtp ssrc t s) \<noteq> FLOW_ERROR \<longrightarrow> snd (ins_flow_rtp ssrc t s) < NRTP \<and> is_rtp (fst (ins_flow_rtp ssrc t s)) (snd (ins_flow_rtp ssrc t s)))"
  proof (cases rule: first_row_cases[of "\<lambda>r. r_flag r = 0" "rc_tabrtp s"])
    case (found x)
    have "rows_ok ((rc_tabrtp s)[x := r])"
      using assms found by (intro rows_ok_update) (auto simp: rtp_inv_def r_def)
    moreover have "\<forall>q\<in>set ((rc_tabrtp s)[x := r]). r_flag q \<noteq> 0 \<longrightarrow> r_rtp q = 1"
      using assms(1) found by (intro set_update_ball) (auto simp: rtp_inv_def r_def)
    moreover have "\<exists>q\<in>set (rc_tabrtp s). r_flag q = 0" using found by (auto intro: bexI[of _ "rc_tabrtp s ! x"])
    ultimately show ?thesis using assms(1) found len by (auto simp: ins_flow_rtp_def rtp_inv_def r_def is_rtp_def)
  next
    case none
    then show ?thesis using assms(1) by (simp add: ins_flow_rtp_def)
  qed
  then show "rtp_inv (fst (ins_flow_rtp ssrc t s))"
    and "snd (ins_flow_rtp ssrc t s) \<noteq> FLOW_ERROR \<longleftrightarrow> (\<exists>r\<in>set (rc_tabrtp s). r_flag r = 0)"
    and "snd (ins_flow_rtp ssrc t s) \<noteq> FLOW_ERROR \<Longrightarrow> snd (ins_flow_rtp ssrc t s) < NRTP \<and> is_rtp (fst (ins_flow_rtp ssrc t s)) (snd (ins_flow_rtp ssrc t s))"
    by blast+
qed

text \<open>The condition on the tables under which a packet is classified as RTP.\<close>

definition rtp_class :: "u32 \<Rightarrow> rtp_classifier \<Rightarrow> bool" where
  "rtp_class ssrc s \<longleftrightarrow> (\<exists>r\<in>set (rc_tabrtp s). active ssrc r) \<or>
     (\<exists>r\<in>set (rc_table s). active ssrc r \<and> 6 \<le> r_count r) \<and> (\<exists>r\<in>set (rc_tabrtp s). r_flag r = 0)"

lemma count_next: "6 < (if c \<le> 6 then c + 1 else c) \<longleftrightarrow> 6 \<le> (c :: u32)"
proof (cases "c \<le> 6")
  case True
  then have "unat c \<le> 6" by (simp add: word_le_nat_alt)
  then have "unat (c + 1) = unat c + 1" by (simp add: unat_word_ariths)
  then show ?thesis using True by (simp add: word_less_nat_alt word_le_nat_alt) linarith
qed (auto simp: not_le)

lemma ins_flow_step:
  assumes inv: "rtp_inv s" and r_def: "r = ins_flow ssrc t s"
  shows "rtp_inv (fst r)"
    and "rtp_class ssrc s \<longleftrightarrow> snd r \<noteq> FLOW_ERROR \<and> snd r \<noteq> NORTP"
    and "snd r \<noteq> FLOW_ERROR \<Longrightarrow> snd r \<noteq> NORTP \<Longrightarrow> snd r < NRTP \<and> is_rtp (fst r) (snd r)"
proof -
  let ?P = "\<lambda>r. r_flag r \<noteq> 0 \<and> r_ssrc r = ssrc"
  have act: "?P = active ssrc" by (auto simp: active_def fun_eq_iff)
  have i: "length (rc_table s) = MAX_ROWS" "length (rc_tabrtp s) = NRTP" "rows_ok (rc_table s)" "rows_ok (rc_tabrtp s)"
    "\<forall>r\<in>set (rc_tabrtp s). r_flag r \<noteq> 0 \<longrightarrow> r_rtp r = 1" using inv by (auto simp: rtp_inv_def)
  have "rtp_inv (fst r) \<and> (rtp_class ssrc s \<longleftrightarrow> snd r \<noteq> FLOW_ERROR \<and> snd r \<noteq> NORTP) \<and>
    (snd r \<noteq> FLOW_ERROR \<and> snd r \<noteq> NORTP \<longrightarrow> snd r < NRTP \<and> is_rtp (fst r) (snd r))"
  proof (cases rule: first_row_cases[of ?P "rc_tabrtp s"])
    case (found x)
    define q where "q = (rc_tabrtp s ! x)\<lparr>r_time := t\<rparr>"
    have r: "r = (s\<lparr>rc_tabrtp := (rc_tabrtp s)[x := q]\<rparr>, x)" using found by (simp add: r_def ins_flow_def q_def)
    have x: "rc_tabrtp s ! x \<in> set (rc_tabrtp s)" "r_flag (rc_tabrtp s ! x) = 1" "r_rtp (rc_tabrtp s ! x) = 1"
      using found i(4,5) by (auto simp: rows_ok_def)
    have "rows_ok ((rc_tabrtp s)[x := q])" using i(4) found by (intro rows_ok_touch) (auto simp: q_def)
    moreover have "\<forall>q\<in>set ((rc_tabrtp s)[x := q]). r_flag q \<noteq> 0 \<longrightarrow> r_rtp q = 1"
      using i(5) found x by (intro set_update_ball) (auto simp: q_def)
    moreover have "rtp_class ssrc s" using x(1) found by (auto simp: rtp_class_def active_def)
    ultimately show ?thesis using i found x by (auto simp: r rtp_inv_def is_rtp_def q_def)
  next
    case none
    note nrtp = none
    show ?thesis
    proof (cases rule: first_row_cases[of ?P "rc_table s"])
      case (found x)
      define q where "q = (if r_count (rc_table s ! x) \<le> 6 then (rc_table s ! x)\<lparr>r_count := r_count (rc_table s ! x) + 1\<rparr> else rc_table s ! x)\<lparr>r_time := t\<rparr>"
      define s1 where "s1 = s\<lparr>rc_table := (rc_table s)[x := q]\<rparr>"
      have r: "r = (if 6 < r_count q then ins_flow_rtp ssrc t s1 else (s1, NORTP))"
        unfolding r_def s1_def q_def using found nrtp by (simp add: ins_flow_def Let_def)
      have q: "r_flag q = r_flag (rc_table s ! x)" "r_ssrc q = r_ssrc (rc_table s ! x)" "6 < r_count q \<longleftrightarrow> 6 \<le> r_count (rc_table s ! x)"
        using count_next[of "r_count (rc_table s ! x)"] by (auto simp: q_def)
      have "rows_ok ((rc_table s)[x := q])" using i(3) found q by (intro rows_ok_touch) auto
      then have inv1: "rtp_inv s1" using i by (simp add: rtp_inv_def s1_def)
      have "(\<exists>p\<in>set (rc_table s). active ssrc p \<and> 6 \<le> r_count p) \<longleftrightarrow> 6 \<le> r_count (rc_table s ! x)"
      proof
        assume "\<exists>p\<in>set (rc_table s). active ssrc p \<and> 6 \<le> r_count p"
        then obtain k where "k < length (rc_table s)" "active ssrc (rc_table s ! k)" "6 \<le> r_count (rc_table s ! k)"
          by (auto simp: in_set_conv_nth)
        moreover from this found i(3) have "k = x" by (auto simp: rows_ok_def active_def)
        ultimately show "6 \<le> r_count (rc_table s ! x)" by simp
      qed (use found in \<open>auto simp: active_def intro!: bexI[of _ "rc_table s ! x"]\<close>)
      then have cls: "rtp_class ssrc s \<longleftrightarrow> 6 < r_count q \<and> (\<exists>r\<in>set (rc_tabrtp s). r_flag r = 0)"
        using nrtp by (auto simp: rtp_class_def active_def q(3))
      have na: "\<forall>r\<in>set (rc_tabrtp s1). \<not> active ssrc r" using nrtp by (auto simp: s1_def active_def)
      show ?thesis
      proof (cases "6 < r_count q")
        case True
        note rt = ins_flow_rtp_step[OF inv1 na, of t]
        have "snd (ins_flow_rtp ssrc t s1) \<noteq> NORTP" using rt(3) by (cases "snd (ins_flow_rtp ssrc t s1) = FLOW_ERROR") auto
        with True rt cls show ?thesis by (auto simp: r s1_def)
      next
        case False
        then show ?thesis using inv1 cls by (simp add: r)
      qed
    next
      case none
      have cls: "\<not> rtp_class ssrc s" using none(2) nrtp(2) by (auto simp: rtp_class_def active_def)
      show ?thesis
      proof (cases rule: first_row_cases[of "\<lambda>r. r_flag r = 0" "rc_table s"])
        case (found x)
        have "rows_ok ((rc_table s)[x := \<lparr>r_ssrc = ssrc, r_time = t, r_flag = 1, r_rtp = 0, r_count = 1\<rparr>])"
          using i(3) found none(2) by (intro rows_ok_update) (auto simp: active_def)
        then show ?thesis using i found none nrtp cls by (simp add: r_def ins_flow_def rtp_inv_def)
      next
        case none2: none
        then show ?thesis using inv none nrtp cls by (simp add: r_def ins_flow_def)
      qed
    qed
  qed
  then show "rtp_inv (fst r)" "rtp_class ssrc s \<longleftrightarrow> snd r \<noteq> FLOW_ERROR \<and> snd r \<noteq> NORTP"
    "snd r \<noteq> FLOW_ERROR \<Longrightarrow> snd r \<noteq> NORTP \<Longrightarrow> snd r < NRTP \<and> is_rtp (fst r) (snd r)" by blast+
qed

lemma rtp_push_step:
  assumes "rtp_inv s"
  shows "rtp_inv (fst (rtp_push sec ssrc s))"
    and "fst (snd (rtp_push sec ssrc s)) = (if rtp_class (ucast ssrc) (del_old_flow sec s) then 0 else 1)"
proof -
  define r where "r = ins_flow (ucast ssrc) sec (del_old_flow sec s)"
  note step = ins_flow_step[OF rtp_inv_del[OF assms] r_def]
  show "rtp_inv (fst (rtp_push sec ssrc s))"
    using step(1) by (simp add: rtp_push_def r_def[symmetric] case_prod_unfold Let_def)
  show "fst (snd (rtp_push sec ssrc s)) = (if rtp_class (ucast ssrc) (del_old_flow sec s) then 0 else 1)"
    using step(2,3) by (auto simp: rtp_push_def r_def[symmetric] case_prod_unfold Let_def)
qed

section \<open>Properties\<close>

text \<open>
  A sequence of packets through \<open>CheckAverageLength\<close>. The port of packet \<open>i\<close> is
  decided by comparing \<open>MINLENGTH\<close> with the average length of the last 15 packets up to and
  including \<open>i\<close>, or of all of them while there are fewer (fewer than \<open>2 ^ 32\<close> packets, of less
  than 64 KB each).
\<close>

theorem average_of_last_packets:
  assumes "length ls < 2 ^ 32" "\<forall>w\<in>set ls. unat w < 2 ^ 16"
  shows "\<exists>s'. average_run (al_media s) ls = Some (s', map (\<lambda>i.
      if sum_list (map unat (take ELM (rev (take (Suc i) ls)))) div min (Suc i) ELM < unat (al_min s) then 1 else 0) [0..<length ls])"
  using average_run_after[of "[]" "al_media s" ls] assms by (simp add: al_after_def al_media_def)

theorem average_of_last_packets_witness:
  "\<exists>s'. average_run (al_media \<lparr>al_a = [], al_min = 150, al_av_length = 0, al_cont = 0\<rparr>) [100, 300, 40] = Some (s', [1, 0, 1])"
  using average_of_last_packets[of "[100, 300, 40]" "\<lparr>al_a = [], al_min = 150, al_av_length = 0, al_cont = 0\<rparr>"]
  by (simp add: upt_rec take_Cons' flip: numeral_2_eq_2)

text \<open>
  Property C30: the decision of \<open>RTPClassifier\<close>. The tables keep their invariant (at most one
  active row for an identifier, only RTP flows in the second table), and a packet leaves on
  port 0 exactly if, among the rows that have not timed out, its identifier is in the second
  table, or the first table has counted at least six packets of it and the second has a free row. The count is of the
  packets before this one, so that the seventh packet of a flow is the first to leave on port 0, where the comment in
  \<open>push\<close> and the documentation say the sixth.
\<close>

theorem rtp_decision:
  assumes "rtp_inv s"
  shows "rtp_inv (fst (rtp_push sec ssrc s)) \<and>
    (fst (snd (rtp_push sec ssrc s)) = 0 \<longleftrightarrow> rtp_class (ucast ssrc) (del_old_flow sec s)) \<and>
    (fst (snd (rtp_push sec ssrc s)) = 1 \<longleftrightarrow> \<not> rtp_class (ucast ssrc) (del_old_flow sec s))"
  using rtp_push_step[OF assms, of sec ssrc] by simp

theorem rtp_decision_witness:
  "rtp_inv (fst (rtp_push 5 7 flow_table)) \<and> fst (snd (rtp_push 5 7 flow_table)) = 1"
  using rtp_decision[OF rtp_inv_init, of 5 7]
  by (simp add: rtp_class_def active_def flow_table_def del_old_flow_def del_old_rows_def zero_row_def)

text \<open>A single flow with packets at the given times.\<close>

fun rtp_run :: "byte \<Rightarrow> rtp_classifier \<Rightarrow> u32 list \<Rightarrow> nat list" where
  "rtp_run ssrc s [] = []"
| "rtp_run ssrc s (t # ts) = (case rtp_push t ssrc s of (s1, port, _) \<Rightarrow> port # rtp_run ssrc s1 ts)"

fun close_gaps :: "u32 \<Rightarrow> u32 list \<Rightarrow> bool" where
  "close_gaps t [] = True"
| "close_gaps t (u # us) = (u - t \<le> 2 \<and> close_gaps u us)"

text \<open>What the tables hold of the flow after \<open>n\<close> packets, the last one at \<open>t\<close>.\<close>

definition flow_seen :: "u32 \<Rightarrow> nat \<Rightarrow> u32 \<Rightarrow> rtp_classifier \<Rightarrow> bool" where
  "flow_seen ssrc n t s \<longleftrightarrow> rtp_inv s \<and>
     (if n = 0 then s = flow_table
      else if n < 7 then
        rc_table s = \<lparr>r_ssrc = ssrc, r_time = t, r_flag = 1, r_rtp = 0, r_count = word_of_nat n\<rparr> # replicate 19 zero_row \<and>
        rc_tabrtp s = replicate 3 zero_row
      else r_ssrc (hd (rc_tabrtp s)) = ssrc \<and> r_flag (hd (rc_tabrtp s)) = 1 \<and> r_rtp (hd (rc_tabrtp s)) = 1 \<and> r_time (hd (rc_tabrtp s)) = t)"

lemma first_row_replicate: "\<not> P r \<Longrightarrow> first_row P x (replicate n r) = None"
  by (simp add: first_row_None)

lemma replicate_rows: "replicate MAX_ROWS r = r # replicate 19 r" "replicate NRTP r = r # replicate 2 r"
  by (simp_all add: replicate_Suc[symmetric] del: replicate_Suc)

lemma flow_seen_step:
  assumes fs: "flow_seen (ucast ssrc) n t s" and gap: "n = 0 \<or> u - t \<le> 2"
  shows "\<exists>s1 a. rtp_push u ssrc s = (s1, if n < 6 then 1 else 0, a) \<and> flow_seen (ucast ssrc) (Suc n) u s1"
proof -
  have inv1: "rtp_inv (fst (rtp_push u ssrc s))" using fs rtp_push_step(1) by (simp add: flow_seen_def)
  have keep: "\<not> 2 < u - t" "\<not> 30 < u - t" if "n \<noteq> 0" using gap that by (auto simp: word_less_nat_alt word_le_nat_alt)
  consider "n = 0" | "n \<noteq> 0" "n < 7" | "7 \<le> n" by linarith
  then show ?thesis
  proof cases
    case 1
    then have "s = flow_table" using fs by (simp add: flow_seen_def)
    then show ?thesis using inv1 1
      by (simp add: rtp_push_def ins_flow_def flow_table_def del_old_flow_def del_old_rows_def zero_row_def replicate_rows
          first_row_replicate flow_seen_def)
  next
    case 2
    then have s: "rc_table s = \<lparr>r_ssrc = ucast ssrc, r_time = t, r_flag = 1, r_rtp = 0, r_count = word_of_nat n\<rparr> # replicate 19 zero_row"
      "rc_tabrtp s = replicate 3 zero_row" using fs by (auto simp: flow_seen_def)
    have n: "n = 1 \<or> n = 2 \<or> n = 3 \<or> n = 4 \<or> n = 5 \<or> n = 6" using 2 by linarith
    have del: "del_old_flow u s = s"
      using s keep[OF 2(1)] by (simp add: del_old_flow_def del_old_rows_def zero_row_def)
    have tab: "rc_tabrtp s = zero_row # replicate 2 zero_row" using s(2) by (simp add: replicate_rows)
    show ?thesis using inv1 n
      by (elim disjE) (simp_all add: rtp_push_def del ins_flow_def ins_flow_rtp_def tab s(1) zero_row_def Let_def is_rtp_def
          flow_seen_def first_row_replicate replicate_rows)
  next
    case 3
    then have s: "r_ssrc (hd (rc_tabrtp s)) = ucast ssrc" "r_flag (hd (rc_tabrtp s)) = 1" "r_rtp (hd (rc_tabrtp s)) = 1"
      "r_time (hd (rc_tabrtp s)) = t" "length (rc_tabrtp s) = 3" using fs by (auto simp: flow_seen_def rtp_inv_def)
    then obtain r rs where rs: "rc_tabrtp s = r # rs" by (cases "rc_tabrtp s") auto
    have "n \<noteq> 0" using 3 by simp
    from keep[OF this] show ?thesis using inv1 3 s rs
      by (simp add: rtp_push_def ins_flow_def del_old_flow_def del_old_rows_def is_rtp_def flow_seen_def)
  qed
qed

lemma rtp_run_from:
  assumes "flow_seen (ucast ssrc) n t s" "n = 0 \<or> close_gaps t ts" "n = 0 \<longrightarrow> ts = [] \<or> close_gaps (hd ts) (tl ts)"
  shows "rtp_run ssrc s ts = map (\<lambda>i. if n + i < 6 then 1 else 0) [0..<length ts]"
  using assms
proof (induction ts arbitrary: n t s)
  case (Cons u us)
  then have gap: "n = 0 \<or> u - t \<le> 2" by auto
  obtain s1 a where s1: "rtp_push u ssrc s = (s1, if n < 6 then 1 else 0, a)" "flow_seen (ucast ssrc) (Suc n) u s1"
    using flow_seen_step[OF Cons.prems(1) gap] by blast
  have "close_gaps u us" using Cons.prems(2,3) by auto
  then have "rtp_run ssrc s1 us = map (\<lambda>i. if Suc n + i < 6 then 1 else 0) [0..<length us]"
    using Cons.IH[OF s1(2)] by simp
  moreover have "[0..<length (u # us)] = 0 # map Suc [0..<length us]" by (simp add: map_Suc_upt upt_conv_Cons del: upt_Suc)
  ultimately show ?case using s1(1) by (simp add: comp_def)
qed simp

text \<open>
  A flow whose packets are at most two seconds apart is recognised at its seventh
  packet: starting from empty tables, the first six packets leave on port 1 and all later
  ones on port 0.
\<close>

theorem rtp_seventh_packet:
  assumes "close_gaps t ts"
  shows "rtp_run ssrc flow_table (t # ts) = map (\<lambda>i. if i < 6 then 1 else 0) [0..<Suc (length ts)]"
  using rtp_run_from[of ssrc 0 t flow_table "t # ts"] assms rtp_inv_init by (simp add: flow_seen_def del: upt_Suc)

theorem rtp_seventh_packet_witness:
  "rtp_run 9 flow_table [10, 11, 12, 14, 14, 15, 16, 17] = [1, 1, 1, 1, 1, 1, 0, 0]"
  using rtp_seventh_packet[of 10 "[11, 12, 14, 14, 15, 16, 17]" 9] by (simp add: upt_rec)

text \<open>The annotation that \<open>GetSSRC\<close> sets is the last byte of the source identifier alone.\<close>

lemma get_ssrc_low_byte:
  assumes "unat off + 4 \<le> length p" "length p < 2 ^ 32"
  shows "get_ssrc_push off p = Some (0, Some (p ! (unat off + 3)))"
proof -
  have "unat (off + 4) = unat off + 4" using assms by (simp add: unat_word_ariths)
  moreover have "unat (word_of_nat (length p) :: u32) = length p" using assms(2) by (simp add: unat_of_nat)
  ultimately have "\<not> word_of_nat (length p) < off + 4" using assms(1) by (simp add: word_less_nat_alt)
  moreover have "\<exists>w. ssrc_of p (unat off) = Some w \<and> ucast w = p ! (unat off + 3)"
  proof -
    obtain w where w: "forM (\<lambda>i ssrc. do { b \<leftarrow> rd8 p (unat off + i); Some (push_bit 8 ssrc OR ucast b) }) [0..<3] (0 :: u32) = Some w"
      using assms(1) by (simp add: upt_rec)
    have "[0..<4] = [0..<3] @ [3 :: nat]" by (simp add: upt_rec)
    then have "ssrc_of p (unat off) = Some (push_bit 8 w OR ucast (p ! (unat off + 3)))"
      using assms(1) w by (simp only: ssrc_of_def forM_append) simp
    moreover have "ucast (push_bit 8 w OR ucast b :: u32) = (b :: byte)" for b
      by (rule bit_word_eqI) (auto simp: bit_ucast_iff bit_or_iff bit_push_bit_iff)
    ultimately show ?thesis by simp
  qed
  ultimately show ?thesis by (auto simp: get_ssrc_push_def)
qed

end
