(* ===== verification/Mcast_PIM.thy ===== *)
theory Mcast_PIM
  imports Click_Checksum
begin

text \<open>
  IPv4 multicast routing between routers (package \<open>multicast\<close>): the table of joined channels
  (\<open>pimforwardingtable.cc\<close>), the generator of PIM messages (\<open>pimcontrol.cc\<close>), the element that completes
  them on the way out (\<open>fixpimsource.cc\<close>) and the multicast Ethernet encapsulation
  (\<open>mcastetherencap.cc\<close>).

  An address is the number its bytes spell; the code's \<open>ntohl\<close> and \<open>htonl\<close> of an address is
  \<^const>\<open>htonl\<close>, the identity or the byte swap. A packet on a wire between elements is its data and its
  destination annotation. What \<open>Packet::make\<close> leaves uninitialised is taken from a buffer that is a
  parameter. \<open>clone\<close> and \<open>uniqueify\<close> are taken to succeed.
\<close>

section \<open>PIMForwardingTable\<close>

record groupsource =
  gs_neighbor :: ip_addr
  gs_group :: ip_addr
  gs_source :: ip_addr

record piminterface =
  pi_interface :: ip_addr
  pi_neighbor :: ip_addr
  pi_groupsources :: "groupsource list"

type_synonym pimtable = "piminterface list"
type_synonym mc_packet = "byte list \<times> ip_addr"

fun ft_addgroup :: "endian \<Rightarrow> ip_addr \<Rightarrow> ip_addr \<Rightarrow> ip_addr \<Rightarrow> pimtable \<Rightarrow> pimtable \<times> bool" where
  "ft_addgroup en ifc grp source [] = ([], False)"
| "ft_addgroup en ifc grp source (i # t) =
     (if pi_interface i = ifc
      then if \<exists>g \<in> set (pi_groupsources i). gs_group g = grp
           then (i # t, False)
           else (i\<lparr>pi_groupsources := pi_groupsources i @
                    [\<lparr>gs_neighbor = 0, gs_group = grp, gs_source = htonl en source\<rparr>]\<rparr> # t, True)
      else let (t1, ok) = ft_addgroup en ifc grp source t in (i # t1, ok))"

text \<open>The first matching entry of the vector, removed; \<^const>\<open>None\<close> when there is none.\<close>

fun erase_first :: "('a \<Rightarrow> bool) \<Rightarrow> 'a list \<Rightarrow> 'a list option" where
  "erase_first P [] = None"
| "erase_first P (x # xs) = (if P x then Some xs else map_option ((#) x) (erase_first P xs))"

fun ft_delgroup :: "endian \<Rightarrow> ip_addr \<Rightarrow> ip_addr \<Rightarrow> ip_addr \<Rightarrow> pimtable \<Rightarrow> pimtable \<times> bool" where
  "ft_delgroup en ifc grp source [] = ([], False)"
| "ft_delgroup en ifc grp source (i # t) =
     (case (if pi_interface i = ifc
            then erase_first (\<lambda>g. gs_group g = grp \<and> gs_source g = htonl en source) (pi_groupsources i)
            else None) of
        Some gs \<Rightarrow> (i\<lparr>pi_groupsources := gs\<rparr> # t, True)
      | None \<Rightarrow> let (t1, ok) = ft_delgroup en ifc grp source t in (i # t1, ok))"

definition ft_addinterface :: "ip_addr \<Rightarrow> ip_addr \<Rightarrow> pimtable \<Rightarrow> pimtable \<times> bool" where
  "ft_addinterface ifc neighbor t =
     (if \<exists>i \<in> set t. pi_interface i = ifc then (t, False)
      else (t @ [\<lparr>pi_interface = ifc, pi_neighbor = neighbor, pi_groupsources = []\<rparr>], True))"

text \<open>A copy of a packet with the TTL decremented (it wraps at zero) and a new header checksum.\<close>

definition forward_copy :: "endian \<Rightarrow> cksum \<Rightarrow> nat \<Rightarrow> byte list \<Rightarrow> byte list option" where
  "forward_copy en ck iph b =
     do {
       ttl \<leftarrow> rd8 b (iph + 8);
       b1 \<leftarrow> wr (iph + 8) [ttl - 1] b;
       vhl \<leftarrow> rd8 b1 iph;
       store_checksum en ck iph 10 (4 * unat (vhl AND 15)) b1
     }"

text \<open>The source is read at the start of the data, the header that is changed is the annotation's.\<close>

fun ft_copies :: "endian \<Rightarrow> cksum \<Rightarrow> nat \<Rightarrow> ip_addr \<Rightarrow> ip_addr \<Rightarrow> byte list \<Rightarrow> ip_addr \<Rightarrow> groupsource list \<Rightarrow> mc_packet list option" where
  "ft_copies en ck iph grp source p neighbor [] = Some []"
| "ft_copies en ck iph grp source p neighbor (g # gs) =
     (if gs_source g = htonl en source \<and> grp = gs_group g
      then do {
        q \<leftarrow> forward_copy en ck iph p;
        out \<leftarrow> ft_copies en ck iph grp source p neighbor gs;
        Some ((q, neighbor) # out)
      }
      else ft_copies en ck iph grp source p neighbor gs)"

definition ft_push :: "endian \<Rightarrow> cksum \<Rightarrow> nat \<Rightarrow> mc_packet \<Rightarrow> pimtable \<Rightarrow> mc_packet list option" where
  "ft_push en ck iph pk t =
     do {
       src \<leftarrow> rdn (fst pk) 12 4;
       outs \<leftarrow> those (map (\<lambda>i. ft_copies en ck iph (snd pk) (u32_of src) (fst pk) (pi_neighbor i) (pi_groupsources i)) t);
       Some (concat outs)
     }"

definition get_upstreamneighbor :: "ip_addr \<Rightarrow> pimtable \<Rightarrow> ip_addr" where
  "get_upstreamneighbor ifc t =
     (case find (\<lambda>i. pi_interface i = ifc) t of Some i \<Rightarrow> pi_neighbor i | None \<Rightarrow> 0)"

text \<open>True when no channel \<open>(source, group)\<close> is in the table.\<close>

definition getPIMreceivers :: "ip_addr \<Rightarrow> ip_addr \<Rightarrow> pimtable \<Rightarrow> bool" where
  "getPIMreceivers source grp t =
     (\<not> (\<exists>i \<in> set t. \<exists>g \<in> set (pi_groupsources i). gs_source g = source \<and> gs_group g = grp))"

section \<open>PIMControl\<close>

text \<open>
  The field \<open>source_connected\<close> is never assigned. \<open>pc_made\<close> counts the packets made, so that the
  uninitialised contents of each can be a different buffer.
\<close>

record pimctl =
  pc_source_connected :: bool
  pc_table :: pimtable
  pc_made :: nat

text \<open>The IP header and the router alert option that start every message.\<close>

definition pim_ip :: "endian \<Rightarrow> byte \<Rightarrow> nat \<Rightarrow> byte list \<Rightarrow> byte list" where
  "pim_ip en ttl len m =
     [0x46, 0xc0] @ be16 (word_of_nat len) @ mem16 en 0x5ff4 @ [0, 0, ttl, 0x67, 0, 0] @
     take 4 (drop 12 m) @ [224, 0, 0, 13] @ [0x94, 0x04, 0, 0]"

definition generatejoin :: "endian \<Rightarrow> byte list \<Rightarrow> ip_addr \<Rightarrow> ip_addr \<Rightarrow> bool \<Rightarrow> mc_packet" where
  "generatejoin en m grp source join =
     (pim_ip en 2 58 m @ [0x23, 0, 0, 0] @
      [1, 0] @ take 4 (drop 30 m) @
      [0, 1, 0xff, 0xff] @
      [1, 0, 4, 32] @ be32 grp @ (if join then be16 1 @ [0, 0] else [0, 0] @ be16 1) @
      [1, 0, 4, 32] @ be32 (htonl en source),
      htonl en source)"

definition ctl_send :: "endian \<Rightarrow> (nat \<Rightarrow> byte list) \<Rightarrow> ip_addr \<Rightarrow> ip_addr \<Rightarrow> bool \<Rightarrow> pimctl \<Rightarrow> pimctl \<times> mc_packet" where
  "ctl_send en mk grp source join c =
     (c\<lparr>pc_made := pc_made c + 1\<rparr>, generatejoin en (mk (pc_made c)) grp source join)"

definition ctl_join :: "endian \<Rightarrow> (nat \<Rightarrow> byte list) \<Rightarrow> ip_addr \<Rightarrow> ip_addr \<Rightarrow> pimctl \<Rightarrow> pimctl \<times> mc_packet list" where
  "ctl_join en mk grp source c =
     (if \<not> pc_source_connected c then let (c1, q) = ctl_send en mk grp source True c in (c1, [q]) else (c, []))"

definition ctl_prune :: "endian \<Rightarrow> (nat \<Rightarrow> byte list) \<Rightarrow> ip_addr \<Rightarrow> ip_addr \<Rightarrow> pimctl \<Rightarrow> pimctl \<times> mc_packet list" where
  "ctl_prune en mk grp source c =
     (if \<not> pc_source_connected c then let (c1, q) = ctl_send en mk grp source False c in (c1, [q]) else (c, []))"

definition htons :: "endian \<Rightarrow> u16 \<Rightarrow> u16" where
  "htons en w = mem_u16 en (be16 w)"

text \<open>The generation identifier is converted with \<open>htons\<close> and stored as 32 bits.\<close>

definition generate_hello :: "endian \<Rightarrow> byte list \<Rightarrow> mc_packet" where
  "generate_hello en m =
     (pim_ip en 1 58 m @ [0x20, 0, 0, 0] @
      be16 1 @ be16 2 @ be16 0x69 @
      be16 2 @ be16 4 @ be32 0x01f409c4 @
      be16 19 @ be16 4 @ be32 2 @
      be16 20 @ be16 4 @ mem32 en (ucast (htons en (word_of_nat 1033457501))),
      u32_of [224, 0, 0, 13])"

text \<open>The timer sends a hello every three seconds.\<close>

definition ctl_run_timer :: "endian \<Rightarrow> (nat \<Rightarrow> byte list) \<Rightarrow> pimctl \<Rightarrow> pimctl \<times> mc_packet \<times> nat" where
  "ctl_run_timer en mk c = (c\<lparr>pc_made := pc_made c + 1\<rparr>, generate_hello en (mk (pc_made c)), 3000)"

definition noPIMreceivers :: "ip_addr \<Rightarrow> ip_addr \<Rightarrow> pimctl \<Rightarrow> bool" where
  "noPIMreceivers grp source c = getPIMreceivers source grp (pc_table c)"

section \<open>Checksums computed in place\<close>

text \<open>
  The loops of \<open>FixPIMSource\<close> and \<open>IGMP::query\<close>: 16-bit words in host order are added in 32 bits, a last odd
  byte is added as it is, the carries are folded.
\<close>

fun sum_words :: "endian \<Rightarrow> u32 \<Rightarrow> byte list \<Rightarrow> u32" where
  "sum_words en s [] = s"
| "sum_words en s [b] = s + ucast b"
| "sum_words en s (a # b # r) = sum_words en (s + ucast (mem_u16 en [a, b])) r"

lemma unat_low16: "unat (s AND 0xFFFF :: u32) = unat s mod 65536"
proof -
  have "s AND 0xFFFF = take_bit 16 s" by (simp add: take_bit_eq_mask mask_eq_exp_minus_1)
  then show ?thesis by (simp only: unsigned_take_bit_eq) (simp add: take_bit_eq_mod)
qed

lemma unat_high16: "unat (drop_bit 16 s :: u32) = unat s div 65536"
  using unsigned_less[of s, where ?'a = nat]
  by (simp only: unsigned_drop_bit_eq) (simp add: drop_bit_eq_div take_bit_nat_eq_self)

lemma unat_carry_step:
  "unat ((s AND 0xFFFF) + drop_bit 16 s :: u32) = unat s mod 65536 + unat s div 65536"
proof -
  have "unat s < 4294967296" using unsigned_less[of s, where ?'a = nat] by simp
  then have "unat s div 65536 < 65536" by (simp add: less_mult_imp_div_less)
  moreover have "unat s mod 65536 < 65536" by simp
  ultimately have "unat s mod 65536 + unat s div 65536 < 4294967296" by linarith
  then show ?thesis by (simp add: unat_word_ariths unat_low16 unat_high16)
qed

function fold_carries :: "u32 \<Rightarrow> u32" where
  "fold_carries s = (if drop_bit 16 s \<noteq> 0 then fold_carries ((s AND 0xFFFF) + drop_bit 16 s) else s)"
  by auto

termination
proof (relation "measure unat")
  fix s :: u32
  assume "drop_bit 16 s \<noteq> 0"
  then have "unat s div 65536 \<noteq> 0" by (metis unat_high16 unat_eq_zero)
  moreover have "unat s = unat s div 65536 * 65536 + unat s mod 65536" by simp
  ultimately have "unat s mod 65536 + unat s div 65536 < unat s" by linarith
  then show "((s AND 0xFFFF) + drop_bit 16 s, s) \<in> measure unat" by (simp add: unat_carry_step)
qed simp

declare fold_carries.simps [simp del]

definition inline_cksum :: "endian \<Rightarrow> byte list \<Rightarrow> u16" where
  "inline_cksum en b = ucast (NOT (fold_carries (sum_words en 0 b)))"

section \<open>FixPIMSource\<close>

definition fixpimsource :: "endian \<Rightarrow> ip_addr \<Rightarrow> pimtable \<Rightarrow> byte list \<Rightarrow> byte list option" where
  "fixpimsource en ifc t p =
     do {
       vhl \<leftarrow> rd8 p 0;
       proto \<leftarrow> rd8 p 9;
       let h = 4 * unat (vhl AND 15);
       if proto = 0x67
       then do {
         ver \<leftarrow> rd8 p h;
         sum0 \<leftarrow> (if ver = 0x23 \<or> ver = 0x13 then rd16 en p (h + 2) else Some 1);
         q \<leftarrow> (if sum0 = 0 then wr (h + 6) (be32 (get_upstreamneighbor ifc t)) p else Some p);
         wr (h + 2) (mem16 en (inline_cksum en (drop h q))) q
       }
       else Some p
     }"

section \<open>IPMulticastEtherEncap\<close>

text \<open>
  The destination is read through a 32-bit variable whose bytes are swapped with \<open>htonl\<close>, so that on a
  little-endian host \<open>ip_data[0]\<close> is the last byte of the address.
\<close>

definition mcast_ether :: "endian \<Rightarrow> byte list \<Rightarrow> byte list" where
  "mcast_ether en a =
     (let d = mem32 en (htonl en (mem_u32 en a)) in
      [0x01, 0x00, 0x5E, push_bit 1 (drop_bit 1 (d ! 2)), d ! 1, d ! 0])"

definition mcast_smaction :: "endian \<Rightarrow> ether_addr \<Rightarrow> u16 \<Rightarrow> byte list \<Rightarrow> byte list option" where
  "mcast_smaction en src etht p =
     do { a \<leftarrow> rdn p 16 4; Some (mcast_ether en a @ src @ be16 etht @ p) }"

section \<open>The loop is RFC 1071's sum\<close>

lemma fold16_carry: "fold16 (n mod 65536 + n div 65536) = fold16 n"
proof (cases "n = 0")
  case False
  have n: "n = n div 65536 * 65536 + n mod 65536" by simp
  with False have p: "n mod 65536 + n div 65536 \<noteq> 0" by (metis add_is_0 mult_0)
  define q where "q = n div 65536"
  define r where "r = n mod 65536"
  have "n - 1 = (r + q - 1) + 65535 * q" using n p unfolding q_def r_def by linarith
  then have "(n - 1) mod 65535 = (r + q - 1) mod 65535" by simp
  with False p show ?thesis by (simp add: fold16_def q_def r_def)
qed (simp add: fold16_def)

lemma unat_fold_carries: "unat (fold_carries s) = fold16 (unat s)"
proof (induction s rule: fold_carries.induct)
  case (1 s)
  show ?case
  proof (cases "drop_bit 16 s = 0")
    case True
    then have "unat s div 65536 = 0" by (metis unat_high16 unat_0)
    then have "unat s < 65536" by (simp add: div_eq_0_iff)
    then have "fold16 (unat s) = unat s" by (auto simp: fold16_def)
    with True show ?thesis by (simp add: fold_carries.simps[of s])
  next
    case False
    with 1 have "unat (fold_carries s) = fold16 (unat s mod 65536 + unat s div 65536)"
      by (subst fold_carries.simps) (simp add: unat_carry_step)
    then show ?thesis by (simp only: fold16_carry)
  qed
qed

lemma unat_u16_less: "unat (w :: u16) < 65536"
  using unsigned_less[of w, where ?'a = nat] by simp

lemma wsum_le: "wsum en b \<le> 65535 * ((length b + 1) div 2)"
proof (induction en b rule: wsum.induct)
  case (2 en b)
  then show ?case using unat_u16_less[of "mem_u16 en [b, 0]"] by simp
next
  case (3 en b c r)
  then show ?case using unat_u16_less[of "mem_u16 en [b, c]"] by simp
qed simp

lemma odd_byte_little: "unat (mem_u16 LittleEndian [b, 0]) = unat b"
proof -
  have "be_val [0, b] = unat b" by (simp add: be_val_def)
  then have "mem_u16 LittleEndian [b, 0] = word_of_nat (unat b)" by (simp add: mem_u16_def u16_of_def)
  then show ?thesis using unat_lt_256[of b] by (simp only: unat_of_nat) simp
qed

lemma sum_words_wsum:
  assumes "even (length b) \<or> en = LittleEndian" and "unat s + wsum en b < 2 ^ 32"
  shows "unat (sum_words en s b) = unat s + wsum en b"
  using assms
proof (induction en s b rule: sum_words.induct)
  case (2 en s b)
  then have "en = LittleEndian" by simp
  with 2 show ?case by (simp add: odd_byte_little unat_word_ariths unsigned_ucast_eq take_bit_eq_mod)
next
  case (3 en s a b r)
  have u: "unat (ucast (mem_u16 en [a, b]) :: u32) = unat (mem_u16 en [a, b])"
    using unat_u16_less[of "mem_u16 en [a, b]"] by (simp add: unsigned_ucast_eq take_bit_eq_mod)
  from 3 have "unat (s + ucast (mem_u16 en [a, b]) :: u32) = unat s + unat (mem_u16 en [a, b])"
    by (simp add: unat_word_ariths u)
  with 3 show ?case by simp
qed simp

lemma ucast_not_small:
  assumes "unat (s :: u32) \<le> 65535"
  shows "(ucast (NOT s) :: u16) = word_of_nat (65535 - unat s)"
proof -
  have "ucast (NOT s) = NOT (ucast s :: u16)" by (simp add: bit_eq_iff bit_simps)
  also have "\<dots> = - 1 - ucast s" by (simp add: not_eq_complement)
  finally have e: "(ucast (NOT s) :: u16) = - 1 - ucast s" .
  have m: "(word_of_nat 65535 :: u16) = - 1" by simp
  have "(word_of_nat (65535 - unat s) :: u16) = word_of_nat 65535 - word_of_nat (unat s)"
    using assms by (rule of_nat_diff)
  also have "\<dots> = - 1 - ucast s" unfolding m of_nat_unat ..
  finally show ?thesis by (simp only: e)
qed

lemma inline_cksum_eq:
  assumes "length b \<le> 131072" and "even (length b) \<or> en = LittleEndian"
  shows "inline_cksum en b = rfc1071 en b"
proof -
  have "(length b + 1) div 2 \<le> 65536" using assms(1) by simp
  then have "65535 * ((length b + 1) div 2) \<le> 65535 * 65536" by (rule mult_le_mono2)
  with wsum_le[of en b] have "wsum en b \<le> 65535 * 65536" by (rule order_trans)
  then have "unat (sum_words en 0 b) = wsum en b" using sum_words_wsum[OF assms(2), of 0] by simp
  then have f: "unat (fold_carries (sum_words en 0 b)) = fold16 (wsum en b)" by (simp add: unat_fold_carries)
  have "(wsum en b - 1) mod 65535 < 65535" by (rule mod_less_divisor) simp
  then have "fold16 (wsum en b) \<le> 65535" 
    unfolding fold16_def by (simp only: split: if_split) linarith
  then show ?thesis unfolding inline_cksum_def rfc1071_def by (simp add: ucast_not_small f)
qed

text \<open>
  Property C37: the in-place checksum loops of \<open>FixPIMSource\<close> and \<open>IGMP::query\<close> compute the checksum
  of RFC 1071 on every buffer of at most 131072 bytes, provided that its length is even or the host is
  little-endian (a big-endian host adds an odd last byte at the wrong end).
\<close>

theorem inline_cksum_is_rfc1071:
  assumes "length b \<le> 131072" and "even (length b) \<or> en = LittleEndian"
  shows "inline_cksum en b = rfc1071 en b"
  using assms by (rule inline_cksum_eq)

theorem inline_cksum_is_rfc1071_witness:
  "length [0x11, 1, 0 :: byte] \<le> 131072 \<and>
   inline_cksum LittleEndian [0x11, 1, 0] = rfc1071 LittleEndian [0x11, 1, 0]"
  using inline_cksum_is_rfc1071[of "[0x11, 1, 0]" LittleEndian] by simp

lemma mem_u16_zero: "mem_u16 en [0, 0] = 0" "mem16 en 0 = [0, 0]"
proof -
  have r: "replicate 2 (0 :: byte) = [0, 0]" by (subst numeral_2_eq_2) simp
  show "mem_u16 en [0, 0] = 0" by (cases en) (simp_all add: mem_u16_def u16_of_def be_val_def)
  show "mem16 en 0 = [0, 0]" by (cases en) (simp_all add: mem16_def be16_def be_bytes_0 r)
qed

section \<open>Multicast Ethernet addresses\<close>

text \<open>The mapping of RFC 1112: the low 23 bits of the group address below the prefix 01-00-5e.\<close>

definition rfc1112_ether :: "byte list \<Rightarrow> byte list" where
  "rfc1112_ether a = [0x01, 0x00, 0x5E, take_bit 7 (a ! 1), a ! 2, a ! 3]"

lemma mcast_ether_little:
  assumes "length a = 4"
  shows "mcast_ether LittleEndian a = [0x01, 0x00, 0x5E, push_bit 1 (drop_bit 1 (a ! 1)), a ! 2, a ! 3]"
proof -
  have "mem32 LittleEndian (htonl LittleEndian (mem_u32 LittleEndian a)) = be32 (u32_of (rev a))"
    by (simp add: mem_u32_def)
  also have "\<dots> = rev a" by (rule be32_u32_of) (simp add: assms)
  finally have d: "mem32 LittleEndian (htonl LittleEndian (mem_u32 LittleEndian a)) = rev a" .
  show ?thesis unfolding mcast_ether_def d using assms by (simp add: rev_nth Let_def)
qed

lemma clear_low_is_clear_high_iff:
  "push_bit 1 (drop_bit 1 (x :: byte)) = take_bit 7 x \<longleftrightarrow> \<not> bit x 0 \<and> \<not> bit x 7"
proof
  assume e: "push_bit 1 (drop_bit 1 x) = take_bit 7 x"
  have "bit (push_bit 1 (drop_bit 1 x)) 0 = bit (take_bit 7 x) 0" "bit (push_bit 1 (drop_bit 1 x)) 7 = bit (take_bit 7 x) 7"
    by (simp_all only: e)
  then show "\<not> bit x 0 \<and> \<not> bit x 7" unfolding bit_push_bit_iff bit_drop_bit_eq bit_take_bit_iff by simp
next
  assume z: "\<not> bit x 0 \<and> \<not> bit x 7"
  show "push_bit 1 (drop_bit 1 x) = take_bit 7 x"
  proof (rule bit_word_eqI)
    fix n assume n: "n < LENGTH(8)"
    then consider "n = 0" | "n = 7" | "0 < n" "n < 7" by fastforce
    then show "bit (push_bit 1 (drop_bit 1 x)) n = bit (take_bit 7 x) n"
      unfolding bit_push_bit_iff bit_drop_bit_eq bit_take_bit_iff by cases (use z n in auto)
  qed
qed

text \<open>
  On a little-endian host the Ethernet destination of a multicast packet is the one of RFC 1112
  exactly for the group addresses whose second byte has its lowest and its highest bit clear: the
  code clears the lowest bit of that byte instead of the highest.
\<close>

theorem mcast_ether_correct_iff:
  assumes "length a = 4"
  shows "mcast_ether LittleEndian a = rfc1112_ether a \<longleftrightarrow> \<not> bit (a ! 1) 0 \<and> \<not> bit (a ! 1) 7"
  unfolding mcast_ether_little[OF assms] rfc1112_ether_def clear_low_is_clear_high_iff[symmetric] by blast

theorem mcast_ether_correct_iff_witness:
  "mcast_ether LittleEndian [232, 2, 2, 2] = rfc1112_ether [232, 2, 2, 2] \<and>
   mcast_ether LittleEndian [239, 1, 2, 3] \<noteq> rfc1112_ether [239, 1, 2, 3]"
  using mcast_ether_correct_iff[of "[232, 2, 2, 2]"] mcast_ether_correct_iff[of "[239, 1, 2, 3]"] by simp

end
