(* ===== verification/Mcast_Table.thy ===== *)
theory Mcast_Table
  imports Mcast_PIM
begin

text \<open>
  The table of multicast groups and receivers (\<open>multicast/ipmulticasttable.cc\<close>): groups, the hosts that joined
  them, each host's filter mode and sources, and the forwarding of multicast packets to the hosts.

  The mode of a new receiver and the interface of a new group are uninitialised in the code: they are
  \<^const>\<open>None\<close> until the code assigns them, and reading them before is a fault. Iterators are positions;
  following one that is past the end of its vector is a fault too.
\<close>

section \<open>State\<close>

record mreceiver =
  rc_addr :: ip_addr
  rc_mode :: "byte option"
  rc_sources :: "ip_addr list"

record mgroup =
  mg_interface :: "u32 option"
  mg_group :: ip_addr
  mg_receivers :: "mreceiver list"

record mct =
  mt_groups :: "mgroup list"
  mt_interfaces :: "bool list"
  mt_pimenable :: bool
  mt_ninterfaces :: u32

abbreviation (input) "INCLUDEMODE \<equiv> 0 :: byte"
abbreviation (input) "EXCLUDEMODE \<equiv> 1 :: byte"
abbreviation (input) "MODE_NOT_SET \<equiv> 2 :: byte"

text \<open>
  The element arguments are resolved by Click; the first is a number. \<^const>\<open>None\<close> is a failed
  configuration.
\<close>

definition mct_configure :: "(string \<Rightarrow> u32 option) \<Rightarrow> (string \<Rightarrow> bool) \<Rightarrow> string list \<Rightarrow> mct \<Rightarrow> mct option" where
  "mct_configure cp_unsigned is_element conf t =
     (let t1 = (case conf of [] \<Rightarrow> t
                | a # _ \<Rightarrow> (case cp_unsigned a of None \<Rightarrow> t | Some n \<Rightarrow> t\<lparr>mt_ninterfaces := n\<rparr>))
      in if length conf = 1 then Some (t1\<lparr>mt_pimenable := False\<rparr>)
         else if length conf < 2 then None
         else if is_element (conf ! 1) then Some (t1\<lparr>mt_pimenable := True\<rparr>) else None)"

definition mct_initialize :: "mct \<Rightarrow> mct" where
  "mct_initialize t = t\<lparr>mt_interfaces := mt_interfaces t @ replicate (unat (mt_ninterfaces t)) False\<rparr>"

section \<open>Groups and receivers\<close>

definition mct_addgroup :: "ip_addr \<Rightarrow> mct \<Rightarrow> mct \<times> bool" where
  "mct_addgroup grp t =
     (if \<exists>g \<in> set (mt_groups t). mg_group g = grp then (t, False)
      else (t\<lparr>mt_groups := mt_groups t @ [\<lparr>mg_interface = None, mg_group = grp, mg_receivers = []\<rparr>]\<rparr>, True))"

text \<open>The loop returns at the first group that has the receiver, and changes the groups before it.\<close>

fun join_loop :: "ip_addr \<Rightarrow> ip_addr \<Rightarrow> u32 \<Rightarrow> mgroup list \<Rightarrow> mgroup list \<times> bool" where
  "join_loop recv grp ifc [] = ([], True)"
| "join_loop recv grp ifc (g # gs) =
     (if mg_group g = grp
      then if \<exists>r \<in> set (mg_receivers g). rc_addr r = recv then (g # gs, False)
           else let (gs1, ok) = join_loop recv grp ifc gs
                in (g\<lparr>mg_interface := Some ifc,
                      mg_receivers := mg_receivers g @ [\<lparr>rc_addr = recv, rc_mode = None, rc_sources = []\<rparr>]\<rparr> # gs1, ok)
      else let (gs1, ok) = join_loop recv grp ifc gs in (g # gs1, ok))"

definition mct_joingroup :: "ip_addr \<Rightarrow> ip_addr \<Rightarrow> u32 \<Rightarrow> mct \<Rightarrow> mct \<times> bool" where
  "mct_joingroup recv grp ifc t =
     (let (gs, ok) = join_loop recv grp ifc (mt_groups t) in (t\<lparr>mt_groups := gs\<rparr>, ok))"

fun leave_loop :: "ip_addr \<Rightarrow> ip_addr \<Rightarrow> mgroup list \<Rightarrow> mgroup list \<times> bool" where
  "leave_loop recv grp [] = ([], False)"
| "leave_loop recv grp (g # gs) =
     (case (if mg_group g = grp then erase_first (\<lambda>r. rc_addr r = recv) (mg_receivers g) else None) of
        Some rs \<Rightarrow> (if rs = [] then gs else g\<lparr>mg_receivers := rs\<rparr> # gs, True)
      | None \<Rightarrow> let (gs1, ok) = leave_loop recv grp gs in (g # gs1, ok))"

definition mct_leavegroup :: "ip_addr \<Rightarrow> ip_addr \<Rightarrow> mct \<Rightarrow> mct \<times> bool" where
  "mct_leavegroup recv grp t = (let (gs, ok) = leave_loop recv grp (mt_groups t) in (t\<lparr>mt_groups := gs\<rparr>, ok))"

section \<open>Forwarding\<close>

text \<open>One copy per receiver, with the receiver as destination annotation.\<close>

definition copy_to :: "endian \<Rightarrow> cksum \<Rightarrow> nat \<Rightarrow> byte list \<Rightarrow> mreceiver \<Rightarrow> mc_packet option" where
  "copy_to en ck iph p r = do { q \<leftarrow> forward_copy en ck iph p; Some (q, rc_addr r) }"

fun push_groups ::
    "endian \<Rightarrow> cksum \<Rightarrow> nat \<Rightarrow> mc_packet \<Rightarrow> mgroup list \<Rightarrow> bool list \<Rightarrow> (bool list \<times> mc_packet list) option" where
  "push_groups en ck iph pk [] ifs = Some (ifs, [])"
| "push_groups en ck iph pk (g # gs) ifs =
     (if mg_receivers g \<noteq> [] \<and> snd pk = mg_group g
      then do {
        k \<leftarrow> mg_interface g;
        ifs1 \<leftarrow> wr (unat k) [True] ifs;
        out \<leftarrow> those (map (copy_to en ck iph (fst pk)) (mg_receivers g));
        (ifs2, out2) \<leftarrow> push_groups en ck iph pk gs ifs1;
        Some (ifs2, out @ out2)
      }
      else push_groups en ck iph pk gs ifs)"

text \<open>
  The loop that clears the flags stops before the last interface; with no interface the unsigned bound
  is the largest number and the loop leaves the vector. The result holds the packets of output 0; the packet
  itself goes to output 1 unchanged.
\<close>

definition clear_flags :: "u32 \<Rightarrow> bool list \<Rightarrow> bool list option" where
  "clear_flags n ifs = wr 0 (replicate (unat (n - 1)) False) ifs"

definition mct_push :: "endian \<Rightarrow> cksum \<Rightarrow> nat \<Rightarrow> mc_packet \<Rightarrow> mct \<Rightarrow> (mct \<times> mc_packet list \<times> mc_packet) option" where
  "mct_push en ck iph pk t =
     do {
       (ifs, out) \<leftarrow> push_groups en ck iph pk (mt_groups t) (mt_interfaces t);
       ifs1 \<leftarrow> clear_flags (mt_ninterfaces t) ifs;
       Some (t\<lparr>mt_interfaces := ifs1\<rparr>, out, pk)
     }"

section \<open>Filter mode\<close>

fun find_receiver :: "ip_addr \<Rightarrow> ip_addr \<Rightarrow> mgroup list \<Rightarrow> mreceiver option" where
  "find_receiver recv grp [] = None"
| "find_receiver recv grp (g # gs) =
     (case (if mg_group g = grp then find (\<lambda>r. rc_addr r = recv) (mg_receivers g) else None) of
        Some r \<Rightarrow> Some r
      | None \<Rightarrow> find_receiver recv grp gs)"

definition get_receiver_mode :: "ip_addr \<Rightarrow> ip_addr \<Rightarrow> mgroup list \<Rightarrow> byte option" where
  "get_receiver_mode recv grp gs =
     (case find_receiver recv grp gs of Some r \<Rightarrow> rc_mode r | None \<Rightarrow> Some MODE_NOT_SET)"

text \<open>Change the first receiver with the address in the first group that has it.\<close>

fun upd_first :: "('a \<Rightarrow> bool) \<Rightarrow> ('a \<Rightarrow> 'a) \<Rightarrow> 'a list \<Rightarrow> 'a list option" where
  "upd_first P f [] = None"
| "upd_first P f (x # xs) = (if P x then Some (f x # xs) else map_option ((#) x) (upd_first P f xs))"

fun upd_receiver :: "ip_addr \<Rightarrow> ip_addr \<Rightarrow> (mreceiver \<Rightarrow> mreceiver) \<Rightarrow> mgroup list \<Rightarrow> mgroup list option" where
  "upd_receiver recv grp f [] = None"
| "upd_receiver recv grp f (g # gs) =
     (case (if mg_group g = grp then upd_first (\<lambda>r. rc_addr r = recv) f (mg_receivers g) else None) of
        Some rs \<Rightarrow> Some (g\<lparr>mg_receivers := rs\<rparr> # gs)
      | None \<Rightarrow> map_option ((#) g) (upd_receiver recv grp f gs))"

definition set_receiver_mode :: "ip_addr \<Rightarrow> ip_addr \<Rightarrow> byte \<Rightarrow> mct \<Rightarrow> mct \<times> bool" where
  "set_receiver_mode recv grp mode t =
     (case upd_receiver recv grp (\<lambda>r. r\<lparr>rc_mode := Some mode\<rparr>) (mt_groups t) of
        Some gs \<Rightarrow> (t\<lparr>mt_groups := gs\<rparr>, True)
      | None \<Rightarrow> (t, False))"

section \<open>Sources\<close>

text \<open>
  A source is stored in the byte order that \<open>ntohl\<close> gives; the first receiver found decides. A new
  source is announced to the other routers.
\<close>

definition mct_addsource ::
    "endian \<Rightarrow> (nat \<Rightarrow> byte list) \<Rightarrow> ip_addr \<Rightarrow> ip_addr \<Rightarrow> ip_addr \<Rightarrow> mct \<times> pimctl \<Rightarrow> (mct \<times> pimctl) \<times> mc_packet list \<times> bool" where
  "mct_addsource en mk recv grp sa s =
     (case find_receiver recv grp (mt_groups (fst s)) of
        None \<Rightarrow> (s, [], False)
      | Some r \<Rightarrow>
          if htonl en sa \<in> set (rc_sources r) then (s, [], False)
          else let gs = the (upd_receiver recv grp (\<lambda>r. r\<lparr>rc_sources := rc_sources r @ [htonl en sa]\<rparr>) (mt_groups (fst s)));
                   (c, out) = (if mt_pimenable (fst s) then ctl_join en mk grp sa (snd s) else (snd s, []))
               in (((fst s)\<lparr>mt_groups := gs\<rparr>, c), out, True))"

text \<open>
  The scan of the sources of one receiver. After an erase the iterator stands on the next element and is
  advanced once more; when the erased element was the last one it passes the end. \<open>Stop\<close> is a
  receiver in include mode that has lost its last source.
\<close>

datatype 'a scan = Continue 'a | Stop 'a

fun del_sources :: "byte option \<Rightarrow> ip_addr \<Rightarrow> ip_addr list \<Rightarrow> ip_addr list \<Rightarrow> ip_addr list scan option" where
  "del_sources mode sa pre [] = Some (Continue pre)"
| "del_sources mode sa pre (x # xs) =
     (if x = sa
      then do {
        m \<leftarrow> mode;
        if m = INCLUDEMODE \<and> pre @ xs = [] then Some (Stop [])
        else (case xs of [] \<Rightarrow> None | y # ys \<Rightarrow> del_sources mode sa (pre @ [y]) ys)
      }
      else del_sources mode sa (pre @ [x]) xs)"

fun del_receivers :: "byte option \<Rightarrow> ip_addr \<Rightarrow> ip_addr \<Rightarrow> mreceiver list \<Rightarrow> mreceiver list scan option" where
  "del_receivers mode recv sa [] = Some (Continue [])"
| "del_receivers mode recv sa (r # rs) =
     do {
       x \<leftarrow> (if rc_addr r = recv then del_sources mode sa [] (rc_sources r) else Some (Continue (rc_sources r)));
       case x of
         Stop ss \<Rightarrow> Some (Stop (r\<lparr>rc_sources := ss\<rparr> # rs))
       | Continue ss \<Rightarrow> do {
           y \<leftarrow> del_receivers mode recv sa rs;
           Some (case y of Stop rs1 \<Rightarrow> Stop (r\<lparr>rc_sources := ss\<rparr> # rs1)
                         | Continue rs1 \<Rightarrow> Continue (r\<lparr>rc_sources := ss\<rparr> # rs1)) }
     }"

fun del_groups :: "byte option \<Rightarrow> ip_addr \<Rightarrow> ip_addr \<Rightarrow> ip_addr \<Rightarrow> mgroup list \<Rightarrow> mgroup list scan option" where
  "del_groups mode recv grp sa [] = Some (Continue [])"
| "del_groups mode recv grp sa (g # gs) =
     do {
       x \<leftarrow> (if mg_group g = grp then del_receivers mode recv sa (mg_receivers g) else Some (Continue (mg_receivers g)));
       case x of
         Stop rs \<Rightarrow> Some (Stop (g\<lparr>mg_receivers := rs\<rparr> # gs))
       | Continue rs \<Rightarrow> do {
           y \<leftarrow> del_groups mode recv grp sa gs;
           Some (case y of Stop gs1 \<Rightarrow> Stop (g\<lparr>mg_receivers := rs\<rparr> # gs1)
                         | Continue gs1 \<Rightarrow> Continue (g\<lparr>mg_receivers := rs\<rparr> # gs1)) }
     }"

definition mct_delsource ::
    "endian \<Rightarrow> (nat \<Rightarrow> byte list) \<Rightarrow> ip_addr \<Rightarrow> ip_addr \<Rightarrow> ip_addr \<Rightarrow> mct \<times> pimctl
      \<Rightarrow> ((mct \<times> pimctl) \<times> mc_packet list \<times> bool) option" where
  "mct_delsource en mk recv grp sa s =
     do {
       x \<leftarrow> del_groups (get_receiver_mode recv grp (mt_groups (fst s))) recv grp sa (mt_groups (fst s));
       case x of
         Continue gs \<Rightarrow> Some (((fst s)\<lparr>mt_groups := gs\<rparr>, snd s), [], False)
       | Stop gs \<Rightarrow>
           (let t1 = fst (mct_leavegroup recv grp ((fst s)\<lparr>mt_groups := gs\<rparr>));
                (c, out) = (if mt_pimenable (fst s) \<and> noPIMreceivers grp (htonl en sa) (snd s)
                            then ctl_prune en mk grp (htonl en sa) (snd s) else (snd s, []))
            in Some ((t1, c), out, True))
     }"

text \<open>True when no receiver of the group has the source.\<close>

definition getIGMPreceivers :: "ip_addr \<Rightarrow> ip_addr \<Rightarrow> mct \<Rightarrow> bool" where
  "getIGMPreceivers source grp t =
     (\<not> (\<exists>g \<in> set (mt_groups t). mg_group g = grp \<and> (\<exists>r \<in> set (mg_receivers g). source \<in> set (rc_sources r))))"

section \<open>Well-formed tables\<close>

definition receiver_ok :: "mreceiver \<Rightarrow> bool" where
  "receiver_ok r \<longleftrightarrow> distinct (rc_sources r) \<and> (rc_sources r \<noteq> [] \<longrightarrow> rc_mode r \<noteq> None)"

definition group_ok :: "nat \<Rightarrow> mgroup \<Rightarrow> bool" where
  "group_ok n g \<longleftrightarrow>
     distinct (map rc_addr (mg_receivers g)) \<and> list_all receiver_ok (mg_receivers g) \<and>
     (mg_receivers g \<noteq> [] \<longrightarrow> (\<exists>k. mg_interface g = Some k \<and> unat k < n))"

text \<open>
  Group addresses are distinct, the receivers of a group are distinct and have initialised modes where
  they have sources, and a group with receivers has an interface of the router.
\<close>

definition mct_ok :: "mct \<Rightarrow> bool" where
  "mct_ok t \<longleftrightarrow>
     distinct (map mg_group (mt_groups t)) \<and> list_all (group_ok (length (mt_interfaces t))) (mt_groups t) \<and>
     length (mt_interfaces t) = unat (mt_ninterfaces t) \<and> 0 < mt_ninterfaces t"

section \<open>Searching\<close>

lemma find_receiver_append:
  "find_receiver recv grp (xs @ ys) =
     (case find_receiver recv grp xs of Some r \<Rightarrow> Some r | None \<Rightarrow> find_receiver recv grp ys)"
  by (induction xs) (auto split: option.splits)

lemma find_receiver_absent: "grp \<notin> mg_group ` set gs \<Longrightarrow> find_receiver recv grp gs = None"
  by (induction gs) auto

lemma find_receiver_addr: "find_receiver recv grp gs = Some r \<Longrightarrow> rc_addr r = recv"
  by (induction gs) (auto split: option.splits if_splits simp: find_Some_iff)

lemma find_receiver_SomeD:
  "find_receiver recv grp gs = Some r \<Longrightarrow> \<exists>g \<in> set gs. mg_group g = grp \<and> r \<in> set (mg_receivers g)"
  by (induction gs) (auto split: option.splits if_splits simp: find_Some_iff)

lemma find_receiver_None_iff:
  "find_receiver recv grp gs = None \<longleftrightarrow>
     (\<forall>g \<in> set gs. mg_group g = grp \<longrightarrow> recv \<notin> rc_addr ` set (mg_receivers g))"
  by (induction gs) (auto split: option.splits simp: find_None_iff find_Some_iff image_iff)

lemma find_receiver_ok:
  "find_receiver recv grp gs = Some r \<Longrightarrow> list_all (group_ok n) gs \<Longrightarrow> receiver_ok r"
  by (auto dest!: find_receiver_SomeD simp: list_all_iff group_ok_def)

lemma erase_first_None_iff: "erase_first P xs = None \<longleftrightarrow> (\<forall>x \<in> set xs. \<not> P x)"
  by (induction xs) auto

lemma erase_first_Some: "erase_first P xs = Some ys \<Longrightarrow> \<exists>as x bs. xs = as @ x # bs \<and> ys = as @ bs \<and> P x \<and> (\<forall>a \<in> set as. \<not> P a)"
proof (induction xs arbitrary: ys)
  case (Cons x xs)
  show ?case
  proof (cases "P x")
    case True
    with Cons.prems show ?thesis by (intro exI[of _ "[]"]) auto
  next
    case False
    with Cons.prems obtain zs where "erase_first P xs = Some zs" "ys = x # zs" by auto
    with Cons.IH[of zs] False obtain as y bs where "xs = as @ y # bs" "ys = (x # as) @ bs" "P y" "\<forall>a \<in> set (x # as). \<not> P a"
      by auto
    then show ?thesis by (intro exI[of _ "x # as"]) auto
  qed
qed simp

lemma upd_first_None_iff: "upd_first P f xs = None \<longleftrightarrow> find P xs = None"
  by (induction xs) auto

lemma find_upd_first:
  assumes "upd_first (\<lambda>r. rc_addr r = recv) f xs = Some ys" and "\<And>r. rc_addr (f r) = rc_addr r"
  shows "find (\<lambda>r. rc_addr r = recv') ys =
    (if recv' = recv then map_option f (find (\<lambda>r. rc_addr r = recv) xs) else find (\<lambda>r. rc_addr r = recv') xs)"
  using assms by (induction xs arbitrary: ys) (auto split: if_splits)

lemma upd_receiver_None_iff: "upd_receiver recv grp f gs = None \<longleftrightarrow> find_receiver recv grp gs = None"
proof (induction gs)
  case (Cons g gs)
  have "upd_first (\<lambda>r. rc_addr r = recv) f (mg_receivers g) = None \<longleftrightarrow>
      find (\<lambda>r. rc_addr r = recv) (mg_receivers g) = None"
    by (rule upd_first_None_iff)
  with Cons show ?case by (auto split: option.splits)
qed simp

lemma find_upd_receiver:
  assumes "upd_receiver recv grp f gs = Some gs'" and f: "\<And>r. rc_addr (f r) = rc_addr r"
  shows "find_receiver recv' grp' gs' =
    (if recv' = recv \<and> grp' = grp then map_option f (find_receiver recv grp gs) else find_receiver recv' grp' gs)"
  using assms(1)
proof (induction gs arbitrary: gs')
  case (Cons g gs)
  show ?case
  proof (cases "if mg_group g = grp then upd_first (\<lambda>r. rc_addr r = recv) f (mg_receivers g) else None")
    case None
    with Cons.prems obtain gs1 where u: "upd_receiver recv grp f gs = Some gs1" "gs' = g # gs1" by auto
    from None have "mg_group g = grp \<Longrightarrow> find (\<lambda>r. rc_addr r = recv) (mg_receivers g) = None"
      by (simp add: upd_first_None_iff)
    with Cons.IH[OF u(1)] u(2) show ?thesis by (auto split: option.splits)
  next
    case (Some rs)
    then have g: "mg_group g = grp" and rs: "upd_first (\<lambda>r. rc_addr r = recv) f (mg_receivers g) = Some rs"
      by (auto split: if_splits)
    have gs': "gs' = g\<lparr>mg_receivers := rs\<rparr> # gs" using Cons.prems Some by simp
    obtain r where "find (\<lambda>r. rc_addr r = recv) (mg_receivers g) = Some r"
      using rs by (metis not_None_eq upd_first_None_iff)
    then show ?thesis unfolding gs' using find_upd_first[OF rs f] g by (auto split: option.splits)
  qed
qed simp

lemma upd_receiver_groups:
  "upd_receiver recv grp f gs = Some gs' \<Longrightarrow> map mg_group gs' = map mg_group gs"
  by (induction gs arbitrary: gs') (auto split: option.splits if_splits)

lemma upd_first_addrs:
  "upd_first P f xs = Some ys \<Longrightarrow> (\<And>r. rc_addr (f r) = rc_addr r) \<Longrightarrow> map rc_addr ys = map rc_addr xs"
  by (induction xs arbitrary: ys) (auto split: if_splits)

lemma upd_first_all:
  "upd_first P f xs = Some ys \<Longrightarrow> list_all Q xs \<Longrightarrow> (\<And>x. find P xs = Some x \<Longrightarrow> Q x \<Longrightarrow> Q (f x)) \<Longrightarrow> list_all Q ys"
  by (induction xs arbitrary: ys) (auto split: if_splits)

lemma upd_receiver_ok:
  assumes "upd_receiver recv grp f gs = Some gs'" and "list_all (group_ok n) gs"
    and f: "\<And>r. rc_addr (f r) = rc_addr r"
    and ok: "\<And>r. find_receiver recv grp gs = Some r \<Longrightarrow> receiver_ok r \<Longrightarrow> receiver_ok (f r)"
  shows "list_all (group_ok n) gs'"
  using assms(1,2) ok
proof (induction gs arbitrary: gs')
  case (Cons g gs)
  show ?case
  proof (cases "if mg_group g = grp then upd_first (\<lambda>r. rc_addr r = recv) f (mg_receivers g) else None")
    case None
    with Cons.prems(1) obtain gs1 where u: "upd_receiver recv grp f gs = Some gs1" "gs' = g # gs1" by auto
    from None have "mg_group g = grp \<Longrightarrow> find (\<lambda>r. rc_addr r = recv) (mg_receivers g) = None"
      by (simp add: upd_first_None_iff)
    then have "list_all (group_ok n) gs1" using Cons.prems(2,3) by (intro Cons.IH[OF u(1)]) auto
    with Cons.prems(2) u(2) show ?thesis by simp
  next
    case (Some rs)
    then have g: "mg_group g = grp" and rs: "upd_first (\<lambda>r. rc_addr r = recv) f (mg_receivers g) = Some rs"
      by (auto split: if_splits)
    have gs': "gs' = g\<lparr>mg_receivers := rs\<rparr> # gs" using Cons.prems Some by simp
    have "list_all receiver_ok rs" using Cons.prems(2,3) g by (intro upd_first_all[OF rs]) (auto simp: group_ok_def)
    moreover have "rs = [] \<longleftrightarrow> mg_receivers g = []" using upd_first_addrs[OF rs f] by (metis map_is_Nil_conv)
    ultimately show ?thesis
      using Cons.prems(2) upd_first_addrs[OF rs f] by (simp add: gs' group_ok_def)
  qed
qed simp

section \<open>What each operation does to the members\<close>

text \<open>The receivers of the table, by group and address, with their filters.\<close>

type_synonym filters = "ip_addr \<times> ip_addr \<rightharpoonup> byte option \<times> ip_addr list"

definition members :: "mgroup list \<Rightarrow> filters" where
  "members gs = (\<lambda>(grp, recv). map_option (\<lambda>r. (rc_mode r, rc_sources r)) (find_receiver recv grp gs))"

lemma members_cong: "(\<And>r g. find_receiver r g gs = find_receiver r g gs') \<Longrightarrow> members gs = members gs'"
  by (simp add: members_def)

lemma find_append: "find P (xs @ ys) = (case find P xs of Some x \<Rightarrow> Some x | None \<Rightarrow> find P ys)"
  by (induction xs) auto

lemma find_addgroup:
  "find_receiver r g (mt_groups (fst (mct_addgroup grp t))) = find_receiver r g (mt_groups t)"
  by (auto simp: mct_addgroup_def find_receiver_append split: option.splits)

lemma join_loop_absent: "grp \<notin> mg_group ` set gs \<Longrightarrow> join_loop recv grp ifc gs = (gs, True)"
  by (induction gs) auto

lemma find_join_loop:
  assumes "distinct (map mg_group gs)" and "grp \<in> mg_group ` set gs"
  shows "find_receiver r g (fst (join_loop recv grp ifc gs)) =
    (if r = recv \<and> g = grp \<and> find_receiver recv grp gs = None
     then Some \<lparr>rc_addr = recv, rc_mode = None, rc_sources = []\<rparr> else find_receiver r g gs)"
  using assms
proof (induction gs)
  case (Cons x gs)
  show ?case
  proof (cases "mg_group x = grp")
    case True
    with Cons.prems have a: "grp \<notin> mg_group ` set gs" by auto
    have "(\<exists>r \<in> set (mg_receivers x). rc_addr r = recv) \<longleftrightarrow> find (\<lambda>r. rc_addr r = recv) (mg_receivers x) \<noteq> None"
      by (auto simp: find_None_iff)
    then show ?thesis
      using True find_receiver_absent[OF a] join_loop_absent[OF a]
      by (auto simp: find_append split: option.splits)
  next
    case False
    with Cons show ?thesis by (auto simp: case_prod_unfold Let_def split: option.splits)
  qed
qed simp

lemma leave_loop_absent: "grp \<notin> mg_group ` set gs \<Longrightarrow> leave_loop recv grp gs = (gs, False)"
  by (induction gs) auto

lemma find_erase_first:
  assumes "erase_first (\<lambda>r. rc_addr r = recv) xs = Some ys" and "distinct (map rc_addr xs)"
  shows "find (\<lambda>r. rc_addr r = r') ys = (if r' = recv then None else find (\<lambda>r. rc_addr r = r') xs)"
proof -
  obtain as x bs where e: "xs = as @ x # bs" "ys = as @ bs" "rc_addr x = recv"
    using erase_first_Some[OF assms(1)] by blast
  with assms(2) have "find (\<lambda>r. rc_addr r = recv) as = None" "find (\<lambda>r. rc_addr r = recv) bs = None"
    by (auto simp: find_None_iff image_iff)
  with e show ?thesis by (auto simp: find_append split: option.splits)
qed

lemma find_leave_loop:
  assumes "distinct (map mg_group gs)" and "list_all (group_ok n) gs"
  shows "find_receiver r g (fst (leave_loop recv grp gs)) =
    (if r = recv \<and> g = grp then None else find_receiver r g gs)"
  using assms
proof (induction gs)
  case (Cons x gs)
  show ?case
  proof (cases "mg_group x = grp")
    case True
    with Cons.prems have a: "grp \<notin> mg_group ` set gs" by auto
    show ?thesis
    proof (cases "erase_first (\<lambda>r. rc_addr r = recv) (mg_receivers x)")
      case None
      then have "find (\<lambda>r. rc_addr r = recv) (mg_receivers x) = None"
        by (simp add: erase_first_None_iff find_None_iff)
      with None True show ?thesis
        using find_receiver_absent[OF a] leave_loop_absent[OF a] by (auto split: option.splits)
    next
      case (Some rs)
      have f: "find (\<lambda>r. rc_addr r = r') rs = (if r' = recv then None else find (\<lambda>r. rc_addr r = r') (mg_receivers x))" for r'
        using find_erase_first[OF Some] Cons.prems(2) by (simp add: group_ok_def)
      have "rs = [] \<Longrightarrow> r' \<noteq> recv \<Longrightarrow> find (\<lambda>r. rc_addr r = r') (mg_receivers x) = None" for r'
        using f[of r'] by simp
      with f True Some show ?thesis
        using find_receiver_absent[OF a] by (auto split: option.splits)
    qed
  next
    case False
    with Cons show ?thesis by (auto simp: case_prod_unfold Let_def split: option.splits)
  qed
qed simp

text \<open>The loops of \<open>delsource\<close> end at the first receiver they find.\<close>

lemma del_receivers_absent:
  "recv \<notin> rc_addr ` set rs \<Longrightarrow> del_receivers mode recv sa rs = Some (Continue rs)"
  by (induction rs) auto

lemma del_groups_absent: "grp \<notin> mg_group ` set gs \<Longrightarrow> del_groups mode recv grp sa gs = Some (Continue gs)"
  by (induction gs) auto

fun scan_map :: "('a \<Rightarrow> 'b) \<Rightarrow> 'a scan \<Rightarrow> 'b scan" where
  "scan_map f (Continue x) = Continue (f x)"
| "scan_map f (Stop x) = Stop (f x)"

lemma scan_map_eq:
  "scan_map f z = Continue y \<longleftrightarrow> (\<exists>x. z = Continue x \<and> y = f x)"
  "scan_map f z = Stop y \<longleftrightarrow> (\<exists>x. z = Stop x \<and> y = f x)"
  by (cases z; auto)+

abbreviation (input) with_sources :: "ip_addr list \<Rightarrow> mreceiver \<Rightarrow> mreceiver" where
  "with_sources ss \<equiv> (\<lambda>r. r\<lparr>rc_sources := ss\<rparr>)"

lemma del_receivers_eq:
  assumes "distinct (map rc_addr rs)"
  shows "del_receivers mode recv sa rs =
    (case find (\<lambda>r. rc_addr r = recv) rs of
       None \<Rightarrow> Some (Continue rs)
     | Some r \<Rightarrow> map_option (scan_map (\<lambda>ss. the (upd_first (\<lambda>r. rc_addr r = recv) (with_sources ss) rs)))
                            (del_sources mode sa [] (rc_sources r)))"
  using assms
proof (induction rs)
  case (Cons r rs)
  show ?case
  proof (cases "rc_addr r = recv")
    case True
    with Cons.prems have "recv \<notin> rc_addr ` set rs" by auto
    with True show ?thesis
      by (auto simp: del_receivers_absent bind_eq_None_conv split: scan.splits option.splits bind_splits)
  next
    case False
    have u: "upd_first (\<lambda>r. rc_addr r = recv) f (r # rs) = map_option ((#) r) (upd_first (\<lambda>r. rc_addr r = recv) f rs)" for f
      using False by simp
    have n: "the (map_option ((#) r) (upd_first (\<lambda>r. rc_addr r = recv) f rs)) = r # the (upd_first (\<lambda>r. rc_addr r = recv) f rs)"
      if "find (\<lambda>r. rc_addr r = recv) rs = Some x" for f x
      using that by (simp add: option.map_sel upd_first_None_iff)
    from False Cons show ?thesis
      unfolding u by (auto simp: n scan_map_eq split: option.splits scan.splits bind_splits)
  qed
qed simp

lemma del_groups_eq:
  assumes "distinct (map mg_group gs)" and "list_all (group_ok n) gs"
  shows "del_groups mode recv grp sa gs =
    (case find_receiver recv grp gs of
       None \<Rightarrow> Some (Continue gs)
     | Some r \<Rightarrow> map_option (scan_map (\<lambda>ss. the (upd_receiver recv grp (with_sources ss) gs)))
                            (del_sources mode sa [] (rc_sources r)))"
  using assms
proof (induction gs)
  case (Cons g gs)
  let ?P = "\<lambda>r. rc_addr r = recv"
  have n: "the (map_option ((#) g) (upd_receiver recv grp f gs)) = g # the (upd_receiver recv grp f gs)"
    if "find_receiver recv grp gs = Some x" for f x
    using that by (simp add: option.map_sel upd_receiver_None_iff)
  show ?case
  proof (cases "mg_group g = grp")
    case True
    with Cons.prems have a: "grp \<notin> mg_group ` set gs" by auto
    have d: "distinct (map rc_addr (mg_receivers g))" using Cons.prems(2) by (simp add: group_ok_def)
    show ?thesis
    proof (cases "find ?P (mg_receivers g)")
      case None
      with True show ?thesis
        by (simp add: del_receivers_eq[OF d] del_groups_absent[OF a] find_receiver_absent[OF a])
    next
      case (Some r)
      then have "\<exists>ys. upd_first ?P f (mg_receivers g) = Some ys" for f
        by (metis not_None_eq upd_first_None_iff option.distinct(1))
      then obtain ys where "\<And>f. upd_first ?P f (mg_receivers g) = Some (ys f)" by metis
      with Some True show ?thesis
        by (auto simp: del_receivers_eq[OF d] del_groups_absent[OF a] scan_map_eq split: option.splits scan.splits bind_splits)
    qed
  next
    case False
    then have u: "upd_receiver recv grp f (g # gs) = map_option ((#) g) (upd_receiver recv grp f gs)" for f
      by simp
    from False Cons show ?thesis
      unfolding u by (auto simp: n scan_map_eq split: option.splits scan.splits bind_splits)
  qed
qed simp

text \<open>Distinct sources: the scan meets the source at most once.\<close>

lemma del_sources_absent: "sa \<notin> set xs \<Longrightarrow> del_sources mode sa pre xs = Some (Continue (pre @ xs))"
  by (induction xs arbitrary: pre) auto

lemma del_sources_eq:
  assumes "sa \<notin> set pre" and "distinct xs" and "sa \<in> set xs"
  shows "del_sources (Some m) sa pre xs =
    (if m = INCLUDEMODE \<and> pre @ xs = [sa] then Some (Stop [])
     else if sa = last xs then None
     else Some (Continue (pre @ remove1 sa xs)))"
  using assms
proof (induction xs arbitrary: pre)
  case (Cons x xs)
  show ?case
  proof (cases "x = sa")
    case True
    with Cons.prems have n: "sa \<notin> set xs" by simp
    show ?thesis
    proof (cases xs)
      case Nil
      with True show ?thesis by (cases pre) auto
    next
      case (Cons y ys)
      with n have "sa \<notin> set ys" "y \<noteq> sa" "sa \<noteq> last (y # ys)" by (auto simp: last_in_set)
      with True Cons show ?thesis by (auto simp: del_sources_absent append_eq_Cons_conv)
    qed
  next
    case False
    with Cons show ?thesis by (auto simp: append_eq_Cons_conv)
  qed
qed simp

section \<open>Every operation keeps the table well-formed\<close>

definition groups_ok :: "nat \<Rightarrow> mgroup list \<Rightarrow> bool" where
  "groups_ok n gs \<longleftrightarrow> distinct (map mg_group gs) \<and> list_all (group_ok n) gs"

lemma mct_ok_alt:
  "mct_ok t \<longleftrightarrow> groups_ok (length (mt_interfaces t)) (mt_groups t) \<and>
     length (mt_interfaces t) = unat (mt_ninterfaces t) \<and> 0 < mt_ninterfaces t"
  by (auto simp: mct_ok_def groups_ok_def)

lemma groups_ok_addgroup:
  "groups_ok n (mt_groups t) \<Longrightarrow> groups_ok n (mt_groups (fst (mct_addgroup grp t)))"
  by (auto simp: mct_addgroup_def groups_ok_def group_ok_def)

lemma join_loop_groups: "map mg_group (fst (join_loop recv grp ifc gs)) = map mg_group gs"
  by (induction gs) (auto simp: case_prod_unfold Let_def)

lemma groups_ok_join:
  assumes "groups_ok n gs" and "unat ifc < n"
  shows "groups_ok n (fst (join_loop recv grp ifc gs))"
proof -
  have "list_all (group_ok n) (fst (join_loop recv grp ifc gs))" if "list_all (group_ok n) gs"
    using that assms(2)
    by (induction gs) (auto simp: case_prod_unfold Let_def group_ok_def receiver_ok_def)
  with assms(1) show ?thesis by (simp add: groups_ok_def join_loop_groups)
qed

lemma leave_loop_groups: "set (map mg_group (fst (leave_loop recv grp gs))) \<subseteq> set (map mg_group gs)"
  by (induction gs) (auto simp: case_prod_unfold Let_def split: option.splits)

lemma group_ok_erase:
  assumes "group_ok n g" and "erase_first P (mg_receivers g) = Some rs"
  shows "group_ok n (g\<lparr>mg_receivers := rs\<rparr>)"
proof -
  obtain as x bs where "mg_receivers g = as @ x # bs" "rs = as @ bs" using erase_first_Some[OF assms(2)] by blast
  with assms(1) show ?thesis by (auto simp: group_ok_def)
qed

lemma groups_ok_leave: "groups_ok n gs \<Longrightarrow> groups_ok n (fst (leave_loop recv grp gs))"
proof (induction gs)
  case (Cons g gs)
  then have i: "groups_ok n (fst (leave_loop recv grp gs))" and o: "group_ok n g"
    and m: "mg_group g \<notin> set (map mg_group gs)" and gs: "groups_ok n gs" by (auto simp: groups_ok_def)
  have "mg_group g \<notin> set (map mg_group (fst (leave_loop recv grp gs)))" using leave_loop_groups m by blast
  with i o m gs show ?case
    by (auto simp: case_prod_unfold Let_def groups_ok_def group_ok_erase split: option.splits)
qed (simp add: groups_ok_def)

lemma groups_ok_upd:
  assumes "groups_ok n gs" and "upd_receiver recv grp f gs = Some gs'"
    and "\<And>r. rc_addr (f r) = rc_addr r"
    and "\<And>r. find_receiver recv grp gs = Some r \<Longrightarrow> receiver_ok r \<Longrightarrow> receiver_ok (f r)"
  shows "groups_ok n gs'"
  using assms upd_receiver_ok[OF assms(2)] upd_receiver_groups[OF assms(2)] unfolding groups_ok_def by metis

section \<open>Specification: a map of filters\<close>

definition spec_join :: "ip_addr \<times> ip_addr \<Rightarrow> filters \<Rightarrow> filters" where
  "spec_join k M = (if M k = None then M(k \<mapsto> (None, [])) else M)"

definition spec_leave :: "ip_addr \<times> ip_addr \<Rightarrow> filters \<Rightarrow> filters" where
  "spec_leave k M = M(k := None)"

definition spec_mode :: "byte \<Rightarrow> ip_addr \<times> ip_addr \<Rightarrow> filters \<Rightarrow> filters" where
  "spec_mode m k M = (case M k of None \<Rightarrow> M | Some (_, ss) \<Rightarrow> M(k \<mapsto> (Some m, ss)))"

definition spec_add :: "ip_addr \<Rightarrow> ip_addr \<times> ip_addr \<Rightarrow> filters \<Rightarrow> filters" where
  "spec_add sa k M = (case M k of None \<Rightarrow> M | Some (m, ss) \<Rightarrow> M(k \<mapsto> (m, if sa \<in> set ss then ss else ss @ [sa])))"

text \<open>\<^const>\<open>None\<close> where the code runs past the end of the sources.\<close>

definition spec_del :: "ip_addr \<Rightarrow> ip_addr \<times> ip_addr \<Rightarrow> filters \<Rightarrow> filters option" where
  "spec_del sa k M =
     (case M k of
        Some (m, ss) \<Rightarrow>
          if sa \<notin> set ss then Some M
          else if m = Some INCLUDEMODE \<and> ss = [sa] then Some (M(k := None))
          else if sa = last ss then None
          else Some (M(k \<mapsto> (m, remove1 sa ss)))
      | None \<Rightarrow> Some M)"

lemma members_join:
  assumes "groups_ok n gs" and "grp \<in> mg_group ` set gs"
  shows "members (fst (join_loop recv grp ifc gs)) = spec_join (grp, recv) (members gs)"
  using assms by (auto simp: members_def spec_join_def groups_ok_def find_join_loop fun_eq_iff)

lemma members_leave:
  "groups_ok n gs \<Longrightarrow> members (fst (leave_loop recv grp gs)) = spec_leave (grp, recv) (members gs)"
  by (auto simp: members_def spec_leave_def groups_ok_def find_leave_loop fun_eq_iff)

lemma members_upd:
  assumes "upd_receiver recv grp f gs = Some gs'" and "\<And>r. rc_addr (f r) = rc_addr r"
  shows "members gs' = (members gs)((grp, recv) :=
           map_option (\<lambda>r. (rc_mode (f r), rc_sources (f r))) (find_receiver recv grp gs))"
  using find_upd_receiver[OF assms] by (auto simp: members_def fun_eq_iff option.map_comp o_def)

lemma members_mode:
  "members (mt_groups (fst (set_receiver_mode recv grp m t))) = spec_mode m (grp, recv) (members (mt_groups t))"
proof (cases "upd_receiver recv grp (\<lambda>r. r\<lparr>rc_mode := Some m\<rparr>) (mt_groups t)")
  case None
  then have "find_receiver recv grp (mt_groups t) = None" by (simp add: upd_receiver_None_iff)
  with None show ?thesis by (simp add: set_receiver_mode_def spec_mode_def members_def)
next
  case (Some gs)
  then obtain r where "find_receiver recv grp (mt_groups t) = Some r"
    by (metis not_None_eq upd_receiver_None_iff option.distinct(1))
  with Some show ?thesis
    by (simp add: set_receiver_mode_def members_upd[OF Some] spec_mode_def) (simp add: members_def)
qed

lemma groups_ok_mode:
  assumes "groups_ok n (mt_groups t)"
  shows "groups_ok n (mt_groups (fst (set_receiver_mode recv grp m t)))"
  using assms
  by (auto simp: set_receiver_mode_def receiver_ok_def split: option.splits elim!: groups_ok_upd)

lemma find_receiver_upd: "find_receiver recv grp gs = Some r \<Longrightarrow> \<exists>gs'. upd_receiver recv grp f gs = Some gs'"
  by (metis not_None_eq upd_receiver_None_iff option.distinct(1))

lemma addsource_spec:
  fixes en mk sa
  assumes "groups_ok n (mt_groups (fst s))"
    and "\<And>r. find_receiver recv grp (mt_groups (fst s)) = Some r \<Longrightarrow> rc_mode r \<noteq> None"
  defines "t' \<equiv> fst (fst (mct_addsource en mk recv grp sa s))"
  shows "members (mt_groups t') = spec_add (htonl en sa) (grp, recv) (members (mt_groups (fst s)))"
    and "groups_ok n (mt_groups t')"
    and "t'\<lparr>mt_groups := []\<rparr> = (fst s)\<lparr>mt_groups := []\<rparr>"
proof -
  let ?f = "\<lambda>r. r\<lparr>rc_sources := rc_sources r @ [htonl en sa]\<rparr>"
  have "members (mt_groups t') = spec_add (htonl en sa) (grp, recv) (members (mt_groups (fst s))) \<and>
    groups_ok n (mt_groups t') \<and> t'\<lparr>mt_groups := []\<rparr> = (fst s)\<lparr>mt_groups := []\<rparr>"
  proof (cases "find_receiver recv grp (mt_groups (fst s))")
    case None
    with assms(1) show ?thesis by (simp add: t'_def mct_addsource_def spec_add_def members_def)
  next
    case (Some r)
    have m: "members (mt_groups (fst s)) (grp, recv) = Some (rc_mode r, rc_sources r)" using Some by (simp add: members_def)
    show ?thesis
    proof (cases "htonl en sa \<in> set (rc_sources r)")
      case True
      with Some assms(1) m show ?thesis by (auto simp: t'_def mct_addsource_def spec_add_def)
    next
      case False
      obtain gs where gs: "upd_receiver recv grp ?f (mt_groups (fst s)) = Some gs"
        using find_receiver_upd[OF Some] by blast
      have t': "t' = (fst s)\<lparr>mt_groups := gs\<rparr>"
        using Some False gs by (simp add: t'_def mct_addsource_def Let_def case_prod_unfold)
      have "groups_ok n gs"
        using assms(2) Some False by (intro groups_ok_upd[OF assms(1) gs]) (auto simp: receiver_ok_def)
      with m False Some show ?thesis by (simp add: t' members_upd[OF gs] spec_add_def)
    qed
  qed
  then show "members (mt_groups t') = spec_add (htonl en sa) (grp, recv) (members (mt_groups (fst s)))"
    "groups_ok n (mt_groups t')" "t'\<lparr>mt_groups := []\<rparr> = (fst s)\<lparr>mt_groups := []\<rparr>" by auto
qed

lemma delsource_spec:
  assumes "groups_ok n (mt_groups (fst s))"
  shows "map_option (\<lambda>x. members (mt_groups (fst (fst x)))) (mct_delsource en mk recv grp sa s) =
           spec_del sa (grp, recv) (members (mt_groups (fst s)))"
    and "mct_delsource en mk recv grp sa s = Some x \<Longrightarrow> groups_ok n (mt_groups (fst (fst x)))"
    and "mct_delsource en mk recv grp sa s = Some x \<Longrightarrow> (fst (fst x))\<lparr>mt_groups := []\<rparr> = (fst s)\<lparr>mt_groups := []\<rparr>"
proof -
  let ?gs = "mt_groups (fst s)"
  let ?G = "\<lambda>x. groups_ok n (mt_groups (fst (fst x))) \<and> (fst (fst x))\<lparr>mt_groups := []\<rparr> = (fst s)\<lparr>mt_groups := []\<rparr>"
  note eq = del_groups_eq[OF assms[unfolded groups_ok_def, THEN conjunct1] assms[unfolded groups_ok_def, THEN conjunct2]]
  have "map_option (\<lambda>x. members (mt_groups (fst (fst x)))) (mct_delsource en mk recv grp sa s) =
      spec_del sa (grp, recv) (members ?gs) \<and>
    (\<forall>x. mct_delsource en mk recv grp sa s = Some x \<longrightarrow> ?G x)"
  proof (cases "find_receiver recv grp ?gs")
    case None
    with assms show ?thesis by (simp add: mct_delsource_def eq spec_del_def members_def)
  next
    case (Some r)
    have m: "members ?gs (grp, recv) = Some (rc_mode r, rc_sources r)" using Some by (simp add: members_def)
    have mode: "get_receiver_mode recv grp ?gs = rc_mode r" using Some by (simp add: get_receiver_mode_def)
    have ok: "receiver_ok r" using find_receiver_ok[OF Some] assms by (auto simp: groups_ok_def)
    define g where "g ss = the (upd_receiver recv grp (with_sources ss) ?gs)" for ss
    have g: "upd_receiver recv grp (with_sources ss) ?gs = Some (g ss)" for ss
      using find_receiver_upd[OF Some, of "with_sources ss"] by (auto simp: g_def)
    have gm: "members (g ss) = (members ?gs)((grp, recv) \<mapsto> (rc_mode r, ss))" for ss
      using Some by (simp add: members_upd[OF g])
    have gok: "groups_ok n (g ss)" if "distinct ss" "ss \<noteq> [] \<longrightarrow> rc_mode r \<noteq> None" for ss
      using that Some by (intro groups_ok_upd[OF assms g]) (auto simp: receiver_ok_def)
    show ?thesis
    proof (cases "sa \<in> set (rc_sources r)")
      case False
      have "members (g (rc_sources r)) = members ?gs" using gm m by (auto simp: fun_eq_iff)
      with False Some m ok gok[of "rc_sources r"] show ?thesis
        by (simp add: mct_delsource_def eq g mode del_sources_absent spec_del_def receiver_ok_def)
    next
      case True
      then obtain k where k: "rc_mode r = Some k" using ok by (auto simp: receiver_ok_def)
      have d: "del_sources (Some k) sa [] (rc_sources r) =
          (if k = INCLUDEMODE \<and> rc_sources r = [sa] then Some (Stop [])
           else if sa = last (rc_sources r) then None else Some (Continue (remove1 sa (rc_sources r))))"
        using del_sources_eq[of sa "[]" "rc_sources r" k] True ok by (simp add: receiver_ok_def)
      have gok0: "groups_ok n (g [])" by (rule gok) simp_all
      have gok1: "groups_ok n (g (remove1 sa (rc_sources r)))"
        using ok k by (intro gok) (auto simp: receiver_ok_def)
      have "members (fst (leave_loop recv grp (g []))) = (members ?gs)((grp, recv) := None)"
        by (simp add: members_leave[OF gok0] spec_leave_def gm)
      with True Some m k gok1 groups_ok_leave[OF gok0] show ?thesis
        by (auto simp: mct_delsource_def eq g mode d spec_del_def Let_def case_prod_unfold mct_leavegroup_def gm)
    qed
  qed
  then show "map_option (\<lambda>x. members (mt_groups (fst (fst x)))) (mct_delsource en mk recv grp sa s) =
           spec_del sa (grp, recv) (members (mt_groups (fst s)))"
    and "mct_delsource en mk recv grp sa s = Some x \<Longrightarrow> groups_ok n (mt_groups (fst (fst x)))"
    and "mct_delsource en mk recv grp sa s = Some x \<Longrightarrow> (fst (fst x))\<lparr>mt_groups := []\<rparr> = (fst s)\<lparr>mt_groups := []\<rparr>"
    by blast+
qed

section \<open>Forwarding to the members\<close>

text \<open>An IPv4 header with its options lies in the packet.\<close>

definition ip_header_at :: "nat \<Rightarrow> byte list \<Rightarrow> bool" where
  "ip_header_at iph p \<longleftrightarrow>
     iph < length p \<and> 20 \<le> 4 * unat (p ! iph AND 15) \<and> iph + 4 * unat (p ! iph AND 15) \<le> length p"

definition header_bytes :: "nat \<Rightarrow> byte list \<Rightarrow> byte list" where
  "header_bytes iph p = take (4 * unat (p ! iph AND 15)) (drop iph p)"

definition decremented :: "endian \<Rightarrow> cksum \<Rightarrow> nat \<Rightarrow> byte list \<Rightarrow> byte list" where
  "decremented en ck iph p =
     take iph p @ stamp en ck 10 (put_at 8 [p ! (iph + 8) - 1] (header_bytes iph p)) @
     drop (iph + 4 * unat (p ! iph AND 15)) p"

lemma split_header: "p = take iph p @ header_bytes iph p @ drop (iph + 4 * unat (p ! iph AND 15)) p"
proof -
  have "header_bytes iph p @ drop (iph + 4 * unat (p ! iph AND 15)) p = drop iph p"
    unfolding header_bytes_def add.commute[of iph] drop_drop[symmetric] by (rule append_take_drop_id)
  then show ?thesis by simp
qed

lemma forward_copy_eq:
  assumes "ip_header_at iph p"
  shows "forward_copy en ck iph p = Some (decremented en ck iph p)"
proof -
  define h where "h = 4 * unat (p ! iph AND 15)"
  define pre where "pre = take iph p"
  define hd where "hd = header_bytes iph p"
  define post where "post = drop (iph + h) p"
  have p: "p = pre @ hd @ post" using split_header[of p iph] by (simp only: pre_def hd_def post_def h_def)
  have l: "length pre = iph" "length hd = h" "20 \<le> h"
    using assms by (auto simp: ip_header_at_def pre_def hd_def header_bytes_def h_def)
  have n: "iph + 8 < length p" "iph < length p" using l assms by (auto simp: ip_header_at_def h_def)
  have w: "put_at (iph + 8) [x] p = pre @ put_at 8 [x] hd @ post" for x
    by (subst p) (use l in \<open>simp add: put_at_mid\<close>)
  have "rd8 (put_at (iph + 8) [x] p) iph = Some (p ! iph)" for x using n by (simp add: nth_put_at)
  then have hd0: "rd8 (pre @ put_at 8 [x] hd @ post) iph = Some (p ! iph)" for x by (simp only: w)
  have "store_checksum en ck iph 10 h (pre @ put_at 8 [x] hd @ post) = Some (pre @ stamp en ck 10 (put_at 8 [x] hd) @ post)" for x
    using l by (intro store_checksum_mid) simp_all
  with n hd0 show ?thesis
    by (simp add: forward_copy_def decremented_def w flip: h_def pre_def hd_def post_def)
qed

text \<open>What a copy is: the same length, the TTL less one, a valid header checksum, everything else unchanged.\<close>

lemma length_header: "ip_header_at iph p \<Longrightarrow> length (header_bytes iph p) = 4 * unat (p ! iph AND 15)"
  by (auto simp: header_bytes_def ip_header_at_def)


lemma stamp_nth:
  "k + 2 \<le> length b \<Longrightarrow> i < length b \<Longrightarrow> i \<noteq> k \<Longrightarrow> i \<noteq> k + 1 \<Longrightarrow> stamp en ck k b ! i = b ! i"
  by (auto simp: stamp_def nth_put_at)

lemma decremented_parts:
  assumes "ip_header_at iph p"
  shows "length (decremented en ck iph p) = length p"
    and "decremented en ck iph p ! (iph + 8) = p ! (iph + 8) - 1"
    and "i < length p \<Longrightarrow> i \<notin> {iph + 8, iph + 10, iph + 11} \<Longrightarrow> decremented en ck iph p ! i = p ! i"
    and "cksum_law en ck \<Longrightarrow> ck (header_bytes iph (decremented en ck iph p)) = 0"
proof -
  define h where "h = 4 * unat (p ! iph AND 15)"
  define hd where "hd = put_at 8 [p ! (iph + 8) - 1] (header_bytes iph p)"
  have l: "length (header_bytes iph p) = h" "20 \<le> h" "iph + h \<le> length p"
    using length_header[OF assms] assms by (auto simp: h_def ip_header_at_def)
  have d: "decremented en ck iph p = take iph p @ stamp en ck 10 hd @ drop (iph + h) p"
    by (simp add: decremented_def hd_def h_def)
  have lh: "length hd = h" using l by (simp add: hd_def)
  show len: "length (decremented en ck iph p) = length p" using l lh by (simp add: d)
  have hp: "header_bytes iph p ! j = p ! (iph + j)" if "j < h" for j
    using that l by (simp add: header_bytes_def h_def)
  have hd_nth: "hd ! j = (if j = 8 then p ! (iph + 8) - 1 else p ! (iph + j))" if "j < h" for j
    using that l hp by (auto simp: hd_def nth_put_at)
  show "decremented en ck iph p ! (iph + 8) = p ! (iph + 8) - 1"
    using l lh by (simp add: d nth_append stamp_nth hd_nth)
  show other: "decremented en ck iph p ! i = p ! i" if "i < length p" "i \<notin> {iph + 8, iph + 10, iph + 11}" for i
  proof -
    consider "i < iph" | j where "i = iph + j" "j < h" | j where "i = iph + h + j"
      by (metis add.assoc le_Suc_ex nat_add_left_cancel_less not_less)
    then show ?thesis
      using that l lh by cases (auto simp: d nth_append stamp_nth hd_nth)
  qed
  have "decremented en ck iph p ! iph = p ! iph" using other[of iph] l by simp
  then have "header_bytes iph (decremented en ck iph p) = stamp en ck 10 hd"
    using l lh by (simp add: header_bytes_def d flip: h_def)
  then show "ck (header_bytes iph (decremented en ck iph p)) = 0" if "cksum_law en ck"
    using that l lh by (simp add: stamp_valid)
qed

text \<open>The receivers of a group, in the order they joined.\<close>

definition receivers_of :: "ip_addr \<Rightarrow> mgroup list \<Rightarrow> ip_addr list" where
  "receivers_of grp gs = (case find (\<lambda>g. mg_group g = grp) gs of Some g \<Rightarrow> map rc_addr (mg_receivers g) | None \<Rightarrow> [])"

lemma find_None_group: "find (\<lambda>g. mg_group g = grp) gs = None \<longleftrightarrow> grp \<notin> mg_group ` set gs"
  by (auto simp: find_None_iff)

lemma receivers_of_members:
  assumes "groups_ok n gs"
  shows "set (receivers_of grp gs) = {r. members gs (grp, r) \<noteq> None}" and "distinct (receivers_of grp gs)"
proof -
  have "r \<in> set (receivers_of grp gs) \<longleftrightarrow> find_receiver r grp gs \<noteq> None" for r
    using assms
  proof (induction gs)
    case (Cons g gs)
    show ?case
    proof (cases "mg_group g = grp")
      case True
      with Cons.prems have "find_receiver r grp gs = None" by (auto simp: groups_ok_def intro: find_receiver_absent)
      moreover have "find (\<lambda>x. rc_addr x = r) (mg_receivers g) = None \<longleftrightarrow> r \<notin> rc_addr ` set (mg_receivers g)"
        by (auto simp: find_None_iff)
      ultimately show ?thesis using True by (auto simp: receivers_of_def split: option.splits)
    next
      case False
      with Cons show ?thesis by (simp add: receivers_of_def groups_ok_def)
    qed
  qed (simp add: receivers_of_def)
  then show "set (receivers_of grp gs) = {r. members gs (grp, r) \<noteq> None}" by (auto simp: members_def)
  show "distinct (receivers_of grp gs)"
    using assms by (auto simp: receivers_of_def groups_ok_def group_ok_def list_all_iff find_Some_iff split: option.splits)
qed

lemma push_groups_absent: "snd pk \<notin> mg_group ` set gs \<Longrightarrow> push_groups en ck iph pk gs ifs = Some (ifs, [])"
  by (induction gs) auto

lemma push_groups_eq:
  assumes "groups_ok (length ifs) gs" and "ip_header_at iph (fst pk)"
  shows "\<exists>ifs'. length ifs' = length ifs \<and> push_groups en ck iph pk gs ifs =
    Some (ifs', map (\<lambda>r. (decremented en ck iph (fst pk), r)) (receivers_of (snd pk) gs))"
  using assms(1)
proof (induction gs arbitrary: ifs)
  case (Cons g gs)
  show ?case
  proof (cases "mg_receivers g \<noteq> [] \<and> snd pk = mg_group g")
    case True
    then obtain k where k: "mg_interface g = Some k" "unat k < length ifs"
      using Cons.prems by (auto simp: groups_ok_def group_ok_def)
    have "those (map (copy_to en ck iph (fst pk)) (mg_receivers g)) =
        Some (map (\<lambda>r. (decremented en ck iph (fst pk), rc_addr r)) (mg_receivers g))"
      by (rule those_map_Some) (simp add: copy_to_def forward_copy_eq[OF assms(2)])
    moreover have "push_groups en ck iph pk gs ifs' = Some (ifs', [])" for ifs'
      using True Cons.prems by (intro push_groups_absent) (auto simp: groups_ok_def)
    ultimately show ?thesis
      using True k by (simp add: receivers_of_def o_def)
  next
    case False
    obtain ifs' where i: "length ifs' = length ifs" "push_groups en ck iph pk gs ifs =
        Some (ifs', map (\<lambda>r. (decremented en ck iph (fst pk), r)) (receivers_of (snd pk) gs))"
      using Cons by (auto simp: groups_ok_def)
    have "receivers_of (snd pk) (g # gs) = receivers_of (snd pk) gs"
    proof (cases "snd pk = mg_group g")
      case True
      with False Cons.prems have "mg_receivers g = []" "snd pk \<notin> mg_group ` set gs" by (auto simp: groups_ok_def)
      with True show ?thesis by (simp add: receivers_of_def find_None_group[THEN iffD2])
    qed (simp add: receivers_of_def)
    with False i show ?thesis by auto
  qed
qed (simp add: receivers_of_def)

lemma clear_flags_Some:
  assumes "length ifs = unat n" and "0 < n"
  shows "\<exists>ifs'. clear_flags n ifs = Some ifs' \<and> length ifs' = length ifs"
proof -
  have "unat (n - 1) = unat n - 1" using assms(2) by (intro unat_minus_one) auto
  with assms(1) show ?thesis by (simp add: clear_flags_def)
qed

lemma push_eq:
  assumes "mct_ok t" and "ip_header_at iph (fst pk)"
  shows "\<exists>ifs. length ifs = length (mt_interfaces t) \<and> mct_push en ck iph pk t =
    Some (t\<lparr>mt_interfaces := ifs\<rparr>, map (\<lambda>r. (decremented en ck iph (fst pk), r)) (receivers_of (snd pk) (mt_groups t)), pk)"
proof -
  have g: "groups_ok (length (mt_interfaces t)) (mt_groups t)" using assms(1) unfolding mct_ok_alt by (rule conjunct1)
  obtain ifs where i: "length ifs = length (mt_interfaces t)"
      "push_groups en ck iph pk (mt_groups t) (mt_interfaces t) =
        Some (ifs, map (\<lambda>r. (decremented en ck iph (fst pk), r)) (receivers_of (snd pk) (mt_groups t)))"
    using push_groups_eq[OF g assms(2)] by blast
  moreover obtain ifs' where "clear_flags (mt_ninterfaces t) ifs = Some ifs'" "length ifs' = length ifs"
    using clear_flags_Some[of ifs] assms(1) i(1) by (auto simp: mct_ok_alt)
  ultimately show ?thesis by (intro exI[of _ ifs']) (simp add: mct_push_def)
qed

text \<open>
  Property C14: in a well-formed table, forwarding never faults: every receiver of the packet's group, and
  nobody else, gets one copy (output 0), and the packet itself goes on to the other routers
  (output 1). A copy has its TTL decremented and a valid header checksum, and no other byte changed.
\<close>

theorem multicast_reaches_members:
  assumes "mct_ok t" and "ip_header_at iph (fst pk)" and "cksum_law en ck"
  shows "\<exists>t' out. mct_push en ck iph pk t = Some (t', out, pk) \<and> mct_ok t' \<and> mt_groups t' = mt_groups t \<and>
    distinct (map snd out) \<and> set (map snd out) = {r. members (mt_groups t) (snd pk, r) \<noteq> None} \<and>
    (\<forall>q \<in> set (map fst out). length q = length (fst pk) \<and> q ! (iph + 8) = fst pk ! (iph + 8) - 1 \<and>
       ck (header_bytes iph q) = 0 \<and>
       (\<forall>i < length q. i \<notin> {iph + 8, iph + 10, iph + 11} \<longrightarrow> q ! i = fst pk ! i))"
proof -
  have g: "groups_ok (length (mt_interfaces t)) (mt_groups t)" using assms(1) unfolding mct_ok_alt by (rule conjunct1)
  obtain ifs where i: "length ifs = length (mt_interfaces t)" "mct_push en ck iph pk t =
      Some (t\<lparr>mt_interfaces := ifs\<rparr>, map (\<lambda>r. (decremented en ck iph (fst pk), r)) (receivers_of (snd pk) (mt_groups t)), pk)"
    using push_eq[OF assms(1,2)] by blast
  show ?thesis
    using i assms(1) receivers_of_members[OF g] decremented_parts[OF assms(2), where en = en and ck = ck] assms(3)
    by (intro exI[of _ "t\<lparr>mt_interfaces := ifs\<rparr>"] exI[of _ "map (\<lambda>r. (decremented en ck iph (fst pk), r)) (receivers_of (snd pk) (mt_groups t))"])
       (auto simp: mct_ok_alt o_def)
qed

text \<open>A table with one group of two receivers, and a packet.\<close>

definition ex_table :: mct where
  "ex_table = \<lparr>mt_groups = [\<lparr>mg_interface = Some 1, mg_group = 7,
       mg_receivers = [\<lparr>rc_addr = 11, rc_mode = None, rc_sources = []\<rparr>, \<lparr>rc_addr = 12, rc_mode = Some 1, rc_sources = [5, 6]\<rparr>]\<rparr>],
     mt_interfaces = [False, False, False], mt_pimenable = True, mt_ninterfaces = 3\<rparr>"

definition ex_ip :: "byte list" where
  "ex_ip = [0x45, 0, 0, 20, 0, 0, 0, 0, 64, 17, 0, 0, 10, 0, 0, 1, 232, 2, 2, 2]"

lemma ex_table_ok: "mct_ok ex_table"
  by (simp add: ex_table_def mct_ok_def group_ok_def receiver_ok_def)

lemma ex_ip_header: "ip_header_at 0 ex_ip"
  by (simp add: ex_ip_def ip_header_at_def)

theorem multicast_reaches_members_witness:
  "mct_ok ex_table \<and> ip_header_at 0 ex_ip \<and>
   (\<exists>t' out. mct_push LittleEndian (rfc1071 LittleEndian) 0 (ex_ip, 7) ex_table = Some (t', out, (ex_ip, 7)) \<and> mct_ok t' \<and>
      set (map snd out) = {r. members (mt_groups ex_table) (7, r) \<noteq> None})"
proof -
  have "ip_header_at 0 (fst (ex_ip, 7 :: u32))" by (simp add: ex_ip_header)
  from multicast_reaches_members[OF ex_table_ok this rfc1071_law]
  show ?thesis using ex_table_ok ex_ip_header by (metis snd_conv)
qed

text \<open>
  Removing a source from a receiver of a well-formed table runs past the end of the source list
  exactly when the source is the last one of the list, unless it is the only one and the receiver is in
  include mode (then the receiver leaves the group). Every other removal returns.
\<close>

theorem delsource_faults_iff:
  assumes "groups_ok n (mt_groups (fst s))"
  shows "mct_delsource en mk recv grp sa s = None \<longleftrightarrow>
    (\<exists>m ss. members (mt_groups (fst s)) (grp, recv) = Some (m, ss) \<and> ss \<noteq> [] \<and> sa = last ss \<and>
       \<not> (m = Some INCLUDEMODE \<and> ss = [sa]))"
proof -
  have "mct_delsource en mk recv grp sa s = None \<longleftrightarrow> spec_del sa (grp, recv) (members (mt_groups (fst s))) = None"
    using delsource_spec(1)[OF assms, of en mk recv grp sa] by (metis option.map_disc_iff)
  then show ?thesis by (auto simp: spec_del_def split: option.splits)
qed

theorem delsource_faults_iff_witness:
  "groups_ok 3 (mt_groups ex_table) \<and>
   mct_delsource LittleEndian (\<lambda>_. []) 12 7 6 (ex_table, \<lparr>pc_source_connected = False, pc_table = [], pc_made = 0\<rparr>) = None"
proof -
  have g: "groups_ok 3 (mt_groups (fst (ex_table, \<lparr>pc_source_connected = False, pc_table = [], pc_made = 0\<rparr>)))"
    by (simp add: ex_table_def groups_ok_def group_ok_def receiver_ok_def)
  show ?thesis
    using g delsource_faults_iff[OF g, of LittleEndian "\<lambda>_. []" 12 7 6]
    by (simp add: ex_table_def members_def)
qed

section \<open>Joining and leaving as an interface\<close>

text \<open>
  What the group management protocol relies on: a table with members that changes by reports and leaves.
  The history of a host decides whether it is a member.
\<close>

locale membership =
  fixes ok :: "'t \<Rightarrow> bool"
    and valid :: "'i \<Rightarrow> bool"
    and member :: "'t \<Rightarrow> 'k \<Rightarrow> bool"
    and join :: "'i \<Rightarrow> 'k \<Rightarrow> 't \<Rightarrow> 't"
    and leave :: "'k \<Rightarrow> 't \<Rightarrow> 't"
  assumes join_ok: "ok t \<Longrightarrow> valid i \<Longrightarrow> ok (join i k t)"
    and leave_ok: "ok t \<Longrightarrow> ok (leave k t)"
    and join_member: "ok t \<Longrightarrow> valid i \<Longrightarrow> member (join i k t) k' \<longleftrightarrow> k' = k \<or> member t k'"
    and leave_member: "ok t \<Longrightarrow> member (leave k t) k' \<longleftrightarrow> k' \<noteq> k \<and> member t k'"
begin

definition act :: "'k \<times> 'i option \<Rightarrow> 't \<Rightarrow> 't" where
  "act a t = (case snd a of Some i \<Rightarrow> join i (fst a) t | None \<Rightarrow> leave (fst a) t)"

lemma run_ok: "ok t \<Longrightarrow> \<forall>a \<in> set as. pred_option valid (snd a) \<Longrightarrow> ok (fold act as t)"
  by (induction as arbitrary: t) (auto simp: act_def join_ok leave_ok split: option.splits)

lemma run_member:
  assumes "ok t" and "\<forall>a \<in> set as. pred_option valid (snd a)"
  shows "member (fold act as t) k \<longleftrightarrow>
    (case find (\<lambda>a. fst a = k) (rev as) of Some a \<Rightarrow> snd a \<noteq> None | None \<Rightarrow> member t k)"
  using assms
proof (induction as rule: rev_induct)
  case (snoc a as)
  then have o: "ok (fold act as t)" by (auto intro: run_ok)
  show ?case
  proof (cases "snd a")
    case None
    with o snoc show ?thesis by (auto simp: act_def[of a] leave_member)
  next
    case (Some i)
    with o snoc show ?thesis by (auto simp: act_def[of a] join_member)
  qed
qed simp

end

text \<open>A report for a group: \<open>addgroup\<close>, then \<open>joingroup\<close>.\<close>

definition mct_report :: "u32 \<Rightarrow> ip_addr \<times> ip_addr \<Rightarrow> mct \<Rightarrow> mct" where
  "mct_report ifc k t = fst (mct_joingroup (snd k) (fst k) ifc (fst (mct_addgroup (fst k) t)))"

definition mct_leave :: "ip_addr \<times> ip_addr \<Rightarrow> mct \<Rightarrow> mct" where
  "mct_leave k t = fst (mct_leavegroup (snd k) (fst k) t)"

lemma addgroup_present: "grp \<in> mg_group ` set (mt_groups (fst (mct_addgroup grp t)))"
  by (auto simp: mct_addgroup_def)

lemma addgroup_rest [simp]:
  "mt_interfaces (fst (mct_addgroup grp t)) = mt_interfaces t"
  "mt_ninterfaces (fst (mct_addgroup grp t)) = mt_ninterfaces t"
  "mt_pimenable (fst (mct_addgroup grp t)) = mt_pimenable t"
  by (simp_all add: mct_addgroup_def)

lemma report_rest [simp]:
  "mt_interfaces (mct_report ifc k t) = mt_interfaces t"
  "mt_ninterfaces (mct_report ifc k t) = mt_ninterfaces t"
  "mt_pimenable (mct_report ifc k t) = mt_pimenable t"
  by (simp_all add: mct_report_def mct_joingroup_def case_prod_unfold Let_def)

lemma leave_rest [simp]:
  "mt_interfaces (mct_leave k t) = mt_interfaces t"
  "mt_ninterfaces (mct_leave k t) = mt_ninterfaces t"
  "mt_pimenable (mct_leave k t) = mt_pimenable t"
  by (simp_all add: mct_leave_def mct_leavegroup_def case_prod_unfold Let_def)

lemma report_spec:
  assumes "groups_ok n (mt_groups t)" and "unat ifc < n"
  shows "members (mt_groups (mct_report ifc k t)) = spec_join k (members (mt_groups t))"
    and "groups_ok n (mt_groups (mct_report ifc k t))"
proof -
  note a = groups_ok_addgroup[OF assms(1), of "fst k"]
  have "members (mt_groups (fst (mct_addgroup (fst k) t))) = members (mt_groups t)"
    by (rule members_cong) (rule find_addgroup)
  then show "members (mt_groups (mct_report ifc k t)) = spec_join k (members (mt_groups t))"
    using members_join[OF a addgroup_present]
    by (simp add: mct_report_def mct_joingroup_def case_prod_unfold Let_def)
  show "groups_ok n (mt_groups (mct_report ifc k t))"
    using groups_ok_join[OF a assms(2)]
    by (simp add: mct_report_def mct_joingroup_def case_prod_unfold Let_def)
qed

lemma leave_spec:
  assumes "groups_ok n (mt_groups t)"
  shows "members (mt_groups (mct_leave k t)) = spec_leave k (members (mt_groups t))"
    and "groups_ok n (mt_groups (mct_leave k t))"
  using members_leave[OF assms, of "snd k" "fst k"] groups_ok_leave[OF assms]
  by (simp_all add: mct_leave_def mct_leavegroup_def case_prod_unfold Let_def)

interpretation mt: membership
  "\<lambda>t. mct_ok t \<and> length (mt_interfaces t) = n" "\<lambda>i. unat i < n" "\<lambda>t k. members (mt_groups t) k \<noteq> None"
  mct_report mct_leave for n
proof unfold_locales
  fix t k k' and i :: u32
  assume t: "mct_ok t \<and> length (mt_interfaces t) = n"
  then have g: "groups_ok n (mt_groups t)" by (auto simp: mct_ok_alt)
  show "mct_ok (mct_leave k t) \<and> length (mt_interfaces (mct_leave k t)) = n"
    using t leave_spec(2)[OF g, of k] by (auto simp: mct_ok_alt)
  show "members (mt_groups (mct_leave k t)) k' \<noteq> None \<longleftrightarrow> k' \<noteq> k \<and> members (mt_groups t) k' \<noteq> None"
    by (simp add: leave_spec(1)[OF g] spec_leave_def)
  assume i: "unat i < n"
  show "mct_ok (mct_report i k t) \<and> length (mt_interfaces (mct_report i k t)) = n"
    using t report_spec(2)[OF g i, of k] by (auto simp: mct_ok_alt)
  show "members (mt_groups (mct_report i k t)) k' \<noteq> None \<longleftrightarrow> k' = k \<or> members (mt_groups t) k' \<noteq> None"
    by (auto simp: report_spec(1)[OF g i] spec_join_def)
qed

end
