(* ===== verification/Mcast_IGMP.thy ===== *)
theory Mcast_IGMP
  imports Mcast_Table
begin

text \<open>
  The protocol elements of the package \<open>multicast\<close>: \<open>IGMP\<close> (\<open>igmp.cc\<close>), through which hosts join and
  leave groups, and \<open>PIM\<close> (\<open>pim.cc\<close>), through which the other routers do. Both work on the table of receivers and
  on the PIM control element of their router; the messages these send are events, in the order in which the
  code pushes them.

  A message is the data of a packet; \<open>iph\<close> is the offset of its IP header annotation. The header length is
  read there, but the message is taken to start that far from the beginning of the data, as in the
  code. The arrays of the report structure have one element: the code indexes them beyond it.
\<close>

section \<open>A router\<close>

record mc_env =
  me_endian :: endian
  me_ck :: cksum
  me_make :: "nat \<Rightarrow> byte list"
  me_makeq :: "int \<Rightarrow> byte list"

text \<open>\<open>mr_id\<close> is the static counter of \<open>IGMP::query\<close>.\<close>

record mrouter =
  mr_table :: mct
  mr_pim :: pimctl
  mr_id :: int

datatype mc_event = Query mc_packet | PimMessage mc_packet

type_synonym mstep = "mrouter \<times> mc_event list"

section \<open>IGMP\<close>

text \<open>Without a source the query goes to 224.0.0.22 and its source field is left uninitialised.\<close>

definition query_igmp :: "mc_env \<Rightarrow> byte list \<Rightarrow> ip_addr \<Rightarrow> ip_addr \<Rightarrow> byte list" where
  "query_igmp E m grp source =
     (let body = (\<lambda>ck. [0x11, 1] @ ck @ be32 grp @ [0x03, 0] @
                   (if source = 0 then [0, 0] @ take 4 (drop 32 m) else be16 1 @ be32 (htonl (me_endian E) source)))
      in body (mem16 (me_endian E) (inline_cksum (me_endian E) (body [0, 0]))))"

definition query_ip :: "mc_env \<Rightarrow> byte list \<Rightarrow> int \<Rightarrow> ip_addr \<Rightarrow> byte list" where
  "query_ip E m n dst =
     (let hd = (\<lambda>ck. [0x45, 0] @ be16 36 @ be16 (word_of_int n) @ [0, 0, 1, 2] @ ck @ take 4 (drop 12 m) @ be32 dst)
      in hd (mem16 (me_endian E) (me_ck E (hd [0, 0]))))"

definition igmp_query :: "mc_env \<Rightarrow> ip_addr \<Rightarrow> ip_addr \<Rightarrow> mrouter \<Rightarrow> mstep" where
  "igmp_query E grp source st =
     (let m = me_makeq E (mr_id st);
          dst = u32_of (if source = 0 then [224, 0, 0, 22] else [224, 0, 0, 1])
      in (st\<lparr>mr_id := mr_id st + 1\<rparr>, [Query (query_ip E m (mr_id st) dst @ query_igmp E m grp source, dst)]))"

text \<open>Calls of the table, on the router.\<close>

definition r_report :: "u32 \<Rightarrow> ip_addr \<Rightarrow> ip_addr \<Rightarrow> mrouter \<Rightarrow> mrouter" where
  "r_report ifc recv grp st = st\<lparr>mr_table := mct_report ifc (grp, recv) (mr_table st)\<rparr>"

definition r_mode :: "byte \<Rightarrow> ip_addr \<Rightarrow> ip_addr \<Rightarrow> mrouter \<Rightarrow> mrouter" where
  "r_mode m recv grp st = st\<lparr>mr_table := fst (set_receiver_mode recv grp m (mr_table st))\<rparr>"

definition r_leave :: "ip_addr \<Rightarrow> ip_addr \<Rightarrow> mrouter \<Rightarrow> mrouter" where
  "r_leave recv grp st = st\<lparr>mr_table := mct_leave (grp, recv) (mr_table st)\<rparr>"

text \<open>The bodies of the loops over the sources of a group record; \<open>rec\<close> is the record's offset.\<close>

definition source_at :: "byte list \<Rightarrow> nat \<Rightarrow> nat \<Rightarrow> ip_addr option" where
  "source_at b rec k = map_option u32_of (rdn b (rec + 8 + 4 * k) 4)"

definition add_source :: "mc_env \<Rightarrow> byte list \<Rightarrow> nat \<Rightarrow> ip_addr \<Rightarrow> ip_addr \<Rightarrow> nat \<Rightarrow> mstep \<Rightarrow> mstep option" where
  "add_source E b rec recv grp k s =
     do {
       src \<leftarrow> source_at b rec k;
       let sa = htonl (me_endian E) src;
       let (tc, out, _) = mct_addsource (me_endian E) (me_make E) recv grp sa (mr_table (fst s), mr_pim (fst s));
       let (st, q) = igmp_query E grp sa ((fst s)\<lparr>mr_table := fst tc, mr_pim := snd tc\<rparr>);
       Some (st, snd s @ map PimMessage out @ q)
     }"

definition del_source :: "mc_env \<Rightarrow> byte list \<Rightarrow> nat \<Rightarrow> ip_addr \<Rightarrow> ip_addr \<Rightarrow> nat \<Rightarrow> mstep \<Rightarrow> mstep option" where
  "del_source E b rec recv grp k s =
     do {
       src \<leftarrow> source_at b rec k;
       (tc, out, _) \<leftarrow> mct_delsource (me_endian E) (me_make E) recv grp src (mr_table (fst s), mr_pim (fst s));
       let (st, q) = igmp_query E grp src ((fst s)\<lparr>mr_table := fst tc, mr_pim := snd tc\<rparr>);
       Some (st, snd s @ map PimMessage out @ q)
     }"

text \<open>A record without sources is answered by one query.\<close>

definition query_if_none :: "mc_env \<Rightarrow> ip_addr \<Rightarrow> nat \<Rightarrow> mstep \<Rightarrow> mstep" where
  "query_if_none E grp n s =
     (if n = 0 then let (st, q) = igmp_query E grp 0 (fst s) in (st, snd s @ q) else s)"

definition change_to_exclude_mode ::
    "mc_env \<Rightarrow> byte list \<Rightarrow> nat \<Rightarrow> u32 \<Rightarrow> ip_addr \<Rightarrow> ip_addr \<Rightarrow> nat \<Rightarrow> mstep \<Rightarrow> mstep option" where
  "change_to_exclude_mode E b rec paint recv grp n s =
     do {
       let st = r_mode EXCLUDEMODE recv grp (r_report paint recv grp (fst s));
       s1 \<leftarrow> forM (add_source E b rec recv grp) [0..<n] (st, snd s);
       Some (query_if_none E grp n s1)
     }"

definition change_to_include_mode ::
    "mc_env \<Rightarrow> byte list \<Rightarrow> nat \<Rightarrow> u32 \<Rightarrow> ip_addr \<Rightarrow> ip_addr \<Rightarrow> nat \<Rightarrow> mstep \<Rightarrow> mstep option" where
  "change_to_include_mode E b rec paint recv grp n s =
     do {
       let st = r_mode INCLUDEMODE recv grp (r_report paint recv grp (fst s));
       s1 \<leftarrow> (if n = 0 then Some (r_leave recv grp st, snd s)
              else forM (add_source E b rec recv grp) [0..<n] (st, snd s));
       Some (query_if_none E grp n s1)
     }"

definition allow_new_sources ::
    "mc_env \<Rightarrow> byte list \<Rightarrow> nat \<Rightarrow> u32 \<Rightarrow> ip_addr \<Rightarrow> ip_addr \<Rightarrow> nat \<Rightarrow> mstep \<Rightarrow> mstep option" where
  "allow_new_sources E b rec paint recv grp n s =
     do {
       let st = r_mode INCLUDEMODE recv grp (r_report paint recv grp (fst s));
       s1 \<leftarrow> forM (add_source E b rec recv grp) [0..<n] (st, snd s);
       Some (query_if_none E grp n s1)
     }"

definition block_old_sources ::
    "mc_env \<Rightarrow> byte list \<Rightarrow> nat \<Rightarrow> ip_addr \<Rightarrow> ip_addr \<Rightarrow> nat \<Rightarrow> mstep \<Rightarrow> mstep option" where
  "block_old_sources E b rec recv grp n s =
     do {
       s1 \<leftarrow> forM (del_source E b rec recv grp) [0..<n] s;
       Some (query_if_none E grp n s1)
     }"

text \<open>
  One group record of a version 3 report. \<open>off\<close> is the offset of the report; the records are taken to be
  12 bytes apart, whatever the number of their sources.
\<close>

definition igmp_record :: "mc_env \<Rightarrow> byte list \<Rightarrow> nat \<Rightarrow> u32 \<Rightarrow> ip_addr \<Rightarrow> nat \<Rightarrow> mstep \<Rightarrow> mstep option" where
  "igmp_record E b off paint src i s =
     do {
       let rec = off + 8 + 12 * i;
       ty \<leftarrow> rd8 b rec;
       if ty \<notin> {1, 2, 3, 4, 5, 6} then Some s
       else do {
         nw \<leftarrow> (if ty \<in> {1, 2} then Some [] else rdn b (rec + 2) 2);
         let n = unat (u16_of nw);
         g \<leftarrow> rdn b (rec + 4) 4;
         let grp = u32_of g;
         if ty = 1 then Some (r_mode INCLUDEMODE src grp (fst s), snd s)
         else if ty = 2 then Some (r_mode EXCLUDEMODE src grp (fst s), snd s)
         else if ty = 3 then change_to_include_mode E b rec paint src grp n s
         else if ty = 4 then change_to_exclude_mode E b rec paint src grp n s
         else if ty = 5 then allow_new_sources E b rec paint src grp n s
         else block_old_sources E b rec src grp n s
       }
     }"

text \<open>
  \<open>simple_action\<close>. A wrong checksum is only reported: the bytes are read, the result has no effect. The packet
  goes on unchanged.
\<close>

definition igmp_simple_action :: "mc_env \<Rightarrow> nat \<Rightarrow> byte list \<Rightarrow> byte \<Rightarrow> mrouter \<Rightarrow> mstep option" where
  "igmp_simple_action E iph b paint st =
     do {
       vhl \<leftarrow> rd8 b iph;
       let off = 4 * unat (vhl AND 15);
       ty \<leftarrow> rd8 b off;
       if ty = 0x11 then do { _ \<leftarrow> rdn b (iph + 12) 4; Some (st, []) }
       else if ty = 0x12 \<or> ty = 0x16
       then do {
         _ \<leftarrow> rdn b off 8;
         dst \<leftarrow> rdn b (iph + 16) 4;
         src \<leftarrow> rdn b (iph + 12) 4;
         Some (r_report (ucast paint) (u32_of src) (u32_of dst) st, [])
       }
       else if ty = 0x17
       then do {
         _ \<leftarrow> rdn b off 8;
         src \<leftarrow> rdn b (iph + 12) 4;
         g \<leftarrow> rdn b (off + 4) 4;
         Some (r_leave (u32_of src) (u32_of g) st, [])
       }
       else if ty = 0x22
       then do {
         len \<leftarrow> rdn b (iph + 2) 2;
         _ \<leftarrow> rdn b off (unat (u16_of len) - off);
         n \<leftarrow> rdn b (off + 6) 2;
         src \<leftarrow> rdn b (iph + 12) 4;
         forM (igmp_record E b off (ucast paint) (u32_of src)) [0..<unat (u16_of n)] (st, [])
       }
       else Some (st, [])
     }"

text \<open>The timer only reschedules itself.\<close>

definition igmp_run_timer :: "mrouter \<Rightarrow> mrouter \<times> nat" where
  "igmp_run_timer st = (st, 4000)"

section \<open>PIM\<close>

text \<open>
  The loops over the joined and the pruned sources of a group record at \<open>gr\<close>: every round reads the record's
  first source.
\<close>

definition pim_join_one :: "mc_env \<Rightarrow> ip_addr \<Rightarrow> byte list \<Rightarrow> nat \<Rightarrow> nat \<Rightarrow> mstep \<Rightarrow> mstep option" where
  "pim_join_one E ifc b gr k s =
     do {
       g \<leftarrow> rdn b (gr + 4) 4;
       a \<leftarrow> rdn b (gr + 16) 4;
       let c = mr_pim (fst s);
       let t = fst (ft_addgroup (me_endian E) ifc (u32_of g) (u32_of a) (pc_table c));
       let (c1, q) = ctl_send (me_endian E) (me_make E) (u32_of g) (htonl (me_endian E) (u32_of a)) True (c\<lparr>pc_table := t\<rparr>);
       Some ((fst s)\<lparr>mr_pim := c1\<rparr>, snd s @ [PimMessage q])
     }"

definition pim_prune_one :: "mc_env \<Rightarrow> ip_addr \<Rightarrow> byte list \<Rightarrow> nat \<Rightarrow> nat \<Rightarrow> mstep \<Rightarrow> mstep option" where
  "pim_prune_one E ifc b gr k s =
     do {
       g \<leftarrow> rdn b (gr + 4) 4;
       a \<leftarrow> rdn b (gr + 16) 4;
       let c = mr_pim (fst s);
       let t = fst (ft_delgroup (me_endian E) ifc (u32_of g) (u32_of a) (pc_table c));
       let c1 = c\<lparr>pc_table := t\<rparr>;
       if getIGMPreceivers (u32_of a) (u32_of g) (mr_table (fst s))
       then let (c2, q) = ctl_send (me_endian E) (me_make E) (u32_of g) (htonl (me_endian E) (u32_of a)) False c1
            in Some ((fst s)\<lparr>mr_pim := c2\<rparr>, snd s @ [PimMessage q])
       else Some ((fst s)\<lparr>mr_pim := c1\<rparr>, snd s)
     }"

definition pim_group :: "mc_env \<Rightarrow> ip_addr \<Rightarrow> byte list \<Rightarrow> nat \<Rightarrow> nat \<Rightarrow> mstep \<times> nat \<Rightarrow> (mstep \<times> nat) option" where
  "pim_group E ifc b recs i sp =
     do {
       let gr = recs + snd sp;
       nj \<leftarrow> rdn b (gr + 8) 2;
       s1 \<leftarrow> forM (pim_join_one E ifc b gr) [0..<unat (u16_of nj)] (fst sp);
       np \<leftarrow> rdn b (gr + 10) 2;
       s2 \<leftarrow> forM (pim_prune_one E ifc b gr) [0..<unat (u16_of np)] s1;
       Some (s2, snd sp + 8 * unat (u16_of nj) + 8 * unat (u16_of np) + 12)
     }"

text \<open>The number of the output port and the events; \<open>ifc\<close> is the configured address of the element.\<close>

definition pim_push :: "mc_env \<Rightarrow> ip_addr \<Rightarrow> nat \<Rightarrow> byte list \<Rightarrow> mrouter \<Rightarrow> (mstep \<times> nat) option" where
  "pim_push E ifc iph b st =
     do {
       vhl \<leftarrow> rd8 b iph;
       let h = 4 * unat (vhl AND 15);
       proto \<leftarrow> rd8 b (iph + 9);
       if proto \<noteq> 103 then Some ((st, []), 0)
       else do {
         ver \<leftarrow> rd8 b h;
         if ver = 0x10 \<or> ver = 0x20
         then do {
           len \<leftarrow> rdn b (iph + 2) 2;
           _ \<leftarrow> rdn b h (unat (u16_of len) - h);
           src \<leftarrow> rdn b (iph + 12) 4;
           let c = mr_pim st;
           Some ((st\<lparr>mr_pim := c\<lparr>pc_table := fst (ft_addinterface ifc (u32_of src) (pc_table c))\<rparr>\<rparr>, []), 1)
         }
         else if ver = 0x13 \<or> ver = 0x23
         then do {
           len \<leftarrow> rdn b (iph + 2) 2;
           _ \<leftarrow> rdn b h (unat (u16_of len) - h);
           _ \<leftarrow> rdn b (h + 6) 4;
           n \<leftarrow> rd8 b (h + 11);
           (s, _) \<leftarrow> forM (pim_group E ifc b (h + 14)) [0..<unat n] ((st, []), 0);
           Some (s, 1)
         }
         else Some ((st, []), 1)
       }
     }"

section \<open>The routers keep their tables well-formed\<close>

text \<open>The table of a router with \<open>n\<close> interfaces, and its members.\<close>

definition router_ok :: "nat \<Rightarrow> mrouter \<Rightarrow> bool" where
  "router_ok n st \<longleftrightarrow> mct_ok (mr_table st) \<and> length (mt_interfaces (mr_table st)) = n"

abbreviation (input) filters_of :: "mrouter \<Rightarrow> filters" where
  "filters_of st \<equiv> members (mt_groups (mr_table st))"

text \<open>A step changes the groups of the table and nothing else of it.\<close>

definition same_rest :: "mct \<Rightarrow> mct \<Rightarrow> bool" where
  "same_rest t t' \<longleftrightarrow> t'\<lparr>mt_groups := []\<rparr> = t\<lparr>mt_groups := []\<rparr>"

lemma same_rest_simps:
  assumes "same_rest t t'"
  shows "mt_interfaces t' = mt_interfaces t" "mt_ninterfaces t' = mt_ninterfaces t" "mt_pimenable t' = mt_pimenable t"
  using assms by (cases t; cases t'; simp add: same_rest_def)+

lemma same_rest_trans: "same_rest t t' \<Longrightarrow> same_rest t' t'' \<Longrightarrow> same_rest t t''"
  by (simp add: same_rest_def)

lemma router_okD: "router_ok n st \<Longrightarrow> groups_ok n (mt_groups (mr_table st))"
  by (auto simp: router_ok_def mct_ok_alt)

lemma router_okI:
  "router_ok n st \<Longrightarrow> same_rest (mr_table st) (mr_table st') \<Longrightarrow> groups_ok n (mt_groups (mr_table st')) \<Longrightarrow> router_ok n st'"
  by (auto simp: router_ok_def mct_ok_alt same_rest_simps)

lemma same_rest_ops:
  "same_rest t (mct_report ifc k t)" "same_rest t (mct_leave k t)" "same_rest t (fst (set_receiver_mode recv grp m t))"
  by (simp_all add: same_rest_def mct_report_def mct_leave_def mct_addgroup_def mct_joingroup_def
      mct_leavegroup_def set_receiver_mode_def case_prod_unfold Let_def split: option.split)

lemma report_step:
  assumes "router_ok n st" and "unat ifc < n"
  shows "router_ok n (r_report ifc recv grp st)" "filters_of (r_report ifc recv grp st) = spec_join (grp, recv) (filters_of st)"
  using assms report_spec[OF router_okD[OF assms(1)] assms(2), of "(grp, recv)"]
  by (auto simp: r_report_def same_rest_ops intro: router_okI[OF assms(1)])

lemma leave_step:
  assumes "router_ok n st"
  shows "router_ok n (r_leave recv grp st)" "filters_of (r_leave recv grp st) = spec_leave (grp, recv) (filters_of st)"
  using assms leave_spec[OF router_okD[OF assms(1)], of "(grp, recv)"]
  by (auto simp: r_leave_def same_rest_ops intro: router_okI[OF assms(1)])

lemma mode_step:
  assumes "router_ok n st"
  shows "router_ok n (r_mode m recv grp st)" "filters_of (r_mode m recv grp st) = spec_mode m (grp, recv) (filters_of st)"
  using assms groups_ok_mode[OF router_okD[OF assms(1)]] members_mode[of recv grp m "mr_table st"]
  by (auto simp: r_mode_def same_rest_ops intro: router_okI[OF assms(1)])

lemma query_table [simp]: "mr_table (fst (igmp_query E grp source st)) = mr_table st"
  by (simp add: igmp_query_def Let_def)

lemma query_ok [simp]: "router_ok n (fst (igmp_query E grp source st)) = router_ok n st"
  by (simp add: router_ok_def)

lemma query_if_none_table [simp]: "mr_table (fst (query_if_none E grp k s)) = mr_table (fst s)"
  by (simp add: query_if_none_def case_prod_unfold Let_def)

lemma query_if_none_ok [simp]: "router_ok n (fst (query_if_none E grp k s)) = router_ok n (fst s)"
  by (simp add: router_ok_def)

section \<open>Group records refine the specification\<close>

text \<open>A member whose mode has been set.\<close>

definition has_mode :: "ip_addr \<times> ip_addr \<Rightarrow> filters \<Rightarrow> bool" where
  "has_mode k M \<longleftrightarrow> (\<exists>m ss. M k = Some (Some m, ss))"

lemma add_source_step:
  assumes "router_ok n (fst s)" and "has_mode (grp, recv) (filters_of (fst s))" and "source_at b rec k = Some src"
  obtains s' where "add_source E b rec recv grp k s = Some s'" "router_ok n (fst s')"
    "filters_of (fst s') = spec_add src (grp, recv) (filters_of (fst s))"
proof -
  let ?s = "(mr_table (fst s), mr_pim (fst s))"
  let ?a = "mct_addsource (me_endian E) (me_make E) recv grp (htonl (me_endian E) src) ?s"
  have m: "find_receiver recv grp (mt_groups (fst ?s)) = Some r \<Longrightarrow> rc_mode r \<noteq> None" for r
    using assms(2) by (auto simp: has_mode_def members_def)
  have g: "groups_ok n (mt_groups (fst ?s))" using router_okD[OF assms(1)] by simp
  note spec = addsource_spec[OF g m, where en = "me_endian E" and mk = "me_make E" and sa = "htonl (me_endian E) src"]
  define st where "st = (fst s)\<lparr>mr_table := fst (fst ?a), mr_pim := snd (fst ?a)\<rparr>"
  define q where "q = igmp_query E grp (htonl (me_endian E) src) st"
  have t: "mr_table st = fst (fst ?a)" by (simp add: st_def)
  have "router_ok n st" using spec(2,3) by (intro router_okI[OF assms(1)]) (simp_all add: same_rest_def t)
  then have ok: "router_ok n (fst q)" by (simp add: q_def)
  have fl: "filters_of (fst q) = spec_add src (grp, recv) (filters_of (fst s))" using spec(1) by (simp add: q_def t)
  have "add_source E b rec recv grp k s = Some (fst q, snd s @ map PimMessage (fst (snd ?a)) @ snd q)"
    by (simp add: add_source_def assms(3) case_prod_unfold Let_def q_def st_def)
  then show thesis by (rule that) (simp_all add: ok fl)
qed

lemma has_mode_add: "has_mode k M \<Longrightarrow> has_mode k (spec_add sa k M)"
  by (auto simp: has_mode_def spec_add_def)

lemma add_sources:
  assumes "router_ok n (fst s)" and "has_mode (grp, recv) (filters_of (fst s))"
    and "\<And>k. k \<in> set ks \<Longrightarrow> source_at b rec k = Some (f k)"
  shows "\<exists>s'. forM (add_source E b rec recv grp) ks s = Some s' \<and> router_ok n (fst s') \<and>
    filters_of (fst s') = fold (\<lambda>k. spec_add (f k) (grp, recv)) ks (filters_of (fst s))"
  using assms
proof (induction ks arbitrary: s)
  case (Cons k ks)
  obtain s1 where s1: "add_source E b rec recv grp k s = Some s1" "router_ok n (fst s1)"
      "filters_of (fst s1) = spec_add (f k) (grp, recv) (filters_of (fst s))"
    using add_source_step[OF Cons.prems(1,2), of b rec k "f k"] Cons.prems(3) by auto
  with Cons.IH[of s1] Cons.prems show ?case by (simp add: has_mode_add)
qed simp

lemma del_source_step:
  assumes "router_ok n (fst s)" and "source_at b rec k = Some src"
  shows "map_option (\<lambda>s. filters_of (fst s)) (del_source E b rec recv grp k s) = spec_del src (grp, recv) (filters_of (fst s))"
    and "del_source E b rec recv grp k s = Some s' \<Longrightarrow> router_ok n (fst s')"
proof -
  let ?s = "(mr_table (fst s), mr_pim (fst s))"
  let ?d = "mct_delsource (me_endian E) (me_make E) recv grp src ?s"
  have g: "groups_ok n (mt_groups (fst ?s))" using router_okD[OF assms(1)] by simp
  note spec = delsource_spec[OF g, where en = "me_endian E" and mk = "me_make E" and sa = src and recv = recv and grp = grp]
  have "map_option (\<lambda>s. filters_of (fst s)) (del_source E b rec recv grp k s) =
      map_option (\<lambda>x. members (mt_groups (fst (fst x)))) ?d"
    by (cases ?d) (simp_all add: del_source_def assms(2) case_prod_unfold Let_def)
  with spec(1) show "map_option (\<lambda>s. filters_of (fst s)) (del_source E b rec recv grp k s) = spec_del src (grp, recv) (filters_of (fst s))"
    by simp
  show "router_ok n (fst s')" if d: "del_source E b rec recv grp k s = Some s'"
  proof -
    obtain x where x: "?d = Some x" "mr_table (fst s') = fst (fst x)"
      using d by (auto simp: del_source_def assms(2) case_prod_unfold Let_def bind_eq_Some_conv)
    then show ?thesis
      using spec(2,3)[of x] by (intro router_okI[OF assms(1)]) (simp_all add: same_rest_def)
  qed
qed

lemma del_sources_loop:
  assumes "router_ok n (fst s)" and "\<And>k. k \<in> set ks \<Longrightarrow> source_at b rec k = Some (f k)"
  shows "map_option (\<lambda>s. filters_of (fst s)) (forM (del_source E b rec recv grp) ks s) =
      forM (\<lambda>k. spec_del (f k) (grp, recv)) ks (filters_of (fst s)) \<and>
    (\<forall>s'. forM (del_source E b rec recv grp) ks s = Some s' \<longrightarrow> router_ok n (fst s'))"
  using assms
proof (induction ks arbitrary: s)
  case (Cons k ks)
  have src: "source_at b rec k = Some (f k)" using Cons.prems by simp
  note st = del_source_step[OF Cons.prems(1) src, where E = E and recv = recv and grp = grp]
  show ?case
  proof (cases "del_source E b rec recv grp k s")
    case None
    with st(1) have "spec_del (f k) (grp, recv) (filters_of (fst s)) = None" by simp
    with None show ?thesis by simp
  next
    case (Some s1)
    then have "spec_del (f k) (grp, recv) (filters_of (fst s)) = Some (filters_of (fst s1))" using st(1) by simp
    with Some st(2)[OF Some] Cons.IH[of s1] Cons.prems(2) show ?thesis by simp
  qed
qed simp

text \<open>The specification of a group record of type \<open>ty\<close> for the member \<open>k\<close>, with its list of sources.\<close>

definition spec_record :: "byte \<Rightarrow> ip_addr \<times> ip_addr \<Rightarrow> ip_addr list \<Rightarrow> filters \<Rightarrow> filters option" where
  "spec_record ty k ss M =
     (let add = (\<lambda>m. fold (\<lambda>sa. spec_add sa k) ss (spec_mode m k (spec_join k M)))
      in if ty = 1 then Some (spec_mode INCLUDEMODE k M)
         else if ty = 2 then Some (spec_mode EXCLUDEMODE k M)
         else if ty = 3 then Some (if ss = [] then spec_leave k M else add INCLUDEMODE)
         else if ty = 4 then Some (add EXCLUDEMODE)
         else if ty = 5 then Some (add INCLUDEMODE)
         else if ty = 6 then forM (\<lambda>sa. spec_del sa k) ss M
         else Some M)"

lemma spec_join_mode: "has_mode k (spec_mode m k (spec_join k M))"
  by (auto simp: has_mode_def spec_mode_def spec_join_def split: option.splits)

lemma spec_leave_joined: "spec_leave k (spec_mode m k (spec_join k M)) = spec_leave k M"
  by (auto simp: spec_leave_def spec_mode_def spec_join_def fun_eq_iff split: option.splits)

lemma fold_nth_eq: "fold (\<lambda>k. g (xs ! k)) [0..<length xs] M = fold g xs M"
proof -
  have "fold (\<lambda>k. g (xs ! k)) [0..<length xs] M = fold g (map ((!) xs) [0..<length xs]) M"
    by (simp only: fold_map o_def)
  then show ?thesis by (simp only: map_nth)
qed

lemma forM_map: "forM g (map h xs) = forM (\<lambda>k. g (h k)) xs"
proof (induction xs)
  case (Cons x xs)
  show ?case by (rule ext) (simp add: Cons.IH)
qed (simp add: fun_eq_iff)

lemma forM_nth_eq: "forM (\<lambda>k. g (xs ! k)) [0..<length xs] M = forM g xs M"
  by (simp add: map_nth flip: forM_map)

text \<open>Reporting, setting the mode and adding the sources of a record.\<close>

lemma add_record:
  fixes m recv grp
  assumes "router_ok n (fst s)" and "unat paint < n"
    and "\<And>k. k < length ss \<Longrightarrow> source_at b rec k = Some (ss ! k)"
  defines "st \<equiv> r_mode m recv grp (r_report paint recv grp (fst s))"
  shows "\<exists>s'. forM (add_source E b rec recv grp) [0..<length ss] (st, snd s) = Some s' \<and> router_ok n (fst s') \<and>
    filters_of (fst s') = fold (\<lambda>sa. spec_add sa (grp, recv)) ss (spec_mode m (grp, recv) (spec_join (grp, recv) (filters_of (fst s))))"
proof -
  note rep = report_step[OF assms(1,2), of recv grp]
  note md = mode_step[OF rep(1), of m recv grp, folded st_def]
  have "has_mode (grp, recv) (filters_of st)" by (simp add: md(2) rep(2) spec_join_mode)
  then show ?thesis
    using add_sources[of n "(st, snd s)" grp recv "[0..<length ss]" b rec "(!) ss" E] md assms(3)
    by (auto simp: rep(2) fold_nth_eq[where g = "\<lambda>sa. spec_add sa (grp, recv)"])
qed

lemma include_nothing:
  fixes m recv grp
  assumes "router_ok n st" and "unat paint < n"
  defines "st' \<equiv> r_leave recv grp (r_mode m recv grp (r_report paint recv grp st))"
  shows "router_ok n st' \<and> filters_of st' = spec_leave (grp, recv) (filters_of st)"
proof -
  note rep = report_step[OF assms(1,2), of recv grp]
  note md = mode_step[OF rep(1), of m recv grp]
  note lv = leave_step[OF md(1), of recv grp, folded st'_def]
  show ?thesis using lv by (simp add: md(2) rep(2) spec_leave_joined)
qed

text \<open>
  Property C18: processing a group record of an IGMPv3 report refines the specification: the members of the
  table and their filters change as the record's type says (set the mode; join and set the mode and the
  sources; leave; remove sources), and the table stays well-formed. The handler faults exactly when
  the specification says that the removal of a source runs past the end of the list.
\<close>

theorem group_record_refines_spec:
  assumes "router_ok n (fst s)" and "unat paint < n"
    and "rd8 b (off + 8 + 12 * i) = Some ty" and "rdn b (off + 8 + 12 * i + 2) 2 = Some nw"
    and "rdn b (off + 8 + 12 * i + 4) 4 = Some g"
    and "those (map (source_at b (off + 8 + 12 * i)) [0..<unat (u16_of nw)]) = Some ss"
  shows "map_option (\<lambda>s'. filters_of (fst s')) (igmp_record E b off paint src i s) =
      spec_record ty (u32_of g, src) ss (filters_of (fst s)) \<and>
    (\<forall>s'. igmp_record E b off paint src i s = Some s' \<longrightarrow> router_ok n (fst s'))"
proof -
  let ?rec = "off + 8 + 12 * i"
  define rec where "rec = ?rec"
  have len: "length ss = unat (u16_of nw)"
    using assms(6) by (metis those_eq_Some_iff length_map length_upt diff_zero)
  have src: "source_at b rec k = Some (ss ! k)" if "k < length ss" for k
  proof -
    have "map (source_at b rec) [0..<unat (u16_of nw)] = map Some ss" using assms(6) by (simp add: those_eq_Some_iff rec_def)
    then have "map (source_at b rec) [0..<unat (u16_of nw)] ! k = map Some ss ! k" by simp
    with that len show ?thesis by simp
  qed
  note add = add_record[OF assms(1,2) src, where recv = src and grp = "u32_of g" and E = E]
  obtain sI where addI: "forM (add_source E b rec src (u32_of g)) [0..<length ss]
      (r_mode INCLUDEMODE src (u32_of g) (r_report paint src (u32_of g) (fst s)), snd s) = Some sI" "router_ok n (fst sI)"
      "filters_of (fst sI) = fold (\<lambda>sa. spec_add sa (u32_of g, src)) ss
        (spec_mode INCLUDEMODE (u32_of g, src) (spec_join (u32_of g, src) (filters_of (fst s))))"
    using add[of INCLUDEMODE] by blast
  obtain sE where addE: "forM (add_source E b rec src (u32_of g)) [0..<length ss]
      (r_mode EXCLUDEMODE src (u32_of g) (r_report paint src (u32_of g) (fst s)), snd s) = Some sE" "router_ok n (fst sE)"
      "filters_of (fst sE) = fold (\<lambda>sa. spec_add sa (u32_of g, src)) ss
        (spec_mode EXCLUDEMODE (u32_of g, src) (spec_join (u32_of g, src) (filters_of (fst s))))"
    using add[of EXCLUDEMODE] by blast
  note del = del_sources_loop[OF assms(1), of "[0..<length ss]" b rec "(!) ss" E src "u32_of g"]
  note non = include_nothing[OF assms(1,2), of src "u32_of g"]
  have rd: "igmp_record E b off paint src i s =
    (if ty = 1 then Some (r_mode INCLUDEMODE src (u32_of g) (fst s), snd s)
     else if ty = 2 then Some (r_mode EXCLUDEMODE src (u32_of g) (fst s), snd s)
     else if ty = 3 then change_to_include_mode E b rec paint src (u32_of g) (length ss) s
     else if ty = 4 then change_to_exclude_mode E b rec paint src (u32_of g) (length ss) s
     else if ty = 5 then allow_new_sources E b rec paint src (u32_of g) (length ss) s
     else if ty = 6 then block_old_sources E b rec src (u32_of g) (length ss) s
     else Some s)"
    unfolding igmp_record_def Let_def assms(3,4,5) by (simp add: len rec_def)
  consider "ty = 1" | "ty = 2" | "ty = 3" | "ty = 4" | "ty = 5" | "ty = 6" | "ty \<notin> {1, 2, 3, 4, 5, 6}" by auto
  then show ?thesis
  proof cases
    case 3
    show ?thesis
    proof (cases "ss = []")
      case True
      with 3 non[of INCLUDEMODE] show ?thesis by (simp add: rd spec_record_def change_to_include_mode_def)
    next
      case False
      with 3 show ?thesis
        using addI by (simp add: rd spec_record_def change_to_include_mode_def Let_def)
    qed
  next
    case 6
    have d: "map_option (\<lambda>s. filters_of (fst s)) (forM (del_source E b rec src (u32_of g)) [0..<length ss] s) =
        forM (\<lambda>sa. spec_del sa (u32_of g, src)) ss (filters_of (fst s))"
      and ok: "forM (del_source E b rec src (u32_of g)) [0..<length ss] s = Some s1 \<Longrightarrow> router_ok n (fst s1)" for s1
      using del src by (simp_all add: forM_nth_eq[where g = "\<lambda>sa. spec_del sa (u32_of g, src)"])
    from 6 show ?thesis
      using d ok
      by (cases "forM (del_source E b rec src (u32_of g)) [0..<length ss] s")
         (simp_all add: rd spec_record_def block_old_sources_def)
  qed (use assms(1) mode_step[OF assms(1)] addI addE in
      \<open>simp_all add: rd spec_record_def change_to_exclude_mode_def allow_new_sources_def Let_def\<close>)
qed

text \<open>A router without members that knows a neighbour.\<close>

definition ex_router :: mrouter where
  "ex_router = \<lparr>mr_table = \<lparr>mt_groups = [], mt_interfaces = [False, False, False], mt_pimenable = True, mt_ninterfaces = 3\<rparr>,
     mr_pim = \<lparr>pc_source_connected = False,
       pc_table = [\<lparr>pi_interface = 1, pi_neighbor = 2, pi_groupsources = []\<rparr>], pc_made = 0\<rparr>, mr_id = 1\<rparr>"

definition ex_env :: mc_env where
  "ex_env = \<lparr>me_endian = LittleEndian, me_ck = rfc1071 LittleEndian, me_make = (\<lambda>_. replicate 58 0), me_makeq = (\<lambda>_. replicate 36 0)\<rparr>"

lemma ex_router_ok: "router_ok 3 ex_router"
  by (simp add: router_ok_def ex_router_def mct_ok_def)

text \<open>A report with one record: allow the source 10.0.0.1.\<close>

definition ex_report :: "byte list" where
  "ex_report = [0x22, 0, 0, 0, 0, 0, 0, 1, 5, 0, 0, 1, 232, 2, 2, 2, 10, 0, 0, 1]"

theorem group_record_refines_spec_witness:
  "router_ok 3 (fst (ex_router, [] :: mc_event list)) \<and>
   map_option (\<lambda>s'. filters_of (fst s')) (igmp_record ex_env ex_report 0 1 9 0 (ex_router, [])) =
     spec_record 5 (u32_of [232, 2, 2, 2], 9) [u32_of [10, 0, 0, 1]] (filters_of ex_router)"
proof -
  have ok: "router_ok 3 (fst (ex_router, [] :: mc_event list))" by (simp add: ex_router_ok)
  have r: "rd8 ex_report (0 + 8 + 12 * 0) = Some 5" "rdn ex_report (0 + 8 + 12 * 0 + 2) 2 = Some [0, 1]"
    "rdn ex_report (0 + 8 + 12 * 0 + 4) 4 = Some [232, 2, 2, 2]"
    by (simp_all add: ex_report_def)
  have ss: "those (map (source_at ex_report (0 + 8 + 12 * 0)) [0..<unat (u16_of [0, 1])]) = Some [u32_of [10, 0, 0, 1]]"
    by (simp add: u16_of_def be_val_def source_at_def ex_report_def)
  show ?thesis
    using ok group_record_refines_spec[OF ok _ r ss, of 1 ex_env 9] by simp
qed

text \<open>
  A query names the byte swap of the address it is called with; \<open>allow_new_sources\<close> swaps the source of the
  report before the call, \<open>block_old_sources\<close> does not.
\<close>

lemma query_source_bytes:
  "source \<noteq> 0 \<Longrightarrow> drop 12 (query_igmp E m grp source) = be32 (htonl (me_endian E) source)"
  by (simp add: query_igmp_def Let_def)

lemma query_checksum_valid:
  assumes "36 \<le> length m"
  shows "rfc1071 (me_endian E) (query_igmp E m grp source) = 0"
proof -
  let ?R = "be32 grp @ [0x03, 0] @ (if source = 0 then [0, 0] @ take 4 (drop 32 m) else be16 1 @ be32 (htonl (me_endian E) source))"
  let ?T = "\<lambda>c. [0x11, 1] @ c @ ?R"
  have l: "length (?T [0, 0]) = 16" using assms by simp
  then have "inline_cksum (me_endian E) (?T [0, 0]) = rfc1071 (me_endian E) (?T [0, 0])" by (intro inline_cksum_eq) simp_all
  moreover have "put_at 2 c (?T [0, 0]) = ?T c" if "length c = 2" for c using that by (simp add: put_at_def)
  ultimately have "query_igmp E m grp source = stamp (me_endian E) (rfc1071 (me_endian E)) 2 (?T [0, 0])"
    by (simp add: query_igmp_def stamp_def mem_u16_zero Let_def)
  then show ?thesis using stamp_valid[OF rfc1071_law, of 2 "?T [0, 0]"] l by simp
qed

section \<open>Version 1 and 2 messages\<close>

text \<open>A message of a host: a report names its group as destination, a leave in the message.\<close>

definition says_join :: "nat \<Rightarrow> byte list \<Rightarrow> ip_addr \<times> ip_addr \<Rightarrow> bool" where
  "says_join iph b k \<longleftrightarrow>
     ip_header_at iph b \<and> 4 * unat (b ! iph AND 15) + 8 \<le> length b \<and>
     b ! (4 * unat (b ! iph AND 15)) \<in> {0x12, 0x16} \<and>
     k = (u32_of (take 4 (drop (iph + 16) b)), u32_of (take 4 (drop (iph + 12) b)))"

definition says_leave :: "nat \<Rightarrow> byte list \<Rightarrow> ip_addr \<times> ip_addr \<Rightarrow> bool" where
  "says_leave iph b k \<longleftrightarrow>
     ip_header_at iph b \<and> 4 * unat (b ! iph AND 15) + 8 \<le> length b \<and>
     b ! (4 * unat (b ! iph AND 15)) = 0x17 \<and>
     k = (u32_of (take 4 (drop (4 * unat (b ! iph AND 15) + 4) b)), u32_of (take 4 (drop (iph + 12) b)))"

lemma action_join:
  "says_join iph b k \<Longrightarrow> igmp_simple_action E iph b paint st =
     Some (st\<lparr>mr_table := mct_report (ucast paint) k (mr_table st)\<rparr>, [])"
  by (auto simp: says_join_def ip_header_at_def igmp_simple_action_def r_report_def Let_def)

lemma action_leave:
  "says_leave iph b k \<Longrightarrow> igmp_simple_action E iph b paint st =
     Some (st\<lparr>mr_table := mct_leave k (mr_table st)\<rparr>, [])"
  by (auto simp: says_leave_def ip_header_at_def igmp_simple_action_def r_leave_def Let_def)

text \<open>A sequence of packets through the element.\<close>

definition igmp_run :: "mc_env \<Rightarrow> nat \<Rightarrow> (byte list \<times> byte) list \<Rightarrow> mrouter \<Rightarrow> mrouter option" where
  "igmp_run E iph = forM (\<lambda>p st. map_option fst (igmp_simple_action E iph (fst p) (snd p) st))"

text \<open>The message of a history entry: the packet, the member it is about, and whether it is a report.\<close>

definition entry_ok :: "nat \<Rightarrow> nat \<Rightarrow> (byte list \<times> byte) \<times> (ip_addr \<times> ip_addr) \<times> bool \<Rightarrow> bool" where
  "entry_ok n iph e \<longleftrightarrow>
     (if snd (snd e) then says_join iph (fst (fst e)) (fst (snd e)) \<and> unat (snd (fst e)) < n
      else says_leave iph (fst (fst e)) (fst (snd e)))"

abbreviation (input) act_of :: "(byte list \<times> byte) \<times> (ip_addr \<times> ip_addr) \<times> bool \<Rightarrow> (ip_addr \<times> ip_addr) \<times> u32 option" where
  "act_of e \<equiv> (fst (snd e), if snd (snd e) then Some (ucast (snd (fst e))) else None)"

lemma igmp_run_act:
  assumes "\<forall>e \<in> set es. entry_ok n iph e"
  shows "igmp_run E iph (map fst es) st =
    Some (st\<lparr>mr_table := fold mt.act (map act_of es) (mr_table st)\<rparr>)"
  using assms
proof (induction es arbitrary: st)
  case (Cons e es)
  then have "entry_ok n iph e" by simp
  then have "igmp_simple_action E iph (fst (fst e)) (snd (fst e)) st =
      Some (st\<lparr>mr_table := mt.act (act_of e) (mr_table st)\<rparr>, [])"
    by (auto simp: entry_ok_def mt.act_def action_join action_leave split: if_splits)
  with Cons show ?case by (simp add: igmp_run_def)
qed (simp add: igmp_run_def)

lemma find_map: "find P (map f xs) = map_option f (find (P \<circ> f) xs)"
  by (induction xs) auto

lemma unat_paint: "unat (ucast (w :: byte) :: u32) = unat w"
  using unat_lt_256[of w] by (simp add: unsigned_ucast_eq take_bit_eq_mod)

text \<open>
  Property C16: version 1 and 2 messages make membership follow the history: after any sequence of reports and
  leaves, in which every report arrives on an interface of the router, a host is a member of a group
  exactly if its last message about that group was a report (or it was a member before and sent none).
\<close>

theorem membership_follows_reports:
  assumes "router_ok n st" and "\<forall>e \<in> set es. entry_ok n iph e"
  shows "\<exists>st'. igmp_run E iph (map fst es) st = Some st' \<and> router_ok n st' \<and>
    (\<forall>k. filters_of st' k \<noteq> None \<longleftrightarrow>
       (case find (\<lambda>e. fst (snd e) = k) (rev es) of Some e \<Rightarrow> snd (snd e) | None \<Rightarrow> filters_of st k \<noteq> None))"
proof -
  let ?t = "fold mt.act (map act_of es) (mr_table st)"
  have ok: "mct_ok (mr_table st) \<and> length (mt_interfaces (mr_table st)) = n" using assms(1) by (simp add: router_ok_def)
  have v: "\<forall>a \<in> set (map act_of es). pred_option (\<lambda>i. unat i < n) (snd a)"
    using assms(2) by (auto simp: entry_ok_def unat_paint)
  have "members (mt_groups ?t) k \<noteq> None \<longleftrightarrow>
      (case find (\<lambda>e. fst (snd e) = k) (rev es) of Some e \<Rightarrow> snd (snd e) | None \<Rightarrow> filters_of st k \<noteq> None)" for k
    using mt.run_member[OF ok v, of k] by (auto simp: find_map o_def rev_map split: option.splits if_splits)
  then show ?thesis
    using igmp_run_act[OF assms(2)] mt.run_ok[OF ok v] by (auto simp: router_ok_def)
qed

definition ex_host :: "byte \<Rightarrow> byte list" where
  "ex_host ty = [0x45, 0, 0, 28, 0, 0, 0, 0, 1, 2, 0, 0, 10, 0, 0, 9, 232, 2, 2, 2, ty, 0, 0, 0, 232, 2, 2, 2]"

theorem membership_follows_reports_witness:
  "router_ok 3 ex_router \<and>
   (\<exists>st'. igmp_run ex_env 0 [(ex_host 0x16, 1), (ex_host 0x17, 1)] ex_router = Some st' \<and>
      filters_of st' (u32_of [232, 2, 2, 2], u32_of [10, 0, 0, 9]) = None)"
proof -
  let ?k = "(u32_of [232, 2, 2, 2], u32_of [10, 0, 0, 9])"
  let ?es = "[((ex_host 0x16, 1 :: byte), ?k, True), ((ex_host 0x17, 1), ?k, False)]"
  have e: "\<forall>e \<in> set ?es. entry_ok 3 0 e"
    by (simp add: entry_ok_def says_join_def says_leave_def ex_host_def ip_header_at_def)
  obtain st' where run: "igmp_run ex_env 0 (map fst ?es) ex_router = Some st'"
    and hist: "\<forall>k. filters_of st' k \<noteq> None \<longleftrightarrow>
       (case find (\<lambda>e. fst (snd e) = k) (rev ?es) of Some e \<Rightarrow> snd (snd e) | None \<Rightarrow> filters_of ex_router k \<noteq> None)"
    using membership_follows_reports[OF ex_router_ok e, of ex_env] by (elim exE conjE)
  have "filters_of st' ?k = None" using spec[OF hist, of ?k] by (simp del: not_None_eq)
  with run show ?thesis using ex_router_ok by auto
qed

section \<open>A subscription travels towards the source\<close>

lemma length4: "length xs = 4 \<Longrightarrow> \<exists>a b c d. xs = [a, b, c, d]"
  by (auto simp: numeral_eq_Suc length_Suc_conv)

lemma ft_addgroup_entry:
  assumes "find (\<lambda>i. pi_interface i = ifc) t = Some i0" and "\<forall>g \<in> set (pi_groupsources i0). gs_group g \<noteq> grp"
  shows "\<exists>i \<in> set (fst (ft_addgroup en ifc grp src t)). pi_neighbor i = pi_neighbor i0 \<and>
    (\<exists>g \<in> set (pi_groupsources i). gs_group g = grp \<and> gs_source g = htonl en src)"
  using assms by (induction t) (auto simp: case_prod_unfold Let_def split: if_splits)

text \<open>An interface that has an entry of the group gets no second one, whatever its source is.\<close>

lemma ft_addgroup_known:
  assumes "find (\<lambda>i. pi_interface i = ifc) t = Some i0" and "\<exists>g \<in> set (pi_groupsources i0). gs_group g = grp"
  shows "ft_addgroup en ifc grp src t = (t, False)"
  using assms by (induction t) (auto split: if_splits)

lemma ft_addgroup_forwards:
  assumes "find (\<lambda>i. pi_interface i = ifc) t = Some i0"
    and "(\<forall>g \<in> set (pi_groupsources i0). gs_group g \<noteq> grp) \<or>
      (\<exists>g \<in> set (pi_groupsources i0). gs_group g = grp \<and> gs_source g = htonl en src)"
  shows "\<exists>i \<in> set (fst (ft_addgroup en ifc grp src t)). pi_neighbor i = pi_neighbor i0 \<and>
    (\<exists>g \<in> set (pi_groupsources i). gs_group g = grp \<and> gs_source g = htonl en src)"
  using assms(2)
proof
  assume "\<forall>g \<in> set (pi_groupsources i0). gs_group g \<noteq> grp"
  then show ?thesis by (rule ft_addgroup_entry[OF assms(1)])
next
  assume g: "\<exists>g \<in> set (pi_groupsources i0). gs_group g = grp \<and> gs_source g = htonl en src"
  have "ft_addgroup en ifc grp src t = (t, False)" by (rule ft_addgroup_known[OF assms(1)]) (use g in blast)
  moreover have "i0 \<in> set t" using assms(1) by (auto simp: find_Some_iff)
  ultimately show ?thesis using g by auto
qed

lemma ft_copies_eq:
  assumes "ip_header_at iph p"
  shows "ft_copies en ck iph grp src p nb gs =
    Some (map (\<lambda>_. (decremented en ck iph p, nb)) (filter (\<lambda>g. gs_source g = htonl en src \<and> grp = gs_group g) gs))"
  by (induction gs) (auto simp: forward_copy_eq[OF assms])

lemma ft_push_copy:
  assumes "ip_header_at iph (fst pk)" and "rdn (fst pk) 12 4 = Some (be32 src)"
    and "i \<in> set t" and "g \<in> set (pi_groupsources i)" and "gs_group g = snd pk" and "gs_source g = htonl en src"
  shows "\<exists>outs. ft_push en ck iph pk t = Some outs \<and> (decremented en ck iph (fst pk), pi_neighbor i) \<in> set outs"
proof -
  let ?f = "\<lambda>i. map (\<lambda>_. (decremented en ck iph (fst pk), pi_neighbor i))
              (filter (\<lambda>g. gs_source g = htonl en src \<and> snd pk = gs_group g) (pi_groupsources i))"
  have "ft_push en ck iph pk t = Some (concat (map ?f t))"
    by (simp add: ft_push_def assms(2) ft_copies_eq[OF assms(1)] those_map_Some del: rdn_Some)
  moreover have "(decremented en ck iph (fst pk), pi_neighbor i) \<in> set (concat (map ?f t))"
    using assms(4-6) by (auto intro!: bexI[OF _ assms(3)] image_eqI[of _ _ g])
  ultimately show ?thesis by blast
qed

text \<open>The message that leaves the router, byte by byte.\<close>

lemma length_generatejoin:
  "58 \<le> length m \<Longrightarrow> length (fst (generatejoin en m grp s j)) = 58"
  by (simp add: generatejoin_def pim_ip_def)

definition join_rest :: "endian \<Rightarrow> ip_addr \<Rightarrow> ip_addr \<Rightarrow> bool \<Rightarrow> byte list" where
  "join_rest en grp s j = [0, 1, 0xff, 0xff] @ [1, 0, 4, 32] @ be32 grp @
     (if j then be16 1 @ [0, 0] else [0, 0] @ be16 1) @ [1, 0, 4, 32] @ be32 (htonl en s)"

lemma length_join_rest [simp]: "length (join_rest en grp s j) = 24"
  by (simp add: join_rest_def)

lemma length_pim_ip [simp]: "16 \<le> length m \<Longrightarrow> length (pim_ip en ttl len m) = 24"
  by (simp add: pim_ip_def)

lemma pim_ip_bytes:
  assumes "16 \<le> length m"
  shows "rd8 (pim_ip en ttl len m @ b) 0 = Some 0x46" "rd8 (pim_ip en ttl len m @ b) 9 = Some 0x67"
    "rdn (pim_ip en ttl len m @ b) 2 2 = Some (be16 (word_of_nat len))"
proof -
  obtain x1 x2 x3 x4 where x: "take 4 (drop 12 m) = [x1, x2, x3, x4]" using length4[of "take 4 (drop 12 m)"] assms by auto
  obtain y1 y2 where y: "mem16 en 0x5ff4 = [y1, y2]" by (rule mem16_pair)
  obtain z1 z2 where z: "be16 (word_of_nat len) = [z1, z2]" by (auto simp: be16_def numeral_2_eq_2)
  show "rd8 (pim_ip en ttl len m @ b) 0 = Some 0x46" "rd8 (pim_ip en ttl len m @ b) 9 = Some 0x67"
    "rdn (pim_ip en ttl len m @ b) 2 2 = Some (be16 (word_of_nat len))"
    by (simp_all add: pim_ip_def x y z rd8_def rdn_def)
qed

lemma fixed_join:
  assumes "58 \<le> length m"
  obtains ck nb where "length ck = 2" "length nb = 4"
    "fixpimsource en up ut (fst (generatejoin en m grp s j)) =
       Some (pim_ip en 2 58 m @ [0x23, 0] @ ck @ [1, 0] @ nb @ join_rest en grp s j)"
    "rfc1071 en ([0x23, 0] @ ck @ [1, 0] @ nb @ join_rest en grp s j) = 0"
proof -
  let ?ip = "pim_ip en 2 58 m"
  let ?T = "\<lambda>ck nb. [0x23, 0] @ ck @ [1, 0] @ nb @ join_rest en grp s j"
  define nb where "nb = be32 (get_upstreamneighbor up ut)"
  define ck where "ck = mem16 en (inline_cksum en (?T [0, 0] nb))"
  have q: "fst (generatejoin en m grp s j) = ?ip @ ?T [0, 0] (take 4 (drop 30 m))"
    by (simp add: generatejoin_def join_rest_def)
  have l: "length nb = 4" "length ck = 2" "length (take 4 (drop 30 m)) = 4" "length ?ip = 24"
    using assms by (simp_all add: nb_def ck_def)
  have p6: "put_at 30 nb (?ip @ ?T c y) = ?ip @ ?T c nb" if "length y = 4" "length c = 2" for c y
  proof -
    have "put_at (length (?ip @ [0x23, 0] @ c @ [1, 0])) nb ((?ip @ [0x23, 0] @ c @ [1, 0]) @ y @ join_rest en grp s j) =
        (?ip @ [0x23, 0] @ c @ [1, 0]) @ nb @ join_rest en grp s j"
      using that l by (simp add: put_at_def)
    with that l show ?thesis by simp
  qed
  have p2: "put_at 26 c' (?ip @ ?T c nb) = ?ip @ ?T c' nb" if "length c = 2" "length c' = 2" for c c'
  proof -
    have "put_at (length (?ip @ [0x23, 0])) c' ((?ip @ [0x23, 0]) @ c @ [1, 0] @ nb @ join_rest en grp s j) =
        (?ip @ [0x23, 0]) @ c' @ [1, 0] @ nb @ join_rest en grp s j"
      using that by (simp add: put_at_def)
    with that l show ?thesis by simp
  qed
  have "fixpimsource en up ut (?ip @ ?T [0, 0] y) = Some (?ip @ ?T ck nb)" if y: "length y = 4" for y
  proof -
    have m: "16 \<le> length m" using assms by simp
    have v: "rd8 (?ip @ ?T [0, 0] y) 24 = Some 0x23" using l by (simp add: rd8_def nth_append)
    have z: "rd16 en (?ip @ ?T [0, 0] y) 26 = Some 0"
      using l by (simp add: rd16_def rdn_def mem_u16_zero)
    have w1: "wr 30 nb (?ip @ ?T [0, 0] y) = Some (?ip @ ?T [0, 0] nb)"
      using p6[OF y, of "[0, 0]"] l y by (simp add: wr_def)
    have w2: "wr 26 ck (?ip @ ?T [0, 0] nb) = Some (?ip @ ?T ck nb)"
      using p2[of "[0, 0]" ck] l by (simp add: wr_def)
    have d: "drop 24 (?ip @ ?T [0, 0] nb) = ?T [0, 0] nb" using l by simp
    define A where "A = ?ip @ ?T [0, 0] y"
    define B where "B = ?ip @ ?T [0, 0] nb"
    define T where "T = ?T [0, 0] nb"
    note facts = v[folded A_def] z[folded A_def] w1[folded A_def B_def] w2[folded B_def] d[folded B_def T_def] ck_def[folded T_def, symmetric]
      pim_ip_bytes(1,2)[OF m, of en 2 58 "?T [0, 0] y", folded A_def]
    have "fixpimsource en up ut A = Some (?ip @ ?T ck nb)"
      by (simp add: fixpimsource_def facts flip: nb_def)
    then show ?thesis by (simp only: A_def)
  qed
  moreover have "rfc1071 en (?T ck nb) = 0"
  proof -
    have "length (?T [0, 0] nb) = 34" using l by simp
    then have "inline_cksum en (?T [0, 0] nb) = rfc1071 en (?T [0, 0] nb)" by (intro inline_cksum_eq) simp_all
    moreover have "put_at 2 c (?T [0, 0] nb) = ?T c nb" if "length c = 2" for c
      using that by (simp add: put_at_def)
    ultimately have "?T ck nb = stamp en (rfc1071 en) 2 (?T [0, 0] nb)"
      by (simp add: stamp_def ck_def mem_u16_zero)
    then show ?thesis using stamp_valid[OF rfc1071_law, of 2 "?T [0, 0] nb"] by simp
  qed
  ultimately show thesis using l by (intro that[of ck nb]) (simp_all only: q)
qed

lemma u16_of_small: "u16_of [0, 0] = 0" "u16_of [0, 1] = 1"
  by (simp_all add: u16_of_def be_val_def)

lemma be16_1: "be16 1 = [0, 1]"
  by (simp add: be16_def numeral_2_eq_2)

lemma pim_push_join:
  assumes "16 \<le> length m" and "length ck = 2" and "length nb = 4"
  shows "\<exists>c ev. pim_push E ifc 0 (pim_ip en 2 58 m @ [0x23, 0] @ ck @ [1, 0] @ nb @ join_rest en grp s True) st =
      Some ((st\<lparr>mr_pim := c\<rparr>, ev), 1) \<and>
    pc_table c = fst (ft_addgroup (me_endian E) ifc grp (htonl en s) (pc_table (mr_pim st)))"
proof -
  let ?ip = "pim_ip en 2 58 m"
  obtain c1 c2 where ck: "ck = [c1, c2]" using assms(2) by (auto simp: numeral_2_eq_2 length_Suc_conv)
  obtain n1 n2 n3 n4 where nb: "nb = [n1, n2, n3, n4]" using length4[OF assms(3)] by blast
  obtain g1 g2 g3 g4 where g: "be32 grp = [g1, g2, g3, g4]" using length4[OF length_be32] by blast
  obtain a1 a2 a3 a4 where a: "be32 (htonl en s) = [a1, a2, a3, a4]" using length4[OF length_be32] by blast
  have ug: "u32_of [g1, g2, g3, g4] = grp" "u32_of [a1, a2, a3, a4] = htonl en s"
    using u32_of_be32[of grp] u32_of_be32[of "htonl en s"] g a by simp_all
  define W where "W = ?ip @ [0x23, 0] @ ck @ [1, 0] @ nb @ join_rest en grp s True"
  have l: "length ?ip = 24" using assms(1) by simp
  have T: "[0x23, 0] @ ck @ [1, 0] @ nb @ join_rest en grp s True =
      [0x23, 0, c1, c2, 1, 0, n1, n2, n3, n4, 0, 1, 0xff, 0xff, 1, 0, 4, 32, g1, g2, g3, g4, 0, 1, 0, 0, 1, 0, 4, 32, a1, a2, a3, a4]"
    by (simp add: ck nb g a join_rest_def be16_1)
  have rdW: "rdn W (24 + i) n = rdn ([0x23, 0] @ ck @ [1, 0] @ nb @ join_rest en grp s True) i n" for i n
    using l by (simp add: W_def rdn_def)
  have rd: "rd8 W 24 = Some 0x23" "rd8 W 35 = Some 1"
    unfolding W_def T using l by (simp_all add: rd8_def nth_append)
  have "rdn W (24 + 0) 34 \<noteq> None" unfolding rdW T by (simp add: rdn_def)
  then obtain all where r0: "rdn W 24 34 = Some all" by auto
  have "rdn W (24 + 6) 4 = Some [n1, n2, n3, n4]" "rdn W (24 + 22) 2 = Some [0, 1]" "rdn W (24 + 24) 2 = Some [0, 0]"
    "rdn W (24 + 18) 4 = Some [g1, g2, g3, g4]" "rdn W (24 + 30) 4 = Some [a1, a2, a3, a4]"
    unfolding rdW T by (simp_all add: rdn_def)
  then have rr: "rdn W 30 4 = Some [n1, n2, n3, n4]" "rdn W 46 2 = Some [0, 1]" "rdn W 48 2 = Some [0, 0]"
    "rdn W 42 4 = Some [g1, g2, g3, g4]" "rdn W 54 4 = Some [a1, a2, a3, a4]"
    by simp_all
  have h: "rd8 W 0 = Some 0x46" "rd8 W 9 = Some 0x67" "rdn W 2 2 = Some (be16 58)"
    unfolding W_def using pim_ip_bytes[OF assms(1)] by simp_all
  have h3: "rdn W (Suc (Suc 0)) 2 = Some (be16 58)" using h(3) by (simp only: numeral_2_eq_2)
  define t where "t = fst (ft_addgroup (me_endian E) ifc grp (htonl en s) (pc_table (mr_pim st)))"
  have "pim_push E ifc 0 W st = Some (((st\<lparr>mr_pim := (mr_pim st)\<lparr>pc_table := t, pc_made := pc_made (mr_pim st) + 1\<rparr>\<rparr>),
      [PimMessage (generatejoin (me_endian E) (me_make E (pc_made (mr_pim st))) grp (htonl (me_endian E) (htonl en s)) True)]), 1)"
    by (simp add: pim_push_def h h3 rd r0 rr pim_group_def pim_join_one_def u16_of_small ug ctl_send_def Let_def t_def
        del: rdn_Some rd8_Some)
  then show ?thesis unfolding W_def t_def by (intro exI conjI) (assumption, simp)
qed

text \<open>What the router next to the host does with a new channel.\<close>

lemma members_find:
  "members gs (grp, recv) = Some (m, ss) \<Longrightarrow> \<exists>r. find_receiver recv grp gs = Some r \<and> rc_mode r = m \<and> rc_sources r = ss"
  by (auto simp: members_def)

lemma allow_sends_join:
  assumes "router_ok n A" and "unat paint < n" and "filters_of A (grp, recv) = None"
    and "mt_pimenable (mr_table A)" and "\<not> pc_source_connected (mr_pim A)" and "source_at b rec 0 = Some src"
  shows "\<exists>A' qy. allow_new_sources E b rec paint recv grp 1 (A, []) =
      Some (A', [PimMessage (generatejoin (me_endian E) (me_make E (pc_made (mr_pim A))) grp (htonl (me_endian E) src) True), Query qy])"
proof -
  define st where "st = r_mode INCLUDEMODE recv grp (r_report paint recv grp A)"
  note rep = report_step[OF assms(1,2), of recv grp]
  note md = mode_step[OF rep(1), of INCLUDEMODE recv grp, folded st_def]
  have "filters_of st (grp, recv) = Some (Some INCLUDEMODE, [])"
    using assms(3) by (simp add: md(2) rep(2) spec_join_def spec_mode_def)
  then obtain r where r: "find_receiver recv grp (mt_groups (mr_table st)) = Some r" "rc_sources r = []"
    using members_find by blast
  have sr: "same_rest (mr_table A) (mr_table st)"
    unfolding st_def r_mode_def r_report_def using same_rest_trans[OF same_rest_ops(1) same_rest_ops(3)] by simp
  have p: "mt_pimenable (mr_table st)" "mr_pim st = mr_pim A"
    using same_rest_simps(3)[OF sr] assms(4) by (simp_all add: st_def r_mode_def r_report_def)
  have "\<exists>A' qy. add_source E b rec recv grp 0 (st, []) =
      Some (A', [PimMessage (generatejoin (me_endian E) (me_make E (pc_made (mr_pim A))) grp (htonl (me_endian E) src) True), Query qy])"
    using r p assms(5,6)
    by (simp add: add_source_def mct_addsource_def ctl_join_def ctl_send_def igmp_query_def case_prod_unfold Let_def)
  then show ?thesis by (auto simp: allow_new_sources_def query_if_none_def simp flip: st_def)
qed

text \<open>
  Property C6: a subscription builds the distribution tree, up to one source of each group. When a host asks its
  router \<open>A\<close>, which has PIM enabled, is not attached to the source and has no record of the host for the group, for a
  new channel (an IGMPv3 record that allows one source, on one of the router's ports), \<open>A\<close> sends a PIM join, built in
  a packet of the 58 bytes it asks for; completed by \<open>FixPIMSource\<close> it has a valid checksum; the next router \<open>B\<close>,
  which has the interface the join comes in by and a neighbour on it, accepts it. When \<open>B\<close> has no entry of the group
  on that interface, or has the one of this source, it forwards from then on every packet of the source to the group
  with the neighbour as next hop. When it has an entry of the group already, whatever its source, the join leaves the
  table as it is: a second source of the group gets no entry. The byte orders of the two routers may differ.
\<close>

theorem subscription_builds_tree:
  assumes "router_ok n A" and "unat paint < n" and "filters_of A (grp, recv) = None"
    and "mt_pimenable (mr_table A)" and "\<not> pc_source_connected (mr_pim A)" and "source_at b rec 0 = Some src"
    and "58 \<le> length (me_make E (pc_made (mr_pim A)))"
    and "find (\<lambda>i. pi_interface i = ifc) (pc_table (mr_pim B)) = Some i0"
  shows "\<exists>A' q qy w B' ev. allow_new_sources E b rec paint recv grp 1 (A, []) = Some (A', [PimMessage q, Query qy]) \<and>
    fixpimsource (me_endian E) up ut (fst q) = Some w \<and> rfc1071 (me_endian E) (drop 24 w) = 0 \<and>
    pim_push F ifc 0 w B = Some ((B', ev), 1) \<and>
    ((\<forall>g \<in> set (pi_groupsources i0). gs_group g \<noteq> grp) \<or>
     (\<exists>g \<in> set (pi_groupsources i0). gs_group g = grp \<and> gs_source g = htonl (me_endian F) src) \<longrightarrow>
     (\<forall>p. ip_header_at 0 p \<and> rdn p 12 4 = Some (be32 src) \<longrightarrow>
       (\<exists>outs. ft_push (me_endian F) (me_ck F) 0 (p, grp) (pc_table (mr_pim B')) = Some outs \<and>
          (decremented (me_endian F) (me_ck F) 0 p, pi_neighbor i0) \<in> set outs))) \<and>
    ((\<exists>g \<in> set (pi_groupsources i0). gs_group g = grp) \<longrightarrow> pc_table (mr_pim B') = pc_table (mr_pim B))"
proof -
  let ?m = "me_make E (pc_made (mr_pim A))"
  let ?q = "generatejoin (me_endian E) ?m grp (htonl (me_endian E) src) True"
  obtain A' qy where al: "allow_new_sources E b rec paint recv grp 1 (A, []) = Some (A', [PimMessage ?q, Query qy])"
    using allow_sends_join[OF assms(1-6)] by blast
  obtain ck nb where l: "length ck = 2" "length nb = 4"
    and fx: "fixpimsource (me_endian E) up ut (fst ?q) = Some (pim_ip (me_endian E) 2 58 ?m @ [0x23, 0] @ ck @ [1, 0] @ nb @
          join_rest (me_endian E) grp (htonl (me_endian E) src) True)"
    and v: "rfc1071 (me_endian E) ([0x23, 0] @ ck @ [1, 0] @ nb @ join_rest (me_endian E) grp (htonl (me_endian E) src) True) = 0"
    by (rule fixed_join[OF assms(7)])
  let ?w = "pim_ip (me_endian E) 2 58 ?m @ [0x23, 0] @ ck @ [1, 0] @ nb @ join_rest (me_endian E) grp (htonl (me_endian E) src) True"
  have m: "16 \<le> length ?m" using assms(7) by simp
  obtain c ev where pp: "pim_push F ifc 0 ?w B = Some ((B\<lparr>mr_pim := c\<rparr>, ev), 1)"
      "pc_table c = fst (ft_addgroup (me_endian F) ifc grp src (pc_table (mr_pim B)))"
    using pim_push_join[OF m l, of F ifc "me_endian E" grp "htonl (me_endian E) src" B] by auto
  have fwd: "\<exists>outs. ft_push (me_endian F) (me_ck F) 0 (p, grp) (pc_table (mr_pim (B\<lparr>mr_pim := c\<rparr>))) = Some outs \<and>
      (decremented (me_endian F) (me_ck F) 0 p, pi_neighbor i0) \<in> set outs"
    if f: "(\<forall>g \<in> set (pi_groupsources i0). gs_group g \<noteq> grp) \<or>
        (\<exists>g \<in> set (pi_groupsources i0). gs_group g = grp \<and> gs_source g = htonl (me_endian F) src)"
      and p: "ip_header_at 0 p \<and> rdn p 12 4 = Some (be32 src)" for p
  proof -
    obtain i g where ig: "i \<in> set (pc_table c)" "pi_neighbor i = pi_neighbor i0" "g \<in> set (pi_groupsources i)"
        "gs_group g = grp" "gs_source g = htonl (me_endian F) src"
      using ft_addgroup_forwards[OF assms(8) f] pp(2) by auto
    show ?thesis using ft_push_copy[of 0 "(p, grp)" src i "pc_table c" g "me_endian F" "me_ck F"] p ig by simp
  qed
  have same: "pc_table (mr_pim (B\<lparr>mr_pim := c\<rparr>)) = pc_table (mr_pim B)" if "\<exists>g \<in> set (pi_groupsources i0). gs_group g = grp"
    using ft_addgroup_known[OF assms(8) that] pp(2) by simp
  have d: "drop 24 ?w = [0x23, 0] @ ck @ [1, 0] @ nb @ join_rest (me_endian E) grp (htonl (me_endian E) src) True"
    using m by simp
  show ?thesis
    by (intro exI[of _ A'] exI[of _ ?q] exI[of _ qy] exI[of _ ?w] exI[of _ "B\<lparr>mr_pim := c\<rparr>"] exI[of _ ev] conjI)
       (rule al, rule fx, simp only: d v, rule pp, use fwd in blast, use same in blast)
qed

theorem subscription_builds_tree_witness:
  "router_ok 3 ex_router \<and>
   (\<exists>A' q qy w B' ev. allow_new_sources ex_env ex_report 8 1 9 7 1 (ex_router, []) = Some (A', [PimMessage q, Query qy]) \<and>
      fixpimsource LittleEndian 3 [] (fst q) = Some w \<and> pim_push ex_env 1 0 w ex_router = Some ((B', ev), 1))"
proof -
  have s: "source_at ex_report 8 0 = Some (u32_of [10, 0, 0, 1])" by (simp add: source_at_def ex_report_def)
  have i: "find (\<lambda>i. pi_interface i = 1) (pc_table (mr_pim ex_router)) = Some \<lparr>pi_interface = 1, pi_neighbor = 2, pi_groupsources = []\<rparr>"
    by (simp add: ex_router_def)
  have "\<exists>A' q qy w B' ev. allow_new_sources ex_env ex_report 8 1 9 7 1 (ex_router, []) = Some (A', [PimMessage q, Query qy]) \<and>
      fixpimsource (me_endian ex_env) 3 [] (fst q) = Some w \<and> pim_push ex_env 1 0 w ex_router = Some ((B', ev), 1)"
    using subscription_builds_tree[OF ex_router_ok _ _ _ _ s _ i, of 1 7 9 ex_env 3 "[]" ex_env]
    by (simp add: ex_router_def ex_env_def members_def) blast
  then show ?thesis using ex_router_ok by (simp add: ex_env_def)
qed

end
