(* ===== verification/IIAS_GRE.thy ===== *)
theory IIAS_GRE
  imports Click_Checksum
begin

text \<open>
  Tunnel headers (packages \<open>iias/gre\<close> and \<open>iias/ppp\<close>): \<open>GREEncap\<close>, \<open>CheckGREHeader\<close>, \<open>StripGREHeader\<close> and
  \<open>PPPEncap\<close>. Header fields are kept as the numbers that their network-order bytes spell; the
  checksum is stored in host order, as \<open>memcpy\<close> does. Pushing a header is taken to find headroom.
  The statement \<open>*options++ = htonl(ntohl(*options) + 1)\<close> is read with its right-hand side evaluated
  first.
\<close>

section \<open>GREEncap\<close>

abbreviation (input) "GRE_CP \<equiv> 0x8000 :: u16"
abbreviation (input) "GRE_KP \<equiv> 0x2000 :: u16"
abbreviation (input) "GRE_SP \<equiv> 0x1000 :: u16"
abbreviation (input) "GRE_VERSION \<equiv> 0x0007 :: u16"

record gre_encap =
  ge_flags :: u16
  ge_protocol :: u16
  ge_options :: "u32 list"
  ge_len :: nat

text \<open>\<open>configure\<close> after the arguments have been parsed.\<close>

definition gre_configure :: "u16 \<Rightarrow> bool \<Rightarrow> u32 \<Rightarrow> bool \<Rightarrow> gre_encap" where
  "gre_configure protocol checksum key seq =
     (let opts = (if checksum then [0] else []) @ (if key \<noteq> 0 then [key] else []) @ (if seq then [0] else [])
      in \<lparr>ge_flags = (if checksum then GRE_CP else 0) OR (if key \<noteq> 0 then GRE_KP else 0) OR (if seq then GRE_SP else 0),
          ge_protocol = protocol,
          ge_options = opts @ replicate (3 - length opts) 0,
          ge_len = 4 + 4 * length opts\<rparr>)"

text \<open>The optional fields in order, with the number of words passed: checksum zeroed, key kept, sequence advanced.\<close>

definition gre_options :: "gre_encap \<Rightarrow> u32 list \<times> nat" where
  "gre_options g =
     (let o0 = ge_options g;
          (o1, i1) = (if ge_flags g AND GRE_CP \<noteq> 0 then (o0[0 := 0], 1) else (o0, 0));
          i2 = (if ge_flags g AND GRE_KP \<noteq> 0 then i1 + 1 else i1)
      in if ge_flags g AND GRE_SP \<noteq> 0 then (o1[i2 := o1 ! i2 + 1], i2 + 1) else (o1, i2))"

definition gre_bytes :: "gre_encap \<Rightarrow> byte list" where
  "gre_bytes g = be16 (ge_flags g) @ be16 (ge_protocol g) @ concat (map be32 (ge_options g))"

text \<open>\<^const>\<open>None\<close> is the failed assertion on the length of the header.\<close>

definition gre_simple_action :: "endian \<Rightarrow> cksum \<Rightarrow> gre_encap \<Rightarrow> byte list \<Rightarrow> (gre_encap \<times> byte list) option" where
  "gre_simple_action en ck g p =
     (let (opts, n) = gre_options g; g1 = g\<lparr>ge_options := opts\<rparr> in
      if 4 + 4 * n \<noteq> ge_len g then None
      else let q = take (ge_len g) (gre_bytes g1) @ p in
           if ge_flags g AND GRE_CP \<noteq> 0
           then do { q1 \<leftarrow> wr 4 (mem16 en (ck q)) q; Some (g1, q1) }
           else Some (g1, q))"

section \<open>CheckGREHeader\<close>

datatype gre_reason = MINISCULE_PACKET | BAD_VERSION | BAD_HLEN | BAD_CHECKSUM | BAD_KEY | BAD_SEQ

record gre_check =
  gc_offset :: u32
  gc_checksum :: bool
  gc_key :: u32
  gc_checkseq :: bool
  gc_seq :: u32
  gc_drops :: nat
  gc_reason_drops :: "(gre_reason \<Rightarrow> nat) option"

definition gre_drop :: "gre_reason \<Rightarrow> gre_check \<Rightarrow> gre_check \<times> gre_reason option" where
  "gre_drop r s = (s\<lparr>gc_drops := gc_drops s + 1,
                    gc_reason_drops := map_option (\<lambda>d. d(r := d r + 1)) (gc_reason_drops s)\<rparr>, Some r)"

definition gre_hlen :: "u16 \<Rightarrow> nat" where
  "gre_hlen flags = 4 + (if flags AND GRE_CP \<noteq> 0 then 4 else 0) + (if flags AND GRE_KP \<noteq> 0 then 4 else 0) +
     (if flags AND GRE_SP \<noteq> 0 then 4 else 0)"

text \<open>Offsets of the key and of the sequence number from the start of the header.\<close>

definition gre_key_off :: "u16 \<Rightarrow> nat" where
  "gre_key_off flags = 4 + (if flags AND GRE_CP \<noteq> 0 then 4 else 0)"

definition gre_seq_off :: "u16 \<Rightarrow> nat" where
  "gre_seq_off flags = gre_key_off flags + (if flags AND GRE_KP \<noteq> 0 then 4 else 0)"

text \<open>
  The length of the packet behind the offset is computed in 32 bits and compared as a signed number. The
  checks before the one of the sequence number give the reason of a drop, or the flags and the
  bytes of the sequence number.
\<close>

definition gre_check_fields :: "cksum \<Rightarrow> u32 \<Rightarrow> bool \<Rightarrow> u32 \<Rightarrow> byte list \<Rightarrow> (gre_reason + u16 \<times> byte list) option" where
  "gre_check_fields ck offset checksum ckey p =
     (let off = unat offset; plen = word_of_nat (length p) - offset in
      if sint plen < 4 then Some (Inl MINISCULE_PACKET)
      else do {
        f \<leftarrow> rdn p off 2;
        let flags = u16_of f;
        if flags AND GRE_VERSION \<noteq> 0 then Some (Inl BAD_VERSION)
        else if sint plen < int (gre_hlen flags) then Some (Inl BAD_HLEN)
        else do {
          key \<leftarrow> (if flags AND GRE_KP \<noteq> 0 then rdn p (off + gre_key_off flags) 4 else Some []);
          seq \<leftarrow> (if flags AND GRE_SP \<noteq> 0 then rdn p (off + gre_seq_off flags) 4 else Some []);
          bad \<leftarrow> (if checksum
                  then if flags AND GRE_CP \<noteq> 0
                       then do { c \<leftarrow> rdn p off (unat plen); Some (ck c \<noteq> 0) } else Some True
                  else Some False);
          if bad then Some (Inl BAD_CHECKSUM)
          else if ckey \<noteq> 0 \<and> (flags AND GRE_KP = 0 \<or> ckey \<noteq> u32_of key) then Some (Inl BAD_KEY)
          else Some (Inr (flags, seq))
        }
      })"

text \<open>The second component of the result is the reason of a drop; \<^const>\<open>None\<close> inside is an accepted packet.\<close>

definition gre_check_action :: "cksum \<Rightarrow> gre_check \<Rightarrow> byte list \<Rightarrow> (gre_check \<times> gre_reason option) option" where
  "gre_check_action ck s p =
     do {
       r \<leftarrow> gre_check_fields ck (gc_offset s) (gc_checksum s) (gc_key s) p;
       case r of
         Inl e \<Rightarrow> Some (gre_drop e s)
       | Inr (flags, seq) \<Rightarrow>
           if gc_checkseq s
           then if flags AND GRE_SP = 0 \<or> sint (u32_of seq - gc_seq s) \<le> 0 then Some (gre_drop BAD_SEQ s)
                else Some (s\<lparr>gc_seq := u32_of seq\<rparr>, None)
           else Some (s, None)
     }"

section \<open>StripGREHeader and PPPEncap\<close>

text \<open>\<open>Packet::pull\<close> of more than the length removes everything.\<close>

definition gre_strip :: "byte list \<Rightarrow> byte list option" where
  "gre_strip p = do { f \<leftarrow> rdn p 0 2; Some (drop (gre_hlen (u16_of f)) p) }"

record ppp_encap =
  pe_address :: byte
  pe_control :: byte
  pe_protocol :: u16

definition ppp_new :: ppp_encap where
  "ppp_new = \<lparr>pe_address = 0xff, pe_control = 0x03, pe_protocol = 0x0021\<rparr>"

text \<open>
  The arguments that were given. The variable that receives the protocol is not initialised: its content
  \<open>junk\<close> is used when the argument is missing.
\<close>

definition ppp_configure :: "u16 \<Rightarrow> u16 option \<Rightarrow> byte option \<Rightarrow> byte option \<Rightarrow> ppp_encap \<Rightarrow> ppp_encap" where
  "ppp_configure junk protocol addr ctrl s =
     s\<lparr>pe_address := (case addr of Some a \<Rightarrow> a | None \<Rightarrow> pe_address s),
       pe_control := (case ctrl of Some c \<Rightarrow> c | None \<Rightarrow> pe_control s),
       pe_protocol := (case protocol of Some q \<Rightarrow> q | None \<Rightarrow> junk)\<rparr>"

definition ppp_simple_action :: "ppp_encap \<Rightarrow> byte list \<Rightarrow> byte list" where
  "ppp_simple_action s p = [pe_address s, pe_control s] @ be16 (pe_protocol s) @ p"

section \<open>The tunnel\<close>

text \<open>The fields that a configuration sends, and the header they make.\<close>

definition gre_words :: "bool \<Rightarrow> u32 \<Rightarrow> bool \<Rightarrow> u32 \<Rightarrow> u32 list" where
  "gre_words cs key sq n = (if cs then [0] else []) @ (if key \<noteq> 0 then [key] else []) @ (if sq then [n] else [])"

definition gre_flags :: "bool \<Rightarrow> u32 \<Rightarrow> bool \<Rightarrow> u16" where
  "gre_flags cs key sq = (if cs then GRE_CP else 0) OR (if key \<noteq> 0 then GRE_KP else 0) OR (if sq then GRE_SP else 0)"

text \<open>The encapsulator after \<open>n\<close> packets.\<close>

definition gre_state :: "u16 \<Rightarrow> bool \<Rightarrow> u32 \<Rightarrow> bool \<Rightarrow> u32 \<Rightarrow> gre_encap" where
  "gre_state pr cs key sq n =
     \<lparr>ge_flags = gre_flags cs key sq, ge_protocol = pr,
      ge_options = gre_words cs key sq n @ replicate (3 - length (gre_words cs key sq n)) 0,
      ge_len = 4 + 4 * length (gre_words cs key sq n)\<rparr>"

lemma gre_configure_state: "gre_configure pr cs key sq = gre_state pr cs key sq 0"
  by (simp add: gre_configure_def gre_state_def gre_flags_def gre_words_def Let_def)

lemma gre_flag_bits:
  "gre_flags cs key sq AND GRE_CP \<noteq> 0 \<longleftrightarrow> cs" "gre_flags cs key sq AND GRE_KP \<noteq> 0 \<longleftrightarrow> key \<noteq> 0"
  "gre_flags cs key sq AND GRE_SP \<noteq> 0 \<longleftrightarrow> sq" "gre_flags cs key sq AND GRE_VERSION = 0"
  by (auto simp: gre_flags_def)

lemma gre_flag_bits0:
  "gre_flags cs key sq AND GRE_CP = 0 \<longleftrightarrow> \<not> cs" "gre_flags cs key sq AND GRE_KP = 0 \<longleftrightarrow> key = 0"
  "gre_flags cs key sq AND GRE_SP = 0 \<longleftrightarrow> \<not> sq"
  using gre_flag_bits by blast+

lemma gre_options_state:
  "gre_options (gre_state pr cs key sq n) =
     (gre_words cs key sq (if sq then n + 1 else n) @ replicate (3 - length (gre_words cs key sq n)) 0,
      length (gre_words cs key sq n))"
  by (cases cs; cases "key = 0"; cases sq)
     (simp_all add: gre_options_def gre_flag_bits gre_state_def gre_words_def)

lemma sint_of_nat_small: "n < 2 ^ 31 \<Longrightarrow> sint (word_of_nat n :: u32) = int n"
  by (simp add: signed_of_nat signed_take_bit_int_eq_self)

definition gre_plain :: "u16 \<Rightarrow> bool \<Rightarrow> u32 \<Rightarrow> bool \<Rightarrow> u32 \<Rightarrow> byte list \<Rightarrow> byte list" where
  "gre_plain pr cs key sq n p =
     be16 (gre_flags cs key sq) @ be16 pr @ concat (map be32 (gre_words cs key sq n)) @ p"

definition gre_packet :: "endian \<Rightarrow> cksum \<Rightarrow> u16 \<Rightarrow> bool \<Rightarrow> u32 \<Rightarrow> bool \<Rightarrow> u32 \<Rightarrow> byte list \<Rightarrow> byte list" where
  "gre_packet en ck pr cs key sq n p =
     (if cs then stamp en ck 4 (gre_plain pr cs key sq n p) else gre_plain pr cs key sq n p)"

lemma length_gre_words: "length (gre_words cs key sq n) = (if cs then 1 else 0) + (if key \<noteq> 0 then 1 else 0) + (if sq then 1 else 0)"
  by (simp add: gre_words_def)

lemma length_concat_be32: "length (concat (map be32 ws)) = 4 * length ws"
  by (induction ws) auto

lemma length_gre_plain: "length (gre_plain pr cs key sq n p) = gre_hlen (gre_flags cs key sq) + length p"
  by (simp add: gre_plain_def length_concat_be32 length_gre_words gre_hlen_def gre_flag_bits0)

lemma take_words:
  "take (4 + 4 * length ws) (be16 f @ be16 pr @ concat (map be32 (ws @ zs))) = be16 f @ be16 pr @ concat (map be32 ws)"
  by (simp add: length_concat_be32)

lemma zero_checksum_field:
  "put_at 4 (mem16 en 0) (gre_plain pr True key sq n p) = gre_plain pr True key sq n p"
proof -
  have z: "mem16 en 0 = replicate 2 0"
    by (cases en) (simp_all add: mem16_def be16_def be_bytes_0)
  have "replicate 2 0 @ drop 2 (be32 0) = be32 0" by (simp add: be32_0 drop_replicate replicate_add[symmetric])
  then show ?thesis
    by (simp add: gre_plain_def gre_words_def put_at_def z drop_append del: append_assoc)
qed

lemma gre_bytes_state:
  "take (4 + 4 * length (gre_words cs key sq n))
     (gre_bytes ((gre_state pr cs key sq n)\<lparr>ge_options := gre_words cs key sq k @ replicate j 0\<rparr>)) @ p = gre_plain pr cs key sq k p"
proof -
  have "length (gre_words cs key sq n) = length (gre_words cs key sq k)" by (simp add: length_gre_words)
  then show ?thesis
    by (simp add: gre_bytes_def gre_state_def gre_plain_def length_concat_be32 del: map_append)
       (simp add: length_concat_be32)
qed

lemma gre_action_state:
  assumes "k = (if sq then n + 1 else n)"
  shows "gre_simple_action en ck (gre_state pr cs key sq n) p =
    Some (gre_state pr cs key sq k, gre_packet en ck pr cs key sq k p)"
proof -
  let ?g = "gre_state pr cs key sq n"
  let ?g1 = "?g\<lparr>ge_options := gre_words cs key sq k @ replicate (3 - length (gre_words cs key sq n)) 0\<rparr>"
  have g1: "?g1 = gre_state pr cs key sq k" by (simp add: gre_state_def length_gre_words)
  have f: "ge_flags ?g = gre_flags cs key sq" and l: "ge_len ?g = 4 + 4 * length (gre_words cs key sq n)"
    by (simp_all add: gre_state_def)
  have w: "wr 4 (mem16 en (ck (gre_plain pr True key sq k p))) (gre_plain pr True key sq k p) = Some (stamp en ck 4 (gre_plain pr True key sq k p))"
    using zero_checksum_field[of en pr key sq k p]
    by (simp add: wr_def length_gre_plain gre_hlen_def gre_flag_bits stamp_def)
  have b: "take (4 + 4 * length (gre_words cs key sq n)) (gre_bytes (gre_state pr cs key sq k)) @ p = gre_plain pr cs key sq k p"
    using gre_bytes_state[where k = k] g1 by metis
  show ?thesis
    unfolding gre_simple_action_def gre_options_state assms[symmetric] Let_def prod.case f l g1 b
    by (cases cs) (simp_all add: gre_flag_bits gre_packet_def w)
qed

lemma gre_packet_len: "length (gre_packet en ck pr cs key sq n p) = gre_hlen (gre_flags cs key sq) + length p"
  by (simp add: gre_packet_def length_gre_plain gre_hlen_def gre_flag_bits)

lemma gre_plain_reads:
  "rdn (gre_plain pr cs key sq n p) 0 2 = Some (be16 (gre_flags cs key sq))"
  "key \<noteq> 0 \<Longrightarrow> rdn (gre_plain pr cs key sq n p) (gre_key_off (gre_flags cs key sq)) 4 = Some (be32 key)"
  "sq \<Longrightarrow> rdn (gre_plain pr cs key sq n p) (gre_seq_off (gre_flags cs key sq)) 4 = Some (be32 n)"
  by (cases cs; cases "key = 0"; cases sq;
      simp add: gre_plain_def gre_words_def gre_key_off_def gre_seq_off_def gre_flag_bits0 rdn_def)+

lemma gre_packet_reads:
  "rdn (gre_packet en ck pr cs key sq n p) 0 2 = Some (be16 (gre_flags cs key sq))"
  "key \<noteq> 0 \<Longrightarrow> rdn (gre_packet en ck pr cs key sq n p) (gre_key_off (gre_flags cs key sq)) 4 = Some (be32 key)"
  "sq \<Longrightarrow> rdn (gre_packet en ck pr cs key sq n p) (gre_seq_off (gre_flags cs key sq)) 4 = Some (be32 n)"
proof -
  have r: "rdn (gre_packet en ck pr cs key sq n p) i j = rdn (gre_plain pr cs key sq n p) i j"
    if "i + j \<le> 4 \<or> (cs \<longrightarrow> 6 \<le> i)" for i j
    using that by (auto simp: gre_packet_def length_gre_plain gre_hlen_def gre_flag_bits intro!: rdn_stamp)
  show "rdn (gre_packet en ck pr cs key sq n p) 0 2 = Some (be16 (gre_flags cs key sq))"
    by (simp add: r gre_plain_reads(1) del: rdn_Some)
  show "rdn (gre_packet en ck pr cs key sq n p) (gre_key_off (gre_flags cs key sq)) 4 = Some (be32 key)" if "key \<noteq> 0"
    using gre_plain_reads(2)[OF that] by (subst r) (auto simp: gre_key_off_def gre_flag_bits0)
  show "rdn (gre_packet en ck pr cs key sq n p) (gre_seq_off (gre_flags cs key sq)) 4 = Some (be32 n)" if sq
    using gre_plain_reads(3)[OF that] by (subst r) (auto simp: gre_key_off_def gre_seq_off_def gre_flag_bits0)
qed

text \<open>A checker that asks for no more than the encapsulator sends.\<close>

definition gre_matches :: "bool \<Rightarrow> u32 \<Rightarrow> bool \<Rightarrow> gre_check \<Rightarrow> bool" where
  "gre_matches cs key sq s \<longleftrightarrow>
     gc_offset s = 0 \<and> (gc_checksum s \<longrightarrow> cs) \<and> (gc_key s \<noteq> 0 \<longrightarrow> gc_key s = key) \<and> (gc_checkseq s \<longrightarrow> sq)"

lemma gre_hlen_le: "gre_hlen f \<le> 16" "4 \<le> gre_hlen f"
  by (simp_all add: gre_hlen_def)

lemma gre_check_packet:
  assumes "cksum_law en ck" and "gre_matches cs key sq s" and "length p + 16 < 2 ^ 31"
    and "gc_checkseq s \<Longrightarrow> 0 < sint (n - gc_seq s)"
  shows "gre_check_action ck s (gre_packet en ck pr cs key sq n p) =
    Some (if gc_checkseq s then s\<lparr>gc_seq := n\<rparr> else s, None)"
proof -
  define q where "q = gre_packet en ck pr cs key sq n p"
  define h where "h = gre_hlen (gre_flags cs key sq)"
  have l: "length q = h + length p" by (simp add: q_def h_def gre_packet_len)
  have hb: "h \<le> 16" "4 \<le> h" by (simp_all add: h_def gre_hlen_le)
  have si: "sint (word_of_nat (length q) :: u32) = int (length q)" "unat (word_of_nat (length q) :: u32) = length q"
    using assms(3) hb l by (simp_all only: sint_of_nat_small unat_of_nat) (simp_all add: take_bit_nat_eq_self)
  have off: "gc_offset s = 0" using assms(2) by (simp add: gre_matches_def)
  have "ck q = 0" if cs
    using that assms(1) by (simp add: q_def gre_packet_def stamp_valid length_gre_plain gre_hlen_def gre_flag_bits)
  then have bad: "(if gc_checksum s
      then if gre_flags cs key sq AND GRE_CP \<noteq> 0 then do { c \<leftarrow> rdn q 0 (length q); Some (ck c \<noteq> 0) } else Some True
      else Some False) = Some False"
    using assms(2) by (simp add: gre_matches_def gre_flag_bits)
  note reads = gre_packet_reads[where en = en and ck = ck and pr = pr and cs = cs and key = key and sq = sq and n = n and p = p, folded q_def]
  obtain kb where kb: "(if gre_flags cs key sq AND GRE_KP \<noteq> 0 then rdn q (0 + gre_key_off (gre_flags cs key sq)) 4 else Some []) = Some kb"
      "key \<noteq> 0 \<Longrightarrow> u32_of kb = key"
    using reads(2) by (cases "key = 0") (auto simp: gre_flag_bits simp del: rdn_Some)
  obtain sb where sb: "(if gre_flags cs key sq AND GRE_SP \<noteq> 0 then rdn q (0 + gre_seq_off (gre_flags cs key sq)) 4 else Some []) = Some sb"
      "sq \<Longrightarrow> u32_of sb = n"
    using reads(3) by (cases sq) (auto simp: gre_flag_bits simp del: rdn_Some)
  have nb: "\<not> (gc_key s \<noteq> 0 \<and> (gre_flags cs key sq AND GRE_KP = 0 \<or> gc_key s \<noteq> u32_of kb))"
    using assms(2) kb(2) by (auto simp: gre_matches_def gre_flag_bits0)
  have ns: "gc_checkseq s \<Longrightarrow> \<not> (gre_flags cs key sq AND GRE_SP = 0 \<or> sint (u32_of sb - gc_seq s) \<le> 0) \<and> u32_of sb = n"
    using assms(2,4) sb(2) by (auto simp: gre_matches_def gre_flag_bits0)
  have len: "\<not> int (length q) < 4" "\<not> int (length q) < int h" using hb l by simp_all
  have "gre_check_action ck s q = Some (if gc_checkseq s then s\<lparr>gc_seq := n\<rparr> else s, None)"
  proof -
    have "gre_check_fields ck (gc_offset s) (gc_checksum s) (gc_key s) q = Some (Inr (gre_flags cs key sq, sb))"
      by (simp only: gre_check_fields_def Let_def off unat_0 diff_zero si reads(1) u16_of_be16 bind.simps
          gre_flag_bits(4) simp_thms if_False len kb(1) sb(1) bad nb flip: h_def)
    then have "gre_check_action ck s q =
        (if gc_checkseq s
         then if gre_flags cs key sq AND GRE_SP = 0 \<or> sint (u32_of sb - gc_seq s) \<le> 0 then Some (gre_drop BAD_SEQ s)
              else Some (s\<lparr>gc_seq := u32_of sb\<rparr>, None)
         else Some (s, None))"
      by (simp add: gre_check_action_def)
    then show ?thesis using assms(4) ns by (cases "gc_checkseq s") auto
  qed
  then show ?thesis by (simp only: q_def)
qed

lemma gre_strip_packet: "gre_strip (gre_packet en ck pr cs key sq n p) = Some p"
proof -
  define h where "h = gre_hlen (gre_flags cs key sq)"
  have d: "drop h (gre_plain pr cs key sq n p) = p"
    using length_gre_plain[of pr cs key sq n p]
    by (simp add: gre_plain_def h_def gre_hlen_def gre_flag_bits0 length_concat_be32 length_gre_words)
  have "drop h (gre_packet en ck pr cs key sq n p) = p"
  proof (cases cs)
    case True
    then have "8 \<le> h" by (simp add: h_def gre_hlen_def gre_flag_bits)
    then have "drop h (stamp en ck 4 (gre_plain pr cs key sq n p)) = drop h (gre_plain pr cs key sq n p)"
      by (simp add: stamp_def put_at_def length_gre_plain h_def)
    with True d show ?thesis by (simp add: gre_packet_def)
  next
    case False
    with d show ?thesis by (simp add: gre_packet_def)
  qed
  then show ?thesis by (simp add: gre_strip_def gre_packet_reads h_def del: rdn_Some)
qed

text \<open>A stream through encapsulation, a network that may lose packets, check and decapsulation.\<close>

fun gre_tunnel ::
    "endian \<Rightarrow> cksum \<Rightarrow> gre_encap \<Rightarrow> gre_check \<Rightarrow> (byte list \<times> bool) list \<Rightarrow> byte list list option" where
  "gre_tunnel en ck g s [] = Some []"
| "gre_tunnel en ck g s ((p, lost) # ps) =
     do {
       (g1, q) \<leftarrow> gre_simple_action en ck g p;
       if lost then gre_tunnel en ck g1 s ps
       else do {
         (s1, r) \<leftarrow> gre_check_action ck s q;
         x \<leftarrow> gre_strip q;
         out \<leftarrow> gre_tunnel en ck g1 s1 ps;
         Some (if r = None then x # out else out)
       }
     }"

lemma sint_ahead: "d + 1 < 2 ^ 31 \<Longrightarrow> sint ((w + word_of_nat d) + 1 - w :: u32) = int d + 1"
proof -
  assume d: "d + 1 < 2 ^ 31"
  have "w + word_of_nat d + 1 - w = (word_of_nat (d + 1) :: u32)" by simp
  then show ?thesis using sint_of_nat_small[OF d] by (simp add: add.commute)
qed

lemma gre_tunnel_state:
  assumes "cksum_law en ck" and "gre_matches cs key sq s" and "\<forall>p \<in> set ps. length (fst p) + 16 < 2 ^ 31"
    and "gc_checkseq s \<Longrightarrow> n = gc_seq s + word_of_nat d" and "d + length ps < 2 ^ 31"
  shows "gre_tunnel en ck (gre_state pr cs key sq n) s ps = Some (map fst (filter (\<lambda>p. \<not> snd p) ps))"
  using assms(2-5)
proof (induction ps arbitrary: s n d)
  case (Cons x ps)
  obtain p lost where x: "x = (p, lost)" by (cases x)
  define k where "k = (if sq then n + 1 else n)"
  note ac = gre_action_state[OF k_def, of en ck pr cs key p]
  show ?case
  proof (cases lost)
    case True
    have "gc_checkseq s \<Longrightarrow> k = gc_seq s + word_of_nat (d + 1)"
      using Cons.prems(1,3) by (simp add: k_def gre_matches_def)
    then have "gre_tunnel en ck (gre_state pr cs key sq k) s ps = Some (map fst (filter (\<lambda>p. \<not> snd p) ps))"
      using Cons.prems by (intro Cons.IH[where d = "d + 1"]) simp_all
    with True show ?thesis by (simp add: x ac)
  next
    case False
    have "gc_checkseq s \<Longrightarrow> 0 < sint (k - gc_seq s)"
      using Cons.prems(1,3,4) sint_ahead[of d "gc_seq s"] by (simp add: k_def gre_matches_def)
    then have chk: "gre_check_action ck s (gre_packet en ck pr cs key sq k p) =
        Some (if gc_checkseq s then s\<lparr>gc_seq := k\<rparr> else s, None)"
      using Cons.prems(2) x by (intro gre_check_packet[OF assms(1) Cons.prems(1)]) simp_all
    have "gre_tunnel en ck (gre_state pr cs key sq k) (if gc_checkseq s then s\<lparr>gc_seq := k\<rparr> else s) ps =
        Some (map fst (filter (\<lambda>p. \<not> snd p) ps))"
      using Cons.prems by (intro Cons.IH[where d = 0]) (auto simp: gre_matches_def)
    with False chk show ?thesis by (simp add: x ac gre_strip_packet)
  qed
qed simp

text \<open>
  Property C20: a GRE tunnel is transparent. Whatever options the encapsulator is configured with, a checker that asks
  for no more than these options accepts every packet that arrives, and decapsulation gives the payloads
  back, in order; packets lost on the way, up to the range of the sequence numbers, make no difference.
\<close>

theorem gre_tunnel_transparent:
  assumes "cksum_law en ck" and "gre_matches cs key sq s" and "gc_seq s = 0"
    and "\<forall>p \<in> set ps. length (fst p) + 16 < 2 ^ 31" and "length ps < 2 ^ 31"
  shows "gre_tunnel en ck (gre_configure pr cs key sq) s ps = Some (map fst (filter (\<lambda>p. \<not> snd p) ps))"
  unfolding gre_configure_state
  using assms by (intro gre_tunnel_state[where d = 0]) simp_all

text \<open>
  With sequence checking, a packet that was accepted is dropped as out of sequence when it comes again,
  at once or after any packets that advance the sequence number by less than half of its range.
\<close>

theorem gre_replay_dropped:
  assumes "gre_check_action ck s p = Some (s1, None)" and "gc_checkseq s"
    and "s2 = s1\<lparr>gc_seq := gc_seq s1 + word_of_nat d, gc_drops := k, gc_reason_drops := r\<rparr>" and "d < 2 ^ 31"
  shows "gre_check_action ck s2 p = Some (gre_drop BAD_SEQ s2)"
proof -
  have le: "sint (gc_seq s1 - (gc_seq s1 + word_of_nat d) :: u32) \<le> 0"
  proof -
    have e: "gc_seq s1 - (gc_seq s1 + word_of_nat d) = (word_of_int (- int d) :: u32)" by simp
    have "sint (word_of_int (- int d) :: u32) = - int d"
      using assms(4) by (simp only: signed_of_int) (simp add: signed_take_bit_int_eq_self)
    then show ?thesis unfolding e by simp
  qed
  obtain y where y: "gre_check_fields ck (gc_offset s) (gc_checksum s) (gc_key s) p = Some y"
    using assms(1) by (auto simp: gre_check_action_def bind_eq_Some_conv)
  have "\<not> isl y" using assms(1) y by (cases y) (auto simp: gre_check_action_def gre_drop_def)
  then obtain flags sb where "y = Inr (flags, sb)" by (cases y) auto
  with y obtain flags sb where f: "gre_check_fields ck (gc_offset s) (gc_checksum s) (gc_key s) p = Some (Inr (flags, sb))"
      and s1: "s1 = s\<lparr>gc_seq := u32_of sb\<rparr>"
    using assms(1,2) by (auto simp: gre_check_action_def gre_drop_def split: if_splits)
  with le assms(2) show ?thesis by (simp add: gre_check_action_def assms(3))
qed

text \<open>A concrete tunnel with all options.\<close>

definition ex_check :: gre_check where
  "ex_check = \<lparr>gc_offset = 0, gc_checksum = True, gc_key = 5, gc_checkseq = True, gc_seq = 0, gc_drops = 0, gc_reason_drops = None\<rparr>"

theorem gre_tunnel_transparent_witness:
  "gre_matches True 5 True ex_check \<and> gc_seq ex_check = 0 \<and>
   gre_tunnel LittleEndian (rfc1071 LittleEndian) (gre_configure 0x800 True 5 True) ex_check
     [([1, 2, 3], False), ([4], True), ([5, 6], False)] = Some [[1, 2, 3], [5, 6]]"
proof -
  have m: "gre_matches True 5 True ex_check" "gc_seq ex_check = 0" by (simp_all add: gre_matches_def ex_check_def)
  show ?thesis
    using m gre_tunnel_transparent[OF rfc1071_law m, of "[([1, 2, 3], False), ([4], True), ([5, 6], False)]"] by simp
qed

text \<open>A packet with the sequence number 7.\<close>

definition ex_seq_packet :: "byte list" where
  "ex_seq_packet = [0x10, 0, 8, 0, 0, 0, 0, 7, 42]"

theorem gre_replay_dropped_witness:
  "gre_check_action (\<lambda>_. 0) (ex_check\<lparr>gc_checksum := False, gc_key := 0\<rparr>) ex_seq_packet =
     Some (ex_check\<lparr>gc_checksum := False, gc_key := 0, gc_seq := 7\<rparr>, None) \<and>
   (\<exists>s3. gre_check_action (\<lambda>_. 0) (ex_check\<lparr>gc_checksum := False, gc_key := 0, gc_seq := 8\<rparr>) ex_seq_packet = Some (s3, Some BAD_SEQ))"
proof -
  let ?s = "ex_check\<lparr>gc_checksum := False, gc_key := 0\<rparr>"
  let ?s2 = "ex_check\<lparr>gc_checksum := False, gc_key := 0, gc_seq := 8\<rparr>"
  have a: "gre_check_action (\<lambda>_. 0) ?s ex_seq_packet = Some (?s\<lparr>gc_seq := 7\<rparr>, None)"
    by (simp add: gre_check_action_def gre_check_fields_def ex_seq_packet_def ex_check_def u16_of_def u32_of_def be_val_def
        gre_seq_off_def gre_key_off_def gre_hlen_def)
  have "?s2 = (?s\<lparr>gc_seq := 7\<rparr>)\<lparr>gc_seq := gc_seq (?s\<lparr>gc_seq := 7\<rparr>) + word_of_nat 1, gc_drops := 0, gc_reason_drops := None\<rparr>"
    by (simp add: ex_check_def)
  from gre_replay_dropped[OF a _ this] have "gre_check_action (\<lambda>_. 0) ?s2 ex_seq_packet = Some (gre_drop BAD_SEQ ?s2)"
    by (simp add: ex_check_def)
  with a show ?thesis by (simp add: gre_drop_def)
qed

end
