(* ===== verification/DNS_Message.thy ===== *)
theory DNS_Message
  imports Click_Prelude
begin

text \<open>
  DNS messages (\<open>ip6_natpt/package/dnsmessage.cc\<close>, \<open>ip6_natpt/include/click/dnsmessage.hh\<close>,
  \<open>ip6_natpt/include/clicknet/rfc1035.h\<close>): packing and unpacking of headers, names with compression, questions
  and resource records, and the queries built from them.

  Strings are byte lists without the terminator. A routine that packs is given the size of what is left of its
  buffer and yields the bytes it writes; \<^const>\<open>None\<close> is a failed assertion or a write outside of the buffer.
  The size \<open>sz\<close> of a message is the length of its buffer, and messages are shorter than \<open>2\<^sup>3\<^sup>1\<close> bytes, so that
  offsets are numbers. Memory is taken to be available.
\<close>

section \<open>Strings\<close>

abbreviation (input) "dot \<equiv> 0x2e :: byte"

definition c_str :: "byte list \<Rightarrow> byte list" where
  "c_str = takeWhile (\<lambda>b. b \<noteq> 0)"

text \<open>The pieces \<open>strtok\<close> gives one after the other.\<close>

function strtok :: "byte \<Rightarrow> byte list \<Rightarrow> byte list list" where
  "strtok sep s =
     (let r = dropWhile (\<lambda>b. b = sep) s
      in if r = [] then [] else takeWhile (\<lambda>b. b \<noteq> sep) r # strtok sep (dropWhile (\<lambda>b. b \<noteq> sep) r))"
  by pat_completeness auto
termination
proof (relation "measure (\<lambda>(sep, s). length s)")
  fix sep :: byte and s r :: "byte list"
  assume d: "r = dropWhile (\<lambda>b. b = sep) s" "r \<noteq> []"
  obtain x xs where r: "r = x # xs" using d(2) by (cases r) auto
  then have "x \<noteq> sep" using hd_dropWhile[of "\<lambda>b. b = sep" s] d by simp
  moreover have "length (dropWhile (\<lambda>b. b \<noteq> sep) xs) \<le> length xs" by (rule length_dropWhile_le)
  moreover have "length r \<le> length s" unfolding d(1) by (rule length_dropWhile_le)
  ultimately show "((sep, dropWhile (\<lambda>b. b \<noteq> sep) r), (sep, s)) \<in> measure (\<lambda>(sep, s). length s)" using r by simp
qed simp

declare strtok.simps [simp del]

section \<open>Packing\<close>

record dns_header =
  dh_id :: u16
  dh_qr :: "1 word"
  dh_opcode :: "4 word"
  dh_aa :: "1 word"
  dh_tc :: "1 word"
  dh_rd :: "1 word"
  dh_ra :: "1 word"
  dh_rcode :: "4 word"
  dh_qdcount :: u16
  dh_ancount :: u16
  dh_nscount :: u16
  dh_arcount :: u16

definition header_flags :: "dns_header \<Rightarrow> u16" where
  "header_flags h =
     push_bit 15 (ucast (dh_qr h)) OR push_bit 11 (ucast (dh_opcode h)) OR push_bit 10 (ucast (dh_aa h)) OR
     push_bit 9 (ucast (dh_tc h)) OR push_bit 8 (ucast (dh_rd h)) OR push_bit 7 (ucast (dh_ra h)) OR ucast (dh_rcode h)"

definition header_pack :: "nat \<Rightarrow> dns_header \<Rightarrow> byte list option" where
  "header_pack sz h =
     (if sz < 12 then None
      else Some (be16 (dh_id h) @ be16 (header_flags h) @ be16 (dh_qdcount h) @ be16 (dh_ancount h) @ be16 (dh_nscount h) @ be16 (dh_arcount h)))"

text \<open>A null label is the empty list.\<close>

definition label_pack :: "nat \<Rightarrow> byte list \<Rightarrow> byte list option" where
  "label_pack sz label =
     (if dot \<in> set label then None
      else let len = min 63 (length label)
           in if sz < len + 1 then None else Some (word_of_nat len # take len label))"

fun labels_pack :: "nat \<Rightarrow> byte list list \<Rightarrow> byte list option" where
  "labels_pack sz [] = label_pack sz []"
| "labels_pack sz (l # ls) = do { b \<leftarrow> label_pack sz l; bs \<leftarrow> labels_pack (sz - length b) ls; Some (b @ bs) }"

definition name_pack :: "nat \<Rightarrow> byte list \<Rightarrow> byte list option" where
  "name_pack sz name = labels_pack sz (strtok dot name)"

definition question_pack :: "nat \<Rightarrow> byte list \<Rightarrow> u16 \<Rightarrow> u16 \<Rightarrow> byte list option" where
  "question_pack sz name ty cls =
     do {
       n \<leftarrow> name_pack sz name;
       let q = n @ be16 ty @ be16 cls;
       if sz < length q then None else Some q
     }"

abbreviation (input) "TYPE_A \<equiv> 1 :: u16"
abbreviation (input) "TYPE_NS \<equiv> 2 :: u16"
abbreviation (input) "TYPE_PTR \<equiv> 12 :: u16"
abbreviation (input) "TYPE_AAAA \<equiv> 28 :: u16"
abbreviation (input) "CLASS_IN \<equiv> 1 :: u16"
abbreviation (input) "maxhostname \<equiv> 128 :: nat"

text \<open>The \<open>rdata\<close> of a PTR or NS record is a string, that of another record a buffer.\<close>

record dns_rr =
  rr_name :: "byte list"
  rr_type :: u16
  rr_class :: u16
  rr_ttl :: u32
  rr_rdlength :: u16
  rr_rdata :: "byte list"

definition rr_fixed :: "dns_rr \<Rightarrow> byte list" where
  "rr_fixed r = be16 (rr_type r) @ be16 (rr_class r) @ be32 (rr_ttl r) @ be16 (rr_rdlength r)"

text \<open>
  \<open>rfc1035RRPack\<close> writes at \<open>off\<close> into a buffer of \<open>sz\<close> bytes; the names are packed as if all \<open>sz\<close> bytes were left.
  The number is the result, the bytes are what was written from \<open>off\<close>.
\<close>

definition rr_pack :: "nat \<Rightarrow> nat \<Rightarrow> dns_rr \<Rightarrow> (nat \<times> byte list) option" where
  "rr_pack sz off r =
     do {
       n \<leftarrow> name_pack sz (rr_name r);
       let b = n @ rr_fixed r;
       if sz < off + length b then None
       else if rr_type r = TYPE_PTR \<or> rr_type r = TYPE_NS
       then if maxhostname < length (rr_rdata r) then Some (1, b)
            else do {
              d \<leftarrow> name_pack sz (rr_rdata r);
              if sz < off + length (b @ d) then None else Some (0, b @ d)
            }
       else if length (rr_rdata r) < unat (rr_rdlength r) \<or> sz < off + length b + unat (rr_rdlength r) then None
            else Some (0, b @ take (unat (rr_rdlength r)) (rr_rdata r))
     }"

section \<open>Unpacking\<close>

text \<open>
  \<open>Fault\<close> is a failed assertion or an access outside of a buffer, \<open>Bad\<close> the result 1, both results with the
  offset the caller sees afterwards. \<^const>\<open>None\<close> is a call that does not return.
\<close>

datatype 'a unpacked = Fault | Bad nat | Good 'a nat

definition header_of :: "byte list \<Rightarrow> dns_header" where
  "header_of b =
     (let w = (\<lambda>i. u16_of (take 2 (drop i b))); t = w 2
      in \<lparr>dh_id = w 0, dh_qr = ucast (drop_bit 15 t AND 1), dh_opcode = ucast (drop_bit 11 t AND 0xf), dh_aa = ucast (drop_bit 10 t AND 1),
          dh_tc = ucast (drop_bit 9 t AND 1), dh_rd = ucast (drop_bit 8 t AND 1), dh_ra = ucast (drop_bit 7 t AND 1), dh_rcode = ucast (t AND 0xf),
          dh_qdcount = w 4, dh_ancount = w 6, dh_nscount = w 8, dh_arcount = w 10\<rparr>)"

definition header_unpack :: "byte list \<Rightarrow> nat \<Rightarrow> dns_header unpacked" where
  "header_unpack b off = (if off \<noteq> 0 then Fault else if length b < 12 then Bad off else Good (header_of b) 12)"

text \<open>
  The loop of \<open>rfc1035NameUnpack\<close>. The buffer for the name has \<open>room\<close> bytes, of which \<open>acc\<close> has been written;
  the call started with \<open>base\<close> bytes written, so that its \<open>name\<close> points there and its \<open>ns\<close> is \<open>room - base\<close>.
  A pointer is followed by a call that starts where the bytes written so far end. The name that is read ends with a
  zero byte over the last dot.
\<close>

partial_function (option) name_loop ::
    "byte list \<Rightarrow> nat \<Rightarrow> nat \<Rightarrow> byte list \<Rightarrow> nat \<Rightarrow> byte list unpacked option" where
  "name_loop buf room base acc off =
     (if length buf \<le> off then Some Fault
      else let c = unat (buf ! off) in
      if 191 < c
      then if length buf < off + 2 then Some Fault
           else if length buf \<le> off + 2 then Some (Bad (off + 2))
           else let ptr = unat (u16_of (take 2 (drop off buf)) AND 0x3fff)
           in if length buf \<le> ptr then Some (Bad (off + 2))
              else if room \<le> length acc then Some Fault
              else do {
                r \<leftarrow> name_loop buf room (length acc) acc ptr;
                Some (case r of Fault \<Rightarrow> Fault | Bad x \<Rightarrow> Bad (off + 2) | Good n x \<Rightarrow> Good n (off + 2))
              }
      else if 63 < c then Some (Bad off)
      else if c = 0
      then Some (if acc = [] then Fault else Good (butlast acc @ [0]) (off + 1))
      else let len = min c (room - base - 1)
           in if length buf < off + 1 + len then Some (Bad (off + 1))
              else if room < length acc + len + 1 then Some Fault
              else name_loop buf room base (acc @ take len (drop (off + 1) buf) @ [dot]) (off + 1 + len))"

definition name_unpack :: "byte list \<Rightarrow> nat \<Rightarrow> nat \<Rightarrow> byte list unpacked option" where
  "name_unpack buf off ns = (if ns = 0 then Some Fault else name_loop buf ns 0 [] off)"

definition rdata_unpack :: "byte list \<Rightarrow> u16 \<Rightarrow> nat \<Rightarrow> nat \<Rightarrow> byte list unpacked option" where
  "rdata_unpack buf ty off rdlength =
     (if ty = TYPE_PTR \<or> ty = TYPE_NS
      then do {
        r \<leftarrow> name_unpack buf off maxhostname;
        Some (case r of
                Fault \<Rightarrow> Fault
              | Bad x \<Rightarrow> Bad off
              | Good n x \<Rightarrow> if x \<noteq> off + rdlength then Bad off else Good (c_str n) (off + rdlength))
      }
      else Some (Good (take rdlength (drop off buf)) (off + rdlength)))"

definition rr_unpack :: "byte list \<Rightarrow> nat \<Rightarrow> dns_rr unpacked option" where
  "rr_unpack buf off =
     do {
       r \<leftarrow> name_unpack buf off maxhostname;
       case r of
         Fault \<Rightarrow> Some Fault
       | Bad x \<Rightarrow> Some (Bad x)
       | Good n x \<Rightarrow>
           if length buf < x + 10 then Some (Bad x)
           else let ty = u16_of (take 2 (drop x buf));
                    cls = u16_of (take 2 (drop (x + 2) buf));
                    ttl = u32_of (take 4 (drop (x + 4) buf));
                    rdlength = u16_of (take 2 (drop (x + 8) buf))
           in if length buf < x + 10 + unat rdlength then Some (Bad (x + 10))
              else do {
                d \<leftarrow> rdata_unpack buf ty (x + 10) (unat rdlength);
                Some (case d of
                        Fault \<Rightarrow> Fault
                      | Bad y \<Rightarrow> Bad y
                      | Good data y \<Rightarrow> Good \<lparr>rr_name = c_str n, rr_type = ty, rr_class = cls, rr_ttl = ttl, rr_rdlength = rdlength, rr_rdata = data\<rparr> y)
              }
     }"

section \<open>Replies\<close>

text \<open>The question section is skipped without a look at the end of the message until a name has been passed.\<close>

function skip_name :: "byte list \<Rightarrow> nat \<Rightarrow> unit unpacked" where
  "skip_name buf off =
     (if length buf \<le> off then Fault
      else let l = unat (buf ! off)
           in if 191 < l then Good () (off + 2)
              else if 63 < l then Bad (off + 1)
              else if l = 0 then Good () (off + 1)
              else skip_name buf (off + 1 + l))"
  by pat_completeness auto
termination by (relation "measure (\<lambda>(buf, off). length buf - off)") auto

declare skip_name.simps [simp del]

fun skip_questions :: "byte list \<Rightarrow> nat \<Rightarrow> nat \<Rightarrow> unit unpacked" where
  "skip_questions buf 0 off = Good () off"
| "skip_questions buf (Suc i) off =
     (case skip_name buf off of
        Fault \<Rightarrow> Fault
      | Bad x \<Rightarrow> Bad x
      | Good u x \<Rightarrow> if length buf < x + 4 then Bad (x + 4) else skip_questions buf i (x + 4))"

text \<open>The records of a section in the order they are read; the outer \<^const>\<open>None\<close> of the loop is a call that does not return, \<open>Fault\<close> as above.\<close>

fun section_loop :: "byte list \<Rightarrow> nat \<Rightarrow> nat \<Rightarrow> dns_rr list unpacked option" where
  "section_loop buf 0 off = Some (Good [] off)"
| "section_loop buf (Suc i) off =
     (if length buf \<le> off then Some (Good [] off)
      else do {
        r \<leftarrow> rr_unpack buf off;
        case r of
          Fault \<Rightarrow> Some Fault
        | Bad x \<Rightarrow> Some (Good [] x)
        | Good rr x \<Rightarrow>
            do {
              s \<leftarrow> section_loop buf i x;
              Some (case s of Fault \<Rightarrow> Fault | Bad y \<Rightarrow> Bad y | Good rs y \<Rightarrow> Good (rr # rs) y)
            }
      })"

text \<open>
  The array of a section is filled from its end. \<^const>\<open>None\<close> is an element that holds no record.
\<close>

definition section_array :: "nat \<Rightarrow> dns_rr list \<Rightarrow> dns_rr option list" where
  "section_array count rs = replicate (count - length rs) None @ map Some (rev rs)"

record dns_answers =
  da_ret :: int
  da_errno :: int
  da_id :: "u16 option"
  da_answers :: "dns_rr option list option"
  da_authorities :: "dns_rr option list option"
  da_additionals :: "dns_rr option list option"

definition no_answers :: "int \<Rightarrow> u16 option \<Rightarrow> dns_answers" where
  "no_answers errno i = \<lparr>da_ret = - errno, da_errno = errno, da_id = i, da_answers = None, da_authorities = None, da_additionals = None\<rparr>"

abbreviation (input) "unpack_error \<equiv> 15 :: int"

definition answers_unpack :: "byte list \<Rightarrow> nat \<Rightarrow> dns_answers unpacked option" where
  "answers_unpack buf off =
     (case header_unpack buf off of
        Fault \<Rightarrow> Some Fault
      | Bad x \<Rightarrow> Some (Good (no_answers unpack_error None) x)
      | Good h x \<Rightarrow>
          let id = Some (dh_id h) in
          if dh_rcode h \<noteq> 0 then Some (Good (no_answers (uint (dh_rcode h)) id) x)
          else (case skip_questions buf (unat (dh_qdcount h)) x of
                  Fault \<Rightarrow> Some Fault
                | Bad y \<Rightarrow> Some (Good (no_answers unpack_error id) y)
                | Good u y \<Rightarrow>
                    if dh_ancount h = 0 then Some (Good (no_answers 0 id) y)
                    else do {
                      ra \<leftarrow> section_loop buf (unat (dh_ancount h)) y;
                      case ra of
                        Good ans o1 \<Rightarrow>
                          if ans = [] then Some (Good (no_answers unpack_error id) o1)
                          else let d1 = (no_answers 0 id)\<lparr>da_ret := int (length ans), da_answers := Some (section_array (unat (dh_ancount h)) ans)\<rparr>
                          in if dh_nscount h = 0 then Some (Good d1 o1)
                             else do {
                               rn \<leftarrow> section_loop buf (unat (dh_nscount h)) o1;
                               case rn of
                                 Good auth o2 \<Rightarrow>
                                   if auth = [] then Some (Good (d1\<lparr>da_ret := - unpack_error, da_errno := unpack_error\<rparr>) o2)
                                   else let d2 = d1\<lparr>da_authorities := Some (section_array (unat (dh_nscount h)) auth)\<rparr>
                                   in if dh_arcount h = 0 then Some (Good d2 o2)
                                      else do {
                                        rd \<leftarrow> section_loop buf (unat (dh_arcount h)) o2;
                                        case rd of
                                          Good add o3 \<Rightarrow>
                                            if add = [] then Some (Good (d2\<lparr>da_ret := - unpack_error, da_errno := unpack_error\<rparr>) o3)
                                            else Some (Good (d2\<lparr>da_additionals := Some (section_array (unat (dh_arcount h)) add)\<rparr>) o3)
                                        | _ \<Rightarrow> Some Fault
                                      }
                               | _ \<Rightarrow> Some Fault
                             }
                      | _ \<Rightarrow> Some Fault
                    }))"

section \<open>Queries\<close>

text \<open>The static query identifier and the error state.\<close>

record dns_state =
  ds_qid :: u16
  ds_errno :: int

definition next_qid :: "u16 \<Rightarrow> u16" where
  "next_qid q = (if q + 1 = 0xffff then 1 else q + 1)"

definition rfc1035_error_message :: "int \<Rightarrow> string" where
  "rfc1035_error_message n =
     (if n = 0 then ''No error condition''
      else if n = 1 then ''Format Error: The name server was unable to interpret the query.''
      else if n = 2 then ''Server Failure: The name server was unable to process this query.''
      else if n = 3 then ''Name Error: The domain name does not exist.''
      else if n = 4 then ''Not Implemented: The name server does not support the requested kind of query.''
      else if n = 5 then ''Refused: The name server refuses to perform the specified operation.''
      else if n = unpack_error then ''The DNS reply message is corrupt or could not be safely parsed.''
      else ''Unknown Error'')"

text \<open>\<open>strchr\<close> also finds the terminator, so that an empty name passes.\<close>

definition alphanum_start :: "byte list \<Rightarrow> bool" where
  "alphanum_start s =
     (case s of
        [] \<Rightarrow> True
      | c # cs \<Rightarrow> (0x61 \<le> c \<and> c \<le> 0x7a) \<or> (0x41 \<le> c \<and> c \<le> 0x5a) \<or> (0x30 \<le> c \<and> c \<le> 0x39))"

definition zero_header :: dns_header where
  "zero_header = \<lparr>dh_id = 0, dh_qr = 0, dh_opcode = 0, dh_aa = 0, dh_tc = 0, dh_rd = 0, dh_ra = 0, dh_rcode = 0,
                  dh_qdcount = 0, dh_ancount = 0, dh_nscount = 0, dh_arcount = 0\<rparr>"

definition query_bytes :: "dns_header \<Rightarrow> byte list \<Rightarrow> u16 \<Rightarrow> nat \<Rightarrow> byte list option" where
  "query_bytes h name ty sz =
     do {
       hb \<leftarrow> header_pack sz h;
       qb \<leftarrow> question_pack (sz - length hb) name ty CLASS_IN;
       Some (hb @ qb)
     }"

definition choose_qid :: "u16 \<Rightarrow> dns_state \<Rightarrow> u16 \<times> dns_state" where
  "choose_qid qid st = (if qid \<noteq> 0 then (qid, st) else let q = next_qid (ds_qid st) in (q, st\<lparr>ds_qid := q\<rparr>))"

definition build_query :: "byte list \<Rightarrow> u16 \<Rightarrow> nat \<Rightarrow> u16 \<Rightarrow> dns_state \<Rightarrow> (u16 \<times> byte list \<times> dns_state) option" where
  "build_query name ty sz qid st =
     (let (q, st1) = choose_qid qid st
      in do {
        b \<leftarrow> query_bytes (zero_header\<lparr>dh_id := q, dh_rd := 1, dh_qdcount := 1\<rparr>) name ty sz;
        Some (q, b, st1)
      })"

text \<open>The identifier, the message, which is empty when the name is refused, and the state.\<close>

definition build_a_query :: "byte list \<Rightarrow> nat \<Rightarrow> u16 \<Rightarrow> dns_state \<Rightarrow> (u16 \<times> byte list \<times> dns_state) option" where
  "build_a_query name sz qid st =
     (if \<not> alphanum_start name then Some (0, [], st\<lparr>ds_errno := 3\<rparr>) else build_query name TYPE_A sz qid st)"

definition build_aaaa_query :: "byte list \<Rightarrow> nat \<Rightarrow> u16 \<Rightarrow> dns_state \<Rightarrow> (u16 \<times> byte list \<times> dns_state) option" where
  "build_aaaa_query name sz qid st =
     (if \<not> alphanum_start name then Some (0, [], st\<lparr>ds_errno := 3\<rparr>) else build_query name TYPE_AAAA sz qid st)"

definition build_failed_response :: "byte list \<Rightarrow> u16 \<Rightarrow> nat \<Rightarrow> u16 \<Rightarrow> dns_state \<Rightarrow> (u16 \<times> byte list \<times> dns_state) option" where
  "build_failed_response name ty sz qid st =
     (if \<not> alphanum_start name then Some (0, [], st\<lparr>ds_errno := 3\<rparr>)
      else do {
        b \<leftarrow> query_bytes (zero_header\<lparr>dh_id := qid, dh_qr := 1, dh_rd := 1, dh_ra := 1, dh_rcode := 2, dh_qdcount := 1\<rparr>) name ty sz;
        Some (qid, b, st)
      })"

fun decimal :: "nat \<Rightarrow> byte list" where
  "decimal n = (if n < 10 then [word_of_nat (48 + n)] else decimal (n div 10) @ [word_of_nat (48 + n mod 10)])"

declare decimal.simps [simp del]

text \<open>\<open>"%u.%u.%u.%u.in-addr.arpa."\<close> of an address; it is shorter than its buffer of 32 bytes.\<close>

definition in_addr_arpa :: "byte list" where
  "in_addr_arpa = [0x69, 0x6e, 0x2d, 0x61, 0x64, 0x64, 0x72, 0x2e, 0x61, 0x72, 0x70, 0x61]"

definition make_ipv4_ptr_domain :: "ip_addr \<Rightarrow> byte list" where
  "make_ipv4_ptr_domain a =
     (let i = unat a
      in decimal (i mod 256) @ [dot] @ decimal (i div 256 mod 256) @ [dot] @ decimal (i div 65536 mod 256) @ [dot] @
         decimal (i div 16777216 mod 256) @ [dot] @ in_addr_arpa @ [dot])"

definition build_ptr_query :: "ip_addr \<Rightarrow> nat \<Rightarrow> u16 \<Rightarrow> dns_state \<Rightarrow> (u16 \<times> byte list \<times> dns_state) option" where
  "build_ptr_query a sz qid st = build_query (make_ipv4_ptr_domain a) TYPE_PTR sz qid st"

text \<open>
  \<open>rfc1035BuildPTR6Domain\<close>: the groups of the address are written from index \<open>j\<close> downwards, in front of \<open>acc\<close>.
  The copy of the result also takes the byte behind the array of 82 bytes, on which the string does not depend.
\<close>

abbreviation (input) "colon \<equiv> 0x3a :: byte"

definition dotted :: "byte list \<Rightarrow> byte list" where
  "dotted ds = concat (map (\<lambda>d. [d, dot]) (rev ds))"

fun ptr6_loop :: "byte list list \<Rightarrow> int \<Rightarrow> byte list \<Rightarrow> byte list option" where
  "ptr6_loop [] j acc = Some acc"
| "ptr6_loop (g # gs) j acc =
     (if length g = 4
      then if j < 7 then None
           else ptr6_loop gs (j - 8) ([g ! 3, dot, g ! 2, dot, g ! 1, dot, g ! 0, dot] @ acc)
      else let z = nat (4 - int (length g)); k = 2 * int (z + length g)
           in if j + 1 < k then None
              else ptr6_loop gs (j - k) (dotted g @ dotted (replicate z 0x30) @ acc))"

definition ip6_int :: "byte list" where
  "ip6_int = [0x69, 0x70, 0x36, 0x2e, 0x69, 0x6e, 0x74]"

definition ptr6_domain :: "byte list \<Rightarrow> byte list option" where
  "ptr6_domain addr = map_option (\<lambda>s. s @ ip6_int) (ptr6_loop (strtok colon addr) 64 [])"

definition build_ptr6_query :: "byte list \<Rightarrow> nat \<Rightarrow> u16 \<Rightarrow> dns_state \<Rightarrow> (u16 \<times> byte list \<times> dns_state) option" where
  "build_ptr6_query addr sz qid st = do { d \<leftarrow> ptr6_domain addr; build_query d TYPE_PTR sz qid st }"

definition retry_query :: "byte list \<Rightarrow> dns_state \<Rightarrow> (u16 \<times> byte list \<times> dns_state) option" where
  "retry_query buf st =
     (let q = next_qid (ds_qid st)
      in do { b \<leftarrow> wr 0 (be16 q) buf; Some (q, b, st\<lparr>ds_qid := q\<rparr>) })"

section \<open>Names in translated queries\<close>

text \<open>
  The address in a name below \<open>ip6.int\<close> (\<open>dnsalg.cc\<close>), read backwards. \<open>n\<close> counts the digits of the group.
  The address is the string that is written; a buffer of 128 bytes is taken to be large enough for a name.
\<close>

definition contains :: "byte list \<Rightarrow> byte list \<Rightarrow> bool" where
  "contains pat s = (\<exists>i\<in>set [0..<length s + 1]. take (length pat) (drop i s) = pat)"

fun query6_loop :: "byte list \<Rightarrow> nat \<Rightarrow> byte list" where
  "query6_loop [] n = []"
| "query6_loop (c # cs) n =
     (let (w, m) = (if c \<noteq> dot then ([c], n + 1) else ([], n))
      in if m = 4 \<and> cs \<noteq> [] then w @ [colon] @ query6_loop cs 0 else w @ query6_loop cs m)"

definition get_query_ipv6_address :: "byte list \<Rightarrow> byte list option" where
  "get_query_ipv6_address ptr_domain =
     (if contains (dot # ip6_int) ptr_domain then Some (query6_loop (rev (take (length ptr_domain - 8) ptr_domain)) 0) else None)"

section \<open>Headers\<close>

lemma ucast_one_bit: "ucast (x AND 1) = y \<longleftrightarrow> bit x 0 = bit (y :: 1 word) 0" for x :: u16
proof
  assume "bit x 0 = bit y 0"
  then show "ucast (x AND 1) = y" by (intro bit_word_eqI) (auto simp: bit_simps)
qed (auto simp: bit_simps)

lemma high_bits: "1 \<le> n \<Longrightarrow> \<not> bit (x :: 1 word) n" "4 \<le> n \<Longrightarrow> \<not> bit (y :: 4 word) n"
  using bit_imp_le_length[of x n] bit_imp_le_length[of y n] by auto

lemma header_flags_fields:
  "ucast (drop_bit 15 (header_flags h) AND 1) = dh_qr h" "ucast (drop_bit 11 (header_flags h) AND 0xf) = dh_opcode h"
  "ucast (drop_bit 10 (header_flags h) AND 1) = dh_aa h" "ucast (drop_bit 9 (header_flags h) AND 1) = dh_tc h"
  "ucast (drop_bit 8 (header_flags h) AND 1) = dh_rd h" "ucast (drop_bit 7 (header_flags h) AND 1) = dh_ra h"
  "ucast (header_flags h AND 0xf) = dh_rcode h"
proof -
  have f: "(0xf :: u16) = mask 4" by (simp add: mask_eq_exp_minus_1)
  show "ucast (drop_bit 15 (header_flags h) AND 1) = dh_qr h" "ucast (drop_bit 10 (header_flags h) AND 1) = dh_aa h"
    "ucast (drop_bit 9 (header_flags h) AND 1) = dh_tc h" "ucast (drop_bit 8 (header_flags h) AND 1) = dh_rd h"
    "ucast (drop_bit 7 (header_flags h) AND 1) = dh_ra h"
    unfolding ucast_one_bit by (simp_all add: header_flags_def bit_simps high_bits)
  show "ucast (drop_bit 11 (header_flags h) AND 0xf) = dh_opcode h" "ucast (header_flags h AND 0xf) = dh_rcode h"
    unfolding f by (rule bit_word_eqI; auto simp: header_flags_def bit_simps high_bits)+
qed

lemma header_of_pack:
  assumes "header_pack sz h = Some b"
  shows "header_of (b @ r) = h" "length b = 12"
proof -
  have b: "b = be16 (dh_id h) @ be16 (header_flags h) @ be16 (dh_qdcount h) @ be16 (dh_ancount h) @ be16 (dh_nscount h) @ be16 (dh_arcount h)"
    using assms by (auto simp: header_pack_def split: if_splits)
  show "length b = 12" by (simp add: b)
  show "header_of (b @ r) = h" by (simp add: header_of_def b header_flags_fields Let_def)
qed

section \<open>Names\<close>

definition label_ok :: "byte list \<Rightarrow> bool" where
  "label_ok l \<longleftrightarrow> l \<noteq> [] \<and> length l \<le> 63 \<and> dot \<notin> set l \<and> 0 \<notin> set l"

fun join_labels :: "byte \<Rightarrow> byte list list \<Rightarrow> byte list" where
  "join_labels sep [] = []"
| "join_labels sep [l] = l"
| "join_labels sep (l # ls) = l @ [sep] @ join_labels sep ls"

definition wire :: "byte list list \<Rightarrow> byte list" where
  "wire ls = concat (map (\<lambda>l. word_of_nat (length l) # l) ls) @ [0]"

definition dots :: "byte list list \<Rightarrow> byte list" where
  "dots ls = concat (map (\<lambda>l. l @ [dot]) ls)"

lemma wire_simps [simp]: "wire [] = [0]" "wire (l # ls) = word_of_nat (length l) # l @ wire ls"
  by (simp_all add: wire_def)

lemma dots_simps [simp]: "dots [] = []" "dots (l # ls) = l @ dot # dots ls"
  by (simp_all add: dots_def)

lemma dots_join: "ls \<noteq> [] \<Longrightarrow> dots ls = join_labels dot ls @ [dot]"
  by (induction dot ls rule: join_labels.induct) auto

lemma length_wire: "length (wire ls) = length (dots ls) + 1"
  by (induction ls) auto

lemma strtok_join:
  assumes "\<forall>l\<in>set ls. l \<noteq> [] \<and> sep \<notin> set l"
  shows "strtok sep (join_labels sep ls) = ls"
  using assms
proof (induction sep ls rule: join_labels.induct)
  case (1 sep)
  then show ?case by (simp add: strtok.simps)
next
  case (2 sep l)
  then have d: "dropWhile (\<lambda>b. b = sep) l = l" "takeWhile (\<lambda>b. b \<noteq> sep) l = l" "dropWhile (\<lambda>b. b \<noteq> sep) l = []" "l \<noteq> []"
    by (cases l; force intro: takeWhile_eq_all_conv[THEN iffD2] simp: dropWhile_eq_Nil_conv)+
  have "strtok sep l = l # strtok sep []"
    unfolding strtok.simps[of sep l] Let_def d(1) d(2) d(3) using d(4) by simp
  then show ?case by (simp add: strtok.simps[of sep "[]"])
next
  case (3 sep l l2 ls)
  define r where "r = join_labels sep (l2 # ls)"
  have l: "l \<noteq> []" "sep \<notin> set l" using 3 by auto
  have r: "strtok sep (sep # r) = strtok sep r" by (simp add: strtok.simps[of sep "sep # r"] strtok.simps[of sep r])
  have "dropWhile (\<lambda>b. b = sep) (l @ sep # r) = l @ sep # r" using l by (cases l) auto
  moreover have ns: "x \<noteq> sep" if "x \<in> set l" for x using l that by auto
  moreover have "takeWhile (\<lambda>b. b \<noteq> sep) (l @ sep # r) = l" using ns by (simp add: takeWhile_append2)
  moreover have "dropWhile (\<lambda>b. b \<noteq> sep) (l @ sep # r) = sep # r" using ns by (simp add: dropWhile_append2)
  ultimately have "strtok sep (l @ sep # r) = l # strtok sep (sep # r)" using l by (simp add: strtok.simps[of sep "l @ sep # r"])
  then show ?case using 3 r by (simp add: r_def)
qed

lemma labels_pack_ok:
  "\<forall>l\<in>set ls. label_ok l \<Longrightarrow> length (wire ls) \<le> sz \<Longrightarrow> labels_pack sz ls = Some (wire ls)"
proof (induction ls arbitrary: sz)
  case (Cons l ls)
  then have "label_pack sz l = Some (word_of_nat (length l) # l)" by (auto simp: label_pack_def label_ok_def min_absorb2)
  with Cons show ?case by simp
qed (simp add: label_pack_def)

lemma name_pack_ok:
  assumes "\<forall>l\<in>set ls. label_ok l" "length (wire ls) \<le> sz"
  shows "name_pack sz (join_labels dot ls) = Some (wire ls)"
  using assms labels_pack_ok[OF assms] strtok_join[of ls dot] by (simp add: name_pack_def label_ok_def)

lemma unat_len: "length l \<le> 63 \<Longrightarrow> unat (word_of_nat (length l) :: byte) = length l"
  by (simp add: unat_of_nat)

text \<open>A name without pointers: it is read if it fits into the buffer, and overruns it otherwise.\<close>

lemma name_loop_wire:
  assumes "\<forall>l\<in>set ls. l \<noteq> [] \<and> length l \<le> 63" "drop off buf = wire ls @ rest" "base + 64 \<le> room" "off \<le> length buf"
  shows "name_loop buf room base acc off = Some
    (if room < length acc + length (dots ls) \<and> ls \<noteq> [] \<or> acc @ dots ls = [] then Fault
     else Good (butlast (acc @ dots ls) @ [0]) (off + length (wire ls)))"
  using assms
proof (induction ls arbitrary: acc off)
  case Nil
  then have "off < length buf" "buf ! off = 0" by (metis append_Cons drop_all list.distinct(1) not_le wire_simps(1), metis append_Cons wire_simps(1) drop_eq_Nil hd_drop_conv_nth list.distinct(1) list.sel(1) not_le)
  then show ?case by (simp add: name_loop.simps)
next
  case (Cons l ls)
  have d: "drop off buf = word_of_nat (length l) # l @ wire ls @ rest" using Cons.prems(2) by simp
  have lt: "off < length buf" using d by (metis drop_all list.distinct(1) not_le)
  have c: "unat (buf ! off) = length l" using d lt unat_len[of l] Cons.prems(1) by (simp add: nth_via_drop)
  have l: "0 < length l" "length l \<le> 63" using Cons.prems(1) by auto
  have d1: "drop (Suc off) buf = l @ wire ls @ rest" using d by (simp add: drop_Suc flip: tl_drop)
  have len: "length buf = off + 1 + length l + length (wire ls) + length rest" using arg_cong[OF d1, of length] lt by simp
  have d2: "drop (off + 1 + length l) buf = wire ls @ rest" using arg_cong[OF d1, of "drop (length l)"] by (simp add: add.commute)
  have m: "min (length l) (room - base - 1) = length l" using l Cons.prems(3) by simp
  show ?case
  proof (cases "room < length acc + length l + 1")
    case True
    then show ?thesis using lt c l m len by (simp add: name_loop.simps)
  next
    case False
    have "name_loop buf room base acc off = name_loop buf room base (acc @ l @ [dot]) (off + 1 + length l)"
      using lt c l m len False d1 by (simp add: name_loop.simps[of buf room base acc off])
    also have "\<dots> = Some (if room < length (acc @ l @ [dot]) + length (dots ls) \<and> ls \<noteq> [] \<or> (acc @ l @ [dot]) @ dots ls = [] then Fault
        else Good (butlast ((acc @ l @ [dot]) @ dots ls) @ [0]) (off + 1 + length l + length (wire ls)))"
      by (rule Cons.IH) (use Cons.prems d2 len in auto)
    finally show ?thesis using False by auto
  qed
qed

lemma butlast_dots: "ls \<noteq> [] \<Longrightarrow> butlast (dots ls) = join_labels dot ls"
  by (simp add: dots_join)

lemma dots_Nil_iff [simp]: "dots ls = [] \<longleftrightarrow> ls = []"
  by (cases ls) auto

lemma name_unpack_wire:
  assumes "\<forall>l\<in>set ls. l \<noteq> [] \<and> length l \<le> 63" "drop off buf = wire ls @ rest" "off \<le> length buf" "64 \<le> ns"
  shows "name_unpack buf off ns = Some
    (if ls = [] \<or> ns < length (dots ls) then Fault else Good (join_labels dot ls @ [0]) (off + length (wire ls)))"
proof -
  have "0 + 64 \<le> ns" using assms(4) by simp
  from name_loop_wire[OF assms(1,2) this assms(3), of "[]"] show ?thesis using assms(4) by (auto simp: name_unpack_def butlast_dots)
qed

text \<open>
  A name that is packed is read back. For labels of 1 to 63 bytes without dots and zero bytes, whose
  name has at most 127 bytes, \<open>rfc1035NamePack\<close> writes its wire form, and \<open>rfc1035NameUnpack\<close>, at that place in
  any message, gives the name back with a terminator and moves the offset behind it.
\<close>

theorem dns_name_roundtrip:
  assumes "\<forall>l\<in>set ls. label_ok l" "ls \<noteq> []" "length (join_labels dot ls) \<le> 127" "length (join_labels dot ls) + 2 \<le> sz"
  shows "\<exists>w. name_pack sz (join_labels dot ls) = Some w \<and> length w = length (join_labels dot ls) + 2 \<and>
    name_unpack (pre @ w @ post) (length pre) maxhostname = Some (Good (join_labels dot ls @ [0]) (length pre + length w))"
proof -
  have d: "length (dots ls) = length (join_labels dot ls) + 1" using dots_join[OF assms(2)] by simp
  have "name_pack sz (join_labels dot ls) = Some (wire ls)" by (rule name_pack_ok[OF assms(1)]) (use assms(4) d in \<open>simp add: length_wire\<close>)
  moreover have "name_unpack (pre @ wire ls @ post) (length pre) 128 = Some (Good (join_labels dot ls @ [0]) (length pre + length (wire ls)))"
    using name_unpack_wire[of ls "length pre" "pre @ wire ls @ post" post 128] assms d by (auto simp: label_ok_def)
  ultimately show ?thesis using d by (auto simp: length_wire)
qed

theorem dns_name_roundtrip_witness:
  "\<exists>w. name_pack 20 [0x77, 0x77, 0x2e, 0x69, 0x6f] = Some w \<and> length w = 7 \<and>
    name_unpack ([1, 2] @ w @ [3]) (length [1, 2 :: byte]) maxhostname = Some (Good [0x77, 0x77, 0x2e, 0x69, 0x6f, 0] (length [1, 2 :: byte] + length w))"
  using dns_name_roundtrip[of "[[0x77, 0x77], [0x69, 0x6f]]" 20 "[1, 2]" "[3]"] by (auto simp: label_ok_def)

text \<open>
  Property C39: which names a buffer holds. A name of labels of 1 to 63 bytes and without pointers, anywhere in a
  message, is read into a buffer of \<open>ns\<close> bytes, at least 64 so that no label is cut, when it is not the root and its
  labels with their dots fit: the result is the name with its dots and a terminator, and the offset moves behind it.
  Otherwise a byte outside of the buffer is written. Names of up to 255 bytes are valid, the buffers of the records
  have 128.
\<close>

theorem dns_name_overrun_iff:
  assumes "\<forall>l\<in>set ls. l \<noteq> [] \<and> length l \<le> 63" "64 \<le> ns"
  shows "name_unpack (pre @ wire ls @ post) (length pre) ns = Some
    (if ls = [] \<or> ns < sum_list (map (\<lambda>l. length l + 1) ls) then Fault
     else Good (join_labels dot ls @ [0]) (length pre + length (wire ls)))"
proof -
  have "length (dots ls) = sum_list (map (\<lambda>l. length l + 1) ls)" by (induction ls) auto
  then show ?thesis using name_unpack_wire[OF assms(1) _ _ assms(2), of "length pre" "pre @ wire ls @ post" post] by simp
qed

theorem dns_name_overrun_iff_witness:
  "name_unpack ([7] @ wire [replicate 60 1, replicate 60 2, replicate 60 3] @ []) (length [7 :: byte]) maxhostname = Some Fault \<and>
   name_unpack ([7] @ wire [[1, 2], [3]] @ [4]) (length [7 :: byte]) maxhostname = Some (Good [1, 2, 0x2e, 3, 0] 7)"
  using dns_name_overrun_iff[of "[replicate 60 1, replicate 60 2, replicate 60 3]" maxhostname "[7]" "[]"]
    dns_name_overrun_iff[of "[[1, 2], [3]]" maxhostname "[7]" "[4]"] by simp

section \<open>Pointers\<close>

definition ptr_at :: "byte list \<Rightarrow> nat \<Rightarrow> nat" where
  "ptr_at buf off = unat (u16_of (take 2 (drop off buf)) AND 0x3fff)"

text \<open>
  The positions at which a call for the name at \<open>start\<close> reads a length or a pointer, each with the number of bytes
  written when the call under way began and the number written now: a label moves the position behind it, a
  pointer to its target. The data of a record between two names is not visited.
\<close>

inductive name_visits :: "byte list \<Rightarrow> nat \<Rightarrow> nat \<Rightarrow> nat \<Rightarrow> nat \<Rightarrow> nat \<Rightarrow> bool" for buf room start where
  visit_start: "name_visits buf room start 0 0 start"
| visit_label: "\<lbrakk>name_visits buf room start base n off; off < length buf; 0 < buf ! off; buf ! off \<le> 63;
    len = min (unat (buf ! off)) (room - base - 1); off + 1 + len \<le> length buf; n + len + 1 \<le> room\<rbrakk>
    \<Longrightarrow> name_visits buf room start base (n + len + 1) (off + 1 + len)"
| visit_pointer: "\<lbrakk>name_visits buf room start base n off; off + 2 < length buf; 191 < buf ! off; n < room\<rbrakk>
    \<Longrightarrow> name_visits buf room start n n (ptr_at buf off)"

lemma byte_compare:
  "191 < (w :: byte) \<longleftrightarrow> 191 < unat w" "w \<le> (63 :: byte) \<longleftrightarrow> unat w \<le> 63" "0 < (w :: byte) \<longleftrightarrow> 0 < unat w"
  by (simp_all add: word_less_nat_alt word_le_nat_alt)

lemma name_loop_returns:
  assumes "\<forall>base n off. name_visits buf room start base n off \<and> off + 2 < length buf \<and> 191 < buf ! off \<longrightarrow> ptr_at buf off < off"
    and "name_visits buf room start base (length acc) off"
  shows "name_loop buf room base acc off \<noteq> None"
  using assms(2)
proof (induction "(room - length acc, off)" arbitrary: base acc off rule: wf_induct_rule[OF wf_lex_prod[OF wf_less_than wf_less_than]])
  case 1
  let ?c = "unat (buf ! off)"
  show ?case
  proof (cases "length buf \<le> off + 2 \<or> length buf \<le> off \<or> ?c \<le> 191 \<or> room \<le> length acc \<or> length buf \<le> ptr_at buf off")
    case False
    then have p: "191 < buf ! off" "off + 2 < length buf" "length acc < room" by (simp_all add: byte_compare)
    then have "ptr_at buf off < off" using assms(1) 1(2) by blast
    moreover have "name_visits buf room start (length acc) (length acc) (ptr_at buf off)" by (rule visit_pointer[OF 1(2) p(2,1,3)])
    ultimately have "name_loop buf room (length acc) acc (ptr_at buf off) \<noteq> None" using 1(1)[of acc "ptr_at buf off" "length acc"] by simp
    then show ?thesis using False unfolding name_loop.simps[of buf room base acc off] ptr_at_def[symmetric] by (auto simp: Let_def)
  next
    case True
    show ?thesis
    proof (cases "length buf \<le> off \<or> 63 < ?c \<or> ?c = 0")
      case True2: True
      then show ?thesis using True unfolding name_loop.simps[of buf room base acc off] ptr_at_def[symmetric] by (auto simp: Let_def)
    next
      case False
      define len where "len = min ?c (room - base - 1)"
      show ?thesis
      proof (cases "length buf < off + 1 + len \<or> room < length acc + len + 1")
        case True3: True
        then show ?thesis using False unfolding name_loop.simps[of buf room base acc off] by (auto simp: Let_def len_def)
      next
        case F2: False
        define acc1 where "acc1 = acc @ take len (drop (off + 1) buf) @ [dot]"
        have la: "length acc1 = length acc + len + 1" using F2 by (auto simp: acc1_def min_def)
        have "name_visits buf room start base (length acc1) (off + 1 + len)"
          unfolding la by (rule visit_label[OF 1(2)]) (use False F2 in \<open>simp_all add: len_def byte_compare\<close>)
        then have "name_loop buf room base acc1 (off + 1 + len) \<noteq> None" using 1(1)[of acc1 "off + 1 + len" base] la F2 by auto
        then show ?thesis using False F2 unfolding name_loop.simps[of buf room base acc off] by (auto simp: Let_def len_def acc1_def)
      qed
    qed
  qed
qed

text \<open>
  Property C24: names end. When every compression pointer that is met while the name at \<open>off\<close> is read points before
  itself, which is what a correct message has, \<open>rfc1035NameUnpack\<close> returns for every size of the buffer, however the
  labels are laid out and whatever the data of the records between the names is.
\<close>

theorem dns_name_returns:
  assumes "\<forall>base n o1. name_visits buf ns off base n o1 \<and> o1 + 2 < length buf \<and> 191 < buf ! o1 \<longrightarrow> ptr_at buf o1 < o1"
  shows "name_unpack buf off ns \<noteq> None"
  using name_loop_returns[OF assms] visit_start[of buf ns off] by (simp add: name_unpack_def)

text \<open>A message with the data 192.40.1.1 of a record behind a compressed name: only the positions 5, 0 and 4 are visited.\<close>

abbreviation visit_message :: "byte list" where
  "visit_message \<equiv> [3, 0x61, 0x62, 0x63, 0, 0xc0, 0, 192, 40, 1, 1]"

lemma visit_message_positions:
  "name_visits visit_message maxhostname 5 base n off \<Longrightarrow> (base = 0 \<and> n = 0 \<and> (off = 5 \<or> off = 0)) \<or> (base = 0 \<and> n = 4 \<and> off = 4)"
  by (induction rule: name_visits.induct) (auto simp: ptr_at_def u16_of_def be_val_def)

theorem dns_name_returns_witness: "name_unpack visit_message 5 maxhostname \<noteq> None"
  by (rule dns_name_returns) (auto dest!: visit_message_positions simp: ptr_at_def u16_of_def be_val_def)

text \<open>A pointer to itself is followed for ever.\<close>

definition self_pointer :: "byte list \<Rightarrow> nat \<Rightarrow> bool" where
  "self_pointer buf off \<longleftrightarrow> 191 < unat (buf ! off) \<and> off + 2 < length buf \<and> ptr_at buf off = off"

lemma name_loop_self:
  "name_loop buf room base acc off = Some r \<Longrightarrow> self_pointer buf off \<longrightarrow> room \<le> length acc"
  by (erule name_loop.raw_induct[of "\<lambda>buf room base acc off r. self_pointer buf off \<longrightarrow> room \<le> length acc", rotated])
    (auto simp: self_pointer_def ptr_at_def Let_def bind_eq_Some_conv split: if_splits)

theorem dns_self_pointer_diverges:
  assumes "191 < unat (buf ! off)" "off + 2 < length buf" "ptr_at buf off = off" "0 < ns"
  shows "name_unpack buf off ns = None"
proof (rule ccontr)
  assume "name_unpack buf off ns \<noteq> None"
  then obtain r where "name_loop buf ns 0 [] off = Some r" using assms(4) by (auto simp: name_unpack_def)
  from name_loop_self[OF this] show False using assms by (simp add: self_pointer_def)
qed

theorem dns_self_pointer_diverges_witness: "name_unpack [0xc0, 0, 1] 0 maxhostname = None"
  by (rule dns_self_pointer_diverges) (simp_all add: ptr_at_def u16_of_def be_val_def)

section \<open>Records and replies\<close>

text \<open>A name and a record as a message can hold them.\<close>

definition name_ok :: "byte list \<Rightarrow> bool" where
  "name_ok s \<longleftrightarrow> strtok dot s \<noteq> [] \<and> (\<forall>l\<in>set (strtok dot s). label_ok l) \<and> join_labels dot (strtok dot s) = s \<and> length s \<le> 127"

definition name_type :: "u16 \<Rightarrow> bool" where
  "name_type ty \<longleftrightarrow> ty = TYPE_PTR \<or> ty = TYPE_NS"

definition rr_ok :: "dns_rr \<Rightarrow> bool" where
  "rr_ok r \<longleftrightarrow> name_ok (rr_name r) \<and>
     (if name_type (rr_type r) then name_ok (rr_rdata r) \<and> unat (rr_rdlength r) = length (rr_rdata r) + 2
      else unat (rr_rdlength r) = length (rr_rdata r))"

definition rr_bytes :: "dns_rr \<Rightarrow> byte list" where
  "rr_bytes r = wire (strtok dot (rr_name r)) @ rr_fixed r @ (if name_type (rr_type r) then wire (strtok dot (rr_rdata r)) else rr_rdata r)"

lemma length_rr_fixed [simp]: "length (rr_fixed r) = 10"
  by (simp add: rr_fixed_def)

lemma name_ok_wire:
  assumes "name_ok s"
  shows "length (wire (strtok dot s)) = length s + 2" "length s + 2 \<le> sz \<Longrightarrow> name_pack sz s = Some (wire (strtok dot s))"
proof -
  have d: "dots (strtok dot s) = s @ [dot]" using assms dots_join[of "strtok dot s"] by (simp add: name_ok_def)
  then show l: "length (wire (strtok dot s)) = length s + 2" by (simp add: length_wire)
  show "name_pack sz s = Some (wire (strtok dot s))" if "length s + 2 \<le> sz"
    using name_pack_ok[of "strtok dot s" sz] assms l that by (simp add: name_ok_def)
qed

lemma c_str_append0: "0 \<notin> set s \<Longrightarrow> c_str (s @ [0]) = s"
  by (induction s) (auto simp: c_str_def)

lemma set_join: "set (join_labels sep ls) \<subseteq> insert sep (\<Union>(set ` set ls))"
  by (induction sep ls rule: join_labels.induct) auto

lemma name_ok_read:
  assumes "name_ok s" "drop off buf = wire (strtok dot s) @ rest" "off \<le> length buf"
  shows "name_unpack buf off maxhostname = Some (Good (s @ [0]) (off + length s + 2))" "c_str (s @ [0]) = s"
proof -
  have d: "length (dots (strtok dot s)) = length s + 1" using name_ok_wire(1)[OF assms(1)] length_wire[of "strtok dot s"] by simp
  have ok: "\<forall>l\<in>set (strtok dot s). l \<noteq> [] \<and> length l \<le> 63" using assms(1) by (auto simp: name_ok_def label_ok_def)
  show "name_unpack buf off maxhostname = Some (Good (s @ [0]) (off + length s + 2))"
    using name_unpack_wire[OF ok assms(2,3), of maxhostname] assms(1) d name_ok_wire(1)[OF assms(1)]
    by (simp add: name_ok_def)
  have "0 \<notin> set (join_labels dot (strtok dot s))" using assms(1) set_join[of dot "strtok dot s"] by (fastforce simp: name_ok_def label_ok_def)
  then show "c_str (s @ [0]) = s" using assms(1) by (simp add: name_ok_def c_str_append0)
qed

lemma rr_pack_ok:
  assumes "rr_ok r" "off + length (rr_bytes r) \<le> sz"
  shows "rr_pack sz off r = Some (0, rr_bytes r)"
proof -
  note n = name_ok_wire[of "rr_name r"] and d = name_ok_wire[of "rr_rdata r"]
  have no: "name_ok (rr_name r)" using assms(1) by (simp add: rr_ok_def)
  show ?thesis
  proof (cases "name_type (rr_type r)")
    case True
    then have do: "name_ok (rr_rdata r)" "length (rr_rdata r) \<le> 127" using assms(1) by (auto simp: rr_ok_def name_ok_def)
    show ?thesis using True n[OF no] d[OF do(1)] do(2) assms(2) by (auto simp: rr_pack_def rr_bytes_def name_type_def)
  next
    case False
    then show ?thesis using n[OF no] assms by (auto simp: rr_pack_def rr_bytes_def name_type_def rr_ok_def)
  qed
qed

lemma rr_unpack_ok:
  assumes "rr_ok r" "drop off buf = rr_bytes r @ rest" "off \<le> length buf"
  shows "rr_unpack buf off = Some (Good r (off + length (rr_bytes r)))"
proof -
  have no: "name_ok (rr_name r)" using assms(1) by (simp add: rr_ok_def)
  define data where "data = (if name_type (rr_type r) then wire (strtok dot (rr_rdata r)) else rr_rdata r)"
  define x where "x = off + length (rr_name r) + 2"
  have rb: "rr_bytes r = wire (strtok dot (rr_name r)) @ rr_fixed r @ data" by (simp add: rr_bytes_def data_def)
  have ld: "length data = unat (rr_rdlength r)" using assms(1) name_ok_wire(1)[of "rr_rdata r"] by (auto simp: rr_ok_def data_def)
  have dx: "drop x buf = rr_fixed r @ data @ rest"
    using arg_cong[OF assms(2), of "drop (length (rr_name r) + 2)"] name_ok_wire(1)[OF no] by (simp add: rb x_def add.commute)
  have lb: "length buf = x + 10 + length data + length rest" using arg_cong[OF assms(2), of length] assms(3) name_ok_wire(1)[OF no] by (simp add: rb x_def)
  have nm: "name_unpack buf off maxhostname = Some (Good (rr_name r @ [0]) x)" "c_str (rr_name r @ [0]) = rr_name r"
    using name_ok_read[OF no _ assms(3), of "rr_fixed r @ data @ rest"] assms(2) by (simp_all add: rb x_def)
  have dk: "drop (x + k) buf = drop k (rr_fixed r @ data @ rest)" for k using arg_cong[OF dx, of "drop k"] by (simp add: add.commute)
  have f: "u16_of (take 2 (drop x buf)) = rr_type r" "u16_of (take 2 (drop (x + 2) buf)) = rr_class r"
    "u32_of (take 4 (drop (x + 4) buf)) = rr_ttl r" "u16_of (take 2 (drop (x + 8) buf)) = rr_rdlength r" "drop (x + 10) buf = data @ rest"
    unfolding dk dx by (simp_all add: rr_fixed_def)
  have rd: "rdata_unpack buf (rr_type r) (x + 10) (unat (rr_rdlength r)) = Some (Good (rr_rdata r) (x + 10 + length data))"
  proof (cases "name_type (rr_type r)")
    case True
    then have do: "name_ok (rr_rdata r)" "unat (rr_rdlength r) = length (rr_rdata r) + 2" using assms(1) by (simp_all add: rr_ok_def)
    have "drop (x + 10) buf = wire (strtok dot (rr_rdata r)) @ rest" using f(5) True by (simp add: data_def)
    from name_ok_read[OF do(1) this] lb show ?thesis using True do(2) ld by (simp add: rdata_unpack_def name_type_def)
  next
    case False
    then show ?thesis using f(5) ld by (simp add: rdata_unpack_def name_type_def data_def)
  qed
  have y: "x + 10 + length data = off + length (rr_bytes r)" using name_ok_wire(1)[OF no] by (simp add: rb x_def)
  have nl: "\<not> length buf < x + 10" "\<not> length buf < x + 10 + unat (rr_rdlength r)" using lb ld by simp_all
  show ?thesis using nl
    unfolding rr_unpack_def nm(1) bind.simps unpacked.case Let_def f nm(2) rd y by simp
qed

lemma section_loop_ok:
  assumes "\<forall>r\<in>set rs. rr_ok r" "drop off buf = concat (map rr_bytes rs) @ rest" "off \<le> length buf" "k = 0 \<or> rest = []"
  shows "section_loop buf (length rs + k) off = Some (Good rs (off + length (concat (map rr_bytes rs))))"
  using assms
proof (induction rs arbitrary: off)
  case Nil
  then show ?case by (cases k) auto
next
  case (Cons r rs)
  have d: "drop off buf = rr_bytes r @ (concat (map rr_bytes rs) @ rest)" using Cons.prems(2) by simp
  have "rr_bytes r \<noteq> []" by (simp add: rr_bytes_def wire_def)
  then have lt: "off < length buf" using d by (metis append_is_Nil_conv drop_all not_le)
  have r: "rr_unpack buf off = Some (Good r (off + length (rr_bytes r)))" by (rule rr_unpack_ok[OF _ d Cons.prems(3)]) (use Cons.prems(1) in simp)
  have "drop (off + length (rr_bytes r)) buf = concat (map rr_bytes rs) @ rest"
    using arg_cong[OF d, of "drop (length (rr_bytes r))"] by (simp add: add.commute)
  moreover have "off + length (rr_bytes r) \<le> length buf" using arg_cong[OF d, of length] lt by simp
  ultimately have "section_loop buf (length rs + k) (off + length (rr_bytes r)) =
      Some (Good rs (off + length (rr_bytes r) + length (concat (map rr_bytes rs))))"
    using Cons.IH[of "off + length (rr_bytes r)"] Cons.prems(1,4) by auto
  then show ?case using r lt by (simp add: add.assoc)
qed

lemma skip_name_wire:
  assumes "\<forall>l\<in>set ls. l \<noteq> [] \<and> length l \<le> 63" "drop off buf = wire ls @ rest"
  shows "skip_name buf off = Good () (off + length (wire ls))"
  using assms
proof (induction ls arbitrary: off)
  case Nil
  then have "off < length buf" "buf ! off = 0" by (metis append_Cons drop_all list.distinct(1) not_le wire_simps(1), metis append_Cons wire_simps(1) drop_eq_Nil hd_drop_conv_nth list.distinct(1) list.sel(1) not_le)
  then show ?case by (simp add: skip_name.simps)
next
  case (Cons l ls)
  have d: "drop off buf = word_of_nat (length l) # l @ wire ls @ rest" using Cons.prems(2) by simp
  have lt: "off < length buf" using d by (metis drop_all list.distinct(1) not_le)
  have c: "unat (buf ! off) = length l" using d lt unat_len[of l] Cons.prems(1) by (simp add: nth_via_drop)
  have d1: "drop (Suc off) buf = l @ wire ls @ rest" using d by (simp add: drop_Suc flip: tl_drop)
  have d2: "drop (off + 1 + length l) buf = wire ls @ rest" using arg_cong[OF d1, of "drop (length l)"] by (simp add: add.commute)
  have l: "0 < length l" "length l \<le> 63" using Cons.prems(1) by auto
  show ?case using lt c l Cons.IH[OF _ d2] Cons.prems(1) by (simp add: skip_name.simps[of buf off] Let_def)
qed

lemma drop_parts: "drop (length a) (a @ b) = b" "drop (length a + n) (a @ b) = drop n b"
  by simp_all

text \<open>What \<open>answers_unpack\<close> says of the authorities and the additional records.\<close>

definition reply_sections :: "dns_rr list \<Rightarrow> dns_rr list \<Rightarrow> dns_answers \<Rightarrow> dns_answers" where
  "reply_sections auth add d =
     (if auth = [] then d
      else if add = [] then d\<lparr>da_authorities := Some (map Some (rev auth))\<rparr>
      else d\<lparr>da_authorities := Some (map Some (rev auth)), da_additionals := Some (map Some (rev add))\<rparr>)"

lemma section_loop_full:
  assumes "\<forall>r\<in>set rs. rr_ok r" "buf = pre @ concat (map rr_bytes rs) @ rest" "off = length pre"
  shows "section_loop buf (length rs) off = Some (Good rs (off + length (concat (map rr_bytes rs))))"
  using section_loop_ok[of rs off buf rest 0] assms by simp

text \<open>The start of a reply with one question, up to the records.\<close>

lemma skip_question_ok:
  assumes "name_ok qn" "length hb = 12" "msg = hb @ wire (strtok dot qn) @ be16 ty @ be16 cls @ rest"
  shows "skip_questions msg 1 12 = Good () (18 + length qn)"
proof -
  have "drop 12 msg = wire (strtok dot qn) @ (be16 ty @ be16 cls @ rest)" using assms(2,3) by simp
  from skip_name_wire[OF _ this] have "skip_name msg 12 = Good () (12 + length (wire (strtok dot qn)))"
    using assms(1) by (simp add: name_ok_def label_ok_def)
  moreover have "length msg = 18 + length qn + length rest" using assms name_ok_wire(1)[OF assms(1)] by simp
  ultimately show ?thesis using name_ok_wire(1)[OF assms(1)] by simp
qed

text \<open>The records of a message are packed one after the other.\<close>

fun pack_records :: "nat \<Rightarrow> nat \<Rightarrow> dns_rr list \<Rightarrow> byte list option" where
  "pack_records sz off [] = Some []"
| "pack_records sz off (r # rs) =
     do { (res, b) \<leftarrow> rr_pack sz off r; bs \<leftarrow> pack_records sz (off + length b) rs; if res = 0 then Some (b @ bs) else None }"

lemma pack_records_ok:
  "\<forall>r\<in>set rs. rr_ok r \<Longrightarrow> off + length (concat (map rr_bytes rs)) \<le> sz \<Longrightarrow> pack_records sz off rs = Some (concat (map rr_bytes rs))"
  by (induction rs arbitrary: off) (auto simp: rr_pack_ok)

lemma question_pack_ok:
  "name_ok qn \<Longrightarrow> length qn + 6 \<le> sz \<Longrightarrow> question_pack sz qn ty cls = Some (wire (strtok dot qn) @ be16 ty @ be16 cls)"
  using name_ok_wire(1)[of qn] name_ok_wire(2)[of qn sz] by (simp add: question_pack_def Let_def)

lemma answers_unpack_ok:
  assumes "header_pack sz h = Some hb" "dh_rcode h = 0" "dh_qdcount h = 1" "dh_ancount h = word_of_nat (length ans)"
    "dh_nscount h = word_of_nat (length auth)" "dh_arcount h = word_of_nat (length add)"
    and "length ans < 65536" "length auth < 65536" "length add < 65536" "ans \<noteq> []" "name_ok qn" "\<forall>r\<in>set (ans @ auth @ add). rr_ok r"
    and "msg = hb @ (wire (strtok dot qn) @ be16 ty @ be16 cls) @ concat (map rr_bytes (ans @ auth @ add))"
  shows "\<exists>off. answers_unpack msg 0 = Some (Good (reply_sections auth add
      \<lparr>da_ret = int (length ans), da_errno = 0, da_id = Some (dh_id h), da_answers = Some (map Some (rev ans)), da_authorities = None, da_additionals = None\<rparr>) off)"
proof -
  define o0 where "o0 = 18 + length qn"
  define o1 where "o1 = o0 + length (concat (map rr_bytes ans))"
  define o2 where "o2 = o1 + length (concat (map rr_bytes auth))"
  define pre where "pre = hb @ wire (strtok dot qn) @ be16 ty @ be16 cls"
  have lp: "length pre = o0" using header_of_pack(2)[OF assms(1)] name_ok_wire(1)[OF assms(11)] by (simp add: pre_def o0_def)
  have m: "msg = pre @ concat (map rr_bytes ans) @ concat (map rr_bytes auth) @ concat (map rr_bytes add)"
    using assms(13) by (simp add: pre_def)
  have hu: "header_unpack msg 0 = Good h 12"
    using header_of_pack[OF assms(1)] assms(13) by (simp add: header_unpack_def)
  have sq: "skip_questions msg 1 12 = Good () o0"
    using skip_question_ok[OF assms(11) header_of_pack(2)[OF assms(1)], of msg ty cls "concat (map rr_bytes (ans @ auth @ add))"] assms(13) by (simp add: o0_def)
  have sa: "section_loop msg (length ans) o0 = Some (Good ans o1)"
    using section_loop_full[of ans msg pre] assms(12) lp m by (simp add: o1_def)
  have sn: "section_loop msg (length auth) o1 = Some (Good auth o2)"
    using section_loop_full[of auth msg "pre @ concat (map rr_bytes ans)" "concat (map rr_bytes add)"] assms(12) lp m by (simp add: o1_def o2_def)
  have "section_loop msg (length add) o2 = Some (Good add (o2 + length (concat (map rr_bytes add))))"
    by (rule section_loop_full[of add msg "pre @ concat (map rr_bytes ans) @ concat (map rr_bytes auth)" "[]"])
      (use assms(12) lp m in \<open>simp_all add: o1_def o2_def\<close>)
  then obtain o3 where sd: "section_loop msg (length add) o2 = Some (Good add o3)" by blast
  have c: "unat (word_of_nat n :: u16) = n" "(word_of_nat n :: u16) = 0 \<longleftrightarrow> n = 0" if "n < 65536" for n
  proof -
    show u: "unat (word_of_nat n :: u16) = n" using that by (simp add: unat_of_nat)
    then show "(word_of_nat n :: u16) = 0 \<longleftrightarrow> n = 0" by (metis unat_0 unat_eq_zero)
  qed
  note cs = c[OF assms(7)] c[OF assms(8)] c[OF assms(9)]
  have arr: "section_array (length rs) rs = map Some (rev rs)" for rs by (simp add: section_array_def)
  have q1: "unat (dh_qdcount h) = 1" using assms(3) by simp
  show ?thesis unfolding answers_unpack_def hu unpacked.case Let_def q1 sq using assms(2,4-6,10) sa sn sd
    by (auto simp: cs arr reply_sections_def no_answers_def)
qed

text \<open>
  Property C10: a reply that is packed is read back. A header, one question, at least one answer and any
  authorities and additional records, each with a name of at most 127 bytes and data of the announced length, are
  packed one after the other into a buffer that is large enough. Unpacking what was written gives the number of
  answers and arrays with the records, in reverse order. The additional records are only read when there are
  authorities, and no array is stored for an empty section.
\<close>

theorem dns_reply_roundtrip:
  assumes "dh_rcode h = 0" "dh_qdcount h = 1" "dh_ancount h = word_of_nat (length ans)"
    "dh_nscount h = word_of_nat (length auth)" "dh_arcount h = word_of_nat (length add)"
    and "length ans < 65536" "length auth < 65536" "length add < 65536" "ans \<noteq> []" "name_ok qn" "\<forall>r\<in>set (ans @ auth @ add). rr_ok r"
    and "18 + length qn + sum_list (map (\<lambda>r. length (rr_bytes r)) (ans @ auth @ add)) \<le> sz"
  shows "\<exists>hb qb rb off. header_pack sz h = Some hb \<and> question_pack (sz - 12) qn ty cls = Some qb \<and>
    pack_records sz (12 + length qb) (ans @ auth @ add) = Some rb \<and>
    answers_unpack (hb @ qb @ rb) 0 = Some (Good (reply_sections auth add
      \<lparr>da_ret = int (length ans), da_errno = 0, da_id = Some (dh_id h), da_answers = Some (map Some (rev ans)), da_authorities = None, da_additionals = None\<rparr>) off)"
proof -
  define qb where "qb = wire (strtok dot qn) @ be16 ty @ be16 cls"
  have lq: "length qb = length qn + 6" using name_ok_wire(1)[OF assms(10)] by (simp add: qb_def)
  obtain hb where h: "header_pack sz h = Some hb" using assms(12) by (simp add: header_pack_def)
  have q: "question_pack (sz - 12) qn ty cls = Some qb" unfolding qb_def by (rule question_pack_ok[OF assms(10)]) (use assms(12) in simp)
  have "length (concat (map rr_bytes (ans @ auth @ add))) = sum_list (map (\<lambda>r. length (rr_bytes r)) (ans @ auth @ add))"
    by (simp add: length_concat comp_def)
  then have r: "pack_records sz (12 + length qb) (ans @ auth @ add) = Some (concat (map rr_bytes (ans @ auth @ add)))"
    by (intro pack_records_ok[OF assms(11)]) (use assms(12) lq in simp)
  from answers_unpack_ok[OF h assms(1-11) refl, of ty cls] show ?thesis using h q r unfolding qb_def by blast
qed

definition demo_rr :: "byte list \<Rightarrow> byte list \<Rightarrow> dns_rr" where
  "demo_rr n a = \<lparr>rr_name = n, rr_type = TYPE_A, rr_class = CLASS_IN, rr_ttl = 60, rr_rdlength = 4, rr_rdata = a\<rparr>"

lemma demo_name_ok: "name_ok [0x77, 0x2e, 0x69]"
  by (simp add: name_ok_def strtok.simps label_ok_def)

lemma demo_rr_ok: "length a = 4 \<Longrightarrow> rr_ok (demo_rr [0x77, 0x2e, 0x69] a)"
  using demo_name_ok by (simp add: rr_ok_def demo_rr_def name_type_def)

theorem dns_reply_roundtrip_witness:
  "\<exists>hb qb rb off. header_pack 512 (zero_header\<lparr>dh_id := 7, dh_qdcount := 1, dh_ancount := 2\<rparr>) = Some hb \<and>
    question_pack (512 - 12) [0x77, 0x2e, 0x69] TYPE_A CLASS_IN = Some qb \<and>
    pack_records 512 (12 + length qb) ([demo_rr [0x77, 0x2e, 0x69] [10, 0, 0, 1], demo_rr [0x77, 0x2e, 0x69] [10, 0, 0, 2]] @ [] @ []) = Some rb \<and>
    answers_unpack (hb @ qb @ rb) 0 = Some (Good (reply_sections [] []
      \<lparr>da_ret = int (length [demo_rr [0x77, 0x2e, 0x69] [10, 0, 0, 1], demo_rr [0x77, 0x2e, 0x69] [10, 0, 0, 2]]), da_errno = 0,
       da_id = Some (dh_id (zero_header\<lparr>dh_id := 7, dh_qdcount := 1, dh_ancount := 2\<rparr>)),
       da_answers = Some (map Some (rev [demo_rr [0x77, 0x2e, 0x69] [10, 0, 0, 1], demo_rr [0x77, 0x2e, 0x69] [10, 0, 0, 2]])), da_authorities = None, da_additionals = None\<rparr>) off)"
proof (rule dns_reply_roundtrip)
  have "length (wire (strtok dot [0x77, 0x2e, 0x69])) = 5" using name_ok_wire(1)[OF demo_name_ok] by simp
  then have "length (rr_bytes (demo_rr [0x77, 0x2e, 0x69] a)) = 15 + length a" for a by (simp add: rr_bytes_def demo_rr_def name_type_def)
  then show "18 + length [0x77, 0x2e, 0x69 :: byte] + sum_list (map (\<lambda>r. length (rr_bytes r))
      ([demo_rr [0x77, 0x2e, 0x69] [10, 0, 0, 1], demo_rr [0x77, 0x2e, 0x69] [10, 0, 0, 2]] @ [] @ [])) \<le> 512" by simp
qed (simp_all add: zero_header_def demo_name_ok demo_rr_ok)

text \<open>
  The answers of a cut reply are at the wrong end of their array. When a reply announces \<open>n\<close> answers
  and no authorities, but ends after the first \<open>k\<close>, the result is \<open>k\<close>, and the array has its records behind
  \<open>n - k\<close> elements that were never filled: the first element, which a caller that is told \<open>k\<close> reads, holds no
  record.
\<close>

theorem dns_cut_reply:
  assumes "header_pack sz h = Some hb" "dh_rcode h = 0" "dh_qdcount h = 1" "unat (dh_ancount h) = n" "dh_nscount h = 0"
    and "ans \<noteq> []" "length ans < n" "name_ok qn" "\<forall>r\<in>set ans. rr_ok r"
  shows "\<exists>d off. answers_unpack (hb @ (wire (strtok dot qn) @ be16 ty @ be16 cls) @ concat (map rr_bytes ans)) 0 = Some (Good d off) \<and>
    da_ret d = int (length ans) \<and> da_answers d = Some (replicate (n - length ans) None @ map Some (rev ans)) \<and> the (da_answers d) ! 0 = None"
proof -
  define msg where "msg = hb @ (wire (strtok dot qn) @ be16 ty @ be16 cls) @ concat (map rr_bytes ans)"
  define o0 where "o0 = 18 + length qn"
  have lh: "length hb = 12" by (rule header_of_pack(2)[OF assms(1)])
  have hu: "header_unpack msg 0 = Good h 12" using header_of_pack[OF assms(1)] by (simp add: header_unpack_def msg_def)
  have sq: "skip_questions msg 1 12 = Good () o0"
    using skip_question_ok[OF assms(8) lh, of msg ty cls "concat (map rr_bytes ans)"] by (simp add: msg_def o0_def)
  have d: "drop o0 msg = concat (map rr_bytes ans)" "o0 \<le> length msg" using lh name_ok_wire(1)[OF assms(8)] by (simp_all add: msg_def o0_def)
  have "n = length ans + (n - length ans)" using assms(7) by simp
  then have sa: "section_loop msg n o0 = Some (Good ans (length msg))"
    using section_loop_ok[OF assms(9), of o0 msg "[]" "n - length ans"] d lh name_ok_wire(1)[OF assms(8)] by (simp add: msg_def o0_def)
  have q1: "unat (dh_qdcount h) = 1" using assms(3) by simp
  have "dh_ancount h \<noteq> 0" using assms(4,7) by (metis gr_implies_not0 unat_0)
  then have "answers_unpack msg 0 = Some (Good \<lparr>da_ret = int (length ans), da_errno = 0, da_id = Some (dh_id h),
      da_answers = Some (section_array n ans), da_authorities = None, da_additionals = None\<rparr> (length msg))"
    unfolding answers_unpack_def hu unpacked.case Let_def q1 sq assms(4) using assms(2,5,6) sa by (simp add: no_answers_def)
  then show ?thesis using assms(7) unfolding msg_def[symmetric] by (simp add: section_array_def nth_append)
qed

theorem dns_cut_reply_witness:
  "\<exists>hb d off. header_pack 512 (zero_header\<lparr>dh_id := 7, dh_qdcount := 1, dh_ancount := 3\<rparr>) = Some hb \<and>
    answers_unpack (hb @ (wire (strtok dot [0x77, 0x2e, 0x69]) @ be16 TYPE_A @ be16 CLASS_IN) @ concat (map rr_bytes [demo_rr [0x77, 0x2e, 0x69] [10, 0, 0, 1]])) 0
      = Some (Good d off) \<and> da_ret d = 1 \<and> the (da_answers d) ! 0 = None"
proof -
  obtain hb where h: "header_pack 512 (zero_header\<lparr>dh_id := 7, dh_qdcount := 1, dh_ancount := 3\<rparr>) = Some hb" by (simp add: header_pack_def)
  from dns_cut_reply[OF h, of 3 "[demo_rr [0x77, 0x2e, 0x69] [10, 0, 0, 1]]" "[0x77, 0x2e, 0x69]" TYPE_A CLASS_IN] h
  show ?thesis using demo_name_ok demo_rr_ok[of "[10, 0, 0, 1]"] by (auto simp: zero_header_def)
qed

section \<open>Reverse names of IPv6 addresses\<close>

text \<open>A group with its leading zeros.\<close>

definition pad4 :: "byte list \<Rightarrow> byte list" where
  "pad4 g = replicate (4 - length g) 0x30 @ g"

lemma four: "length g = 4 \<Longrightarrow> g = [g ! 0, g ! 1, g ! 2, g ! 3]"
  by (intro nth_equalityI) (auto simp: less_Suc_eq numeral_eq_Suc nth_Cons')

lemma ptr6_step:
  assumes "length g \<le> 4" "7 \<le> j"
  shows "ptr6_loop (g # gs) j acc = ptr6_loop gs (j - 8) (dotted g @ dotted (replicate (4 - length g) 0x30) @ acc)"
proof (cases "length g = 4")
  case True
  obtain a b c d where g: "g = [a, b, c, d]" using four[OF True] by blast
  then show ?thesis using assms(2) by (simp add: dotted_def)
next
  case False
  have "nat (4 - int (length g)) = 4 - length g" by simp
  then show ?thesis using assms False by (simp add: of_nat_diff)
qed

lemma rev_replicate_dotted: "dotted (a @ b) = dotted b @ dotted a"
  by (simp add: dotted_def)

lemma ptr6_loop_ok:
  "\<forall>g\<in>set gs. length g \<le> 4 \<Longrightarrow> 8 * int (length gs) \<le> j + 1 \<Longrightarrow>
   ptr6_loop gs j acc = Some (concat (map (\<lambda>g. dotted (pad4 g)) (rev gs)) @ acc)"
proof (induction gs arbitrary: j acc)
  case (Cons g gs)
  then have "ptr6_loop (g # gs) j acc = ptr6_loop gs (j - 8) (dotted (pad4 g) @ acc)"
    using ptr6_step[of g j gs acc] by (simp add: pad4_def rev_replicate_dotted)
  then show ?case using Cons by simp
qed simp

lemma query6_group:
  assumes "length g = 4" "dot \<notin> set g"
  shows "query6_loop (concat (map (\<lambda>d. [dot, d]) g) @ rest) 0 = (if rest = [] then g else g @ [colon] @ query6_loop rest 0)"
proof -
  obtain a b c d where g: "g = [a, b, c, d]" using four[OF assms(1)] by blast
  show ?thesis using assms(2) by (simp add: g)
qed

lemma rev_dotted: "rev (dotted ds) = concat (map (\<lambda>d. [dot, d]) ds)"
  by (induction ds) (auto simp: dotted_def)

lemma query6_groups:
  assumes "\<forall>g\<in>set gs. length g = 4 \<and> dot \<notin> set g"
  shows "query6_loop (concat (map (\<lambda>g. rev (dotted g)) gs)) 0 = join_labels colon gs"
  using assms
proof (induction colon gs rule: join_labels.induct)
  case (2 l)
  then show ?case using query6_group[of l "[]"] by (simp add: rev_dotted)
next
  case (3 l l2 ls)
  have "rev (dotted l2) \<noteq> []" using 3 by (cases l2) (auto simp: dotted_def)
  then show ?case using query6_group[of l "concat (map (\<lambda>g. rev (dotted g)) (l2 # ls))"] 3 by (simp add: rev_dotted)
qed simp

lemma dotted_last: "ds \<noteq> [] \<Longrightarrow> \<exists>x. dotted ds = x @ [dot]"
  by (cases ds) (auto simp: dotted_def)

lemma contains_end: "contains pat (x @ pat)"
  unfolding contains_def by (intro bexI[of _ "length x"]) auto

lemma get_query_groups:
  assumes "gs \<noteq> []" "\<forall>g\<in>set gs. length g = 4 \<and> dot \<notin> set g"
  shows "get_query_ipv6_address (concat (map dotted (rev gs)) @ ip6_int) = Some (join_labels colon gs)"
proof -
  define D where "D = concat (map dotted (rev gs))"
  have r: "rev D = concat (map (\<lambda>g. rev (dotted g)) gs)" by (simp add: D_def rev_concat rev_map comp_def)
  have "dotted (hd gs) \<noteq> []" using assms by (cases gs; cases "hd gs") (auto simp: dotted_def)
  moreover have "D = concat (map dotted (rev (tl gs))) @ dotted (hd gs)" using assms(1) by (cases gs) (simp_all add: D_def)
  ultimately obtain x where x: "D = x @ [dot]" using dotted_last[of "hd gs"] by (cases "hd gs") (auto simp: dotted_def)
  have l8: "length ip6_int = 7" by (simp add: ip6_int_def)
  have c: "contains (dot # ip6_int) (D @ ip6_int)" using contains_end[of "dot # ip6_int" x] by (simp add: x)
  have t: "take (length (D @ ip6_int) - 8) (D @ ip6_int) = x" using l8 by (simp add: x)
  have "query6_loop (rev x) 0 = query6_loop (rev D) 0" by (simp add: x)
  also have "\<dots> = join_labels colon gs" unfolding r by (rule query6_groups[OF assms(2)])
  finally show ?thesis unfolding get_query_ipv6_address_def D_def[symmetric] using c t by simp
qed

text \<open>
  Property C25: reverse names of IPv6 addresses are undone. For an address of eight groups of one to four digits,
  \<open>rfc1035BuildPTR6Domain\<close> stays inside its array (but for the copy of one byte, see above), and
  \<open>get_query_ipv6_address\<close> finds in the name it builds the address again, with all leading zeros.
\<close>

theorem ptr6_domain_roundtrip:
  assumes "length gs = 8" "\<forall>g\<in>set gs. g \<noteq> [] \<and> length g \<le> 4 \<and> dot \<notin> set g \<and> colon \<notin> set g"
  shows "\<exists>d. ptr6_domain (join_labels colon gs) = Some d \<and> get_query_ipv6_address d = Some (join_labels colon (map pad4 gs))"
proof -
  have "strtok colon (join_labels colon gs) = gs" by (rule strtok_join) (use assms(2) in blast)
  moreover have "ptr6_loop gs 64 [] = Some (concat (map (\<lambda>g. dotted (pad4 g)) (rev gs)) @ [])"
    by (rule ptr6_loop_ok) (use assms in auto)
  ultimately have "ptr6_domain (join_labels colon gs) = Some (concat (map dotted (rev (map pad4 gs))) @ ip6_int)"
    by (simp add: ptr6_domain_def rev_map comp_def)
  moreover have "get_query_ipv6_address (concat (map dotted (rev (map pad4 gs))) @ ip6_int) = Some (join_labels colon (map pad4 gs))"
    by (rule get_query_groups) (use assms in \<open>auto simp: pad4_def\<close>)
  ultimately show ?thesis by blast
qed

theorem ptr6_domain_roundtrip_witness:
  "\<exists>d. ptr6_domain (join_labels colon (replicate 7 [0x30] @ [[0x31, 0x66]])) = Some d \<and>
    get_query_ipv6_address d = Some (join_labels colon (map pad4 (replicate 7 [0x30] @ [[0x31, 0x66]])))"
  by (rule ptr6_domain_roundtrip) auto

section \<open>Queries read back\<close>

definition qid_ok :: "u16 \<Rightarrow> bool" where
  "qid_ok q \<longleftrightarrow> 0 < q \<and> q < 0xffff"

lemma next_qid_ok: "qid_ok q \<Longrightarrow> qid_ok (next_qid q)"
proof -
  assume q: "qid_ok q"
  then have "q \<noteq> 0xffff" by (auto simp: qid_ok_def)
  have "unat q < 65535" using q by (simp add: qid_ok_def word_less_nat_alt)
  then have "unat (q + 1) = unat q + 1" by (simp add: unat_word_ariths)
  then show ?thesis using \<open>unat q < 65535\<close> by (simp add: next_qid_def qid_ok_def word_less_nat_alt unat_eq_nat_uint[symmetric] word_unat_eq_iff)
qed

lemma build_query_ok:
  assumes "name_ok name" "18 + length name \<le> sz" "qid_ok (ds_qid st)"
  shows "\<exists>q b st1. build_query name ty sz qid st = Some (q, b, st1) \<and> (if qid \<noteq> 0 then q = qid else qid_ok q) \<and> qid_ok (ds_qid st1) \<and>
    header_of b = zero_header\<lparr>dh_id := q, dh_rd := 1, dh_qdcount := 1\<rparr> \<and>
    name_unpack b 12 maxhostname = Some (Good (name @ [0]) (14 + length name)) \<and> drop (14 + length name) b = be16 ty @ be16 CLASS_IN"
proof -
  obtain q st1 where q: "choose_qid qid st = (q, st1)" by fastforce
  then have q1: "if qid \<noteq> 0 then q = qid else qid_ok q" "qid_ok (ds_qid st1)"
    using assms(3) next_qid_ok[of "ds_qid st"] by (auto simp: choose_qid_def Let_def split: if_splits)
  define h where "h = zero_header\<lparr>dh_id := q, dh_rd := 1, dh_qdcount := 1\<rparr>"
  obtain hb where hb: "header_pack sz h = Some hb" using assms(2) by (simp add: header_pack_def)
  note lh = header_of_pack[OF hb]
  define qb where "qb = wire (strtok dot name) @ be16 ty @ be16 CLASS_IN"
  have "question_pack (sz - length hb) name ty CLASS_IN = Some qb"
    unfolding qb_def by (rule question_pack_ok[OF assms(1)]) (use assms(2) lh(2) in simp)
  then have "build_query name ty sz qid st = Some (q, hb @ qb, st1)"
    using hb q by (simp add: build_query_def query_bytes_def h_def)
  moreover have "name_unpack (hb @ qb) 12 maxhostname = Some (Good (name @ [0]) (14 + length name))"
    using name_ok_read(1)[OF assms(1), of 12 "hb @ qb" "be16 ty @ be16 CLASS_IN"] lh(2) by (simp add: qb_def add.commute)
  moreover have "drop (14 + length name) (hb @ qb) = be16 ty @ be16 CLASS_IN"
    using lh(2) name_ok_wire(1)[OF assms(1)] by (simp add: qb_def)
  ultimately show ?thesis using q1 lh(1)[of qb] unfolding h_def by blast
qed

text \<open>
  Queries read back. A query for the addresses of a name is built whenever the name starts with a
  letter or a digit and the buffer holds it: the header carries the identifier asked for, or else a fresh one,
  which is never 0 or 65535 and leaves the counter in that range, and the name is read back where the question starts,
  followed by the type and the class.
\<close>

theorem dns_query_reads_back:
  assumes "name_ok name" "18 + length name \<le> sz" "qid_ok (ds_qid st)" "alphanum_start name"
  shows "\<exists>q b st1. build_a_query name sz qid st = Some (q, b, st1) \<and> (if qid \<noteq> 0 then q = qid else qid_ok q) \<and> qid_ok (ds_qid st1) \<and>
    header_of b = zero_header\<lparr>dh_id := q, dh_rd := 1, dh_qdcount := 1\<rparr> \<and>
    name_unpack b 12 maxhostname = Some (Good (name @ [0]) (14 + length name)) \<and> drop (14 + length name) b = be16 TYPE_A @ be16 CLASS_IN"
  using build_query_ok[OF assms(1-3), of TYPE_A qid] assms(4) by (simp add: build_a_query_def)

theorem dns_query_reads_back_witness:
  "\<exists>q b st1. build_a_query [0x77, 0x2e, 0x69] 512 0 \<lparr>ds_qid = 5, ds_errno = 0\<rparr> = Some (q, b, st1) \<and> qid_ok q"
  using dns_query_reads_back[of "[0x77, 0x2e, 0x69]" 512 "\<lparr>ds_qid = 5, ds_errno = 0\<rparr>" 0] demo_name_ok
  by (auto simp: qid_ok_def alphanum_start_def)

end
