(* ===== verification/Spec2Isabelle.thy ===== *)
theory Spec2Isabelle
  imports DHCP_Handshake PPP_Options SNMP_BER SNMP_OidTree Roofnet_FragAck Roofnet_Query BP_Queues Security_TRW Unibo_QoS Mcast_IGMP IIAS_GRE DNS_Message
begin

text \<open>
  A verification library for the packages of the Click modular router.

  \<^bold>\<open>The program.\<close> The repository holds independent packages of elements. An element is a C++ class that
  receives packets on input ports, changes its state and pushes packets on output ports; timers
  and write handlers call it too. The packages modelled here are \<open>dhcp\<close> (lease tables, server and
  client), \<open>iias\<close> (the PPP control protocols and GRE tunnels), \<open>snmp\<close> (the BER encoder and the identifier tree),
  \<open>roofnet/frag\<close> and \<open>roofnet/sr\<close> (link-layer fragmentation and source routing), \<open>bp\<close> (backpressure queues), \<open>multicast\<close> (IGMP and PIM
  for IPv4), \<open>ip6_natpt\<close> (DNS messages), \<open>security\<close> (scan detection) and \<open>unibo_qos\<close> (classification of real-time traffic).

  \<^bold>\<open>Conventions.\<close> An element's fields are a record, a method is a function from the state and its arguments
  to the new state and what it emits. Packets and buffers are byte lists, pointers into them are
  offsets; a read or write outside of a buffer, a null pointer, a failed assertion and a division by zero
  is \<^const>\<open>None\<close> (or a constructor of an error type), so that a result of the form \<^const>\<open>Some\<close> is a
  safety statement. Integers keep their width: \<open>uint8_t\<close>, \<open>uint16_t\<close>, \<open>uint32_t\<close> are words, signed
  values are integers with the wrap-around written out where the code can reach it. Loops whose end depends
  on data are partial functions with value \<^const>\<open>None\<close> when they do not end; that they end is proved.
  Parameters stand for what is not in the repository: \<open>click_in_cksum\<close> (\<open>ck\<close>, with the law \<open>cksum_law\<close>,
  satisfied by RFC 1071's sum), the ARP and link tables and \<open>index_of\<close> of Click (\<open>tables\<close>, \<open>arp_law\<close>,
  \<open>index_law\<close>), the random number generator, the clock, the byte order of the host, and the contents of
  uninitialised memory.

  \<^bold>\<open>Theories.\<close>
  \<^item> \<open>Click_Prelude\<close>: machine integers, checked buffer access, byte orders, loops over index ranges.
  \<^item> \<open>Click_Checksum\<close>: storing and checking Internet checksums.
  \<^item> \<open>DHCP_Leases\<close> (\<open>leasetable.cc\<close>, \<open>leasepool.cc\<close>, \<open>leasehash.cc\<close>): leases, the table with its maps
    by address and by hardware address, the two allocators and their virtual interface. Addresses of
    the pool are conserved, a leased address belongs to one client, and allocation refuses a
    client exactly when no address is free, up to the address 0.0.0.0, which the pool cannot lease.
  \<^item> \<open>DHCP_Options\<close> (\<open>dhcp_common.hh\<close>, \<open>dhcpoptionutil.cc\<close>): message layout, option reader, header
    builder. The reader refines the abstract option list, and its out-of-bounds reads are characterised.
  \<^item> \<open>DHCP_Server\<close> (\<open>checkdhcpmsg.cc\<close>, \<open>dhcpclassifier.cc\<close>, \<open>dhcpserveroffer.cc\<close>, \<open>dhcpserverack.cc\<close>,
    \<open>dhcpserverrelease.cc\<close>): the packet handlers. Replies carry the leases of the table and can be read back.
  \<^item> \<open>DHCP_Client\<close> (\<open>dhcpclient.cc\<close>): states, timers, offers, messages. Timers never touch a
    missing offer while the client's invariant holds; the chosen offer is optimal.
  \<^item> \<open>DHCP_Handshake\<close>: client and server composed: discovery, offer, request and acknowledgement bind
    a client that holds no offers to the server's lease; an offer of an earlier transaction leads nowhere.
  \<^item> \<open>PPP_Control\<close>, \<open>PPP_Options\<close> (\<open>pppcontrolprotocol.cc\<close>, \<open>lcp.cc\<close>, \<open>ipcp.cc\<close>): the automaton over
    a virtual interface, and its two instances. Assertions never fail, a silent peer is given up, a
    willing peer is accepted, and the answers to option lists are characterised.
  \<^item> \<open>SNMP_BER\<close> (\<open>snmpber.cc\<close>): the encoder. Integers, identifiers and sequences decode to what was
    encoded.
  \<^item> \<open>SNMP_OidTree\<close> (\<open>snmpoidtree.cc\<close>): the pointer tree refines a finite map; prefix search finds the
    longest known prefix.
  \<^item> \<open>Roofnet_Frag\<close>, \<open>Roofnet_FragAck\<close> (\<open>roofnet/frag\<close>): fragmentation and reassembly in any order are a
    round trip; acknowledgements clear exactly what was received; the window sort equals the
    library's sort.
  \<^item> \<open>Roofnet_SR\<close> (\<open>roofnet/sr\<close>): source routing. A packet crosses any route of up to 255 hops, node by
    node, and is delivered unchanged; accepted frames never make the forwarder leave the frame.
  \<^item> \<open>Roofnet_Query\<close> (\<open>srquerier.cc\<close>, \<open>srqueryforwarder.cc\<close>, \<open>srqueryresponder.cc\<close>, \<open>metricflood.cc\<close>): route
    discovery. A query is answered along the whole route, a node floods a query at most once, queries for a
    destination are more than five seconds apart, and a flooded packet loses the start of its payload.
  \<^item> \<open>BP_Queues\<close> (\<open>bpdata.cc\<close>, \<open>bpstat.cc\<close>, \<open>dataqueue.hh\<close>, \<open>dataqueues.cc\<close>): backpressure routing. Neighbours learn the
    backlogs and distances of a node, packets go to the best neighbour downhill, the packets of a flow keep their order
    within the capacity of its queue, and the metric wraps at \<open>2 ^ 32\<close>.
  \<^item> \<open>Security_TRW\<close> (\<open>security\<close>): the cipher is a permutation, every address has its own record, aging
    ends, counts stay in bounds, and a scanner is blocked after the configured number of failures.
  \<^item> \<open>Unibo_QoS\<close> (\<open>unibo_qos/package\<close>): the moving average is the average of the last packets, and the
    decision of the RTP classifier is characterised by the history of the flow.

  \<^item> \<open>Mcast_PIM\<close> (\<open>pimforwardingtable.cc\<close>, \<open>pimcontrol.cc\<close>, \<open>fixpimsource.cc\<close>, \<open>mcastetherencap.cc\<close>): the channels
    that other routers joined, PIM messages, the checksum loops (equal to RFC 1071's sum) and the multicast
    Ethernet addresses.
  \<^item> \<open>Mcast_Table\<close> (\<open>ipmulticasttable.cc\<close>): groups, receivers and their filters. Every operation refines an
    operation on a map of filters, the table stays well-formed, a packet reaches exactly the members of its group, and
    the iterator fault of \<open>delsource\<close> is characterised.
  \<^item> \<open>Mcast_IGMP\<close> (\<open>igmp.cc\<close>, \<open>pim.cc\<close>): the protocol handlers on a router. Membership follows the history of
    reports, group records refine their specification, and a subscription at one router makes the next one forward
    the channel, unless it has another source of the same group there.

  \<^item> \<open>IIAS_GRE\<close> (\<open>greencap.cc\<close>, \<open>checkgreheader.cc\<close>, \<open>stripgreheader.cc\<close>, \<open>pppencap.cc\<close>): a tunnel gives the
    payloads back under every configuration and any loss; replayed packets are dropped.

  \<^item> \<open>DNS_Message\<close> (\<open>dnsmessage.cc\<close>, and the reverse names of \<open>dnsalg.cc\<close>): replies that are packed are read back, names
    end when pointers point backwards, and the overrun of the name buffer and the gap in the arrays of a cut reply
    are characterised.

  \<^bold>\<open>Interfaces.\<close> What one component relies on in another is a locale, interpreted on the model's own
  definitions: the lease allocators behind the server elements, the derived protocols behind the
  PPP automaton, the windows of fragment identifiers, the bounded store that the identifier tree is, and the membership
  table behind the group management protocol.

  \<^bold>\<open>Bounds.\<close> The identifier tree is a map as long as its nodes, one for each non-empty prefix of an identifier, fit in the first
  group of 256; after that the code writes through an uninitialised pointer. Routes have at most 255 hops and payloads at most 65535
  bytes, the widths of the header fields. Fragmented packets have at most 256 fragments, the width of
  the fragment number. DNS names have at most
  127 bytes, the size of their buffers. The averages are exact until the 32-bit sum of the last 15 lengths overflows.

  \<^bold>\<open>Not modelled.\<close> Argument parsing, read handlers and debug output of the modelled elements; allocation
  failures. The forwarder, queriers and multicast queues of \<open>bp\<close>, the translators of \<open>ip6_natpt\<close>, \<open>models\<close>, \<open>multicast6\<close>, \<open>netflow\<close>, \<open>others\<close>, the PPTP server,
  the link metrics of \<open>roofnet\<close> and the SNMP agents are not modelled yet.
\<close>

end
